(* ===== verification/Prelude.thy ===== *)
theory Prelude imports Complex_Main "HOL-Library.Word" "HOL-Library.Monad_Syntax" begin

section \<open>Prelude: C values, checked accesses, counted loops\<close>

text \<open>
  What every component shares.  A C computation that may reach undefined behaviour (a signed
  overflow, an index outside its array, a shift by a negative or too large amount) has an
  \<open>option\<close> result: \<open>None\<close> is undefined behaviour, \<open>Some\<close> is the value.  So a theorem of the
  form \<open>\<exists>r. f x = Some r\<close> says that the code is free of undefined behaviour on \<open>x\<close>.
  \<open>int\<close> stands for C's \<open>int\<close> with every addition and subtraction checked against its 32-bit
  range; \<open>u32\<close> and \<open>u64\<close> are C's unsigned types, whose arithmetic wraps.
\<close>

unbundle bit_operations_syntax

named_theorems ub_simps \<open>unfolding of the checked C operations\<close>
named_theorems ub_intros \<open>introduction rules: the checked operation is defined\<close>

type_synonym u32 = "32 word"
type_synonym u64 = "64 word"

subsection \<open>Signed integers\<close>

definition in_int :: "int \<Rightarrow> bool" where
  "in_int x \<longleftrightarrow> - 2147483648 \<le> x \<and> x \<le> 2147483647"

definition c_int :: "int \<Rightarrow> int option" where
  "c_int x = (if in_int x then Some x else None)"

definition c_add :: "int \<Rightarrow> int \<Rightarrow> int option" where
  "c_add a b = c_int (a + b)"

definition c_sub :: "int \<Rightarrow> int \<Rightarrow> int option" where
  "c_sub a b = c_int (a - b)"

lemma c_int_Some [simp]: "c_int x = Some y \<longleftrightarrow> in_int x \<and> y = x"
  by (auto simp: c_int_def)

lemma c_add_Some [simp]: "c_add a b = Some y \<longleftrightarrow> in_int (a + b) \<and> y = a + b"
  by (simp add: c_add_def)

lemma c_sub_Some [simp]: "c_sub a b = Some y \<longleftrightarrow> in_int (a - b) \<and> y = a - b"
  by (simp add: c_sub_def)

lemma c_addI [ub_intros]: "in_int (a + b) \<Longrightarrow> c_add a b = Some (a + b)"
  by simp

lemma c_subI [ub_intros]: "in_int (a - b) \<Longrightarrow> c_sub a b = Some (a - b)"
  by simp

lemma c_add_bind: "c_add a b \<bind> f = (if in_int (a + b) then f (a + b) else None)"
  by (simp add: c_add_def c_int_def)

lemma c_sub_bind: "c_sub a b \<bind> f = (if in_int (a - b) then f (a - b) else None)"
  by (simp add: c_sub_def c_int_def)

lemma if_nested3:
  "(if a then if b then if c then x else n else n else n) = (if a \<and> b \<and> c then x else n)"
  by simp

lemma in_int_small: "\<bar>x\<bar> \<le> 2147483647 \<Longrightarrow> in_int x"
  by (auto simp: in_int_def)

declare c_add_def [ub_simps] c_sub_def [ub_simps] c_int_def [ub_simps]

subsection \<open>Arrays\<close>

definition arr_get :: "'a list \<Rightarrow> int \<Rightarrow> 'a option" where
  "arr_get xs i = (if 0 \<le> i \<and> i < int (length xs) then Some (xs ! nat i) else None)"

definition arr_set :: "'a list \<Rightarrow> int \<Rightarrow> 'a \<Rightarrow> 'a list option" where
  "arr_set xs i v = (if 0 \<le> i \<and> i < int (length xs) then Some (xs[nat i := v]) else None)"

declare arr_get_def [ub_simps] arr_set_def [ub_simps]

lemma arr_get_Some: "arr_get xs i = Some v \<longleftrightarrow> 0 \<le> i \<and> i < int (length xs) \<and> v = xs ! nat i"
  by (auto simp: arr_get_def)

lemma arr_set_Some:
  "arr_set xs i v = Some ys \<longleftrightarrow> 0 \<le> i \<and> i < int (length xs) \<and> ys = xs[nat i := v]"
  by (auto simp: arr_set_def)

lemma arr_get_int [simp]: "n < length xs \<Longrightarrow> arr_get xs (int n) = Some (xs ! n)"
  by (simp add: arr_get_def)

lemma arr_set_int [simp]: "n < length xs \<Longrightarrow> arr_set xs (int n) v = Some (xs[n := v])"
  by (simp add: arr_set_def)

lemma arr_set_length: "arr_set xs i v = Some ys \<Longrightarrow> length ys = length xs"
  by (auto simp: arr_set_Some)

text \<open>Writing the next slot of an array extends the prefix that has been written.\<close>

lemma take_Suc_update:
  "n < length xs \<Longrightarrow> take (Suc n) (xs[n := v]) = take n xs @ [v]"
  by (simp add: take_Suc_conv_app_nth)

subsection \<open>Bit masks of cores\<close>

text \<open>\<open>1ULL << c\<close>: undefined when \<open>c\<close> is negative or at least 64.\<close>

definition shl1 :: "int \<Rightarrow> u64 option" where
  "shl1 c = (if 0 \<le> c \<and> c < 64 then Some (push_bit (nat c) 1) else None)"

declare shl1_def [ub_simps]

definition core_ok :: "int \<Rightarrow> bool" where
  "core_ok c \<longleftrightarrow> 0 \<le> c \<and> c < 64"

lemma shl1_ok [simp]: "core_ok c \<Longrightarrow> shl1 c = Some (push_bit (nat c) 1)"
  by (simp add: shl1_def core_ok_def)

lemma bit_pow2_u64: "bit ((2 :: u64) ^ n) k \<longleftrightarrow> k = n \<and> n < 64"
  by (auto simp: bit_exp_iff)

lemma and_shl1_nonzero: "(m :: u64) AND push_bit n 1 \<noteq> 0 \<longleftrightarrow> n < 64 \<and> bit m n"
proof -
  have zero: "w = 0 \<longleftrightarrow> (\<forall>k. \<not> bit w k)" for w :: u64
    by (auto intro!: bit_word_eqI)
  have "(m AND 2 ^ n \<noteq> 0) = (\<exists>k. bit (m AND 2 ^ n) k)"
    by (subst zero) simp
  also have "\<dots> = (n < 64 \<and> bit m n)"
    by (auto simp: bit_and_iff bit_pow2_u64)
  finally show ?thesis by simp
qed

lemma bit_or_shl1: "bit ((m :: u64) OR push_bit n 1) k \<longleftrightarrow> bit m k \<or> (k = n \<and> n < 64)"
  by (auto simp: bit_or_iff bit_pow2_u64)

lemma bit_clear_shl1:
  "bit ((m :: u64) AND NOT (push_bit n 1)) k \<longleftrightarrow> bit m k \<and> k \<noteq> n"
  by (auto simp: bit_and_iff bit_not_iff bit_pow2_u64 dest: bit_imp_le_length)

subsection \<open>Counted loops\<close>

text \<open>
  \<open>for (i = a; i < a + n; i++) s = body(i, s)\<close>, stopping at the first undefined behaviour.
\<close>

primrec for_loop :: "nat \<Rightarrow> nat \<Rightarrow> (nat \<Rightarrow> 's \<Rightarrow> 's option) \<Rightarrow> 's \<Rightarrow> 's option" where
  "for_loop a 0 body s = Some s"
| "for_loop a (Suc n) body s = body a s \<bind> for_loop (Suc a) n body"

text \<open>The invariant rule: an indexed invariant that the body carries from \<open>i\<close> to \<open>i + 1\<close>.\<close>

lemma for_loop_inv:
  assumes "for_loop a n body s = Some t" and "P a s"
    and step: "\<And>i x y. a \<le> i \<Longrightarrow> i < a + n \<Longrightarrow> P i x \<Longrightarrow> body i x = Some y \<Longrightarrow> P (Suc i) y"
  shows "P (a + n) t"
  using assms
proof (induction n arbitrary: a s)
  case 0
  then show ?case by simp
next
  case (Suc n)
  then obtain u where u: "body a s = Some u" and rest: "for_loop (Suc a) n body u = Some t"
    by (auto simp: bind_eq_Some_conv)
  have "P (Suc a) u" using Suc.prems(2,3) u by simp
  with rest have "P (Suc a + n) t"
    by (rule Suc.IH) (use Suc.prems(3) in auto)
  then show ?case by simp
qed

text \<open>Total correctness: the body is defined under the invariant, so the loop is too.\<close>

lemma for_loop_total:
  assumes "P a s"
    and step: "\<And>i x. a \<le> i \<Longrightarrow> i < a + n \<Longrightarrow> P i x \<Longrightarrow> \<exists>y. body i x = Some y \<and> P (Suc i) y"
  shows "\<exists>t. for_loop a n body s = Some t \<and> P (a + n) t"
  using assms
proof (induction n arbitrary: a s)
  case 0
  then show ?case by simp
next
  case (Suc n)
  from Suc.prems(2)[of a s] Suc.prems(1) obtain u where u: "body a s = Some u" "P (Suc a) u"
    by auto
  have "\<exists>t. for_loop (Suc a) n body u = Some t \<and> P (Suc a + n) t"
    by (rule Suc.IH[OF u(2)]) (use Suc.prems(2) in auto)
  then show ?case using u by auto
qed

lemma for_loop_snoc:
  "for_loop a (Suc n) body s = for_loop a n body s \<bind> body (a + n)"
proof (induction n arbitrary: a s)
  case 0
  then show ?case by (cases "body a s") auto
next
  case (Suc n)
  have "for_loop a (Suc (Suc n)) body s = body a s \<bind> for_loop (Suc a) (Suc n) body"
    by simp
  also have "\<dots> = body a s \<bind> (\<lambda>u. for_loop (Suc a) n body u \<bind> body (Suc a + n))"
    by (cases "body a s") (simp_all only: Suc.IH bind.simps)
  finally show ?case by simp
qed

text \<open>A loop whose body folds a total function over the index.\<close>

lemma for_loop_fold:
  assumes "\<And>i x. a \<le> i \<Longrightarrow> i < a + n \<Longrightarrow> body i x = Some (f i x)"
  shows "for_loop a n body s = Some (fold f [a..<a + n] s)"
  using assms
proof (induction n arbitrary: a s)
  case 0
  then show ?case by simp
next
  case (Suc n)
  have "for_loop (Suc a) n body (f a s) = Some (fold f [Suc a..<Suc a + n] (f a s))"
    by (rule Suc.IH) (use Suc.prems in auto)
  moreover have "[a..<a + Suc n] = a # [Suc a..<Suc a + n]" by (simp add: upt_rec)
  ultimately show ?case using Suc.prems[of a s] by (simp del: upt_Suc)
qed

text \<open>The same operation for each element of a list, in order.\<close>

primrec run_all :: "('e \<Rightarrow> 's \<Rightarrow> 's option) \<Rightarrow> 'e list \<Rightarrow> 's \<Rightarrow> 's option" where
  "run_all f [] s = Some s"
| "run_all f (x # xs) s = f x s \<bind> run_all f xs"

lemma run_all_append: "run_all f (xs @ ys) s = run_all f xs s \<bind> run_all f ys"
proof (induction xs arbitrary: s)
  case (Cons x xs)
  then show ?case by (cases "f x s") simp_all
qed simp

end
