(* ===== verification/Floats.thy ===== *)
theory Floats imports Prelude "HOL-Library.Log_Nat" begin

section \<open>IEEE 754 binary32 and binary64 arithmetic\<close>

text \<open>
  The values of C's \<open>float\<close> and \<open>double\<close> and the operations the balancer uses on them:
  every operation computes the exact rational result and rounds it to nearest, ties to even,
  in the format of the result, gradual underflow and overflow to infinity included.  The two
  zeros are one value: no modelled computation divides by a zero whose sign could differ.
  Rounding is executable; its laws (monotone, zero preserved, representable values fixed) are
  the \<open>rounding\<close> locale, from which the facts about smoothed averages follow for every format.
\<close>

datatype fp = Fin rat | PInf | NInf | NaN

subsection \<open>Rounding a rational to a format\<close>

definition ilog2 :: "rat \<Rightarrow> int" where
  "ilog2 x = (let (n, d) = quotient_of x; k = bitlen n - bitlen d
              in if 2 powi k \<le> x then k else k - 1)"

definition round_half_even :: "rat \<Rightarrow> int" where
  "round_half_even x =
     (let f = \<lfloor>x\<rfloor>; r = x - of_int f
      in if r < 1 / 2 then f else if 1 / 2 < r then f + 1 else if even f then f else f + 1)"

text \<open>\<open>p\<close> bits of precision, least normal exponent \<open>emin\<close>.\<close>

definition quantum :: "nat \<Rightarrow> int \<Rightarrow> rat \<Rightarrow> int" where
  "quantum p emin x = max (ilog2 \<bar>x\<bar>) emin - (int p - 1)"

definition rnd :: "nat \<Rightarrow> int \<Rightarrow> rat \<Rightarrow> rat" where
  "rnd p emin x =
     (if x = 0 then 0
      else let q = quantum p emin x in of_int (round_half_even (x / 2 powi q)) * 2 powi q)"

definition fp_round :: "nat \<Rightarrow> int \<Rightarrow> int \<Rightarrow> rat \<Rightarrow> fp" where
  "fp_round p emin emax x =
     (let y = rnd p emin x
      in if y \<noteq> 0 \<and> emax < ilog2 \<bar>y\<bar> then (if 0 < y then PInf else NInf) else Fin y)"

definition r64 :: "rat \<Rightarrow> fp" where
  "r64 = fp_round 53 (- 1022) 1023"

definition r32 :: "rat \<Rightarrow> fp" where
  "r32 = fp_round 24 (- 126) 127"

subsection \<open>Arithmetic, comparison, conversion\<close>

fun fp_neg :: "fp \<Rightarrow> fp" where
  "fp_neg (Fin a) = Fin (- a)"
| "fp_neg PInf = NInf"
| "fp_neg NInf = PInf"
| "fp_neg NaN = NaN"

fun fp_add :: "(rat \<Rightarrow> fp) \<Rightarrow> fp \<Rightarrow> fp \<Rightarrow> fp" where
  "fp_add r (Fin a) (Fin b) = r (a + b)"
| "fp_add r NaN _ = NaN"
| "fp_add r _ NaN = NaN"
| "fp_add r PInf NInf = NaN"
| "fp_add r NInf PInf = NaN"
| "fp_add r PInf _ = PInf"
| "fp_add r _ PInf = PInf"
| "fp_add r NInf _ = NInf"
| "fp_add r _ NInf = NInf"

definition fp_signed_inf :: "bool \<Rightarrow> fp" where
  "fp_signed_inf neg = (if neg then NInf else PInf)"

fun fp_mul :: "(rat \<Rightarrow> fp) \<Rightarrow> fp \<Rightarrow> fp \<Rightarrow> fp" where
  "fp_mul r (Fin a) (Fin b) = r (a * b)"
| "fp_mul r NaN _ = NaN"
| "fp_mul r _ NaN = NaN"
| "fp_mul r (Fin a) PInf = (if a = 0 then NaN else fp_signed_inf (a < 0))"
| "fp_mul r (Fin a) NInf = (if a = 0 then NaN else fp_signed_inf (0 < a))"
| "fp_mul r PInf (Fin a) = (if a = 0 then NaN else fp_signed_inf (a < 0))"
| "fp_mul r NInf (Fin a) = (if a = 0 then NaN else fp_signed_inf (0 < a))"
| "fp_mul r PInf PInf = PInf"
| "fp_mul r NInf NInf = PInf"
| "fp_mul r PInf NInf = NInf"
| "fp_mul r NInf PInf = NInf"

fun fp_div :: "(rat \<Rightarrow> fp) \<Rightarrow> fp \<Rightarrow> fp \<Rightarrow> fp" where
  "fp_div r (Fin a) (Fin b) =
     (if b \<noteq> 0 then r (a / b) else if a = 0 then NaN else fp_signed_inf (a < 0))"
| "fp_div r NaN _ = NaN"
| "fp_div r _ NaN = NaN"
| "fp_div r (Fin a) _ = Fin 0"
| "fp_div r PInf (Fin b) = fp_signed_inf (b < 0)"
| "fp_div r NInf (Fin b) = fp_signed_inf (0 \<le> b)"
| "fp_div r _ _ = NaN"

text \<open>\<open>a > b\<close>, false as soon as one side is not a number.\<close>

fun fp_gt :: "fp \<Rightarrow> fp \<Rightarrow> bool" where
  "fp_gt (Fin a) (Fin b) = (b < a)"
| "fp_gt NaN _ = False"
| "fp_gt _ NaN = False"
| "fp_gt PInf b = (b \<noteq> PInf)"
| "fp_gt a NInf = (a \<noteq> NInf)"
| "fp_gt _ _ = False"

definition fp_lt :: "fp \<Rightarrow> fp \<Rightarrow> bool" where
  "fp_lt a b = fp_gt b a"

text \<open>Conversions: an integer to a format, \<open>double\<close> to \<open>float\<close>, \<open>double\<close> to \<open>int\<close> (undefined when
  the truncated value does not fit).\<close>

definition fp_of_int :: "(rat \<Rightarrow> fp) \<Rightarrow> int \<Rightarrow> fp" where
  "fp_of_int r n = r (of_int n)"

fun fp_convert :: "(rat \<Rightarrow> fp) \<Rightarrow> fp \<Rightarrow> fp" where
  "fp_convert r (Fin a) = r a"
| "fp_convert r a = a"

definition rat_trunc :: "rat \<Rightarrow> int" where
  "rat_trunc x = (if 0 \<le> x then \<lfloor>x\<rfloor> else \<lceil>x\<rceil>)"

fun fp_to_int :: "fp \<Rightarrow> int option" where
  "fp_to_int (Fin a) = c_int (rat_trunc a)"
| "fp_to_int _ = None"

subsection \<open>Laws of the rounding\<close>

lemma powi2_pos [simp]: "0 < (2 :: rat) powi k"
  by simp

lemma powi2_mono: "k \<le> l \<Longrightarrow> (2 :: rat) powi k \<le> 2 powi l"
  by (rule power_int_increasing) simp_all

lemma powi2_less_iff: "(2 :: rat) powi k < 2 powi l \<longleftrightarrow> k < l"
  by (meson leD le_less_linear powi2_mono power_int_strict_increasing one_less_numeral_iff semiring_norm(76))

lemma powi2_div: "(2 :: rat) powi k / 2 powi l = 2 powi (k - l)"
  by (simp add: power_int_diff)

lemma powi2_nonneg_int: "0 \<le> k \<Longrightarrow> (2 :: rat) powi k = of_int (2 ^ nat k)"
  by (simp add: power_int_def)

lemma powi2_rescale:
  assumes "q \<le> e"
  shows "of_int m * (2 :: rat) powi e = of_int (m * 2 ^ nat (e - q)) * 2 powi q"
proof -
  have "(2 :: rat) powi e = 2 powi (e - q) * 2 powi q"
    by (simp flip: power_int_add)
  then show ?thesis using assms by (simp add: powi2_nonneg_int)
qed

lemma bitlen_rat:
  assumes "0 < n"
  shows "2 powi (bitlen n - 1) \<le> (of_int n :: rat)" and "(of_int n :: rat) < 2 powi (bitlen n)"
proof -
  have b: "2 ^ nat (bitlen n - 1) \<le> n" "n < 2 ^ nat (bitlen n)"
    using bitlen_bounds[OF assms] by auto
  have "(of_int (2 ^ nat (bitlen n - 1)) :: rat) \<le> of_int n"
    using b(1) by (simp only: of_int_le_iff)
  then show "2 powi (bitlen n - 1) \<le> (of_int n :: rat)"
    using bitlen_eq_zero_iff[of n] bitlen_nonneg[of n] assms by (simp add: powi2_nonneg_int)
  have "(of_int n :: rat) < of_int (2 ^ nat (bitlen n))"
    using b(2) by (simp only: of_int_less_iff)
  then show "(of_int n :: rat) < 2 powi (bitlen n)"
    by (simp add: powi2_nonneg_int bitlen_nonneg)
qed

lemma ilog2_bounds:
  assumes "0 < x"
  shows "2 powi ilog2 x \<le> x" and "x < 2 powi (ilog2 x + 1)"
proof -
  obtain n d where nd: "quotient_of x = (n, d)" by (cases "quotient_of x")
  then have d: "0 < d" and x: "x = of_int n / of_int d"
    by (auto simp: quotient_of_denom_pos quotient_of_div)
  with assms have n: "0 < n" by (simp add: zero_less_divide_iff)
  define k where "k = bitlen n - bitlen d"
  have "x * of_int d = of_int n" using x d by simp
  have hi: "x < 2 powi (k + 1)"
  proof -
    have "x < 2 powi bitlen n / 2 powi (bitlen d - 1)"
      unfolding x using bitlen_rat[OF n] bitlen_rat[OF d] n d
      by (intro frac_less) (simp_all add: less_imp_le)
    then show ?thesis by (simp add: powi2_div k_def algebra_simps)
  qed
  have lo: "2 powi (k - 1) \<le> x"
  proof -
    have "2 powi (bitlen n - 1) / 2 powi bitlen d \<le> x"
      unfolding x using bitlen_rat[OF n] bitlen_rat[OF d] n d
      by (intro frac_le) (simp_all add: less_imp_le)
    then show ?thesis by (simp add: powi2_div k_def algebra_simps)
  qed
  show "2 powi ilog2 x \<le> x" using lo by (simp add: ilog2_def nd k_def[symmetric])
  show "x < 2 powi (ilog2 x + 1)" using hi by (simp add: ilog2_def nd k_def[symmetric])
qed

lemma ilog2_mono:
  assumes "0 < x" "x \<le> y"
  shows "ilog2 x \<le> ilog2 y"
proof -
  have "2 powi ilog2 x < (2 :: rat) powi (ilog2 y + 1)"
    using ilog2_bounds(1)[OF assms(1)] ilog2_bounds(2)[of y] assms by linarith
  then show ?thesis by (simp add: powi2_less_iff)
qed

lemma round_half_even_ge: "of_int n \<le> x \<Longrightarrow> n \<le> round_half_even x"
  unfolding round_half_even_def Let_def by (auto simp flip: le_floor_iff)

lemma round_half_even_le: "x \<le> of_int n \<Longrightarrow> round_half_even x \<le> n"
  unfolding round_half_even_def Let_def by (auto split: if_splits) linarith+

lemma round_half_even_int [simp]: "round_half_even (of_int n) = n"
  using round_half_even_ge[of n "of_int n"] round_half_even_le[of "of_int n" n] by simp

lemma round_half_even_mono: "x \<le> y \<Longrightarrow> round_half_even x \<le> round_half_even y"
proof -
  assume xy: "x \<le> y"
  show ?thesis
  proof (cases "\<lfloor>x\<rfloor> = \<lfloor>y\<rfloor>")
    case True
    then show ?thesis using xy unfolding round_half_even_def Let_def by auto
  next
    case False
    then have "\<lfloor>x\<rfloor> + 1 \<le> \<lfloor>y\<rfloor>" using floor_mono[OF xy] by simp
    moreover have "round_half_even x \<le> \<lfloor>x\<rfloor> + 1" and "\<lfloor>y\<rfloor> \<le> round_half_even y"
      unfolding round_half_even_def Let_def by auto
    ultimately show ?thesis by linarith
  qed
qed

lemma round_half_even_minus: "round_half_even (- x) = - round_half_even x"
proof (cases "x = of_int \<lfloor>x\<rfloor>")
  case True
  then show ?thesis by (metis round_half_even_int of_int_minus)
next
  case False
  then have f: "\<lfloor>- x\<rfloor> = - \<lfloor>x\<rfloor> - 1"
    using floor_correct[of x] False by (intro floor_unique) (auto simp: order_less_le)
  show ?thesis unfolding round_half_even_def Let_def f by (auto simp: field_simps)
qed

lemma quantum_mono: "0 < x \<Longrightarrow> x \<le> y \<Longrightarrow> quantum p emin x \<le> quantum p emin y"
  using ilog2_mono[of x y] by (auto simp: quantum_def)

lemma quantum_minus [simp]: "quantum p emin (- x) = quantum p emin x"
  by (simp add: quantum_def)

lemma rnd_0 [simp]: "rnd p emin 0 = 0"
  by (simp add: rnd_def)

lemma rnd_minus: "rnd p emin (- x) = - rnd p emin x"
  by (simp add: rnd_def Let_def round_half_even_minus)

text \<open>Rounding stays on the same side of every multiple of a power of two not below the quantum.\<close>

lemma rnd_le_multiple:
  assumes "0 < x" "x \<le> of_int m * 2 powi e" "quantum p emin x \<le> e"
  shows "rnd p emin x \<le> of_int m * 2 powi e"
proof -
  let ?q = "quantum p emin x"
  note M = powi2_rescale[OF assms(3), of m]
  have "x / 2 powi ?q \<le> of_int (m * 2 ^ nat (e - ?q))"
    using assms(2) unfolding M by (simp add: pos_divide_le_eq)
  then have "round_half_even (x / 2 powi ?q) \<le> m * 2 ^ nat (e - ?q)"
    by (rule round_half_even_le)
  then have "of_int (round_half_even (x / 2 powi ?q)) \<le> (of_int (m * 2 ^ nat (e - ?q)) :: rat)"
    by (simp only: of_int_le_iff)
  then show ?thesis using assms(1) unfolding M
    by (simp add: rnd_def Let_def mult_right_mono)
qed

lemma rnd_ge_multiple:
  assumes "0 < x" "of_int m * 2 powi e \<le> x" "quantum p emin x \<le> e"
  shows "of_int m * 2 powi e \<le> rnd p emin x"
proof -
  let ?q = "quantum p emin x"
  note M = powi2_rescale[OF assms(3), of m]
  have "of_int (m * 2 ^ nat (e - ?q)) \<le> x / 2 powi ?q"
    using assms(2) unfolding M by (simp add: pos_le_divide_eq)
  then have "m * 2 ^ nat (e - ?q) \<le> round_half_even (x / 2 powi ?q)"
    by (rule round_half_even_ge)
  then have "(of_int (m * 2 ^ nat (e - ?q)) :: rat) \<le> of_int (round_half_even (x / 2 powi ?q))"
    by (simp only: of_int_le_iff)
  then show ?thesis using assms(1) unfolding M
    by (simp add: rnd_def Let_def mult_right_mono)
qed

lemma rnd_nonneg: "0 \<le> x \<Longrightarrow> 0 \<le> rnd p emin x"
  using rnd_ge_multiple[of x 0 "quantum p emin x" p emin] by (cases "x = 0") auto

lemma rnd_mono_pos:
  assumes p: "0 < p" and x: "0 < x" and xy: "x \<le> y"
  shows "rnd p emin x \<le> rnd p emin y"
proof (cases "quantum p emin x = quantum p emin y")
  case True
  have "x / 2 powi quantum p emin x \<le> y / 2 powi quantum p emin x"
    using xy by (simp add: divide_right_mono)
  then have "round_half_even (x / 2 powi quantum p emin x)
      \<le> round_half_even (y / 2 powi quantum p emin x)"
    by (rule round_half_even_mono)
  then show ?thesis using x xy True by (simp add: rnd_def Let_def mult_right_mono)
next
  case False
  then have lt: "quantum p emin x < quantum p emin y"
    using quantum_mono[OF x xy, of p emin] by simp
  then have e: "ilog2 x + 1 \<le> ilog2 y" "quantum p emin y \<le> ilog2 y"
    "quantum p emin x \<le> ilog2 y"
    using p x xy by (auto simp: quantum_def)
  have "x \<le> 2 powi (ilog2 y)"
    using ilog2_bounds(2)[OF x] powi2_mono[OF e(1)] by linarith
  then have "rnd p emin x \<le> of_int 1 * 2 powi (ilog2 y)"
    by (intro rnd_le_multiple x e) simp
  also have "\<dots> \<le> rnd p emin y"
    using ilog2_bounds(1)[of y] x xy by (intro rnd_ge_multiple e) auto
  finally show ?thesis .
qed

lemma rnd_mono:
  assumes p: "0 < p" and xy: "x \<le> y"
  shows "rnd p emin x \<le> rnd p emin y"
proof -
  consider "0 < x" | "y < 0" | "x \<le> 0" "0 \<le> y" by linarith
  then show ?thesis
  proof cases
    case 1
    then show ?thesis by (rule rnd_mono_pos[OF p _ xy])
  next
    case 2
    then have "rnd p emin (- y) \<le> rnd p emin (- x)"
      using xy by (intro rnd_mono_pos p) auto
    then show ?thesis by (simp add: rnd_minus)
  next
    case 3
    then have "0 \<le> rnd p emin (- x)" "0 \<le> rnd p emin y"
      by (auto intro: rnd_nonneg)
    then show ?thesis by (simp add: rnd_minus)
  qed
qed

text \<open>A value with at most \<open>p\<close> significant bits is not changed.\<close>

definition representable :: "nat \<Rightarrow> int \<Rightarrow> rat \<Rightarrow> bool" where
  "representable p emin x \<longleftrightarrow>
     (\<exists>m e. x = of_int m * 2 powi e \<and> \<bar>m\<bar> < 2 ^ p \<and> emin - (int p - 1) \<le> e)"

lemma representable_minus: "representable p emin (- x) = representable p emin x"
proof -
  have "representable p emin (- y)" if r: "representable p emin y" for y
  proof -
    obtain m e where "y = of_int m * 2 powi e" "\<bar>m\<bar> < 2 ^ p" "emin - (int p - 1) \<le> e"
      using r by (auto simp: representable_def)
    then show ?thesis unfolding representable_def
      by (intro exI[of _ "- m"] exI[of _ e]) auto
  qed
  from this[of x] this[of "- x"] show ?thesis by auto
qed

lemma ilog2_less: "0 < x \<Longrightarrow> x < 2 powi k \<Longrightarrow> ilog2 x < k"
  using ilog2_bounds(1)[of x] by (metis order_le_less_trans powi2_less_iff)

lemma rnd_representable:
  assumes "representable p emin x"
  shows "rnd p emin x = x"
proof -
  have pos: "rnd p emin y = y" if y: "0 < y" and r: "representable p emin y" for y
  proof -
    obtain m e where m: "y = of_int m * 2 powi e" "\<bar>m\<bar> < 2 ^ p" "emin - (int p - 1) \<le> e"
      using r by (auto simp: representable_def)
    have "(of_int m :: rat) < of_int (2 ^ p)"
      using m(2) by (simp only: of_int_less_iff)
    then have "y < 2 powi (int p) * 2 powi e"
      using m(1) by (simp add: mult_strict_right_mono)
    then have "ilog2 y < int p + e"
      using y by (intro ilog2_less) (simp_all add: power_int_add)
    then have q: "quantum p emin y \<le> e" using m(3) y by (auto simp: quantum_def)
    show ?thesis
      using rnd_le_multiple[OF y _ q, of m] rnd_ge_multiple[OF y _ q, of m] m(1) by simp
  qed
  have "representable p emin (- x)" using assms by (simp add: representable_minus)
  then show ?thesis
    using pos[of x] pos[of "- x"] assms by (cases x "0 :: rat" rule: linorder_cases)
      (auto simp: rnd_minus)
qed

text \<open>Every result of the rounding is such a value.\<close>

lemma rnd_result:
  assumes p: "0 < p"
  shows "representable p emin (rnd p emin x)"
proof -
  have pos: "representable p emin (rnd p emin y)" if y: "0 < y" for y
  proof -
    define q where "q = quantum p emin y"
    define m where "m = round_half_even (y / 2 powi q)"
    have r: "rnd p emin y = of_int m * 2 powi q"
      using y by (simp add: rnd_def q_def m_def Let_def)
    have e: "emin - (int p - 1) \<le> q" "ilog2 y + 1 - q \<le> int p"
      using y by (auto simp: q_def quantum_def)
    have "0 \<le> m" unfolding m_def using y by (intro round_half_even_ge) simp
    have "y < 2 powi (int p + q)"
      using ilog2_bounds(2)[OF y] powi2_mono[of "ilog2 y + 1" "int p + q"] e(2) by linarith
    then have "y / 2 powi q \<le> of_int (2 ^ p)"
      by (simp add: pos_divide_le_eq power_int_add less_imp_le)
    then have "m \<le> 2 ^ p" unfolding m_def by (rule round_half_even_le)
    show ?thesis
    proof (cases "m = 2 ^ p")
      case False
      then have "\<bar>m\<bar> < 2 ^ p" using \<open>0 \<le> m\<close> \<open>m \<le> 2 ^ p\<close> by simp
      then show ?thesis unfolding representable_def r using e(1) by blast
    next
      case True
      have "(2 :: rat) ^ p = 2 ^ (p - 1) * 2"
        using p by (simp flip: power_Suc2)
      then have "rnd p emin y = of_int (2 ^ (p - 1)) * 2 powi (q + 1)"
        unfolding r True by (simp add: power_int_add)
      moreover have "\<bar>2 ^ (p - 1) :: int\<bar> < 2 ^ p"
        using p by (simp add: power_strict_increasing)
      ultimately show ?thesis
        unfolding representable_def using e(1) by (metis add.commute add_increasing zero_le_one)
    qed
  qed
  have zero: "representable p emin 0"
    unfolding representable_def by (intro exI[of _ 0] exI[of _ "emin - (int p - 1)"]) simp
  show ?thesis
    using pos[of x] pos[of "- x"] zero
    by (cases x "0 :: rat" rule: linorder_cases) (auto simp: rnd_minus representable_minus)
qed

subsection \<open>What clients of a rounding rely on\<close>

fun fp_nonneg :: "fp \<Rightarrow> bool" where
  "fp_nonneg (Fin a) = (0 \<le> a)"
| "fp_nonneg PInf = True"
| "fp_nonneg _ = False"

definition fp_le :: "fp \<Rightarrow> fp \<Rightarrow> bool" where
  "fp_le a b \<longleftrightarrow> a \<noteq> NaN \<and> b \<noteq> NaN \<and> \<not> fp_gt a b"

lemma fp_nonneg_not_NaN [simp]: "fp_nonneg a \<Longrightarrow> a \<noteq> NaN"
  by auto

lemma fp_gt_irrefl [simp]: "\<not> fp_gt a a"
  by (cases a) auto

lemma fp_le_nonneg: "fp_nonneg a \<Longrightarrow> fp_le a b \<Longrightarrow> fp_nonneg b"
  by (cases a; cases b) (auto simp: fp_le_def)

lemma fp_not_gt_iff: "a \<noteq> NaN \<Longrightarrow> b \<noteq> NaN \<Longrightarrow> \<not> fp_gt a b \<longleftrightarrow> fp_le a b"
  by (simp add: fp_le_def)

text \<open>
  The laws: zero is a fixed point and rounding is monotone, so signs survive; a value of the
  format is not changed.
\<close>

locale rounding =
  fixes rn :: "rat \<Rightarrow> fp"
    and exact :: "rat \<Rightarrow> bool"
  assumes rn_zero: "rn 0 = Fin 0"
    and rn_mono: "x \<le> y \<Longrightarrow> fp_le (rn x) (rn y)"
    and rn_exact: "exact x \<Longrightarrow> rn x = Fin x"
    and rn_result: "rn x = Fin y \<Longrightarrow> exact y"
begin

lemma rn_nonneg: "0 \<le> x \<Longrightarrow> fp_nonneg (rn x)"
  using rn_mono[of 0 x] fp_le_nonneg[of "Fin 0" "rn x"] by (simp add: rn_zero)

lemma of_int_nonneg: "0 \<le> n \<Longrightarrow> fp_nonneg (fp_of_int rn n)"
  by (simp add: fp_of_int_def rn_nonneg)

lemma convert_nonneg: "fp_nonneg a \<Longrightarrow> fp_nonneg (fp_convert rn a)"
  by (cases a) (auto simp: rn_nonneg)

lemma add_nonneg: "fp_nonneg a \<Longrightarrow> fp_nonneg b \<Longrightarrow> fp_nonneg (fp_add rn a b)"
  by (cases a; cases b) (auto simp: rn_nonneg)

lemma scale_nonneg: "0 < c \<Longrightarrow> fp_nonneg a \<Longrightarrow> fp_nonneg (fp_mul rn (Fin c) a)"
  by (cases a) (auto simp: rn_nonneg fp_signed_inf_def)

lemma smooth_nonneg:
  "0 < c \<Longrightarrow> 0 < d \<Longrightarrow> fp_nonneg a \<Longrightarrow> fp_nonneg b \<Longrightarrow>
   fp_nonneg (fp_add rn (fp_mul rn (Fin c) a) (fp_mul rn (Fin d) b))"
  by (intro add_nonneg scale_nonneg)

lemma div_nonneg: "fp_nonneg a \<Longrightarrow> 0 < b \<Longrightarrow> fp_nonneg (fp_div rn a (Fin b))"
  by (cases a) (auto simp: rn_nonneg fp_signed_inf_def)

lemma scale_mono: "0 < c \<Longrightarrow> a \<le> b \<Longrightarrow> fp_le (fp_mul rn (Fin c) (Fin a)) (fp_mul rn (Fin c) (Fin b))"
  by (simp add: rn_mono mult_left_mono)

lemma rn_bounded:
  assumes "0 \<le> x" "x \<le> y" "rn y = Fin z"
  obtains v where "rn x = Fin v" "0 \<le> v" "v \<le> z" "exact v"
  using rn_mono[OF assms(2)] rn_nonneg[OF assms(1)] assms(3) that rn_result[of x]
  by (cases "rn x") (auto simp: fp_le_def not_less)

text \<open>A smoothed average stays below the value it takes at the bounds of its two inputs.\<close>

lemma smooth_bounded:
  assumes c: "0 < c" "0 < d" and a: "0 \<le> a" "a \<le> a'" and b: "0 \<le> b" "b \<le> b'"
    and top: "rn (c * a') = Fin x" "rn (d * b') = Fin y" "rn (x + y) = Fin z"
  obtains v where
    "fp_add rn (fp_mul rn (Fin c) (Fin a)) (fp_mul rn (Fin d) (Fin b)) = Fin v"
    "0 \<le> v" "v \<le> z" "exact v"
proof -
  obtain u where u: "rn (c * a) = Fin u" "0 \<le> u" "u \<le> x"
    by (rule rn_bounded[of "c * a" "c * a'" x]) (use c a top in \<open>auto simp: mult_left_mono\<close>)
  obtain w where w: "rn (d * b) = Fin w" "0 \<le> w" "w \<le> y"
    by (rule rn_bounded[of "d * b" "d * b'" y]) (use c b top in \<open>auto simp: mult_left_mono\<close>)
  obtain v where "rn (u + w) = Fin v" "0 \<le> v" "v \<le> z" "exact v"
    by (rule rn_bounded[of "u + w" "x + y" z]) (use u w top in auto)
  with that u w show ?thesis by simp
qed

text \<open>With no new input, a representable average does not grow.\<close>

lemma decay:
  assumes "0 < c" "c \<le> 1" "0 \<le> a" "exact a"
  obtains v where
    "fp_add rn (fp_mul rn (Fin c) (Fin a)) (fp_mul rn (Fin d) (Fin 0)) = Fin v"
    "0 \<le> v" "v \<le> a" "exact v"
proof -
  obtain u where u: "rn (c * a) = Fin u" "0 \<le> u" "u \<le> a" "exact u"
    by (rule rn_bounded[of "c * a" a a])
      (use assms rn_exact in \<open>auto simp: mult_left_le_one_le\<close>)
  with that[of u] rn_exact[of u] show ?thesis by (simp add: rn_zero)
qed

text \<open>A representable value scaled by at most one does not grow.\<close>

lemma scale_le: "0 \<le> c \<Longrightarrow> c \<le> 1 \<Longrightarrow> 0 \<le> a \<Longrightarrow> exact a \<Longrightarrow> fp_le (rn (c * a)) (Fin a)"
  using rn_mono[of "c * a" a] by (simp add: rn_exact mult_left_le_one_le)

end

lemma rnd_zero_fp: "fp_round p emin emax 0 = Fin 0"
  by (simp add: fp_round_def Let_def)

lemma fp_round_mono:
  assumes p: "0 < p" and xy: "x \<le> y"
  shows "fp_le (fp_round p emin emax x) (fp_round p emin emax y)"
proof -
  let ?x = "rnd p emin x" and ?y = "rnd p emin y"
  have le: "?x \<le> ?y" by (rule rnd_mono[OF p xy])
  have "ilog2 ?x \<le> ilog2 ?y" if "0 < ?x"
    using ilog2_mono[OF that le] .
  moreover have "ilog2 (- ?y) \<le> ilog2 (- ?x)" if "?y < 0"
    using ilog2_mono[of "- ?y" "- ?x"] that le by simp
  ultimately show ?thesis
    using le unfolding fp_round_def fp_le_def Let_def by (auto simp: abs_if)
qed

lemma fp_round_exact:
  "representable p emin x \<Longrightarrow> \<bar>x\<bar> < 2 powi (emax + 1) \<Longrightarrow> fp_round p emin emax x = Fin x"
  using ilog2_less[of "\<bar>x\<bar>" "emax + 1"]
  by (auto simp: fp_round_def Let_def rnd_representable)

definition exact64 :: "rat \<Rightarrow> bool" where
  "exact64 x \<longleftrightarrow> representable 53 (- 1022) x \<and> \<bar>x\<bar> < 2 powi 1024"

definition exact32 :: "rat \<Rightarrow> bool" where
  "exact32 x \<longleftrightarrow> representable 24 (- 126) x \<and> \<bar>x\<bar> < 2 powi 128"

lemma fp_round_result:
  assumes "0 < p" "fp_round p emin emax x = Fin y"
  shows "representable p emin y" "\<bar>y\<bar> < 2 powi (emax + 1)"
proof -
  have y: "y = rnd p emin x" "y = 0 \<or> ilog2 \<bar>y\<bar> \<le> emax"
    using assms(2) by (auto simp: fp_round_def Let_def split: if_splits)
  then show "representable p emin y" using rnd_result[OF assms(1)] by simp
  show "\<bar>y\<bar> < 2 powi (emax + 1)"
  proof (cases "y = 0")
    case False
    then show ?thesis
      using ilog2_bounds(2)[of "\<bar>y\<bar>"] y(2) powi2_mono[of "ilog2 \<bar>y\<bar> + 1" "emax + 1"] by auto
  qed simp
qed

interpretation dbl: rounding r64 exact64
  by unfold_locales (auto simp: r64_def exact64_def rnd_zero_fp fp_round_mono fp_round_exact
      dest: fp_round_result[rotated])

interpretation sgl: rounding r32 exact32
  by unfold_locales (auto simp: r32_def exact32_def rnd_zero_fp fp_round_mono fp_round_exact
      dest: fp_round_result[rotated])

end
