(* ===== verification/CString.thy ===== *)
theory CString imports Prelude begin

section \<open>C strings: strsep, sscanf, printf\<close>

text \<open>
  What the program uses of the C string functions.  A string is the list of its characters
  before the terminator.  \<open>strsep\<close> is called with a single delimiter in a loop that runs until
  it returns null; \<open>sscanf\<close> and \<open>strtol\<close> read a decimal number.  A converted value that does not
  fit its type is undefined behaviour for \<open>sscanf\<close> and \<open>atoi\<close>, and \<open>ERANGE\<close> for \<open>strtol\<close>.
\<close>

subsection \<open>Numbers\<close>

definition c_isspace :: "char \<Rightarrow> bool" where
  "c_isspace c \<longleftrightarrow> of_char c \<in> {9, 10, 11, 12, 13, 32 :: nat}"

definition c_isdigit :: "char \<Rightarrow> bool" where
  "c_isdigit c \<longleftrightarrow> 48 \<le> (of_char c :: nat) \<and> (of_char c :: nat) \<le> 57"

definition digit_val :: "char \<Rightarrow> int" where
  "digit_val c = int (of_char c) - 48"

fun read_digits :: "int \<Rightarrow> string \<Rightarrow> int \<times> string" where
  "read_digits acc [] = (acc, [])"
| "read_digits acc (c # s) =
     (if c_isdigit c then read_digits (10 * acc + digit_val c) s else (acc, c # s))"

definition read_unsigned :: "string \<Rightarrow> (int \<times> string) option" where
  "read_unsigned s = (case s of c # _ \<Rightarrow> if c_isdigit c then Some (read_digits 0 s) else None | [] \<Rightarrow> None)"

text \<open>White space, an optional sign, digits: the value and what follows it.\<close>

definition read_signed :: "string \<Rightarrow> (int \<times> string) option" where
  "read_signed s = (case dropWhile c_isspace s of
       [] \<Rightarrow> None
     | c # r \<Rightarrow>
         if c = CHR ''-'' then map_option (\<lambda>(v, t). (- v, t)) (read_unsigned r)
         else if c = CHR ''+'' then read_unsigned r
         else read_unsigned (c # r))"

text \<open>\<open>sscanf(s, "%d", &v)\<close>: undefined, no conversion, or a value.\<close>

definition sscanf_d :: "string \<Rightarrow> int option option" where
  "sscanf_d s = (case read_signed s of None \<Rightarrow> Some None
     | Some (v, _) \<Rightarrow> if in_int v then Some (Some v) else None)"

definition atoi :: "string \<Rightarrow> int option" where
  "atoi s = (case read_signed s of None \<Rightarrow> Some 0 | Some (v, _) \<Rightarrow> c_int v)"

text \<open>\<open>strtol(s, &end, 10)\<close>: the value, whether \<open>errno\<close> is set to \<open>ERANGE\<close>, and the rest at \<open>end\<close>.\<close>

definition strtol :: "string \<Rightarrow> int \<times> bool \<times> string" where
  "strtol s = (case read_signed s of None \<Rightarrow> (0, False, s)
     | Some (v, r) \<Rightarrow>
         if v < - (2 ^ 63) then (- (2 ^ 63), True, r)
         else if 2 ^ 63 \<le> v then (2 ^ 63 - 1, True, r) else (v, False, r))"

text \<open>\<open>printf("%d")\<close>.\<close>

definition digit_char :: "nat \<Rightarrow> char" where
  "digit_char d = char_of (48 + d)"

fun show_nat :: "nat \<Rightarrow> string" where
  "show_nat n = (if n < 10 then [digit_char n] else show_nat (n div 10) @ [digit_char (n mod 10)])"

declare show_nat.simps [simp del]

definition show_int :: "int \<Rightarrow> string" where
  "show_int v = (if v < 0 then CHR ''-'' # show_nat (nat (- v)) else show_nat (nat v))"

subsection \<open>Reading back what was printed\<close>

lemma digit_char: "d < 10 \<Longrightarrow> c_isdigit (digit_char d) \<and> digit_val (digit_char d) = int d"
  by (simp add: c_isdigit_def digit_val_def digit_char_def)

lemma show_nat_ne [simp]: "show_nat n \<noteq> []"
  by (subst show_nat.simps) simp

lemma show_nat_digits: "\<forall>c \<in> set (show_nat n). c_isdigit c"
proof (induction n rule: show_nat.induct)
  case (1 n)
  then show ?case
    by (subst show_nat.simps) (auto simp: digit_char)
qed

lemma read_digits_append:
  "\<forall>c \<in> set ds. c_isdigit c \<Longrightarrow> read_digits a (ds @ s) = read_digits (fst (read_digits a ds)) s"
  by (induction ds arbitrary: a) auto

lemma read_show_nat:
  assumes "s = [] \<or> \<not> c_isdigit (hd s)"
  shows "read_digits 0 (show_nat n @ s) = (int n, s)"
proof -
  have stop: "read_digits a s = (a, s)" for a using assms by (cases s) auto
  have "fst (read_digits 0 (show_nat n)) = int n"
  proof (induction n rule: show_nat.induct)
    case (1 n)
    show ?case
    proof (cases "n < 10")
      case True
      then show ?thesis by (subst show_nat.simps) (simp add: digit_char)
    next
      case False
      then have "fst (read_digits 0 (show_nat (n div 10))) = int (n div 10)" by (rule 1)
      then have "fst (read_digits 0 (show_nat n)) = 10 * int (n div 10) + int (n mod 10)"
        using False by (subst show_nat.simps) (simp add: read_digits_append[OF show_nat_digits] digit_char)
      then show ?thesis by (simp add: zdiv_int zmod_int)
    qed
  qed
  then show ?thesis by (simp add: read_digits_append[OF show_nat_digits] stop)
qed

lemma read_unsigned_show:
  assumes "s = [] \<or> \<not> c_isdigit (hd s)"
  shows "read_unsigned (show_nat n @ s) = Some (int n, s)"
proof -
  obtain c r where c: "show_nat n = c # r" by (cases "show_nat n") auto
  then have "c_isdigit c" using show_nat_digits[of n] by simp
  then show ?thesis using read_show_nat[OF assms, of n] c by (simp add: read_unsigned_def)
qed

lemma digit_not: "c_isdigit c \<Longrightarrow> \<not> c_isspace c \<and> c \<noteq> CHR ''-'' \<and> c \<noteq> CHR ''+'' \<and> c \<noteq> CHR '',''"
  by (auto simp: c_isdigit_def c_isspace_def)

lemma read_signed_show:
  assumes "s = [] \<or> \<not> c_isdigit (hd s)"
  shows "read_signed (show_int v @ s) = Some (v, s)"
proof (cases "v < 0")
  case True
  then show ?thesis
    using read_unsigned_show[OF assms, of "nat (- v)"]
    by (simp add: read_signed_def show_int_def c_isspace_def)
next
  case False
  obtain c r where c: "show_nat (nat v) = c # r" by (cases "show_nat (nat v)") auto
  then have "c_isdigit c" using show_nat_digits[of "nat v"] by simp
  then show ?thesis
    using read_unsigned_show[OF assms, of "nat v"] False c digit_not
    by (simp add: read_signed_def show_int_def)
qed

lemma sscanf_show: "in_int v \<Longrightarrow> sscanf_d (show_int v) = Some (Some v)"
  using read_signed_show[of "[]" v] by (simp add: sscanf_d_def)

lemma atoi_show: "in_int v \<Longrightarrow> atoi (show_int v) = Some v"
  using read_signed_show[of "[]" v] by (simp add: atoi_def)

lemma show_int_no_comma: "CHR '','' \<notin> set (show_int v)"
  using show_nat_digits digit_not by (auto simp: show_int_def)

subsection \<open>Decimal and hexadecimal fractions\<close>

text \<open>
  \<open>strtod\<close>, which \<open>atof\<close> and \<open>std::stof\<close> use: white space, a sign, then a hexadecimal or decimal
  number with an optional fraction and exponent, or an infinity or NaN.  The result is the
  exact rational, which the caller rounds to its type, or the special value.
\<close>

definition hex_val :: "char \<Rightarrow> int option" where
  "hex_val c = (let n = of_char c :: nat in
     if 48 \<le> n \<and> n \<le> 57 then Some (int n - 48)
     else if 65 \<le> n \<and> n \<le> 70 then Some (int n - 55)
     else if 97 \<le> n \<and> n \<le> 102 then Some (int n - 87) else None)"

definition dec_val :: "char \<Rightarrow> int option" where
  "dec_val c = (if c_isdigit c then Some (digit_val c) else None)"

text \<open>Digits of base \<open>b\<close>: the value so far, how many were read, the rest.\<close>

fun read_base :: "(char \<Rightarrow> int option) \<Rightarrow> int \<Rightarrow> int \<Rightarrow> nat \<Rightarrow> string \<Rightarrow> int \<times> nat \<times> string" where
  "read_base val b acc n [] = (acc, n, [])"
| "read_base val b acc n (c # s) =
     (case val c of None \<Rightarrow> (acc, n, c # s) | Some d \<Rightarrow> read_base val b (b * acc + d) (Suc n) s)"

definition read_fraction ::
  "(char \<Rightarrow> int option) \<Rightarrow> int \<Rightarrow> string \<Rightarrow> (rat \<times> string) option" where
  "read_fraction val b s = (let (a, n, r) = read_base val b 0 0 s;
       (a, f, r) = (case r of [] \<Rightarrow> (a, 0, r)
         | c # t \<Rightarrow> if c = CHR ''.'' \<and> (n \<noteq> 0 \<or> (t \<noteq> [] \<and> val (hd t) \<noteq> None))
                   then read_base val b a 0 t else (a, 0, r))
     in if n = 0 \<and> f = 0 then None else Some (of_int a / of_int b ^ f, r))"

text \<open>An exponent is read only when a digit follows its letter and sign.\<close>

definition read_exponent :: "char list \<Rightarrow> string \<Rightarrow> int \<times> string" where
  "read_exponent letters s = (case s of [] \<Rightarrow> (0, s)
     | c # r \<Rightarrow> if c \<notin> set letters then (0, s)
         else let (neg, t) = (case r of [] \<Rightarrow> (False, r)
                | x # t \<Rightarrow> if x = CHR ''-'' then (True, t) else if x = CHR ''+'' then (False, t) else (False, r))
           in case read_unsigned t of None \<Rightarrow> (0, s)
              | Some (e, u) \<Rightarrow> (if neg then - e else e, u))"

definition lower :: "string \<Rightarrow> string" where
  "lower s = map (\<lambda>c. let n = of_char c :: nat in if 65 \<le> n \<and> n \<le> 90 then char_of (n + 32) else c) s"

datatype real_text = Number rat | Infinity bool | Not_a_number

definition read_magnitude :: "string \<Rightarrow> (rat \<times> string) option" where
  "read_magnitude s =
     (case (if lower (take 2 s) = ''0x'' then read_fraction hex_val 16 (drop 2 s) else None) of
        Some (q, r) \<Rightarrow> let (e, t) = read_exponent ''pP'' r in Some (q * 2 powi e, t)
      | None \<Rightarrow> (case read_fraction dec_val 10 s of None \<Rightarrow> None
          | Some (q, r) \<Rightarrow> let (e, t) = read_exponent ''eE'' r in Some (q * 10 powi e, t)))"

definition strtod :: "string \<Rightarrow> (real_text \<times> string) option" where
  "strtod s = (let s = dropWhile c_isspace s;
       (neg, s) = (case s of [] \<Rightarrow> (False, s)
         | c # r \<Rightarrow> if c = CHR ''-'' then (True, r) else if c = CHR ''+'' then (False, r) else (False, s))
     in case read_magnitude s of
          Some (q, r) \<Rightarrow> Some (Number (if neg then - q else q), r)
        | None \<Rightarrow>
            if lower (take 8 s) = ''infinity'' then Some (Infinity neg, drop 8 s)
            else if lower (take 3 s) = ''inf'' then Some (Infinity neg, drop 3 s)
            else if lower (take 3 s) = ''nan'' then Some (Not_a_number, drop 3 s)
            else None)"

subsection \<open>Comma-separated lists\<close>

definition strsep :: "char \<Rightarrow> string \<Rightarrow> string \<times> string option" where
  "strsep d s = (takeWhile (\<lambda>c. c \<noteq> d) s,
     case dropWhile (\<lambda>c. c \<noteq> d) s of [] \<Rightarrow> None | _ # r \<Rightarrow> Some r)"

lemma strsep_shorter: "snd (strsep d s) = Some r \<Longrightarrow> length r < length s"
  using length_dropWhile_le[of "\<lambda>c. c \<noteq> d" s]
  by (auto simp: strsep_def split: list.splits)

text \<open>\<open>while ((token = strsep(&s, d)) != NULL) body(token)\<close>; \<open>None\<close> is the null pointer.\<close>

function while_strsep ::
  "char \<Rightarrow> (string \<Rightarrow> 's \<Rightarrow> 's option) \<Rightarrow> string option \<Rightarrow> 's \<Rightarrow> 's option" where
  "while_strsep d body None st = Some st"
| "while_strsep d body (Some s) st =
     (case body (fst (strsep d s)) st of None \<Rightarrow> None
      | Some st' \<Rightarrow> while_strsep d body (snd (strsep d s)) st')"
  by pat_completeness auto

termination
  by (relation "measure (\<lambda>(d, body, s, st). case s of None \<Rightarrow> 0 | Some t \<Rightarrow> Suc (length t))")
    (auto split: option.splits dest: strsep_shorter)

function tokens :: "char \<Rightarrow> string \<Rightarrow> string list" where
  "tokens d s = fst (strsep d s) #
     (case snd (strsep d s) of None \<Rightarrow> [] | Some r \<Rightarrow> tokens d r)"
  by pat_completeness auto

termination
  by (relation "measure (\<lambda>(d, s). length s)") (auto dest: strsep_shorter)

declare tokens.simps [simp del]

lemma while_strsep_tokens: "while_strsep d body (Some s) st = run_all body (tokens d s) st"
proof (induction d s arbitrary: st rule: tokens.induct)
  case (1 d s)
  show ?case
  proof (cases "snd (strsep d s)")
    case None
    then show ?thesis by (subst tokens.simps) (simp split: option.splits)
  next
    case (Some r)
    then show ?thesis
      using 1[OF Some] by (subst tokens.simps) (simp del: while_strsep.simps(2)
          add: while_strsep.simps(2)[of d body s] split: option.splits)
  qed
qed

declare while_strsep.simps(2) [simp del]

fun join :: "char \<Rightarrow> string list \<Rightarrow> string" where
  "join d [] = []"
| "join d [t] = t"
| "join d (t # u # ts) = t @ d # join d (u # ts)"

lemma takeWhile_ne: "d \<notin> set t \<Longrightarrow> takeWhile (\<lambda>c. c \<noteq> d) t = t" "d \<notin> set t \<Longrightarrow> dropWhile (\<lambda>c. c \<noteq> d) t = []"
  by (auto simp: takeWhile_eq_all_conv dropWhile_eq_Nil_conv)

lemma tokens_join:
  assumes "ts \<noteq> []" "\<forall>t \<in> set ts. d \<notin> set t"
  shows "tokens d (join d ts) = ts"
  using assms
proof (induction d ts rule: join.induct)
  case (2 d t)
  then show ?case by (subst tokens.simps) (simp add: strsep_def takeWhile_ne)
next
  case (3 d t u ts)
  then have "strsep d (join d (t # u # ts)) = (t, Some (join d (u # ts)))"
    by (auto simp: strsep_def takeWhile_append dropWhile_append takeWhile_ne)
  then show ?case using 3 by (subst tokens.simps) simp
qed simp

definition render_list :: "int list \<Rightarrow> string" where
  "render_list vs = join CHR '','' (map show_int vs)"

lemma tokens_render: "vs \<noteq> [] \<Longrightarrow> tokens CHR '','' (render_list vs) = map show_int vs"
  unfolding render_list_def by (rule tokens_join) (auto simp: show_int_no_comma)

subsection \<open>Where the numbers of a list go\<close>

text \<open>\<open>sscanf(tok, "%d", &xs[i])\<close>: no write when there is no conversion.\<close>

definition scan_into :: "int list \<Rightarrow> int \<Rightarrow> string \<Rightarrow> int list option" where
  "scan_into xs i tok =
     (if i < 0 \<or> int (length xs) < i then None
      else case sscanf_d tok of None \<Rightarrow> None
        | Some None \<Rightarrow> Some xs
        | Some (Some v) \<Rightarrow> arr_set xs i v)"

text \<open>
  The contract of a loop body over tokens: a token that converts is stored at the position of the
  counter.  Six loops of the program are such sinks; each parses back what was printed.
\<close>

locale int_sink =
  fixes body :: "string \<Rightarrow> int \<times> 's \<Rightarrow> (int \<times> 's) option"
    and view :: "'s \<Rightarrow> int list"
  assumes store: "0 \<le> n \<Longrightarrow> n < int (length (view s)) \<Longrightarrow> length (view s) \<le> 128 \<Longrightarrow>
    sscanf_d tok = Some (Some v) \<Longrightarrow>
    \<exists>s'. body tok (n, s) = Some (n + 1, s') \<and> view s' = (view s)[nat n := v]"
begin

lemma run_tokens:
  assumes "list_all2 (\<lambda>t v. sscanf_d t = Some (Some v)) ts vs"
    "k + length vs \<le> length (view s)" "length (view s) \<le> 128"
  shows "\<exists>s'. run_all body ts (int k, s) = Some (int (k + length vs), s') \<and>
    length (view s') = length (view s) \<and> take (k + length vs) (view s') = take k (view s) @ vs"
  using assms
proof (induction ts vs arbitrary: k s rule: list_all2_induct)
  case Nil
  then show ?case by simp
next
  case (Cons t ts v vs)
  obtain s1 where s1: "body t (int k, s) = Some (int k + 1, s1)" "view s1 = (view s)[k := v]"
    using store[of "int k" s t v] Cons.prems Cons.hyps(1) by auto
  have "\<exists>s'. run_all body ts (int (Suc k), s1) = Some (int (Suc k + length vs), s') \<and>
      length (view s') = length (view s1) \<and> take (Suc k + length vs) (view s') = take (Suc k) (view s1) @ vs"
    by (rule Cons.IH) (use Cons.prems s1 in simp_all)
  then show ?case
    using s1 Cons.prems by (auto simp: take_Suc_update algebra_simps)
qed

lemma parse_render:
  assumes "vs \<noteq> []" "\<forall>v \<in> set vs. in_int v" "length vs \<le> length (view s)" "length (view s) \<le> 128"
  shows "\<exists>s'. while_strsep CHR '','' body (Some (render_list vs)) (0, s) = Some (int (length vs), s') \<and>
    length (view s') = length (view s) \<and> take (length vs) (view s') = vs"
proof -
  have "list_all2 (\<lambda>t v. sscanf_d t = Some (Some v)) (map show_int vs) vs"
    using assms(2) by (simp add: list_all2_conv_all_nth sscanf_show)
  from run_tokens[OF this, of 0 s] show ?thesis
    using assms by (auto simp: while_strsep_tokens tokens_render)
qed

end

lemma scan_into_conv:
  "0 \<le> n \<Longrightarrow> n < int (length xs) \<Longrightarrow> sscanf_d tok = Some (Some v) \<Longrightarrow>
   scan_into xs n tok = Some (xs[nat n := v])"
  by (simp add: scan_into_def arr_set_def)

subsection \<open>Signals\<close>

text \<open>The number of the signal both daemons handle.\<close>

definition SIGUSR1 :: int where
  "SIGUSR1 = 10"

end
