(* ===== verification/Harness.thy ===== *)
theory Harness imports Floats CString begin

section \<open>The benchmark harness: messages, sockets, arrivals (helpers.h, msgs.h, dist.h)\<close>

text \<open>
  What the client and the servers of the harness share, under
  src/TestFramework/Containers/xapian/xapian-src/harness: the two messages, the loops that send and
  receive a whole message, the options, the clock and the distribution of arrivals.  A socket gives
  the bytes that are still to come and a script of what the calls of \<open>send\<close> or \<open>recv\<close> do; when the
  script is used up every call moves all it can.
\<close>

subsection \<open>Messages\<close>

definition MAX_REQ_BYTES :: nat where
  "MAX_REQ_BYTES = 2 ^ 20"

definition MAX_RESP_BYTES :: nat where
  "MAX_RESP_BYTES = 2 ^ 20"

datatype ResponseType = RESPONSE | ROI_BEGIN | FINISH

text \<open>The \<open>data\<close> field is the part of the array that the sender has filled.\<close>

record Request =
  rq_id :: u64
  rq_genNs :: u64
  rq_len :: u64
  rq_data :: string

text \<open>The field \<open>type\<close> of a message that was received may hold any number.\<close>

record Response =
  rs_type :: nat
  rs_id :: u64
  rs_svcNs :: u64
  rs_len :: u64
  rs_data :: string

fun type_code :: "ResponseType \<Rightarrow> nat" where
  "type_code RESPONSE = 0"
| "type_code ROI_BEGIN = 1"
| "type_code FINISH = 2"

text \<open>Little-endian bytes of a field of \<open>k\<close> bytes.\<close>

fun le_bytes :: "nat \<Rightarrow> nat \<Rightarrow> string" where
  "le_bytes 0 n = []"
| "le_bytes (Suc k) n = char_of (n mod 256) # le_bytes k (n div 256)"

fun of_le :: "string \<Rightarrow> nat" where
  "of_le [] = 0"
| "of_le (c # cs) = of_char c + 256 * of_le cs"

definition word_bytes :: "u64 \<Rightarrow> string" where
  "word_bytes w = le_bytes 8 (unat w)"

definition of_word_bytes :: "string \<Rightarrow> u64" where
  "of_word_bytes s = of_nat (of_le s)"

text \<open>\<open>sizeof(Request) - MAX_REQ_BYTES\<close> bytes: three words.\<close>

definition request_header :: "Request \<Rightarrow> string" where
  "request_header r = word_bytes (rq_id r) @ word_bytes (rq_genNs r) @ word_bytes (rq_len r)"

text \<open>\<open>sizeof(Response) - MAX_RESP_BYTES\<close> bytes: an enum, four bytes of padding, three words.\<close>

definition response_header :: "Response \<Rightarrow> string" where
  "response_header r = le_bytes 4 (rs_type r) @ le_bytes 4 0 @ word_bytes (rs_id r) @ word_bytes (rs_svcNs r) @
     word_bytes (rs_len r)"

definition read_request_header :: "string \<Rightarrow> Request \<Rightarrow> Request" where
  "read_request_header s r = r\<lparr>rq_id := of_word_bytes (take 8 s), rq_genNs := of_word_bytes (take 8 (drop 8 s)),
     rq_len := of_word_bytes (take 8 (drop 16 s))\<rparr>"

definition read_response_header :: "string \<Rightarrow> Response \<Rightarrow> Response" where
  "read_response_header s r = r\<lparr>rs_type := of_le (take 4 s), rs_id := of_word_bytes (take 8 (drop 8 s)),
     rs_svcNs := of_word_bytes (take 8 (drop 16 s)), rs_len := of_word_bytes (take 8 (drop 24 s))\<rparr>"

lemma length_le_bytes [simp]: "length (le_bytes k n) = k"
  by (induction k arbitrary: n) simp_all

lemma of_le_bytes: "of_le (le_bytes k n) = n mod 256 ^ k"
  by (induction k arbitrary: n) (simp_all add: mod_mult2_eq)

lemma length_word_bytes [simp]: "length (word_bytes w) = 8"
  by (simp add: word_bytes_def)

lemma word_bytes_read [simp]: "of_word_bytes (word_bytes w) = w"
proof -
  have "unat w < 2 ^ LENGTH(64)" by (rule unsigned_less)
  then have "unat w < 256 ^ 8" by simp
  then show ?thesis by (simp add: of_word_bytes_def word_bytes_def of_le_bytes)
qed

lemma length_headers [simp]: "length (request_header r) = 24" "length (response_header s) = 32"
  by (simp_all add: request_header_def response_header_def)

lemma request_header_read:
  "read_request_header (request_header r) q = q\<lparr>rq_id := rq_id r, rq_genNs := rq_genNs r, rq_len := rq_len r\<rparr>"
  by (simp add: read_request_header_def request_header_def)

lemma response_header_read:
  "rs_type r < 256 ^ 4 \<Longrightarrow> read_response_header (response_header r) q =
     q\<lparr>rs_type := rs_type r, rs_id := rs_id r, rs_svcNs := rs_svcNs r, rs_len := rs_len r\<rparr>"
  by (simp add: read_response_header_def response_header_def of_le_bytes)

subsection \<open>Whole messages over a socket\<close>

text \<open>What one call does: it moves at most so many bytes (but at least one), or fails.\<close>

datatype io = Moved nat | Io_failed

fun sendfull :: "string \<Rightarrow> io list \<Rightarrow> string \<times> io list" where
  "sendfull msg [] = (msg, [])"
| "sendfull msg (io # ios) =
     (if msg = [] then ([], io # ios)
      else case io of Io_failed \<Rightarrow> ([], ios)
         | Moved k \<Rightarrow>
             let n = max 1 k; (sent, rest) = sendfull (drop n msg) ios
             in (take n msg @ sent, rest))"

text \<open>The bytes that end up in the buffer, those still to come, and the rest of the script.  At the
  end of the bytes the peer has closed the connection and \<open>recv\<close> answers 0.\<close>

fun recvfull :: "nat \<Rightarrow> string \<Rightarrow> io list \<Rightarrow> string \<times> string \<times> io list" where
  "recvfull len s [] = (take len s, drop len s, [])"
| "recvfull len s (io # ios) =
     (if len = 0 then ([], s, io # ios)
      else case io of Io_failed \<Rightarrow> ([], s, ios)
         | Moved k \<Rightarrow>
             if s = [] then ([], [], ios)
             else let n = min len (max 1 k); (got, s', rest) = recvfull (len - length (take n s)) (drop n s) ios
                  in (take n s @ got, s', rest))"

lemma sendfull_all: "Io_failed \<notin> set ios \<Longrightarrow> fst (sendfull msg ios) = msg"
proof (induction msg ios rule: sendfull.induct)
  case (2 msg io ios)
  show ?case
  proof (cases "msg = []")
    case False
    obtain k where io: "io = Moved k" using 2(2) by (cases io) auto
    have "fst (sendfull (drop (max 1 k) msg) ios) = drop (max 1 k) msg"
      using 2(1)[OF False io refl] 2(2) by simp
    then show ?thesis using False io by (cases "sendfull (drop (max 1 k) msg) ios") (simp add: Let_def)
  qed simp
qed simp

lemma recvfull_all:
  "Io_failed \<notin> set ios \<Longrightarrow> len \<le> length s \<Longrightarrow>
   \<exists>rest. recvfull len s ios = (take len s, drop len s, rest) \<and> set rest \<subseteq> set ios"
proof (induction len s ios rule: recvfull.induct)
  case (2 len s io ios)
  show ?case
  proof (cases "len = 0")
    case False
    then have ne: "s \<noteq> []" using 2(3) by auto
    obtain k where io: "io = Moved k" using 2(2) by (cases io) auto
    define n where "n = min len (max 1 k)"
    have le: "n \<le> len" "n \<le> length s" using 2(3) by (simp_all add: n_def)
    then have n: "length (take n s) = n" by simp
    have "len - length (take n s) \<le> length (drop n s)" using 2(3) unfolding n by simp
    then obtain rest where "recvfull (len - length (take n s)) (drop n s) ios =
        (take (len - length (take n s)) (drop n s), drop (len - length (take n s)) (drop n s), rest)"
      "set rest \<subseteq> set ios"
      using 2(1)[OF False io ne n_def] 2(2) by auto
    then have r: "recvfull (len - n) (drop n s) ios = (take (len - n) (drop n s), drop (len - n) (drop n s), rest)"
      "set rest \<subseteq> set ios"
      unfolding n by simp_all
    have "take n s @ take (len - n) (drop n s) = take (n + (len - n)) s" by (rule take_add[symmetric])
    moreover have "drop (len - n) (drop n s) = drop (n + (len - n)) s" by (simp add: add.commute)
    ultimately have whole: "take n s @ take (len - n) (drop n s) = take len s" "drop (len - n) (drop n s) = drop len s"
      using le(1) by simp_all
    have "recvfull len s (io # ios) =
        (let (got, s', rest) = recvfull (len - length (take n s)) (drop n s) ios in (take n s @ got, s', rest))"
      using False ne by (simp only: io recvfull.simps io.case n_def Let_def if_False)
    also have "\<dots> = (take len s, drop len s, rest)"
      unfolding n r(1) by (simp only: Let_def prod.case whole)
    finally show ?thesis using r(2) by auto
  qed simp
qed simp

subsection \<open>Options and the clock\<close>

text \<open>\<open>getOpt\<close>: the default without the variable, when it is empty or does not convert.  An \<open>int\<close> that
  is out of range does not convert; of a string the first word is taken.\<close>

definition getOpt_int :: "(string \<Rightarrow> string option) \<Rightarrow> string \<Rightarrow> int \<Rightarrow> int" where
  "getOpt_int env name defVal = (case env name of None \<Rightarrow> defVal
     | Some opt \<Rightarrow> (case read_signed opt of None \<Rightarrow> defVal | Some (v, _) \<Rightarrow> if in_int v then v else defVal))"

definition getOpt_string :: "(string \<Rightarrow> string option) \<Rightarrow> string \<Rightarrow> string \<Rightarrow> string" where
  "getOpt_string env name defVal = (case env name of None \<Rightarrow> defVal
     | Some opt \<Rightarrow> let word = takeWhile (\<lambda>c. \<not> c_isspace c) (dropWhile c_isspace opt)
                   in if word = [] then defVal else word)"

text \<open>The conversion of a text to \<open>double\<close> is the stream library's.\<close>

definition getOpt_double :: "(string \<Rightarrow> fp option) \<Rightarrow> (string \<Rightarrow> string option) \<Rightarrow> string \<Rightarrow> fp \<Rightarrow> fp" where
  "getOpt_double read_double env name defVal = (case env name of None \<Rightarrow> defVal
     | Some opt \<Rightarrow> (if opt = [] then defVal else case read_double opt of None \<Rightarrow> defVal | Some x \<Rightarrow> x))"

text \<open>\<open>sleepUntil\<close>: the sleeps that are asked for (seconds and nanoseconds), one per reading of the
  clock that is too early.\<close>

fun sleepUntil :: "u64 \<Rightarrow> u64 list \<Rightarrow> (u64 \<times> u64) list option" where
  "sleepUntil targetNs [] = None"
| "sleepUntil targetNs (curNs # clock) =
     (if curNs < targetNs
      then let diffNs = targetNs - curNs
           in map_option ((#) (diffNs div 1000000000, diffNs mod 1000000000)) (sleepUntil targetNs clock)
      else Some [])"

subsection \<open>Arrivals\<close>

text \<open>\<open>curNs += d(g)\<close>: the sum is a \<open>double\<close>; its conversion back is undefined when it does not fit.\<close>

definition fp_to_u64 :: "fp \<Rightarrow> u64 option" where
  "fp_to_u64 x = (case x of Fin q \<Rightarrow>
       let n = rat_trunc q in if 0 \<le> n \<and> n < 2 ^ 64 then Some (word_of_int n) else None
     | _ \<Rightarrow> None)"

definition nextArrivalNs :: "fp \<Rightarrow> u64 \<Rightarrow> u64 option" where
  "nextArrivalNs x curNs = fp_to_u64 (fp_add r64 (fp_of_int r64 (uint curNs)) x)"

fun arrivals :: "fp list \<Rightarrow> u64 \<Rightarrow> u64 list option" where
  "arrivals [] curNs = Some []"
| "arrivals (x # xs) curNs = do {
     curNs \<leftarrow> nextArrivalNs x curNs;
     later \<leftarrow> arrivals xs curNs;
     Some (curNs # later) }"

end
