(* ===== verification/HarnessClient.thy ===== *)
theory HarnessClient imports Harness begin

section \<open>The client of the benchmark harness (client.cpp, tbench_client_networked.cpp)\<close>

text \<open>
  \<open>class Client\<close> generates requests at random times, keeps those in flight in a map and, in the region
  of interest, records how long each took; \<open>class NetworkedClient\<close> sends and receives them.  An
  operation that the source runs under \<open>lock\<close> is one function on the state.  Failed assertions abort
  the process (the makefile leaves them on).
\<close>

datatype ClientStatus = INIT | WARMUP | ROI | FINISHED

record Client =
  cl_status :: ClientStatus
  cl_minSleepNs :: u64
  cl_seed :: u64
  cl_lambda :: fp
  cl_dist :: "u64 option"
  cl_startedReqs :: u64
  cl_inFlightReqs :: "u64 \<rightharpoonup> Request"
  cl_svcTimes :: "u64 list"
  cl_queueTimes :: "u64 list"
  cl_sjrnTimes :: "u64 list"

text \<open>The result of an operation with assertions.\<close>

datatype 'a checked = Aborted | Returned 'a

subsection \<open>Requests\<close>

definition new_Client :: "(string \<Rightarrow> fp option) \<Rightarrow> (string \<Rightarrow> string option) \<Rightarrow> Client" where
  "new_Client read_double env = \<lparr>cl_status = INIT,
     cl_minSleepNs = word_of_int (getOpt_int env ''TBENCH_MINSLEEPNS'' 0),
     cl_seed = word_of_int (getOpt_int env ''TBENCH_RANDSEED'' 0),
     cl_lambda = fp_mul r64 (getOpt_double read_double env ''TBENCH_QPS'' (Fin 1000)) (r64 (1 / 10 ^ 9)),
     cl_dist = None, cl_startedReqs = 0, cl_inFlightReqs = Map.empty,
     cl_svcTimes = [], cl_queueTimes = [], cl_sjrnTimes = []\<rparr>"

text \<open>The part of \<open>startReq\<close> between the two barriers; all threads pass it before the first request.\<close>

definition begin_warmup :: "u64 \<Rightarrow> Client \<Rightarrow> Client" where
  "begin_warmup curNs c =
     (if cl_status c = INIT \<and> cl_dist c = None then c\<lparr>cl_dist := Some curNs, cl_status := WARMUP\<rparr> else c)"

text \<open>
  The part under the lock, from the request that \<open>tBenchClientGenReq\<close> has generated and the next sample
  of the distribution.  A request that does not fit its buffer, and a distribution that was not
  created, are undefined.
\<close>

definition new_request :: "string \<Rightarrow> fp \<Rightarrow> Client \<Rightarrow> (Request \<times> Client) option" where
  "new_request data x c =
     (if MAX_REQ_BYTES < length data then None
      else do {
        curNs \<leftarrow> cl_dist c;
        genNs \<leftarrow> nextArrivalNs x curNs;
        let req = \<lparr>rq_id = cl_startedReqs c, rq_genNs = genNs, rq_len = of_nat (length data), rq_data = data\<rparr>;
        Some (req, c\<lparr>cl_startedReqs := cl_startedReqs c + 1, cl_dist := Some genNs,
                     cl_inFlightReqs := (cl_inFlightReqs c)(rq_id req \<mapsto> req)\<rparr>) })"

text \<open>\<open>startReq\<close>: the request, the time to sleep until (if any), and the new state.\<close>

definition startReq ::
  "u64 \<Rightarrow> string \<Rightarrow> fp \<Rightarrow> u64 \<Rightarrow> Client \<Rightarrow> (Request \<times> u64 option \<times> Client) option" where
  "startReq initNs data x curNs c = do {
     (req, c) \<leftarrow> new_request data x (begin_warmup initNs c);
     Some (req, if curNs < rq_genNs req then Some (max (rq_genNs req) (curNs + cl_minSleepNs c)) else None, c) }"

definition record_times :: "Response \<Rightarrow> Request \<Rightarrow> u64 \<Rightarrow> Client \<Rightarrow> Client checked" where
  "record_times resp req curNs c =
     (if \<not> rq_genNs req < curNs then Aborted
      else let sjrn = curNs - rq_genNs req
           in if sjrn < rs_svcNs resp then Aborted
              else Returned (c\<lparr>cl_queueTimes := cl_queueTimes c @ [sjrn - rs_svcNs resp],
                               cl_svcTimes := cl_svcTimes c @ [rs_svcNs resp],
                               cl_sjrnTimes := cl_sjrnTimes c @ [sjrn]\<rparr>))"

definition finiReq :: "Response \<Rightarrow> u64 \<Rightarrow> Client \<Rightarrow> Client checked" where
  "finiReq resp curNs c = (case cl_inFlightReqs c (rs_id resp) of
       None \<Rightarrow> Aborted
     | Some req \<Rightarrow>
         (case (if cl_status c = ROI then record_times resp req curNs c else Returned c) of
            Aborted \<Rightarrow> Aborted
          | Returned c \<Rightarrow> Returned (c\<lparr>cl_inFlightReqs := (cl_inFlightReqs c)(rs_id resp := None)\<rparr>)))"

definition startRoi :: "Client \<Rightarrow> Client checked" where
  "startRoi c = (if cl_status c \<noteq> WARMUP then Aborted
     else Returned (c\<lparr>cl_status := ROI, cl_queueTimes := [], cl_svcTimes := [], cl_sjrnTimes := []\<rparr>))"

text \<open>\<open>dumpStats\<close>: the bytes of lats.bin, three words for each recorded request.  The index runs over
  \<open>sjrnTimes\<close>; the other two vectors are as long.\<close>

definition dump_row :: "Client \<Rightarrow> nat \<Rightarrow> string option" where
  "dump_row c r = do {
     q \<leftarrow> arr_get (cl_queueTimes c) (int r);
     s \<leftarrow> arr_get (cl_svcTimes c) (int r);
     j \<leftarrow> arr_get (cl_sjrnTimes c) (int r);
     Some (word_bytes q @ word_bytes s @ word_bytes j) }"

definition dumpStats :: "Client \<Rightarrow> string option" where
  "dumpStats c = for_loop 0 (length (cl_sjrnTimes c))
     (\<lambda>r out. map_option (\<lambda>row. out @ row) (dump_row c r)) []"

subsection \<open>The connection\<close>

text \<open>The outcomes of the system calls of the constructor, in their order.\<close>

record network =
  nw_getaddrinfo :: bool
  nw_socket :: bool
  nw_connect :: bool
  nw_nodelay :: bool

definition connects :: "network \<Rightarrow> bool" where
  "connects nw \<longleftrightarrow> nw_getaddrinfo nw \<and> nw_socket nw \<and> nw_connect nw \<and> nw_nodelay nw"

text \<open>\<open>NetworkedClient::send\<close>: whether the message went out whole, and its bytes that did.\<close>

definition request_message :: "Request \<Rightarrow> string" where
  "request_message req = request_header req @ take (unat (rq_len req)) (rq_data req)"

definition client_send :: "Request \<Rightarrow> io list \<Rightarrow> bool \<times> string \<times> io list" where
  "client_send req ios = (let msg = request_message req; (sent, ios) = sendfull msg ios
     in (length sent = length msg, sent, ios))"

text \<open>
  \<open>NetworkedClient::recv\<close>.  The two early returns leave \<open>recvLock\<close> locked; a length that does not fit
  the buffer is undefined, and one that an \<open>int\<close> cannot hold is taken as negative, so nothing is read.
\<close>

record received =
  rc_success :: bool
  rc_resp :: Response
  rc_locked :: bool
  rc_bytes :: string
  rc_ios :: "io list"

definition client_recv :: "Response \<Rightarrow> string \<Rightarrow> io list \<Rightarrow> received option" where
  "client_recv resp s ios =
     (let (header, s, ios) = recvfull 32 s ios
      in if length header \<noteq> 32
         then Some \<lparr>rc_success = False, rc_resp = resp, rc_locked = True, rc_bytes = s, rc_ios = ios\<rparr>
         else let resp = read_response_header header resp
              in if rs_type resp \<noteq> type_code RESPONSE
                 then Some \<lparr>rc_success = True, rc_resp = resp, rc_locked = False, rc_bytes = s, rc_ios = ios\<rparr>
                 else let len = (if (2 :: nat) ^ 31 \<le> unat (rs_len resp) mod 2 ^ 32 then 0 else unat (rs_len resp) mod 2 ^ 32)
                      in if MAX_RESP_BYTES < len then None
                         else let (data, s, ios) = recvfull len s ios; resp = resp\<lparr>rs_data := data\<rparr>
                              in if length data \<noteq> unat (rs_len resp)
                                 then Some \<lparr>rc_success = False, rc_resp = resp, rc_locked = True, rc_bytes = s, rc_ios = ios\<rparr>
                                 else Some \<lparr>rc_success = True, rc_resp = resp, rc_locked = False, rc_bytes = s, rc_ios = ios\<rparr>)"

text \<open>One turn of the receiving thread.\<close>

datatype received_turn = Recv_returns Client | Recv_continues Client | Recv_exits string

definition recv_thread :: "Response \<Rightarrow> u64 \<Rightarrow> Client \<Rightarrow> received_turn checked option" where
  "recv_thread resp curNs c =
     (if rs_type resp = type_code RESPONSE then
        Some (case finiReq resp curNs c of Aborted \<Rightarrow> Aborted | Returned c \<Rightarrow> Returned (Recv_continues c))
      else if rs_type resp = type_code ROI_BEGIN then
        Some (case startRoi c of Aborted \<Rightarrow> Aborted | Returned c \<Rightarrow> Returned (Recv_continues c))
      else if rs_type resp = type_code FINISH then
        map_option (\<lambda>out. Returned (Recv_exits out)) (dumpStats c)
      else Some (Returned (Recv_returns c)))"

text \<open>One turn of the sending thread: it stops after a message that did not go out whole.\<close>

definition send_thread :: "Request \<Rightarrow> io list \<Rightarrow> bool" where
  "send_thread req ios = fst (client_send req ios)"

end
