(* ===== verification/HarnessServer.thy ===== *)
theory HarnessServer imports HarnessClient begin

section \<open>The servers of the benchmark harness (tbench_server_networked.cpp, tbench_server_integrated.cpp)\<close>

text \<open>
  \<open>NetworkedServer\<close> receives requests from its clients in turn and answers them; \<open>IntegratedServer\<close> is
  its own client.  Both count the answered requests, tell the clients when the warm-up is over, and
  stop after \<open>TBENCH_MAXREQS\<close> more.
\<close>

subsection \<open>Common state\<close>

record ReqInfo =
  ri_id :: u64
  ri_startNs :: u64

record Server =
  sv_finishedReqs :: u64
  sv_maxReqs :: u64
  sv_warmupReqs :: u64
  sv_reqInfo :: "ReqInfo list"

definition new_Server :: "(string \<Rightarrow> string option) \<Rightarrow> nat \<Rightarrow> Server" where
  "new_Server env nthreads = \<lparr>sv_finishedReqs = 0,
     sv_maxReqs = word_of_int (getOpt_int env ''TBENCH_MAXREQS'' 0),
     sv_warmupReqs = word_of_int (getOpt_int env ''TBENCH_WARMUPREQS'' 0),
     sv_reqInfo = replicate nthreads \<lparr>ri_id = 0, ri_startNs = 0\<rparr>\<rparr>"

definition set_reqInfo :: "int \<Rightarrow> u64 \<Rightarrow> u64 \<Rightarrow> Server \<Rightarrow> Server option" where
  "set_reqInfo tid req_id curNs sv = map_option (\<lambda>l. sv\<lparr>sv_reqInfo := l\<rparr>)
     (arr_set (sv_reqInfo sv) tid \<lparr>ri_id = req_id, ri_startNs = curNs\<rparr>)"

text \<open>The response of thread \<open>tid\<close>: undefined when it does not fit, aborted when the clock stood still.\<close>

definition new_response :: "int \<Rightarrow> string \<Rightarrow> u64 \<Rightarrow> Server \<Rightarrow> Response checked option" where
  "new_response tid data curNs sv =
     (if MAX_RESP_BYTES < length data then None
      else do {
        info \<leftarrow> arr_get (sv_reqInfo sv) tid;
        Some (if \<not> ri_startNs info < curNs then Aborted
              else Returned \<lparr>rs_type = type_code RESPONSE, rs_id = ri_id info, rs_svcNs = curNs - ri_startNs info,
                             rs_len = of_nat (length data), rs_data = data\<rparr>) })"

subsection \<open>The networked server\<close>

record NetworkedServer = Server +
  sv_reqbuf :: "Request list"
  sv_clientFds :: "int list"
  sv_activeFds :: "int list"
  sv_recvClientHead :: nat

text \<open>The sockets: the bytes still to come from a client and the script of \<open>recv\<close>.\<close>

type_synonym sockets = "int \<Rightarrow> string \<times> io list"

text \<open>The constructor: the clients that are accepted, or the exit code.\<close>

record listening =
  ls_getaddrinfo :: bool
  ls_socket :: bool
  ls_reuseaddr :: bool
  ls_bind :: bool
  ls_listen :: bool

fun accept_clients :: "nat \<Rightarrow> (int option \<times> bool) list \<Rightarrow> int list option" where
  "accept_clients 0 events = Some []"
| "accept_clients (Suc n) [] = None"
| "accept_clients (Suc n) ((fd, nodelay) # events) = (case fd of None \<Rightarrow> None
     | Some fd \<Rightarrow> if nodelay then map_option ((#) fd) (accept_clients n events) else None)"

definition new_NetworkedServer ::
  "(string \<Rightarrow> string option) \<Rightarrow> nat \<Rightarrow> listening \<Rightarrow> nat \<Rightarrow> (int option \<times> bool) list \<Rightarrow> Request list \<Rightarrow>
     NetworkedServer option" where
  "new_NetworkedServer env nthreads ls nclients events buffers =
     (if ls_getaddrinfo ls \<and> ls_socket ls \<and> ls_reuseaddr ls \<and> ls_bind ls \<and> ls_listen ls
      then map_option (\<lambda>fds. Server.extend (new_Server env nthreads)
             \<lparr>sv_reqbuf = take nthreads buffers, sv_clientFds = fds, sv_activeFds = replicate nthreads 0,
              sv_recvClientHead = 0\<rparr>) (accept_clients nclients events)
      else None)"

definition removeClient :: "int \<Rightarrow> NetworkedServer \<Rightarrow> NetworkedServer option" where
  "removeClient fd sv = (if fd \<in> set (sv_clientFds sv) then Some (sv\<lparr>sv_clientFds := remove1 fd (sv_clientFds sv)\<rparr>)
     else None)"

datatype check = Check_ok | Check_left | Check_exits

definition checkRecv :: "int \<Rightarrow> int \<Rightarrow> check" where
  "checkRecv recvd expected = (if recvd = 0 then Check_left else if recvd = - 1 then Check_exits
     else if recvd \<noteq> expected then Check_exits else Check_ok)"

text \<open>The first client from \<open>recvClientHead\<close> on, cyclically, that is readable.\<close>

definition pick_client :: "nat \<Rightarrow> int list \<Rightarrow> int set \<Rightarrow> int option" where
  "pick_client head fds readable =
     find (\<lambda>fd. fd \<in> readable) (map (\<lambda>i. fds ! ((head + i) mod length fds)) [0..<length fds])"

definition int_of_size :: "u64 \<Rightarrow> int" where
  "int_of_size n = (let m = uint n mod 2 ^ 32 in if 2 ^ 31 \<le> m then m - 2 ^ 32 else m)"

datatype 'sv turn =
    Turn_exit int
  | Turn_abort
  | Turn_left 'sv sockets
  | Turn_received int Request 'sv sockets

text \<open>What follows the header: the data.  A length that the buffer does not hold is undefined.\<close>

definition receive_data :: "int \<Rightarrow> int \<Rightarrow> Request \<Rightarrow> NetworkedServer \<Rightarrow> sockets \<Rightarrow> NetworkedServer turn option" where
  "receive_data tid fd req sv socks =
     (let len = int_of_size (rq_len req)
      in if int MAX_REQ_BYTES < len then None
         else let (data, s, ios) = recvfull (nat len) (fst (socks fd)) (snd (socks fd));
                  req = req\<lparr>rq_data := data\<rparr>; socks = socks(fd := (s, ios))
              in do {
                buf \<leftarrow> arr_set (sv_reqbuf sv) tid req;
                let sv = sv\<lparr>sv_reqbuf := buf\<rparr>;
                (case checkRecv (int (length data)) len of
                   Check_ok \<Rightarrow> Some (Turn_received fd req sv socks)
                 | Check_left \<Rightarrow> map_option (\<lambda>sv. Turn_left sv socks) (removeClient fd sv)
                 | Check_exits \<Rightarrow> Some (Turn_exit (- 1))) })"

text \<open>One turn of the loop of \<open>recvReq\<close>, when \<open>select\<close> finds the descriptors in \<open>readable\<close> ready
  (\<open>None\<close> when it fails).  A descriptor outside an \<open>fd_set\<close> is undefined.\<close>

definition recv_turn ::
  "int \<Rightarrow> int set option \<Rightarrow> NetworkedServer \<Rightarrow> sockets \<Rightarrow> NetworkedServer turn option" where
  "recv_turn tid ready sv socks =
     (if \<exists>fd \<in> set (sv_clientFds sv). fd < 0 \<or> 1024 \<le> fd then None
      else (case ready of None \<Rightarrow> Some (Turn_exit (- 1))
       | Some readable \<Rightarrow>
           (let picked = pick_client (sv_recvClientHead sv) (sv_clientFds sv) readable;
                sv = sv\<lparr>sv_recvClientHead := (sv_recvClientHead sv + 1) mod length (sv_clientFds sv)\<rparr>
            in case picked of None \<Rightarrow> Some Turn_abort
             | Some fd \<Rightarrow> do {
                 old \<leftarrow> arr_get (sv_reqbuf sv) tid;
                 let (header, s, ios) = recvfull 24 (fst (socks fd)) (snd (socks fd));
                 let socks = socks(fd := (s, ios));
                 (case checkRecv (int (length header)) 24 of
                    Check_ok \<Rightarrow> receive_data tid fd (read_request_header header old) sv socks
                  | Check_left \<Rightarrow> map_option (\<lambda>sv. Turn_left sv socks) (removeClient fd sv)
                  | Check_exits \<Rightarrow> Some (Turn_exit (- 1))) })))"

datatype 'sv received_request =
    Rr_exits int
  | Rr_aborts
  | Rr_blocks
  | Rr_request Request 'sv sockets

text \<open>\<open>recvReq\<close>: the results of \<open>select\<close> one after the other; without a further one it blocks.\<close>

fun recvReq ::
  "int \<Rightarrow> u64 \<Rightarrow> int set option list \<Rightarrow> NetworkedServer \<Rightarrow> sockets \<Rightarrow> NetworkedServer received_request option" where
  "recvReq tid curNs readies sv socks =
     (if sv_clientFds sv = [] then Some (Rr_exits 0)
      else case readies of [] \<Rightarrow> Some Rr_blocks
       | ready # readies \<Rightarrow>
           (case recv_turn tid ready sv socks of None \<Rightarrow> None
            | Some (Turn_exit n) \<Rightarrow> Some (Rr_exits n)
            | Some Turn_abort \<Rightarrow> Some Rr_aborts
            | Some (Turn_left sv socks) \<Rightarrow> recvReq tid curNs readies sv socks
            | Some (Turn_received fd req sv socks) \<Rightarrow> do {
                info \<leftarrow> arr_set (sv_reqInfo sv) tid \<lparr>ri_id = rq_id req, ri_startNs = curNs\<rparr>;
                active \<leftarrow> arr_set (sv_activeFds sv) tid fd;
                Some (Rr_request req (sv\<lparr>sv_reqInfo := info, sv_activeFds := active\<rparr>) socks) }))"

declare recvReq.simps [simp del]

text \<open>The messages of \<open>sendResp\<close>, in order, with their receivers; \<open>whole\<close> says which go out whole.\<close>

definition response_message :: "Response \<Rightarrow> string" where
  "response_message resp = response_header resp @ take (unat (rs_len resp)) (rs_data resp)"

definition broadcast :: "Response \<Rightarrow> int list \<Rightarrow> (int \<times> string) list" where
  "broadcast resp fds = map (\<lambda>fd. (fd, response_header resp)) fds"

definition announcement :: "Response \<Rightarrow> NetworkedServer \<Rightarrow> (int \<times> string) list" where
  "announcement resp sv =
     (if sv_finishedReqs sv = sv_warmupReqs sv
      then broadcast (resp\<lparr>rs_type := type_code ROI_BEGIN\<rparr>) (sv_clientFds sv)
      else if sv_finishedReqs sv = sv_warmupReqs sv + sv_maxReqs sv
      then broadcast (resp\<lparr>rs_type := type_code FINISH\<rparr>) (sv_clientFds sv)
      else [])"

definition sendResp ::
  "(int \<Rightarrow> string \<Rightarrow> bool) \<Rightarrow> int \<Rightarrow> string \<Rightarrow> u64 \<Rightarrow> NetworkedServer \<Rightarrow>
     (NetworkedServer \<times> (int \<times> string) list) checked option" where
  "sendResp whole tid data curNs sv = do {
     made \<leftarrow> new_response tid data curNs (Server.truncate sv);
     (case made of Aborted \<Rightarrow> Some Aborted
      | Returned resp \<Rightarrow> do {
          fd \<leftarrow> arr_get (sv_activeFds sv) tid;
          let sv = sv\<lparr>sv_finishedReqs := sv_finishedReqs sv + 1\<rparr>;
          let out = (fd, response_message resp) # announcement resp sv;
          Some (if list_all (\<lambda>(fd, msg). whole fd msg) out then Returned (sv, out) else Aborted) }) }"

definition finish :: "(int \<Rightarrow> string \<Rightarrow> bool) \<Rightarrow> NetworkedServer \<Rightarrow> (int \<times> string) list checked" where
  "finish whole sv =
     (let out = broadcast \<lparr>rs_type = type_code FINISH, rs_id = 0, rs_svcNs = 0, rs_len = 0, rs_data = []\<rparr> (sv_clientFds sv)
      in if list_all (\<lambda>(fd, msg). whole fd msg) out then Returned out else Aborted)"

subsection \<open>The integrated server\<close>

type_synonym integrated = "Server \<times> Client"

definition integrated_recvReq ::
  "int \<Rightarrow> u64 \<Rightarrow> string \<Rightarrow> fp \<Rightarrow> u64 \<Rightarrow> u64 \<Rightarrow> integrated \<Rightarrow> (Request \<times> u64 option \<times> integrated) option" where
  "integrated_recvReq tid initNs data x wakeNs curNs = (\<lambda>(sv, c). do {
     (req, sleep, c) \<leftarrow> startReq initNs data x wakeNs c;
     sv \<leftarrow> set_reqInfo tid (rq_id req) curNs sv;
     Some (req, sleep, sv, c) })"

text \<open>\<open>sendResp\<close> in two parts: what \<open>finiReq\<close> does under the lock, and the count, which takes the lock
  again.\<close>

definition integrated_answer :: "int \<Rightarrow> string \<Rightarrow> u64 \<Rightarrow> u64 \<Rightarrow> integrated \<Rightarrow> integrated checked option" where
  "integrated_answer tid data curNs finiNs = (\<lambda>(sv, c). map_option
     (\<lambda>made. case made of Aborted \<Rightarrow> Aborted
       | Returned resp \<Rightarrow> (case finiReq resp finiNs c of Aborted \<Rightarrow> Aborted | Returned c \<Rightarrow> Returned (sv, c)))
     (new_response tid data curNs sv))"

datatype counted = Counted integrated | Dumped string

definition integrated_count :: "integrated \<Rightarrow> counted checked option" where
  "integrated_count = (\<lambda>(sv, c).
     (let sv = sv\<lparr>sv_finishedReqs := sv_finishedReqs sv + 1\<rparr>
      in if sv_finishedReqs sv = sv_warmupReqs sv
         then Some (case startRoi c of Aborted \<Rightarrow> Aborted | Returned c \<Rightarrow> Returned (Counted (sv, c)))
         else if sv_finishedReqs sv = sv_warmupReqs sv + sv_maxReqs sv
         then map_option (\<lambda>out. Returned (Dumped out)) (dumpStats c)
         else Some (Returned (Counted (sv, c)))))"

end
