(* ===== verification/Runs.thy ===== *)
theory Runs imports Main begin

section \<open>Runs of labelled steps\<close>

text \<open>
  A run is a list of labels with the steps they name.  An invariant with a budget, of which every step
  takes what its label costs, is carried along a run that the budget covers; with cost 0 it is an
  ordinary invariant.  The daemons and the servers of the benchmark interpret the locale.
\<close>


inductive run :: "('a \<Rightarrow> 's \<Rightarrow> 's \<Rightarrow> bool) \<Rightarrow> 's \<Rightarrow> 'a list \<Rightarrow> 's \<Rightarrow> bool" for step s where
  nil: "run step s [] s"
| snoc: "run step s as t \<Longrightarrow> step a t u \<Longrightarrow> run step s (as @ [a]) u"

inductive_simps run_nil: "run step s [] t"

lemma run_snoc: "run step s (as @ [a]) u \<longleftrightarrow> (\<exists>t. run step s as t \<and> step a t u)"
  by (auto elim: run.cases intro: run.intros)

lemma run_append: "run step s (as @ bs) u \<longleftrightarrow> (\<exists>t. run step s as t \<and> run step t bs u)"
proof (induction bs arbitrary: u rule: rev_induct)
  case (snoc b bs)
  have "run step s (as @ bs @ [b]) u \<longleftrightarrow> (\<exists>v. (\<exists>t. run step s as t \<and> run step t bs v) \<and> step b v u)"
    using snoc.IH run_snoc[of step s "as @ bs" b u] by auto
  then show ?case by (auto simp: run_snoc)
qed (simp add: run_nil)

lemma run_Cons: "run step s (a # as) u \<longleftrightarrow> (\<exists>t. step a s t \<and> run step t as u)"
  using run_append[of step s "[a]" as u] run_snoc[of step s "[]" a] by (simp add: run_nil)

lemma run_restrict: "run step s as t \<Longrightarrow> list_all P as \<Longrightarrow> run (\<lambda>a s t. step a s t \<and> P a) s as t"
  by (induction rule: run.induct) (auto intro: run.intros)

text \<open>Changing the state of one thread changes how many are in a state by one.\<close>

lemma filter_update:
  assumes "i < length xs"
  shows "length (filter P (xs[i := v])) + (if P (xs ! i) then 1 else 0) = length (filter P xs) + (if P v then 1 else 0)"
proof -
  have "xs = take i xs @ xs ! i # drop (Suc i) xs" using assms by (rule id_take_nth_drop)
  then have "length (filter P xs) = length (filter P (take i xs @ xs ! i # drop (Suc i) xs))" by simp
  then show ?thesis using assms by (simp add: upd_conv_take_nth_drop)
qed

locale budgeted_system =
  fixes step :: "'a \<Rightarrow> 's \<Rightarrow> 's \<Rightarrow> bool" and cost :: "'a \<Rightarrow> nat" and inv :: "nat \<Rightarrow> 's \<Rightarrow> bool"
  assumes step_inv: "inv (cost a + k) s \<Longrightarrow> step a s t \<Longrightarrow> inv k t"
begin

lemma run_inv: "run step s as t \<Longrightarrow> inv (sum_list (map cost as) + k) s \<Longrightarrow> inv k t"
proof (induction arbitrary: k rule: run.induct)
  case (snoc as t a u)
  have "inv (cost a + k) t" by (rule snoc.IH) (use snoc.prems in \<open>simp add: ac_simps\<close>)
  then show ?case using snoc.hyps(2) by (rule step_inv)
qed simp

end

end
