(* ===== verification/HarnessFacts.thy ===== *)
theory HarnessFacts imports HarnessServer Runs begin

section \<open>What the benchmark harness does with one message\<close>

text \<open>
  A request and a response arrive as they were sent, however the network cuts them up; the recorded
  times of every answered request add up and are read back from the file; arrivals are in order.
\<close>

subsection \<open>From the client to the server\<close>

definition sendable :: "Request \<Rightarrow> bool" where
  "sendable req \<longleftrightarrow> length (rq_data req) = unat (rq_len req) \<and> 0 < length (rq_data req) \<and>
     length (rq_data req) \<le> MAX_REQ_BYTES"

definition sample_request :: Request where
  "sample_request = \<lparr>rq_id = 7, rq_genNs = 1000, rq_len = 4, rq_data = ''term''\<rparr>"

lemma sample_sendable: "sendable sample_request"
  by (simp add: sendable_def sample_request_def MAX_REQ_BYTES_def)

definition sample_server :: NetworkedServer where
  "sample_server = Server.extend (new_Server (\<lambda>_. None) 1)
     \<lparr>sv_reqbuf = [sample_request\<lparr>rq_id := 0\<rparr>], sv_clientFds = [4, 5], sv_activeFds = [0], sv_recvClientHead = 1\<rparr>"

lemma int_of_size_small:
  assumes "unat n < 2 ^ 31"
  shows "int_of_size n = int (unat n)"
proof -
  have "int (unat n) < int (2 ^ 31)" using assms by (simp only: of_nat_less_iff)
  then have n: "0 \<le> uint n" "uint n < 2 ^ 31" by simp_all
  then have "uint n mod 2 ^ 32 = uint n" by (intro mod_pos_pos_trivial) simp_all
  then show ?thesis using n by (simp add: int_of_size_def)
qed

lemma find_the:
  assumes "x \<in> set xs" "P x" "\<forall>y. P y \<longrightarrow> y = x"
  shows "find P xs = Some x"
proof (cases "find P xs")
  case None
  then show ?thesis using assms(1,2) by (simp add: find_None_iff)
next
  case (Some y)
  then show ?thesis using assms(3) by (metis find_Some_iff)
qed

lemma pick_client_single: "fd \<in> set fds \<Longrightarrow> pick_client head fds {fd} = Some fd"
proof -
  assume "fd \<in> set fds"
  then obtain j where j: "j < length fds" "fds ! j = fd" by (auto simp: in_set_conv_nth)
  let ?n = "length fds"
  let ?i = "(j + (?n - head mod ?n)) mod ?n"
  have "(head + ?i) mod ?n = (head mod ?n + (j + (?n - head mod ?n))) mod ?n" by (simp add: mod_simps)
  also have "head mod ?n + (j + (?n - head mod ?n)) = j + ?n"
    using j(1) mod_less_divisor[of ?n head] by linarith
  finally have "fds ! ((head + ?i) mod ?n) = fd" using j by simp
  moreover have "?i < ?n" using j(1) by (intro mod_less_divisor) linarith
  ultimately have "fd \<in> set (map (\<lambda>i. fds ! ((head + i) mod ?n)) [0..<?n])"
    unfolding set_map set_upt by (intro image_eqI[of _ _ ?i]) simp_all
  then show ?thesis unfolding pick_client_def by (intro find_the) simp_all
qed

lemma request_header_not_Nil [simp]: "request_header r \<noteq> []"
proof
  assume "request_header r = []"
  then have "length (request_header r) = 0" by (simp only: list.size)
  then show False by simp
qed

lemma message_split:
  assumes "sendable req"
  shows "take 24 (request_message req @ s) = request_header req"
    "drop 24 (request_message req @ s) = rq_data req @ s"
  using assms by (simp_all add: request_message_def sendable_def)

lemma request_received:
  assumes "sendable req" "Io_failed \<notin> set ios" "client_send req ios = (ok, sent, ios')"
    and "socks fd = (sent @ later, script)" "Io_failed \<notin> set script"
    and "fd \<in> set (sv_clientFds sv)" "list_all (\<lambda>fd. 0 \<le> fd \<and> fd < 1024) (sv_clientFds sv)"
    and "0 \<le> tid" "tid < int (length (sv_reqbuf sv))"
  shows "ok \<and> sent = request_message req \<and> (\<exists>script'. recv_turn tid (Some {fd}) sv socks =
    Some (Turn_received fd req (sv\<lparr>sv_recvClientHead := (sv_recvClientHead sv + 1) mod length (sv_clientFds sv),
      sv_reqbuf := (sv_reqbuf sv)[nat tid := req]\<rparr>) (socks(fd := (later, script')))))"
proof -
  have sent: "sent = request_message req" "ok"
    using assms(2,3) sendfull_all[OF assms(2), of "request_message req"]
    by (auto simp: client_send_def Let_def split: prod.splits)
  have len: "length (rq_data req) = unat (rq_len req)" "0 < length (rq_data req)"
    "length (rq_data req) \<le> MAX_REQ_BYTES"
    using assms(1) unfolding sendable_def by blast+
  have size: "int_of_size (rq_len req) = int (length (rq_data req))"
    unfolding len(1) using len(1,3) by (intro int_of_size_small) (simp add: MAX_REQ_BYTES_def)
  have "24 \<le> length (sent @ later)" by (simp add: sent request_message_def)
  then obtain r1 where r1: "recvfull 24 (sent @ later) script = (request_header req, rq_data req @ later, r1)"
    "set r1 \<subseteq> set script"
    using recvfull_all[OF assms(5), of 24] message_split[OF assms(1)] unfolding sent by metis
  have "Io_failed \<notin> set r1" using r1(2) assms(5) by blast
  then obtain r2 where r2: "recvfull (length (rq_data req)) (rq_data req @ later) r1 = (rq_data req, later, r2)"
    using recvfull_all[of r1 "length (rq_data req)" "rq_data req @ later"] by auto
  let ?old = "sv_reqbuf sv ! nat tid"
  let ?sv = "sv\<lparr>sv_recvClientHead := (sv_recvClientHead sv + 1) mod length (sv_clientFds sv)\<rparr>"
  have old: "arr_get (sv_reqbuf sv) tid = Some ?old" using assms(8,9) by (simp add: arr_get_def)
  have set: "arr_set (sv_reqbuf sv) tid req = Some ((sv_reqbuf sv)[nat tid := req])"
    using assms(8,9) by (simp add: arr_set_def)
  have req: "?old\<lparr>rq_id := rq_id req, rq_genNs := rq_genNs req, rq_len := rq_len req, rq_data := rq_data req\<rparr> = req"
    by (rule Request.equality) simp_all
  have data: "receive_data tid fd (read_request_header (request_header req) ?old) ?sv (socks(fd := (rq_data req @ later, r1))) =
      Some (Turn_received fd req (?sv\<lparr>sv_reqbuf := (sv_reqbuf sv)[nat tid := req]\<rparr>) (socks(fd := (later, r2))))"
    using len(2,3) size r2 set by (simp add: receive_data_def request_header_read checkRecv_def Let_def req)
  have fds: "\<not> (\<exists>fd \<in> set (sv_clientFds sv). fd < 0 \<or> 1024 \<le> fd)" using assms(7) by (auto simp: list_all_iff)
  have "recv_turn tid (Some {fd}) sv socks =
      Some (Turn_received fd req (?sv\<lparr>sv_reqbuf := (sv_reqbuf sv)[nat tid := req]\<rparr>) (socks(fd := (later, r2))))"
    unfolding recv_turn_def if_not_P[OF fds]
    using pick_client_single[OF assms(6)] old r1(1) data by (simp add: assms(4) checkRecv_def Let_def)
  then show ?thesis using sent by blast
qed

text \<open>
  C34. What \<open>NetworkedClient::send\<close> sends, \<open>NetworkedServer::recvReq\<close> receives: a non-empty request that
  fits its buffer arrives with the same identifier, time, length and data, and the bytes behind it
  stay for the next call, however \<open>send\<close> and \<open>recv\<close> cut the message into pieces.
\<close>

theorem request_crosses_the_wire:
  assumes "sendable req" "Io_failed \<notin> set ios" "client_send req ios = (ok, sent, ios')"
    and "socks fd = (sent @ later, script)" "Io_failed \<notin> set script"
    and "fd \<in> set (sv_clientFds sv)" "list_all (\<lambda>fd. 0 \<le> fd \<and> fd < 1024) (sv_clientFds sv)"
    and "0 \<le> tid" "tid < int (length (sv_reqbuf sv))"
  shows "ok \<and> (\<exists>sv' script'. recv_turn tid (Some {fd}) sv socks =
    Some (Turn_received fd req sv' (socks(fd := (later, script')))) \<and>
    sv_reqbuf sv' = (sv_reqbuf sv)[nat tid := req] \<and> sv_clientFds sv' = sv_clientFds sv)"
  using request_received[where socks = socks and fd = fd, OF assms] by auto

theorem request_crosses_the_wire_witness:
  "\<exists>sv' script'. recv_turn 0 (Some {5}) sample_server (\<lambda>fd. (fst (snd (client_send sample_request [Moved 1, Moved 7])) @ ''next'', [Moved 3, Moved 0])) =
     Some (Turn_received 5 sample_request sv' ((\<lambda>fd. (fst (snd (client_send sample_request [Moved 1, Moved 7])) @ ''next'', [Moved 3, Moved 0]))(5 := (''next'', script'))))"
proof -
  obtain ok sent ios where c: "client_send sample_request [Moved 1, Moved 7] = (ok, sent, ios)"
    by (cases "client_send sample_request [Moved 1, Moved 7]") auto
  show ?thesis
    using request_crosses_the_wire[OF _ _ c, of "\<lambda>fd. (sent @ ''next'', [Moved 3, Moved 0])" 5 "''next''" "[Moved 3, Moved 0]" sample_server 0]
    unfolding c by (auto simp: sample_sendable sample_server_def new_Server_def Server.defs)
qed

text \<open>A request without data is taken for the end of its client, who is removed.\<close>

lemma empty_request_disconnects:
  assumes "rq_len req = 0" "socks fd = (request_header req @ later, script)" "Io_failed \<notin> set script"
    and "fd \<in> set (sv_clientFds sv)" "list_all (\<lambda>fd. 0 \<le> fd \<and> fd < 1024) (sv_clientFds sv)"
    and "0 \<le> tid" "tid < int (length (sv_reqbuf sv))"
  shows "\<exists>sv' socks'. recv_turn tid (Some {fd}) sv socks = Some (Turn_left sv' socks') \<and>
    sv_clientFds sv' = remove1 fd (sv_clientFds sv)"
proof -
  obtain r1 where r1: "recvfull 24 (request_header req @ later) script = (request_header req, later, r1)"
    using recvfull_all[OF assms(3), of 24 "request_header req @ later"] by auto
  obtain a b r2 where r2: "recvfull 0 later r1 = (a, b, r2)" "a = []" by (cases r1) simp_all
  have fds: "\<not> (\<exists>fd \<in> set (sv_clientFds sv). fd < 0 \<or> 1024 \<le> fd)" using assms(5) by (auto simp: list_all_iff)
  show ?thesis
    unfolding recv_turn_def if_not_P[OF fds]
    using pick_client_single[OF assms(4)] r1 r2 assms
    by (simp add: checkRecv_def Let_def receive_data_def request_header_read int_of_size_small arr_get_def arr_set_def removeClient_def)
qed

subsection \<open>From the server to the client\<close>

text \<open>What goes over the wire: the data only with an answer.\<close>

definition wire :: "Response \<Rightarrow> string" where
  "wire resp = (if rs_type resp = type_code RESPONSE then response_message resp else response_header resp)"

definition response_ok :: "Response \<Rightarrow> bool" where
  "response_ok resp \<longleftrightarrow> rs_type resp < 3 \<and> length (rs_data resp) = unat (rs_len resp) \<and>
     length (rs_data resp) \<le> MAX_RESP_BYTES"

lemma response_received:
  assumes "response_ok resp" "Io_failed \<notin> set script"
  shows "\<exists>script'. client_recv old (wire resp @ later) script =
    Some \<lparr>rc_success = True,
          rc_resp = (if rs_type resp = type_code RESPONSE then resp else resp\<lparr>rs_data := rs_data old\<rparr>),
          rc_locked = False, rc_bytes = later, rc_ios = script'\<rparr>"
proof -
  have ok: "rs_type resp < 256 ^ 4" "length (rs_data resp) = unat (rs_len resp)" "length (rs_data resp) \<le> MAX_RESP_BYTES"
    using assms(1) by (simp_all add: response_ok_def)
  have len: "unat (rs_len resp) mod 2 ^ 32 = unat (rs_len resp)" "\<not> (2 :: nat) ^ 31 \<le> unat (rs_len resp)"
    using ok by (simp_all add: MAX_RESP_BYTES_def)
  let ?rest = "if rs_type resp = type_code RESPONSE then rs_data resp @ later else later"
  have w: "wire resp @ later = response_header resp @ ?rest" using ok(2) by (simp add: wire_def response_message_def)
  obtain r1 where r1: "recvfull 32 (wire resp @ later) script = (response_header resp, ?rest, r1)" "set r1 \<subseteq> set script"
    using recvfull_all[OF assms(2), of 32 "response_header resp @ ?rest"] unfolding w by auto
  show ?thesis
  proof (cases "rs_type resp = type_code RESPONSE")
    case False
    then show ?thesis
      using r1 by (simp add: client_recv_def Let_def response_header_read[OF ok(1)])
  next
    case True
    have "Io_failed \<notin> set r1" using r1(2) assms(2) by blast
    then obtain r2 where r2: "recvfull (unat (rs_len resp)) (rs_data resp @ later) r1 = (rs_data resp, later, r2)"
      using recvfull_all[of r1 "unat (rs_len resp)" "rs_data resp @ later"] ok(2) by auto
    have resp: "old\<lparr>rs_type := type_code RESPONSE, rs_id := rs_id resp, rs_svcNs := rs_svcNs resp, rs_len := rs_len resp,
        rs_data := rs_data resp\<rparr> = resp"
      by (rule Response.equality) (simp_all add: True)
    show ?thesis
      using r1 r2 True ok(2,3) len
      by (simp add: client_recv_def Let_def response_header_read[OF ok(1)] resp)
  qed
qed

text \<open>
  Every message of a server is received by \<open>NetworkedClient::recv\<close> with its type, identifier, service
  time and length, and an answer with its data, however the network cuts it up; the lock is
  released and the bytes behind the message stay for the next call.
\<close>

lemma response_crosses_the_wire:
  assumes "response_ok resp" "Io_failed \<notin> set script"
  shows "\<exists>script'. client_recv old (wire resp @ later) script =
    Some \<lparr>rc_success = True,
          rc_resp = (if rs_type resp = type_code RESPONSE then resp else resp\<lparr>rs_data := rs_data old\<rparr>),
          rc_locked = False, rc_bytes = later, rc_ios = script'\<rparr>"
  using assms by (rule response_received)

definition sample_response :: Response where
  "sample_response = \<lparr>rs_type = 0, rs_id = 7, rs_svcNs = 250, rs_len = 3, rs_data = ''doc''\<rparr>"

lemma response_crosses_the_wire_witness:
  "\<exists>script'. client_recv sample_response (wire sample_response @ ''more'') [Moved 5, Moved 0, Moved 100] =
     Some \<lparr>rc_success = True, rc_resp = sample_response, rc_locked = False, rc_bytes = ''more'', rc_ios = script'\<rparr>"
proof -
  have "response_ok sample_response" "rs_type sample_response = type_code RESPONSE"
    by (simp_all add: response_ok_def sample_response_def MAX_RESP_BYTES_def)
  then show ?thesis
    using response_crosses_the_wire[of sample_response "[Moved 5, Moved 0, Moved 100]" sample_response "''more''"] by simp
qed

text \<open>A connection that ends before a message does leaves the lock of the receivers locked.\<close>

lemma failed_recv_keeps_lock:
  "client_recv old s script = Some r \<Longrightarrow> rc_locked r \<longleftrightarrow> \<not> rc_success r"
  by (auto simp: client_recv_def Let_def split: prod.splits if_splits)

subsection \<open>The recorded times\<close>

definition times_ok :: "Client \<Rightarrow> bool" where
  "times_ok c \<longleftrightarrow> length (cl_queueTimes c) = length (cl_sjrnTimes c) \<and> length (cl_svcTimes c) = length (cl_sjrnTimes c) \<and>
     (\<forall>i < length (cl_sjrnTimes c). unat (cl_queueTimes c ! i) + unat (cl_svcTimes c ! i) = unat (cl_sjrnTimes c ! i))"

lemma record_times_ok:
  assumes "record_times resp req curNs c = Returned c'" "times_ok c"
  shows "times_ok c'" "length (cl_sjrnTimes c') = Suc (length (cl_sjrnTimes c))" "cl_status c' = cl_status c"
    "cl_inFlightReqs c' = cl_inFlightReqs c" "cl_startedReqs c' = cl_startedReqs c" "cl_dist c' = cl_dist c"
proof -
  let ?sjrn = "curNs - rq_genNs req"
  have le: "rs_svcNs resp \<le> ?sjrn"
    and c': "c' = c\<lparr>cl_queueTimes := cl_queueTimes c @ [?sjrn - rs_svcNs resp],
      cl_svcTimes := cl_svcTimes c @ [rs_svcNs resp], cl_sjrnTimes := cl_sjrnTimes c @ [?sjrn]\<rparr>"
    using assms(1) by (auto simp: record_times_def Let_def not_less split: if_splits)
  have "unat (?sjrn - rs_svcNs resp) + unat (rs_svcNs resp) = unat ?sjrn"
    using le by (simp add: unat_sub word_le_nat_alt)
  then show "times_ok c'" using assms(2) by (auto simp: times_ok_def c' nth_append less_Suc_eq)
qed (use assms(1) in \<open>auto simp: record_times_def Let_def split: if_splits\<close>)

lemma dump_row_ok:
  "times_ok c \<Longrightarrow> i < length (cl_sjrnTimes c) \<Longrightarrow>
   dump_row c i = Some (word_bytes (cl_queueTimes c ! i) @ word_bytes (cl_svcTimes c ! i) @ word_bytes (cl_sjrnTimes c ! i))"
  by (simp add: times_ok_def dump_row_def)

lemma dumpStats_rows:
  assumes "times_ok c"
  shows "\<exists>out. dumpStats c = Some out \<and> length out = 24 * length (cl_sjrnTimes c) \<and>
    (\<forall>i < length (cl_sjrnTimes c). take 24 (drop (24 * i) out) = the (dump_row c i))"
proof -
  let ?n = "length (cl_sjrnTimes c)"
  let ?P = "\<lambda>i out. length out = 24 * i \<and> (\<forall>j < i. take 24 (drop (24 * j) out) = the (dump_row c j))"
  have "\<exists>out. dumpStats c = Some out \<and> ?P (0 + ?n) out"
    unfolding dumpStats_def
  proof (rule for_loop_total)
    show "?P 0 []" by simp
    fix i out
    assume i: "i < 0 + ?n" and p: "?P i out"
    let ?row = "word_bytes (cl_queueTimes c ! i) @ word_bytes (cl_svcTimes c ! i) @ word_bytes (cl_sjrnTimes c ! i)"
    have row: "dump_row c i = Some ?row" "length ?row = 24" using dump_row_ok[OF assms] i by simp_all
    have "take 24 (drop (24 * j) (out @ ?row)) = the (dump_row c j)" if "j < Suc i" for j
    proof (cases "j = i")
      case True
      then show ?thesis using p row by simp
    next
      case False
      then have "24 * j + 24 \<le> length out" using p that by simp
      then show ?thesis using p that False by simp
    qed
    then show "\<exists>y. map_option (\<lambda>row. out @ row) (dump_row c i) = Some y \<and> ?P (Suc i) y"
      using p row by (intro exI[of _ "out @ ?row"]) simp
  qed
  then show ?thesis by simp
qed

subsection \<open>The operations of a client in any order\<close>

datatype client_event = Start u64 string fp u64 | Fini Response u64 | Begin_roi

definition client_step :: "client_event \<Rightarrow> Client \<Rightarrow> Client \<Rightarrow> bool" where
  "client_step ev c c' = (case ev of
       Start initNs data x curNs \<Rightarrow> (\<exists>req sleep. startReq initNs data x curNs c = Some (req, sleep, c'))
     | Fini resp curNs \<Rightarrow> finiReq resp curNs c = Returned c'
     | Begin_roi \<Rightarrow> startRoi c = Returned c')"

fun is_Fini :: "client_event \<Rightarrow> bool" where
  "is_Fini (Fini resp curNs) = True"
| "is_Fini _ = False"

definition recorded :: "client_event list \<Rightarrow> nat" where
  "recorded evs = (if Begin_roi \<in> set evs
     then length (filter is_Fini (takeWhile (\<lambda>e. e \<noteq> Begin_roi) (rev evs))) else 0)"

lemma recorded_snoc:
  "recorded (evs @ [ev]) = (if ev = Begin_roi then 0
     else recorded evs + (if Begin_roi \<in> set evs \<and> is_Fini ev then 1 else 0))"
  by (auto simp: recorded_def)

lemma begin_warmup_times:
  "cl_queueTimes (begin_warmup t c) = cl_queueTimes c" "cl_svcTimes (begin_warmup t c) = cl_svcTimes c"
  "cl_sjrnTimes (begin_warmup t c) = cl_sjrnTimes c" "cl_inFlightReqs (begin_warmup t c) = cl_inFlightReqs c"
  "cl_startedReqs (begin_warmup t c) = cl_startedReqs c" "cl_minSleepNs (begin_warmup t c) = cl_minSleepNs c"
  "cl_status (begin_warmup t c) = ROI \<longleftrightarrow> cl_status c = ROI"
  by (simp_all add: begin_warmup_def)

lemma startReq_result:
  assumes "startReq initNs data x curNs c = Some (req, sleep, c')"
  obtains genNs where "length data \<le> MAX_REQ_BYTES"
    "req = \<lparr>rq_id = cl_startedReqs c, rq_genNs = genNs, rq_len = of_nat (length data), rq_data = data\<rparr>"
    "c' = (begin_warmup initNs c)\<lparr>cl_startedReqs := cl_startedReqs c + 1, cl_dist := Some genNs,
       cl_inFlightReqs := (cl_inFlightReqs c)(cl_startedReqs c \<mapsto> req)\<rparr>"
proof -
  let ?w = "begin_warmup initNs c"
  obtain c1 where new: "new_request data x ?w = Some (req, c1)" and c1: "c1 = c'"
    using assms unfolding startReq_def by (cases "new_request data x ?w") auto
  have fits: "\<not> MAX_REQ_BYTES < length data" using new by (simp add: new_request_def split: if_splits)
  obtain curNs' genNs where "cl_dist ?w = Some curNs'" "nextArrivalNs x curNs' = Some genNs"
    using new fits by (cases "cl_dist ?w"; cases "nextArrivalNs x (the (cl_dist ?w))") (simp_all add: new_request_def)
  then have "req = \<lparr>rq_id = cl_startedReqs c, rq_genNs = genNs, rq_len = of_nat (length data), rq_data = data\<rparr> \<and>
     c' = ?w\<lparr>cl_startedReqs := cl_startedReqs c + 1, cl_dist := Some genNs,
       cl_inFlightReqs := (cl_inFlightReqs c)(cl_startedReqs c \<mapsto> req)\<rparr>"
    using new fits by (auto simp: new_request_def Let_def begin_warmup_times c1)
  then show thesis using that fits by simp
qed

lemma startReq_effect:
  assumes "startReq initNs data x curNs c = Some (req, sleep, c')"
  shows "length data \<le> MAX_REQ_BYTES" "rq_id req = cl_startedReqs c" "rq_len req = of_nat (length data)" "rq_data req = data"
    "cl_inFlightReqs c' = (cl_inFlightReqs c)(cl_startedReqs c \<mapsto> req)" "cl_startedReqs c' = cl_startedReqs c + 1"
    "times_ok c' = times_ok c" "cl_sjrnTimes c' = cl_sjrnTimes c" "cl_status c' = ROI \<longleftrightarrow> cl_status c = ROI"
    "cl_status c' = cl_status (begin_warmup initNs c)" "cl_dist c' \<noteq> None"
proof -
  obtain genNs where r: "length data \<le> MAX_REQ_BYTES"
    "req = \<lparr>rq_id = cl_startedReqs c, rq_genNs = genNs, rq_len = of_nat (length data), rq_data = data\<rparr>"
    "c' = (begin_warmup initNs c)\<lparr>cl_startedReqs := cl_startedReqs c + 1, cl_dist := Some genNs,
       cl_inFlightReqs := (cl_inFlightReqs c)(cl_startedReqs c \<mapsto> req)\<rparr>"
    by (rule startReq_result[OF assms]) blast
  have queues: "times_ok c' = times_ok c" by (simp add: r(3) times_ok_def begin_warmup_times)
  show "length data \<le> MAX_REQ_BYTES" "rq_id req = cl_startedReqs c" "rq_len req = of_nat (length data)" "rq_data req = data"
     "cl_inFlightReqs c' = (cl_inFlightReqs c)(cl_startedReqs c \<mapsto> req)" "cl_startedReqs c' = cl_startedReqs c + 1"
     "times_ok c' = times_ok c" "cl_sjrnTimes c' = cl_sjrnTimes c" "cl_status c' = ROI \<longleftrightarrow> cl_status c = ROI"
     "cl_status c' = cl_status (begin_warmup initNs c)" "cl_dist c' \<noteq> None"
    using queues by (simp_all add: r begin_warmup_times)
qed

lemma startRoi_effect:
  assumes "startRoi c = Returned c'"
  shows "cl_status c = WARMUP" "cl_status c' = ROI" "times_ok c'" "cl_sjrnTimes c' = []"
    "cl_inFlightReqs c' = cl_inFlightReqs c" "cl_startedReqs c' = cl_startedReqs c" "cl_dist c' = cl_dist c"
  using assms by (auto simp: startRoi_def times_ok_def split: if_splits)

lemma finiReq_effect:
  assumes "finiReq resp curNs c = Returned c'" "times_ok c"
  shows "cl_inFlightReqs c (rs_id resp) \<noteq> None" "times_ok c'" "cl_status c' = cl_status c"
    "cl_inFlightReqs c' = (cl_inFlightReqs c)(rs_id resp := None)" "cl_startedReqs c' = cl_startedReqs c"
    "length (cl_sjrnTimes c') = length (cl_sjrnTimes c) + (if cl_status c = ROI then 1 else 0)"
    "cl_dist c' = cl_dist c"
proof -
  obtain req c1 where r: "cl_inFlightReqs c (rs_id resp) = Some req"
    "(if cl_status c = ROI then record_times resp req curNs c else Returned c) = Returned c1"
    "c' = c1\<lparr>cl_inFlightReqs := (cl_inFlightReqs c1)(rs_id resp := None)\<rparr>"
    using assms(1) by (auto simp: finiReq_def split: option.splits checked.splits)
  have c1: "times_ok c1 \<and> cl_status c1 = cl_status c \<and> cl_inFlightReqs c1 = cl_inFlightReqs c \<and>
    cl_startedReqs c1 = cl_startedReqs c \<and> cl_dist c1 = cl_dist c \<and>
    length (cl_sjrnTimes c1) = length (cl_sjrnTimes c) + (if cl_status c = ROI then 1 else 0)"
  proof (cases "cl_status c = ROI")
    case True
    then have rec: "record_times resp req curNs c = Returned c1" using r(2) by simp
    show ?thesis using record_times_ok[OF rec assms(2)] True by simp
  next
    case False
    then have "c1 = c" using r(2) by simp
    then show ?thesis using assms(2) False by simp
  qed
  have "times_ok c' = times_ok c1" by (simp add: r(3) times_ok_def)
  then show "times_ok c'" using c1 by simp
  show "cl_inFlightReqs c (rs_id resp) \<noteq> None" "cl_status c' = cl_status c"
    "cl_inFlightReqs c' = (cl_inFlightReqs c)(rs_id resp := None)" "cl_startedReqs c' = cl_startedReqs c"
    "length (cl_sjrnTimes c') = length (cl_sjrnTimes c) + (if cl_status c = ROI then 1 else 0)"
    "cl_dist c' = cl_dist c"
    using c1 by (simp_all add: r)
qed

lemma client_run_times:
  assumes "run client_step (new_Client read_double env) evs c"
  shows "times_ok c \<and> length (cl_sjrnTimes c) = recorded evs \<and> (cl_status c = ROI \<longleftrightarrow> Begin_roi \<in> set evs)"
  using assms
proof (induction rule: run.induct)
  case nil
  then show ?case by (simp add: new_Client_def times_ok_def recorded_def)
next
  case (snoc evs c ev c')
  then have ok: "times_ok c" "length (cl_sjrnTimes c) = recorded evs" "cl_status c = ROI \<longleftrightarrow> Begin_roi \<in> set evs"
    by simp_all
  show ?case
  proof (cases ev)
    case (Start initNs data x curNs)
    then obtain req sleep where "startReq initNs data x curNs c = Some (req, sleep, c')"
      using snoc.hyps(2) by (auto simp: client_step_def)
    from startReq_effect(7-9)[OF this] ok Start show ?thesis by (simp add: recorded_snoc)
  next
    case (Fini resp curNs)
    then have "finiReq resp curNs c = Returned c'" using snoc.hyps(2) by (simp add: client_step_def)
    from finiReq_effect(2,3,6)[OF this ok(1)] ok Fini show ?thesis by (simp add: recorded_snoc)
  next
    case Begin_roi
    then have "startRoi c = Returned c'" using snoc.hyps(2) by (simp add: client_step_def)
    from startRoi_effect(2-4)[OF this] Begin_roi show ?thesis by (simp add: recorded_snoc)
  qed
qed


text \<open>A client with one request, answered in the region of interest.\<close>

definition sample_events :: "client_event list" where
  "sample_events = [Start 1000 ''cat'' (Fin 500) 900, Begin_roi,
     Fini \<lparr>rs_type = 0, rs_id = 0, rs_svcNs = 250, rs_len = 0, rs_data = []\<rparr> 2000]"

definition first_request :: Request where
  "first_request = \<lparr>rq_id = 0, rq_genNs = 1500, rq_len = 3, rq_data = ''cat''\<rparr>"

definition sample_client :: Client where
  "sample_client = \<lparr>cl_status = ROI, cl_minSleepNs = 0, cl_seed = 0, cl_lambda = fp_mul r64 (Fin 1000) (r64 (1 / 10 ^ 9)), cl_dist = Some 1500,
     cl_startedReqs = 1, cl_inFlightReqs = Map.empty, cl_svcTimes = [250], cl_queueTimes = [250], cl_sjrnTimes = [500]\<rparr>"

lemma sample_arrival: "nextArrivalNs (Fin 500) 1000 = Some 1500"
  by code_simp

lemma sample_steps:
  defines "c0 \<equiv> new_Client (\<lambda>_. None) (\<lambda>_. None)"
  defines "c1 \<equiv> sample_client\<lparr>cl_status := WARMUP, cl_inFlightReqs := [0 \<mapsto> first_request], cl_svcTimes := [],
    cl_queueTimes := [], cl_sjrnTimes := []\<rparr>"
  shows "client_step (Start 1000 ''cat'' (Fin 500) 900) c0 c1"
    "client_step Begin_roi c1 (c1\<lparr>cl_status := ROI\<rparr>)"
    "client_step (Fini \<lparr>rs_type = 0, rs_id = 0, rs_svcNs = 250, rs_len = 0, rs_data = []\<rparr> 2000) (c1\<lparr>cl_status := ROI\<rparr>)
       sample_client"
proof -
  show "client_step (Start 1000 ''cat'' (Fin 500) 900) c0 c1"
    by (simp add: Let_def c0_def c1_def client_step_def startReq_def new_request_def begin_warmup_def sample_arrival
        new_Client_def sample_client_def first_request_def MAX_REQ_BYTES_def getOpt_int_def getOpt_double_def)
qed (simp_all add: c1_def client_step_def startRoi_def finiReq_def record_times_def sample_client_def first_request_def)


subsection \<open>Arrivals\<close>

lemma representable_floor:
  assumes "representable p emin x" "0 \<le> x" "emin \<le> int p - 1"
  shows "representable p emin (of_int \<lfloor>x\<rfloor>)"
proof -
  obtain m e where m: "x = of_int m * 2 powi e" "\<bar>m\<bar> < 2 ^ p" "emin - (int p - 1) \<le> e"
    using assms(1) by (auto simp: representable_def)
  show ?thesis
  proof (cases "0 \<le> e")
    case True
    then have x: "x = of_int (m * 2 ^ nat e)" by (simp add: m(1) power_int_def)
    have "of_int \<lfloor>x\<rfloor> = x" unfolding x floor_of_int ..
    then show ?thesis using assms(1) by (simp only:)
  next
    case False
    then have "x = of_int m / of_int (2 ^ nat (- e))" by (simp add: m(1) power_int_def field_simps)
    then have fl: "\<lfloor>x\<rfloor> = m div 2 ^ nat (- e)" by (simp only: floor_divide_of_int_eq)
    have "\<not> 2 powi e \<le> (0 :: rat)" by (simp add: not_le)
    with assms(2) have "0 \<le> m" by (simp only: m(1) zero_le_mult_iff of_int_0_le_iff) simp
    then have "0 \<le> \<lfloor>x\<rfloor>" "\<lfloor>x\<rfloor> \<le> m"
      unfolding fl using zdiv_mono2[of m 1 "2 ^ nat (- e)"] pos_imp_zdiv_nonneg_iff[of "2 ^ nat (- e)" m] by simp_all
    then have "\<bar>\<lfloor>x\<rfloor>\<bar> < 2 ^ p" using m(2) by linarith
    then show ?thesis unfolding representable_def using assms(3)
      by (intro exI[of _ "\<lfloor>x\<rfloor>"] exI[of _ 0]) simp
  qed
qed

lemma exact64_floor: "exact64 x \<Longrightarrow> 0 \<le> x \<Longrightarrow> exact64 (of_int \<lfloor>x\<rfloor>)"
  unfolding exact64_def using representable_floor[of 53 "- 1022" x] of_int_floor_le[of x] by auto

lemma nextArrivalNs_later:
  assumes "nextArrivalNs x curNs = Some t" "fp_nonneg x"
  shows "exact64 (of_int (uint t))" "exact64 (of_int (uint curNs)) \<Longrightarrow> curNs \<le> t"
proof -
  obtain y where y: "fp_add r64 (fp_of_int r64 (uint curNs)) x = Fin y" and t: "t = word_of_int (rat_trunc y)"
    and fits: "0 \<le> rat_trunc y" "rat_trunc y < 2 ^ 64"
    using assms(1) by (auto simp: nextArrivalNs_def fp_to_u64_def Let_def split: fp.splits if_splits)
  obtain a q where aq: "fp_of_int r64 (uint curNs) = Fin a" "x = Fin q" "r64 (a + q) = Fin y"
    using y assms(2) by (cases x; cases "fp_of_int r64 (uint curNs)") auto
  have pos: "0 \<le> a" "0 \<le> q"
    using dbl.of_int_nonneg[of "uint curNs"] assms(2) by (simp_all add: aq)
  have "fp_nonneg (Fin y)" using dbl.rn_nonneg[of "a + q"] pos by (simp add: aq(3))
  then have y0: "0 \<le> y" by simp
  have "uint (word_of_int n :: u64) = n" if "0 \<le> n" "n < 2 ^ 64" for n
    using that by (simp add: uint_word_of_int)
  then have ut: "uint t = \<lfloor>y\<rfloor>" using fits y0 by (simp only: t rat_trunc_def if_True)
  show "exact64 (of_int (uint t))" using exact64_floor[OF dbl.rn_result[OF aq(3)] y0] by (simp add: ut)
  assume "exact64 (of_int (uint curNs))"
  then have a: "a = of_int (uint curNs)" using aq(1) by (simp add: fp_of_int_def dbl.rn_exact)
  have "fp_le (r64 a) (r64 (a + q))" using pos by (intro dbl.rn_mono) simp
  moreover have "r64 a = Fin a" using aq(1) by (simp add: fp_of_int_def a)
  ultimately have "a \<le> y" by (simp add: fp_le_def aq(3))
  then have "uint curNs \<le> uint t" by (simp add: a ut le_floor_iff)
  then show "curNs \<le> t" by (simp add: word_le_def)
qed

lemma arrivals_in_order:
  "arrivals xs curNs = Some ts \<Longrightarrow> list_all fp_nonneg xs \<Longrightarrow>
   length ts = length xs \<and> sorted ts \<and> list_all (\<lambda>t. exact64 (of_int (uint t))) ts \<and>
   (exact64 (of_int (uint curNs)) \<longrightarrow> list_all (\<lambda>t. curNs \<le> t) ts)"
proof (induction xs arbitrary: curNs ts)
  case (Cons x xs)
  obtain t rest where t: "nextArrivalNs x curNs = Some t" "arrivals xs t = Some rest" "ts = t # rest"
    using Cons.prems(1) by (auto simp: bind_eq_Some_conv)
  have later: "exact64 (of_int (uint t))" "exact64 (of_int (uint curNs)) \<longrightarrow> curNs \<le> t"
    using nextArrivalNs_later[OF t(1)] Cons.prems(2) by auto
  then show ?case
    using Cons.IH[OF t(2)] Cons.prems(2) t(3) by (auto simp: list_all_iff)
qed simp

text \<open>
  C36. Arrivals that are drawn one after the other from gaps that are not negative are in order: the
  clock goes through \<open>double\<close>, so that every arrival is a whole number that a \<open>double\<close> holds exactly,
  and adding a gap to such a number never leads back.  The time at which the clock starts need not be
  one: only the first arrival may then precede it.
\<close>

theorem arrivals_sorted:
  assumes "arrivals xs curNs = Some ts" "list_all fp_nonneg xs"
  shows "length ts = length xs \<and> sorted ts \<and> list_all (\<lambda>t. exact64 (of_int (uint t))) ts \<and>
    (exact64 (of_int (uint curNs)) \<longrightarrow> list_all (\<lambda>t. curNs \<le> t) ts)"
  using assms by (rule arrivals_in_order)

text \<open>A clock that starts between two doubles; the gap of nothing leads to the one below.\<close>

theorem arrivals_sorted_witness:
  "list_all (\<lambda>t. exact64 (of_int (uint t))) [9007199254740992, 9007199254741092 :: u64] \<and>
   (9007199254740992 :: u64) < 9007199254740993"
proof -
  have "arrivals [Fin 0, Fin 100] 9007199254740993 = Some [9007199254740992, 9007199254741092]" by code_simp
  from arrivals_sorted[OF this] show ?thesis by simp
qed

end
