(* ===== verification/HarnessIntegrated.thy ===== *)
theory HarnessIntegrated imports HarnessFacts begin

section \<open>The integrated server as a whole\<close>

text \<open>
  The threads of an \<open>IntegratedServer\<close> in any interleaving: each takes a request, answers it under the
  lock of the client, and counts it after taking the lock again.  The process ends with \<open>lats.bin\<close>.
\<close>

subsection \<open>The threads\<close>

datatype worker = Idle | Working | Answered

record measuring =
  ms_server :: Server
  ms_client :: Client
  ms_workers :: "worker list"
  ms_dumped :: "string option"

datatype integrated_event =
    Receives nat u64 string fp u64 u64
  | Answers nat string u64 u64
  | Counts nat

text \<open>\<open>recvReq\<close> reads the clock after \<open>startReq\<close> has slept.\<close>

definition awake :: "u64 option \<Rightarrow> u64 \<Rightarrow> u64 \<Rightarrow> bool" where
  "awake sleep wakeNs curNs \<longleftrightarrow> (case sleep of None \<Rightarrow> wakeNs | Some t \<Rightarrow> t) \<le> curNs"

fun integrated_step :: "integrated_event \<Rightarrow> measuring \<Rightarrow> measuring \<Rightarrow> bool" where
  "integrated_step (Receives i initNs data x wakeNs curNs) s t \<longleftrightarrow>
     ms_dumped s = None \<and> i < length (ms_workers s) \<and> ms_workers s ! i = Idle \<and>
     (\<exists>req sleep sv c. integrated_recvReq (int i) initNs data x wakeNs curNs (ms_server s, ms_client s) =
          Some (req, sleep, sv, c) \<and> awake sleep wakeNs curNs \<and>
        t = s\<lparr>ms_server := sv, ms_client := c, ms_workers := (ms_workers s)[i := Working]\<rparr>)"
| "integrated_step (Answers i data curNs finiNs) s t \<longleftrightarrow>
     ms_dumped s = None \<and> i < length (ms_workers s) \<and> ms_workers s ! i = Working \<and> curNs \<le> finiNs \<and>
     (\<exists>sv c. integrated_answer (int i) data curNs finiNs (ms_server s, ms_client s) = Some (Returned (sv, c)) \<and>
        t = s\<lparr>ms_server := sv, ms_client := c, ms_workers := (ms_workers s)[i := Answered]\<rparr>)"
| "integrated_step (Counts i) s t \<longleftrightarrow>
     ms_dumped s = None \<and> i < length (ms_workers s) \<and> ms_workers s ! i = Answered \<and>
     (case integrated_count (ms_server s, ms_client s) of
        Some (Returned (Counted (sv, c))) \<Rightarrow>
          t = s\<lparr>ms_server := sv, ms_client := c, ms_workers := (ms_workers s)[i := Idle]\<rparr>
      | Some (Returned (Dumped out)) \<Rightarrow> t = s\<lparr>ms_dumped := Some out\<rparr>
      | _ \<Rightarrow> False)"

definition integrated_start :: "(string \<Rightarrow> fp option) \<Rightarrow> (string \<Rightarrow> string option) \<Rightarrow> nat \<Rightarrow> measuring" where
  "integrated_start read_double env n = \<lparr>ms_server = new_Server env n, ms_client = new_Client read_double env,
     ms_workers = replicate n Idle, ms_dumped = None\<rparr>"

subsection \<open>The invariant\<close>

abbreviation busy :: "worker list \<Rightarrow> nat" where
  "busy ws \<equiv> length (filter (\<lambda>w. w \<noteq> Idle) ws)"

abbreviation answered :: "worker list \<Rightarrow> nat" where
  "answered ws \<equiv> length (filter (\<lambda>w. w = Answered) ws)"

text \<open>A working thread's request is in flight, and is its own; its time has come.\<close>

definition claims_ok :: "ReqInfo list \<Rightarrow> worker list \<Rightarrow> Client \<Rightarrow> bool" where
  "claims_ok infos ws c \<longleftrightarrow>
     (\<forall>i < length ws. ws ! i = Working \<longrightarrow> (\<exists>req. cl_inFlightReqs c (ri_id (infos ! i)) = Some req \<and>
        rq_genNs req \<le> ri_startNs (infos ! i))) \<and>
     (\<forall>i < length ws. \<forall>j < length ws. ws ! i = Working \<longrightarrow> ws ! j = Working \<longrightarrow> i \<noteq> j \<longrightarrow>
        ri_id (infos ! i) \<noteq> ri_id (infos ! j)) \<and>
     (\<forall>a. cl_inFlightReqs c a \<noteq> None \<longrightarrow> a < cl_startedReqs c)"

text \<open>What the counters say of the region of interest.\<close>

definition phase_ok :: "nat \<Rightarrow> nat \<Rightarrow> nat \<Rightarrow> nat \<Rightarrow> nat \<Rightarrow> Client \<Rightarrow> bool" where
  "phase_ok n W M F A c \<longleftrightarrow> F < W + M \<and> cl_status c \<noteq> FINISHED \<and>
     (cl_status c = INIT \<longrightarrow> cl_startedReqs c = 0 \<and> cl_dist c = None) \<and> (cl_status c = ROI \<longleftrightarrow> 0 < W \<and> W \<le> F) \<and>
     (if cl_status c = ROI then length (cl_sjrnTimes c) + W \<le> F + A \<and> F + A + 1 \<le> length (cl_sjrnTimes c) + W + n
      else cl_sjrnTimes c = [])"

definition server_shape :: "nat \<Rightarrow> u64 \<Rightarrow> u64 \<Rightarrow> Server \<Rightarrow> worker list \<Rightarrow> bool" where
  "server_shape n W M sv ws \<longleftrightarrow> length ws = n \<and> length (sv_reqInfo sv) = n \<and> sv_warmupReqs sv = W \<and> sv_maxReqs sv = M"

definition measuring_ok :: "nat \<Rightarrow> u64 \<Rightarrow> u64 \<Rightarrow> measuring \<Rightarrow> bool" where
  "measuring_ok n W M s \<longleftrightarrow> server_shape n W M (ms_server s) (ms_workers s) \<and> times_ok (ms_client s) \<and>
     unat (cl_startedReqs (ms_client s)) = unat (sv_finishedReqs (ms_server s)) + busy (ms_workers s) \<and>
     phase_ok n (unat W) (unat M) (unat (sv_finishedReqs (ms_server s))) (answered (ms_workers s)) (ms_client s) \<and>
     claims_ok (sv_reqInfo (ms_server s)) (ms_workers s) (ms_client s)"

definition dumped_ok :: "nat \<Rightarrow> u64 \<Rightarrow> u64 \<Rightarrow> string \<Rightarrow> bool" where
  "dumped_ok n W M out \<longleftrightarrow> (if W = 0 then out = []
     else \<exists>rows. length out = 24 * rows \<and> unat M + 1 \<le> rows + n \<and> rows + 1 \<le> unat M + n)"

definition integrated_inv :: "nat \<Rightarrow> u64 \<Rightarrow> u64 \<Rightarrow> measuring \<Rightarrow> bool" where
  "integrated_inv n W M s \<longleftrightarrow> (case ms_dumped s of None \<Rightarrow> measuring_ok n W M s | Some out \<Rightarrow> dumped_ok n W M out)"

lemma busy_update:
  assumes "i < length ws"
  shows "busy (ws[i := w]) + (if ws ! i \<noteq> Idle then 1 else 0) = busy ws + (if w \<noteq> Idle then 1 else 0)"
    "answered (ws[i := w]) + (if ws ! i = Answered then 1 else 0) = answered ws + (if w = Answered then 1 else 0)"
  by (rule filter_update[OF assms])+

subsection \<open>Every step keeps it\<close>

lemma claims_receive:
  assumes "claims_ok infos ws c" "i < length ws" "length infos = length ws" "rq_genNs req \<le> t"
    and "cl_inFlightReqs c' = (cl_inFlightReqs c)(cl_startedReqs c \<mapsto> req)"
    and "cl_startedReqs c' = cl_startedReqs c + 1" "cl_startedReqs c < cl_startedReqs c + 1"
  shows "claims_ok (infos[i := \<lparr>ri_id = cl_startedReqs c, ri_startNs = t\<rparr>]) (ws[i := Working]) c'"
proof -
  have fresh: "cl_inFlightReqs c (cl_startedReqs c) = None" using assms(1) by (auto simp: claims_ok_def)
  have other: "ri_id (infos ! j) \<noteq> cl_startedReqs c \<and> cl_startedReqs c \<noteq> ri_id (infos ! j)"
    if "j < length ws" "ws ! j = Working" for j
  proof -
    have "cl_inFlightReqs c (ri_id (infos ! j)) \<noteq> None" using assms(1) that by (auto simp: claims_ok_def)
    then show ?thesis using fresh by auto
  qed
  have "a < cl_startedReqs c + 1" if "a < cl_startedReqs c" for a using that assms(7) by (rule less_trans)
  then show ?thesis
    using assms other unfolding claims_ok_def
    by (auto simp: nth_list_update split: if_splits)
qed

lemma claims_answer:
  assumes "claims_ok infos ws c" "i < length ws" "ws ! i = Working"
    and "cl_inFlightReqs c' = (cl_inFlightReqs c)(ri_id (infos ! i) := None)" "cl_startedReqs c' = cl_startedReqs c"
  shows "claims_ok infos (ws[i := Answered]) c'"
  using assms unfolding claims_ok_def by (auto simp: nth_list_update split: if_splits)

lemma claims_count:
  assumes "claims_ok infos ws c" "cl_inFlightReqs c' = cl_inFlightReqs c" "cl_startedReqs c' = cl_startedReqs c"
  shows "claims_ok infos (ws[i := Idle]) c'"
  using assms unfolding claims_ok_def by (cases "i < length ws") (auto simp: nth_list_update split: if_splits)

lemma startReq_time:
  assumes "startReq initNs data x wakeNs c = Some (req, sleep, c')" "awake sleep wakeNs curNs"
  shows "rq_genNs req \<le> curNs"
proof -
  obtain c1 where "new_request data x (begin_warmup initNs c) = Some (req, c1)"
    "sleep = (if wakeNs < rq_genNs req then Some (max (rq_genNs req) (wakeNs + cl_minSleepNs c1)) else None)"
    using assms(1) unfolding startReq_def by (cases "new_request data x (begin_warmup initNs c)") auto
  then show ?thesis using assms(2) by (auto simp: awake_def split: if_splits)
qed

lemma integrated_recvReq_result:
  assumes "integrated_recvReq (int i) initNs data x wakeNs curNs (sv, c) = Some (req, sleep, sv', c')"
  shows "startReq initNs data x wakeNs c = Some (req, sleep, c')"
    "sv' = sv\<lparr>sv_reqInfo := (sv_reqInfo sv)[i := \<lparr>ri_id = rq_id req, ri_startNs = curNs\<rparr>]\<rparr>"
proof -
  obtain r where r: "startReq initNs data x wakeNs c = Some r"
    using assms by (cases "startReq initNs data x wakeNs c") (simp_all add: integrated_recvReq_def)
  obtain req1 sleep1 c1 where e: "r = (req1, sleep1, c1)" by (cases r)
  have "set_reqInfo (int i) (rq_id req1) curNs sv = Some sv'" "req1 = req" "sleep1 = sleep" "c1 = c'"
    using assms r e by (auto simp: integrated_recvReq_def bind_eq_Some_conv)
  then show "startReq initNs data x wakeNs c = Some (req, sleep, c')"
    "sv' = sv\<lparr>sv_reqInfo := (sv_reqInfo sv)[i := \<lparr>ri_id = rq_id req, ri_startNs = curNs\<rparr>]\<rparr>"
    using r e by (auto simp: set_reqInfo_def arr_set_def split: if_splits)
qed

lemma begin_warmup_status:
  "cl_status c = INIT \<longrightarrow> cl_dist c = None \<Longrightarrow>
   cl_status (begin_warmup t c) = (if cl_status c = INIT then WARMUP else cl_status c)"
  by (simp add: begin_warmup_def)

lemma step_Receives:
  assumes inv: "measuring_ok n W M s" and room: "unat W + unat M + n < 2 ^ 64"
    and step: "integrated_step (Receives i initNs data x wakeNs curNs) s t"
  shows "measuring_ok n W M t" "ms_dumped t = None"
proof -
  let ?sv = "ms_server s" and ?c = "ms_client s" and ?ws = "ms_workers s"
  obtain req sleep sv c where r: "integrated_recvReq (int i) initNs data x wakeNs curNs (?sv, ?c) = Some (req, sleep, sv, c)"
    "awake sleep wakeNs curNs" "t = s\<lparr>ms_server := sv, ms_client := c, ms_workers := ?ws[i := Working]\<rparr>"
    and i: "ms_dumped s = None" "i < length ?ws" "?ws ! i = Idle"
    using step by auto
  note start = integrated_recvReq_result[OF r(1)]
  note eff = startReq_effect[OF start(1)]
  have ok: "server_shape n W M ?sv ?ws" "times_ok ?c"
    "unat (cl_startedReqs ?c) = unat (sv_finishedReqs ?sv) + busy ?ws"
    "phase_ok n (unat W) (unat M) (unat (sv_finishedReqs ?sv)) (answered ?ws) ?c"
    "claims_ok (sv_reqInfo ?sv) ?ws ?c"
    using inv by (simp_all add: measuring_ok_def)
  have len: "length ?ws = n" "length (sv_reqInfo ?sv) = length ?ws" using ok(1) by (simp_all add: server_shape_def)
  have F: "unat (sv_finishedReqs ?sv) < unat W + unat M" using ok(4) by (simp add: phase_ok_def)
  have b: "busy ?ws \<le> n" using length_filter_le[of _ ?ws] len(1) by metis
  have small: "unat (cl_startedReqs ?c) + 1 < 2 ^ 64" using ok(3) F b room by linarith
  then have up: "unat (cl_startedReqs ?c + 1) = unat (cl_startedReqs ?c) + 1"
    using unat_add_lem[of "cl_startedReqs ?c" 1] by simp
  then have lt: "cl_startedReqs ?c < cl_startedReqs ?c + 1" by (simp add: word_less_nat_alt)
  have upd: "busy (?ws[i := Working]) = busy ?ws + 1" "answered (?ws[i := Working]) = answered ?ws"
    using busy_update[OF i(2), of Working] i(3) by simp_all
  have st: "cl_status c = (if cl_status ?c = INIT then WARMUP else cl_status ?c)"
    using ok(4) eff(10) begin_warmup_status[of ?c initNs] by (simp add: phase_ok_def)
  have "phase_ok n (unat W) (unat M) (unat (sv_finishedReqs ?sv)) (answered ?ws) c"
    using ok(4) st eff(8) by (auto simp: phase_ok_def split: if_splits)
  moreover have "claims_ok ((sv_reqInfo ?sv)[i := \<lparr>ri_id = cl_startedReqs ?c, ri_startNs = curNs\<rparr>]) (?ws[i := Working]) c"
    using claims_receive[OF ok(5) i(2) len(2) startReq_time[OF start(1) r(2)] eff(5,6) lt] .
  moreover have "server_shape n W M sv (?ws[i := Working])" using ok(1) by (simp add: server_shape_def start(2))
  ultimately show "measuring_ok n W M t"
    using ok(2,3) up upd eff(2,6,7) by (simp add: measuring_ok_def r(3) start(2))
  show "ms_dumped t = None" using i(1) by (simp add: r(3))
qed

lemma integrated_answer_result:
  assumes "integrated_answer (int i) data curNs finiNs (sv, c) = Some (Returned (sv', c'))" "i < length (sv_reqInfo sv)"
  obtains resp where "finiReq resp finiNs c = Returned c'" "rs_id resp = ri_id (sv_reqInfo sv ! i)" "sv' = sv"
proof -
  obtain made where m: "new_response (int i) data curNs sv = Some made"
    using assms(1) by (cases "new_response (int i) data curNs sv") (simp_all add: integrated_answer_def)
  obtain resp where resp: "made = Returned resp"
    using assms(1) m by (cases made) (simp_all add: integrated_answer_def)
  have "rs_id resp = ri_id (sv_reqInfo sv ! i)"
    using m resp assms(2) by (auto simp: new_response_def arr_get_def split: if_splits)
  moreover have "finiReq resp finiNs c = Returned c'" "sv' = sv"
    using assms(1) m resp by (cases "finiReq resp finiNs c"; simp add: integrated_answer_def)+
  ultimately show thesis by (intro that)
qed

lemma step_Answers:
  assumes inv: "measuring_ok n W M s" and step: "integrated_step (Answers i data curNs finiNs) s t"
  shows "measuring_ok n W M t" "ms_dumped t = None"
proof -
  let ?sv = "ms_server s" and ?c = "ms_client s" and ?ws = "ms_workers s"
  obtain sv c where r: "integrated_answer (int i) data curNs finiNs (?sv, ?c) = Some (Returned (sv, c))"
    "t = s\<lparr>ms_server := sv, ms_client := c, ms_workers := ?ws[i := Answered]\<rparr>"
    and i: "ms_dumped s = None" "i < length ?ws" "?ws ! i = Working"
    using step by auto
  have ok: "server_shape n W M ?sv ?ws" "times_ok ?c"
    "unat (cl_startedReqs ?c) = unat (sv_finishedReqs ?sv) + busy ?ws"
    "phase_ok n (unat W) (unat M) (unat (sv_finishedReqs ?sv)) (answered ?ws) ?c"
    "claims_ok (sv_reqInfo ?sv) ?ws ?c"
    using inv by (simp_all add: measuring_ok_def)
  have "i < length (sv_reqInfo ?sv)" using i(2) ok(1) by (simp add: server_shape_def)
  then obtain resp where f: "finiReq resp finiNs ?c = Returned c" "rs_id resp = ri_id (sv_reqInfo ?sv ! i)" "sv = ?sv"
    by (rule integrated_answer_result[OF r(1)])
  note eff = finiReq_effect[OF f(1) ok(2)]
  have upd: "busy (?ws[i := Answered]) = busy ?ws" "answered (?ws[i := Answered]) = answered ?ws + 1"
    using busy_update[OF i(2), of Answered] i(3) by simp_all
  have "phase_ok n (unat W) (unat M) (unat (sv_finishedReqs ?sv)) (answered ?ws + 1) c"
    using ok(4) eff(3,5,6,7) unfolding phase_ok_def by (auto split: if_splits)
  moreover have "claims_ok (sv_reqInfo ?sv) (?ws[i := Answered]) c"
    using claims_answer[OF ok(5) i(2,3)] eff(4,5) f(2) by simp
  moreover have "server_shape n W M ?sv (?ws[i := Answered])" using ok(1) by (simp add: server_shape_def)
  ultimately show "measuring_ok n W M t"
    using ok(3) eff(2,5) upd by (simp add: measuring_ok_def r(2) f(3))
  show "ms_dumped t = None" using i(1) by (simp add: r(2))
qed

lemma step_Counts:
  assumes inv: "measuring_ok n W M s" and room: "unat W + unat M + n < 2 ^ 64" and M: "M \<noteq> 0"
    and step: "integrated_step (Counts i) s t"
  shows "integrated_inv n W M t"
proof -
  let ?sv = "ms_server s" and ?c = "ms_client s" and ?ws = "ms_workers s"
  let ?F = "unat (sv_finishedReqs ?sv)"
  have i: "ms_dumped s = None" "i < length ?ws" "?ws ! i = Answered" using step by auto
  have ok: "server_shape n W M ?sv ?ws" "times_ok ?c"
    "unat (cl_startedReqs ?c) = ?F + busy ?ws"
    "phase_ok n (unat W) (unat M) ?F (answered ?ws) ?c"
    "claims_ok (sv_reqInfo ?sv) ?ws ?c"
    using inv by (simp_all add: measuring_ok_def)
  have WM: "sv_warmupReqs ?sv = W" "sv_maxReqs ?sv = M" "length ?ws = n" using ok(1) by (simp_all add: server_shape_def)
  have F: "?F < unat W + unat M" using ok(4) by (simp add: phase_ok_def)
  have sum: "unat (W + M) = unat W + unat M" using room unat_add_lem[of W M] by simp
  have F1: "unat (sv_finishedReqs ?sv + 1) = ?F + 1" using F room unat_add_lem[of "sv_finishedReqs ?sv" 1] by simp
  have W: "sv_finishedReqs ?sv + 1 = W \<longleftrightarrow> ?F + 1 = unat W" "sv_finishedReqs ?sv + 1 = W + M \<longleftrightarrow> ?F + 1 = unat W + unat M"
    unfolding word_unat_eq_iff F1 sum by simp_all
  have M0: "0 < unat M" using M by (simp add: unat_gt_0)
  have upd: "busy (?ws[i := Idle]) + 1 = busy ?ws" "answered (?ws[i := Idle]) + 1 = answered ?ws"
    using busy_update[OF i(2), of Idle] i(3) by simp_all
  have le: "answered (?ws[i := Idle]) + 1 \<le> n"
    using length_filter_le[of _ ?ws] unfolding upd(2) WM(3)[symmetric] .
  let ?sv' = "?sv\<lparr>sv_finishedReqs := sv_finishedReqs ?sv + 1\<rparr>"
  have shape: "server_shape n W M ?sv' (?ws[i := Idle])" using ok(1) by (simp add: server_shape_def)
  have step': "case integrated_count (?sv, ?c) of
        Some (Returned (Counted (sv, c))) \<Rightarrow> t = s\<lparr>ms_server := sv, ms_client := c, ms_workers := ?ws[i := Idle]\<rparr>
      | Some (Returned (Dumped out)) \<Rightarrow> t = s\<lparr>ms_dumped := Some out\<rparr>
      | _ \<Rightarrow> False" using step by simp
  consider (roi) "?F + 1 = unat W" | (done_all) "?F + 1 \<noteq> unat W" "?F + 1 = unat W + unat M"
    | (more) "?F + 1 \<noteq> unat W" "?F + 1 \<noteq> unat W + unat M" by blast
  then show ?thesis
  proof cases
    case roi
    have w: "cl_status ?c = WARMUP"
      using ok(3,4) upd(1) roi by (cases "cl_status ?c") (auto simp: phase_ok_def)
    let ?c' = "?c\<lparr>cl_status := ROI, cl_queueTimes := [], cl_svcTimes := [], cl_sjrnTimes := []\<rparr>"
    have "integrated_count (?sv, ?c) = Some (Returned (Counted (?sv', ?c')))"
      using roi w by (simp add: integrated_count_def Let_def WM W startRoi_def)
    then have t: "t = s\<lparr>ms_server := ?sv', ms_client := ?c', ms_workers := ?ws[i := Idle]\<rparr>" using step' by simp
    have "phase_ok n (unat W) (unat M) (?F + 1) (answered (?ws[i := Idle])) ?c'"
      using roi M0 le by (simp add: phase_ok_def)
    moreover have "times_ok ?c'" by (simp add: times_ok_def)
    moreover have "claims_ok (sv_reqInfo ?sv) (?ws[i := Idle]) ?c'" by (rule claims_count[OF ok(5)]) simp_all
    ultimately show ?thesis
      using shape ok(3) upd(1) F1 i(1) by (simp add: integrated_inv_def measuring_ok_def t)
  next
    case done_all
    obtain out where out: "dumpStats ?c = Some out" "length out = 24 * length (cl_sjrnTimes ?c)"
      using dumpStats_rows[OF ok(2)] by blast
    have "integrated_count (?sv, ?c) = Some (Returned (Dumped out))"
      using done_all out(1) by (simp add: integrated_count_def Let_def WM W)
    then have t: "t = s\<lparr>ms_dumped := Some out\<rparr>" using step' by simp
    have "dumped_ok n W M out"
    proof (cases "W = 0")
      case True
      then have "cl_sjrnTimes ?c = []" using ok(4) by (simp add: phase_ok_def)
      then show ?thesis using out(2) True by (simp add: dumped_ok_def)
    next
      case False
      then have "0 < unat W" by (simp add: unat_gt_0)
      then have "cl_status ?c = ROI" using ok(4) done_all M0 by (simp add: phase_ok_def)
      then have "length (cl_sjrnTimes ?c) + unat W \<le> ?F + answered ?ws"
        "?F + answered ?ws + 1 \<le> length (cl_sjrnTimes ?c) + unat W + n"
        using ok(4) by (simp_all add: phase_ok_def)
      then have "unat M + 1 \<le> length (cl_sjrnTimes ?c) + n" "length (cl_sjrnTimes ?c) + 1 \<le> unat M + n"
        using done_all(2) upd(2) le by linarith+
      then show ?thesis using out(2) False by (auto simp: dumped_ok_def)
    qed
    then show ?thesis by (simp add: integrated_inv_def t)
  next
    case more
    have "integrated_count (?sv, ?c) = Some (Returned (Counted (?sv', ?c)))"
      using more by (simp add: integrated_count_def Let_def WM W)
    then have t: "t = s\<lparr>ms_server := ?sv', ms_client := ?c, ms_workers := ?ws[i := Idle]\<rparr>" using step' by simp
    have "phase_ok n (unat W) (unat M) (?F + 1) (answered (?ws[i := Idle])) ?c"
      using ok(4) more F upd(2) unfolding phase_ok_def by (auto split: if_splits)
    moreover have "claims_ok (sv_reqInfo ?sv) (?ws[i := Idle]) ?c" by (rule claims_count[OF ok(5)]) simp_all
    ultimately show ?thesis
      using shape ok(2,3) upd(1) F1 i(1) by (simp add: integrated_inv_def measuring_ok_def t)
  qed
qed

lemma answer_returns:
  assumes inv: "measuring_ok n W M s" and i: "i < n" "ms_workers s ! i = Working"
    and fits: "length data \<le> MAX_RESP_BYTES"
    and clock: "ri_startNs (sv_reqInfo (ms_server s) ! i) < curNs" "curNs \<le> finiNs"
  shows "\<exists>r. integrated_answer (int i) data curNs finiNs (ms_server s, ms_client s) = Some (Returned r)"
proof -
  let ?sv = "ms_server s" and ?c = "ms_client s"
  let ?info = "sv_reqInfo ?sv ! i"
  have len: "i < length (ms_workers s)" "i < length (sv_reqInfo ?sv)"
    using inv i(1) by (simp_all add: measuring_ok_def server_shape_def)
  have "claims_ok (sv_reqInfo ?sv) (ms_workers s) ?c" using inv by (simp add: measuring_ok_def)
  then obtain req where req: "cl_inFlightReqs ?c (ri_id ?info) = Some req" "rq_genNs req \<le> ri_startNs ?info"
    using len(1) i(2) by (auto simp: claims_ok_def)
  let ?resp = "\<lparr>rs_type = type_code RESPONSE, rs_id = ri_id ?info, rs_svcNs = curNs - ri_startNs ?info,
    rs_len = of_nat (length data), rs_data = data\<rparr>"
  have made: "new_response (int i) data curNs ?sv = Some (Returned ?resp)"
    using fits clock(1) len(2) by (simp add: new_response_def arr_get_def)
  have early: "rq_genNs req < finiNs"
    using req(2) clock by (meson less_le_trans le_less_trans)
  have service: "rs_svcNs ?resp \<le> finiNs - rq_genNs req"
  proof -
    have "unat (rq_genNs req) \<le> unat (ri_startNs ?info)" "unat (ri_startNs ?info) < unat curNs" "unat curNs \<le> unat finiNs"
      using req(2) clock by (simp_all add: word_le_nat_alt word_less_nat_alt)
    moreover have "unat (curNs - ri_startNs ?info) = unat curNs - unat (ri_startNs ?info)"
      "unat (finiNs - rq_genNs req) = unat finiNs - unat (rq_genNs req)"
      using clock early req(2) by (simp_all add: unat_sub order_less_imp_le)
    ultimately show ?thesis by (simp add: word_le_nat_alt)
  qed
  have "\<exists>c. record_times ?resp req finiNs ?c = Returned c"
    using early service by (simp add: record_times_def Let_def not_less)
  then have "\<exists>c. finiReq ?resp finiNs ?c = Returned c"
    using req(1) by (auto simp: finiReq_def)
  then show ?thesis using made by (auto simp: integrated_answer_def)
qed

lemma count_returns:
  assumes inv: "measuring_ok n W M s" and room: "unat W + unat M + n < 2 ^ 64" and i: "i < n" "ms_workers s ! i = Answered"
  shows "\<exists>r. integrated_count (ms_server s, ms_client s) = Some (Returned r)"
proof -
  let ?sv = "ms_server s" and ?c = "ms_client s" and ?ws = "ms_workers s"
  have ok: "server_shape n W M ?sv ?ws" "times_ok ?c"
    "unat (cl_startedReqs ?c) = unat (sv_finishedReqs ?sv) + busy ?ws"
    "phase_ok n (unat W) (unat M) (unat (sv_finishedReqs ?sv)) (answered ?ws) ?c"
    using inv by (simp_all add: measuring_ok_def)
  have F1: "unat (sv_finishedReqs ?sv + 1) = unat (sv_finishedReqs ?sv) + 1"
    using ok(4) room unat_add_lem[of "sv_finishedReqs ?sv" 1] by (simp add: phase_ok_def)
  show ?thesis
  proof (cases "sv_finishedReqs ?sv + 1 = W")
    case True
    then have W: "unat W = unat (sv_finishedReqs ?sv) + 1" using F1 by simp
    have "i < length ?ws" using ok(1) i(1) by (simp add: server_shape_def)
    then have "busy (?ws[i := Idle]) + 1 = busy ?ws" using i(2) busy_update(1)[of i ?ws Idle] by simp
    then have "0 < busy ?ws" by linarith
    then have "cl_status ?c = WARMUP"
      using ok(3,4) W by (cases "cl_status ?c") (auto simp: phase_ok_def)
    then show ?thesis using ok(1) True by (simp add: integrated_count_def startRoi_def server_shape_def)
  next
    case False
    obtain out where "dumpStats ?c = Some out" using dumpStats_rows[OF ok(2)] by blast
    then show ?thesis using ok(1) False by (simp add: integrated_count_def server_shape_def)
  qed
qed

declare integrated_step.simps [simp del]

lemma integrated_step_inv:
  assumes "integrated_inv n W M s" "integrated_step ev s t" "unat W + unat M + n < 2 ^ 64" "M \<noteq> 0"
  shows "integrated_inv n W M t"
proof -
  have "ms_dumped s = None" using assms(2) by (cases ev) (simp_all add: integrated_step.simps)
  then have ok: "measuring_ok n W M s" using assms(1) by (simp add: integrated_inv_def)
  show ?thesis
  proof (cases ev)
    case Receives
    then show ?thesis using step_Receives[OF ok assms(3)] assms(2) by (simp add: integrated_inv_def)
  next
    case Answers
    then show ?thesis using step_Answers[OF ok] assms(2) by (simp add: integrated_inv_def)
  next
    case Counts
    then show ?thesis using step_Counts[OF ok assms(3,4)] assms(2) by blast
  qed
qed

interpretation integrated: budgeted_system integrated_step "\<lambda>_. 0"
    "\<lambda>_ s. unat W + unat M + n < 2 ^ 64 \<and> M \<noteq> 0 \<and> integrated_inv n W M s" for n and W M :: u64
proof
  fix a k s t
  assume "unat W + unat M + n < 2 ^ 64 \<and> M \<noteq> 0 \<and> integrated_inv n W M s" "integrated_step a s t"
  then show "unat W + unat M + n < 2 ^ 64 \<and> M \<noteq> 0 \<and> integrated_inv n W M t"
    using integrated_step_inv[of n W M s a t] by blast
qed

lemma integrated_start_inv:
  assumes "sv_maxReqs (new_Server env n) \<noteq> 0" "0 < n"
  shows "integrated_inv n (sv_warmupReqs (new_Server env n)) (sv_maxReqs (new_Server env n)) (integrated_start read_double env n)"
proof -
  have M: "0 < unat (sv_maxReqs (new_Server env n))" using assms(1) by (simp add: unat_gt_0)
  have "times_ok (new_Client read_double env)" by (simp add: times_ok_def new_Client_def)
  then show ?thesis
    using M by (auto simp: integrated_inv_def integrated_start_def measuring_ok_def server_shape_def phase_ok_def
        claims_ok_def new_Client_def new_Server_def)
qed

lemma integrated_run_inv:
  assumes "run integrated_step (integrated_start read_double env n) evs t"
    and "unat (sv_warmupReqs (new_Server env n)) + unat (sv_maxReqs (new_Server env n)) + n < 2 ^ 64"
    and "sv_maxReqs (new_Server env n) \<noteq> 0" "0 < n"
  shows "integrated_inv n (sv_warmupReqs (new_Server env n)) (sv_maxReqs (new_Server env n)) t"
proof -
  let ?W = "sv_warmupReqs (new_Server env n)" and ?M = "sv_maxReqs (new_Server env n)"
  let ?inv = "\<lambda>s. unat ?W + unat ?M + n < 2 ^ 64 \<and> ?M \<noteq> 0 \<and> integrated_inv n ?W ?M s"
  have "?inv (integrated_start read_double env n)"
    using integrated_start_inv[OF assms(3,4), of read_double] assms(2,3) by blast
  then have "?inv t" by (rule integrated.run_inv[OF assms(1)])
  then show ?thesis by blast
qed

text \<open>One thread, one request of warm-up, one that is measured.\<close>

definition sample_env :: "string \<Rightarrow> string option" where
  "sample_env name = (if name = ''TBENCH_WARMUPREQS'' \<or> name = ''TBENCH_MAXREQS'' then Some ''1'' else None)"

definition sample_measuring :: "u64 \<Rightarrow> ReqInfo \<Rightarrow> Client \<Rightarrow> worker \<Rightarrow> measuring" where
  "sample_measuring F info c w = \<lparr>ms_server = \<lparr>sv_finishedReqs = F, sv_maxReqs = 1, sv_warmupReqs = 1, sv_reqInfo = [info]\<rparr>,
     ms_client = c, ms_workers = [w], ms_dumped = None\<rparr>"

definition measured_client :: "ClientStatus \<Rightarrow> u64 option \<Rightarrow> u64 \<Rightarrow> (u64 \<rightharpoonup> Request) \<Rightarrow> Client" where
  "measured_client st d k m = (new_Client (\<lambda>_. None) sample_env)\<lparr>cl_status := st, cl_dist := d, cl_startedReqs := k,
     cl_inFlightReqs := m\<rparr>"

definition second_request :: Request where
  "second_request = \<lparr>rq_id = 1, rq_genNs = 2000, rq_len = 3, rq_data = ''dog''\<rparr>"

lemma sample_server_env: "new_Server sample_env 1 =
    \<lparr>sv_finishedReqs = 0, sv_maxReqs = 1, sv_warmupReqs = 1, sv_reqInfo = [\<lparr>ri_id = 0, ri_startNs = 0\<rparr>]\<rparr>"
proof -
  have "read_signed ''1'' = Some (1, [])" by code_simp
  then show ?thesis unfolding new_Server_def by (simp add: sample_env_def getOpt_int_def in_int_def)
qed

lemma sample_start: "integrated_start (\<lambda>_. None) sample_env 1 =
    sample_measuring 0 \<lparr>ri_id = 0, ri_startNs = 0\<rparr> (measured_client INIT None 0 Map.empty) Idle"
  by (simp add: integrated_start_def sample_server_env[unfolded One_nat_def] sample_measuring_def measured_client_def new_Client_def)

lemma sample_second_arrival: "nextArrivalNs (Fin 500) 1500 = Some 2000"
  by code_simp

lemmas sample_defs = integrated_step.simps sample_measuring_def measured_client_def new_Client_def first_request_def second_request_def
    integrated_recvReq_def startReq_def new_request_def begin_warmup_def set_reqInfo_def arr_set_def awake_def Let_def
    integrated_answer_def new_response_def arr_get_def finiReq_def integrated_count_def startRoi_def record_times_def
    MAX_REQ_BYTES_def MAX_RESP_BYTES_def
    sample_arrival sample_env_def getOpt_int_def

lemma sample_measured_steps:
  shows "integrated_step (Receives 0 1000 ''cat'' (Fin 500) 900 1500)
      (sample_measuring 0 \<lparr>ri_id = 0, ri_startNs = 0\<rparr> (measured_client INIT None 0 Map.empty) Idle)
      (sample_measuring 0 \<lparr>ri_id = 0, ri_startNs = 1500\<rparr> (measured_client WARMUP (Some 1500) 1 [0 \<mapsto> first_request]) Working)"
    "integrated_step (Answers 0 [] 1600 1700)
      (sample_measuring 0 \<lparr>ri_id = 0, ri_startNs = 1500\<rparr> (measured_client WARMUP (Some 1500) 1 [0 \<mapsto> first_request]) Working)
      (sample_measuring 0 \<lparr>ri_id = 0, ri_startNs = 1500\<rparr> (measured_client WARMUP (Some 1500) 1 Map.empty) Answered)"
    "integrated_step (Counts 0)
      (sample_measuring 0 \<lparr>ri_id = 0, ri_startNs = 1500\<rparr> (measured_client WARMUP (Some 1500) 1 Map.empty) Answered)
      (sample_measuring 1 \<lparr>ri_id = 0, ri_startNs = 1500\<rparr> (measured_client ROI (Some 1500) 1 Map.empty) Idle)"
    "integrated_step (Receives 0 0 ''dog'' (Fin 500) 1800 2100)
      (sample_measuring 1 \<lparr>ri_id = 0, ri_startNs = 1500\<rparr> (measured_client ROI (Some 1500) 1 Map.empty) Idle)
      (sample_measuring 1 \<lparr>ri_id = 1, ri_startNs = 2100\<rparr> (measured_client ROI (Some 2000) 2 [1 \<mapsto> second_request]) Working)"
    "integrated_step (Answers 0 ''found'' 2200 2300)
      (sample_measuring 1 \<lparr>ri_id = 1, ri_startNs = 2100\<rparr> (measured_client ROI (Some 2000) 2 [1 \<mapsto> second_request]) Working)
      (sample_measuring 1 \<lparr>ri_id = 1, ri_startNs = 2100\<rparr> ((measured_client ROI (Some 2000) 2 Map.empty)
         \<lparr>cl_queueTimes := [200], cl_svcTimes := [100], cl_sjrnTimes := [300]\<rparr>) Answered)"
    "integrated_step (Counts 0)
      (sample_measuring 1 \<lparr>ri_id = 1, ri_startNs = 2100\<rparr> ((measured_client ROI (Some 2000) 2 Map.empty)
         \<lparr>cl_queueTimes := [200], cl_svcTimes := [100], cl_sjrnTimes := [300]\<rparr>) Answered)
      ((sample_measuring 1 \<lparr>ri_id = 1, ri_startNs = 2100\<rparr> ((measured_client ROI (Some 2000) 2 Map.empty)
         \<lparr>cl_queueTimes := [200], cl_svcTimes := [100], cl_sjrnTimes := [300]\<rparr>) Answered)
         \<lparr>ms_dumped := Some (word_bytes 200 @ word_bytes 100 @ word_bytes 300)\<rparr>)"
proof -
  show "integrated_step (Receives 0 1000 ''cat'' (Fin 500) 900 1500)
      (sample_measuring 0 \<lparr>ri_id = 0, ri_startNs = 0\<rparr> (measured_client INIT None 0 Map.empty) Idle)
      (sample_measuring 0 \<lparr>ri_id = 0, ri_startNs = 1500\<rparr> (measured_client WARMUP (Some 1500) 1 [0 \<mapsto> first_request]) Working)"
    by (simp add: sample_defs)
qed (simp_all add: sample_defs dumpStats_def dump_row_def sample_second_arrival)


definition sample_ending :: measuring where
  "sample_ending = (sample_measuring 1 \<lparr>ri_id = 1, ri_startNs = 2100\<rparr> ((measured_client ROI (Some 2000) 2 Map.empty)
     \<lparr>cl_queueTimes := [200], cl_svcTimes := [100], cl_sjrnTimes := [300]\<rparr>) Answered)
     \<lparr>ms_dumped := Some (word_bytes 200 @ word_bytes 100 @ word_bytes 300)\<rparr>"


text \<open>
  C33. No assertion of the integrated server fails while the clock moves on: whatever the threads have
  done, the request of a working thread is still in flight, it was not taken before its time, so the
  answer is recorded; and the region of interest begins once, in the warm-up.
\<close>

theorem integrated_assertions_hold:
  assumes "run integrated_step (integrated_start read_double env n) evs t" "ms_dumped t = None"
    and "unat (sv_warmupReqs (new_Server env n)) + unat (sv_maxReqs (new_Server env n)) + n < 2 ^ 64"
    and "sv_maxReqs (new_Server env n) \<noteq> 0" "i < n"
  shows "(ms_workers t ! i = Working \<longrightarrow> length data \<le> MAX_RESP_BYTES \<longrightarrow>
      ri_startNs (sv_reqInfo (ms_server t) ! i) < curNs \<longrightarrow> curNs \<le> finiNs \<longrightarrow>
      (\<exists>r. integrated_answer (int i) data curNs finiNs (ms_server t, ms_client t) = Some (Returned r))) \<and>
    (ms_workers t ! i = Answered \<longrightarrow> (\<exists>r. integrated_count (ms_server t, ms_client t) = Some (Returned r)))"
proof -
  have inv: "measuring_ok n (sv_warmupReqs (new_Server env n)) (sv_maxReqs (new_Server env n)) t"
    using integrated_run_inv[OF assms(1,3,4)] assms(2,5) by (simp add: integrated_inv_def)
  show ?thesis
    using answer_returns[OF inv assms(5)] count_returns[OF inv assms(3,5)] by blast
qed

theorem integrated_assertions_hold_witness:
  "\<exists>r. integrated_answer 0 ''x'' 1600 1700
     (ms_server (sample_measuring 0 \<lparr>ri_id = 0, ri_startNs = 1500\<rparr> (measured_client WARMUP (Some 1500) 1 [0 \<mapsto> first_request]) Working),
      ms_client (sample_measuring 0 \<lparr>ri_id = 0, ri_startNs = 1500\<rparr> (measured_client WARMUP (Some 1500) 1 [0 \<mapsto> first_request]) Working)) =
     Some (Returned r)"
proof -
  let ?t = "sample_measuring 0 \<lparr>ri_id = 0, ri_startNs = 1500\<rparr> (measured_client WARMUP (Some 1500) 1 [0 \<mapsto> first_request]) Working"
  have r: "run integrated_step (integrated_start (\<lambda>_. None) sample_env 1) [Receives 0 1000 ''cat'' (Fin 500) 900 1500] ?t"
    unfolding sample_start run_Cons run_nil using sample_measured_steps(1) by blast
  have "ms_dumped ?t = None" "ms_workers ?t ! 0 = Working" "ri_startNs (sv_reqInfo (ms_server ?t) ! 0) < 1600"
    by (simp_all add: sample_measuring_def)
  then show ?thesis
    using integrated_assertions_hold[OF r, of 0 "''x''" 1600 1700] unfolding sample_server_env by (simp add: MAX_RESP_BYTES_def)
qed

end
