(* ===== verification/HarnessNetwork.thy ===== *)
theory HarnessNetwork imports HarnessFacts "HOL-Library.Multiset" begin

section \<open>Client and server over a connection\<close>

text \<open>
  A \<open>NetworkedClient\<close> and a \<open>NetworkedServer\<close> whose only client it is, with any number of sending,
  receiving and serving threads.  The connection carries bytes, written by \<open>send\<close> and \<open>sendResp\<close> and
  read by \<open>recvReq\<close> and \<open>recv\<close>, which hold a lock; between the calls the threads keep the requests and
  responses they work on, and interleave freely.
\<close>

subsection \<open>The threads and the connection\<close>

record exchange =
  cn_client :: Client
  cn_issued :: "Request list"
  cn_to_server :: string
  cn_server :: NetworkedServer
  cn_workers :: "bool list"
  cn_to_client :: string
  cn_received :: "Response list"
  cn_dumped :: "string option"

datatype exchange_event =
    Starts u64 string fp u64
  | Sends nat "io list"
  | Takes nat u64 "io list"
  | Replies nat string u64
  | Arrives Response "io list"
  | Handles nat u64

definition drop_nth :: "nat \<Rightarrow> 'a list \<Rightarrow> 'a list" where
  "drop_nth j xs = take j xs @ drop (Suc j) xs"

text \<open>The sockets as the server sees them, and what arrives at the client of what it sends.\<close>

definition one_socket :: "int \<Rightarrow> string \<Rightarrow> io list \<Rightarrow> sockets" where
  "one_socket fd s script = (\<lambda>_. ([], []))(fd := (s, script))"

definition sent_to :: "int \<Rightarrow> (int \<times> string) list \<Rightarrow> string" where
  "sent_to fd out = concat (map snd (filter (\<lambda>(f, msg). f = fd) out))"

fun exchange_step :: "int \<Rightarrow> exchange_event \<Rightarrow> exchange \<Rightarrow> exchange \<Rightarrow> bool" where
  "exchange_step fd (Starts initNs data x curNs) s t \<longleftrightarrow> cn_dumped s = None \<and> data \<noteq> [] \<and>
     (\<exists>req sleep c. startReq initNs data x curNs (cn_client s) = Some (req, sleep, c) \<and>
        t = s\<lparr>cn_client := c, cn_issued := cn_issued s @ [req]\<rparr>)"
| "exchange_step fd (Sends j ios) s t \<longleftrightarrow> cn_dumped s = None \<and> j < length (cn_issued s) \<and> Io_failed \<notin> set ios \<and>
     t = s\<lparr>cn_issued := drop_nth j (cn_issued s),
           cn_to_server := cn_to_server s @ fst (snd (client_send (cn_issued s ! j) ios))\<rparr>"
| "exchange_step fd (Takes i curNs script) s t \<longleftrightarrow> cn_dumped s = None \<and> i < length (cn_workers s) \<and>
     \<not> cn_workers s ! i \<and> cn_to_server s \<noteq> [] \<and> Io_failed \<notin> set script \<and>
     (\<exists>req sv socks. recvReq (int i) curNs [Some {fd}] (cn_server s) (one_socket fd (cn_to_server s) script) =
          Some (Rr_request req sv socks) \<and>
        t = s\<lparr>cn_server := sv, cn_workers := (cn_workers s)[i := True], cn_to_server := fst (socks fd)\<rparr>)"
| "exchange_step fd (Replies i data curNs) s t \<longleftrightarrow> cn_dumped s = None \<and> i < length (cn_workers s) \<and> cn_workers s ! i \<and>
     (\<exists>sv out. sendResp (\<lambda>_ _. True) (int i) data curNs (cn_server s) = Some (Returned (sv, out)) \<and>
        t = s\<lparr>cn_server := sv, cn_workers := (cn_workers s)[i := False], cn_to_client := cn_to_client s @ sent_to fd out\<rparr>)"
| "exchange_step fd (Arrives old script) s t \<longleftrightarrow> cn_dumped s = None \<and> cn_to_client s \<noteq> [] \<and> Io_failed \<notin> set script \<and>
     (\<exists>rc. client_recv old (cn_to_client s) script = Some rc \<and> rc_success rc \<and>
        t = s\<lparr>cn_to_client := rc_bytes rc, cn_received := cn_received s @ [rc_resp rc]\<rparr>)"
| "exchange_step fd (Handles j curNs) s t \<longleftrightarrow> cn_dumped s = None \<and> j < length (cn_received s) \<and>
     (case recv_thread (cn_received s ! j) curNs (cn_client s) of
        Some (Returned (Recv_continues c)) \<Rightarrow> t = s\<lparr>cn_client := c, cn_received := drop_nth j (cn_received s)\<rparr>
      | Some (Returned (Recv_exits out)) \<Rightarrow> t = s\<lparr>cn_dumped := Some out\<rparr>
      | _ \<Rightarrow> False)"

declare exchange_step.simps [simp del]

definition exchange_start :: "(string \<Rightarrow> fp option) \<Rightarrow> (string \<Rightarrow> string option) \<Rightarrow> NetworkedServer \<Rightarrow> nat \<Rightarrow> exchange" where
  "exchange_start read_double env sv n = \<lparr>cn_client = new_Client read_double env, cn_issued = [], cn_to_server = [],
     cn_server = sv, cn_workers = replicate n False, cn_to_client = [], cn_received = [], cn_dumped = None\<rparr>"

subsection \<open>The invariant\<close>

abbreviation answers :: "Response list \<Rightarrow> Response list" where
  "answers rs \<equiv> filter (\<lambda>r. rs_type r = type_code RESPONSE) rs"

abbreviation rois :: "Response list \<Rightarrow> nat" where
  "rois rs \<equiv> length (filter (\<lambda>r. rs_type r = type_code ROI_BEGIN) rs)"

text \<open>The identifiers of the requests that the serving threads work on.\<close>

definition in_service :: "ReqInfo list \<Rightarrow> bool list \<Rightarrow> u64 multiset" where
  "in_service infos ws = image_mset (\<lambda>i. ri_id (infos ! i)) (mset_set {i. i < length ws \<and> ws ! i})"

text \<open>Where the requests in flight are: with a sender, on the way, in service, on the way back, with a
  receiver.\<close>

definition whereabouts :: "Request list \<Rightarrow> Request list \<Rightarrow> u64 multiset \<Rightarrow> Response list \<Rightarrow> Response list \<Rightarrow> u64 multiset" where
  "whereabouts issued reqs serv resps received = mset (map rq_id issued) + mset (map rq_id reqs) + serv +
     mset (map rs_id (answers resps)) + mset (map rs_id (answers received))"

definition flight_ok :: "Client \<Rightarrow> u64 multiset \<Rightarrow> Request list \<Rightarrow> bool" where
  "flight_ok c m rs \<longleftrightarrow> finite (dom (cl_inFlightReqs c)) \<and> m = mset_set (dom (cl_inFlightReqs c)) \<and>
     (\<forall>a \<in> dom (cl_inFlightReqs c). a < cl_startedReqs c) \<and> (\<forall>r \<in> set rs. cl_inFlightReqs c (rq_id r) = Some r)"

definition single_client :: "int \<Rightarrow> nat \<Rightarrow> NetworkedServer \<Rightarrow> bool list \<Rightarrow> bool" where
  "single_client fd n sv ws \<longleftrightarrow> sv_clientFds sv = [fd] \<and> 0 \<le> fd \<and> fd < 1024 \<and> length (sv_activeFds sv) = n \<and>
     length (sv_reqbuf sv) = n \<and> length (sv_reqInfo sv) = n \<and> length ws = n \<and> (\<forall>i < n. ws ! i \<longrightarrow> sv_activeFds sv ! i = fd)"

definition messages_ok :: "exchange \<Rightarrow> Request list \<Rightarrow> Response list \<Rightarrow> bool" where
  "messages_ok s reqs resps \<longleftrightarrow> cn_to_server s = concat (map request_message reqs) \<and>
     cn_to_client s = concat (map wire resps) \<and> list_all sendable (cn_issued s) \<and> list_all sendable reqs \<and>
     list_all response_ok resps \<and> list_all (\<lambda>r. rs_type r < 3) (cn_received s)"

definition phases_ok :: "nat \<Rightarrow> nat \<Rightarrow> nat \<Rightarrow> Client \<Rightarrow> bool" where
  "phases_ok W F announced c \<longleftrightarrow> cl_status c \<noteq> FINISHED \<and>
     (cl_status c = INIT \<longrightarrow> cl_startedReqs c = 0 \<and> cl_dist c = None) \<and>
     announced + (if cl_status c = ROI then 1 else 0) = (if 0 < W \<and> W \<le> F then 1 else 0)"

definition exchange_ok :: "int \<Rightarrow> nat \<Rightarrow> nat \<Rightarrow> exchange \<Rightarrow> Request list \<Rightarrow> Response list \<Rightarrow> bool" where
  "exchange_ok fd n k s reqs resps \<longleftrightarrow> single_client fd n (cn_server s) (cn_workers s) \<and> messages_ok s reqs resps \<and>
     times_ok (cn_client s) \<and>
     flight_ok (cn_client s) (whereabouts (cn_issued s) reqs (in_service (sv_reqInfo (cn_server s)) (cn_workers s)) resps (cn_received s))
       (cn_issued s @ reqs) \<and>
     unat (sv_finishedReqs (cn_server s)) + length (cn_issued s) + length reqs +
       size (in_service (sv_reqInfo (cn_server s)) (cn_workers s)) = unat (cl_startedReqs (cn_client s)) \<and>
     unat (cl_startedReqs (cn_client s)) + k < 2 ^ 64 \<and>
     phases_ok (unat (sv_warmupReqs (cn_server s))) (unat (sv_finishedReqs (cn_server s))) (rois resps + rois (cn_received s)) (cn_client s)"

definition exchange_inv :: "int \<Rightarrow> nat \<Rightarrow> nat \<Rightarrow> exchange \<Rightarrow> bool" where
  "exchange_inv fd n k s \<longleftrightarrow> cn_dumped s = None \<longrightarrow> (\<exists>reqs resps. exchange_ok fd n k s reqs resps)"

subsection \<open>Its parts\<close>

lemma drop_nth_mset: "j < length xs \<Longrightarrow> mset xs = add_mset (xs ! j) (mset (drop_nth j xs))"
  by (subst id_take_nth_drop[of j xs]) (simp_all add: drop_nth_def)

lemma drop_nth_props:
  assumes "j < length xs"
  shows "mset (map f xs) = add_mset (f (xs ! j)) (mset (map f (drop_nth j xs)))"
    "length xs = length (drop_nth j xs) + 1" "set (drop_nth j xs) \<subseteq> set xs"
    "length (filter P xs) = length (filter P (drop_nth j xs)) + (if P (xs ! j) then 1 else 0)"
    "mset (map f (filter P xs)) = (if P (xs ! j) then add_mset (f (xs ! j)) else (\<lambda>m. m)) (mset (map f (filter P (drop_nth j xs))))"
proof -
  have m: "mset xs = add_mset (xs ! j) (mset (drop_nth j xs))" by (rule drop_nth_mset[OF assms])
  show "mset (map f xs) = add_mset (f (xs ! j)) (mset (map f (drop_nth j xs)))" by (simp add: m)
  show "length xs = length (drop_nth j xs) + 1" using arg_cong[OF m, of size] by simp
  show "set (drop_nth j xs) \<subseteq> set xs" using arg_cong[OF m, of set_mset] by auto
  have f: "mset (filter P xs) = (if P (xs ! j) then add_mset (xs ! j) else (\<lambda>m. m)) (mset (filter P (drop_nth j xs)))"
    by (simp add: m)
  show "length (filter P xs) = length (filter P (drop_nth j xs)) + (if P (xs ! j) then 1 else 0)"
    using arg_cong[OF f, of size] by (simp del: mset_filter split: if_splits)
  show "mset (map f (filter P xs)) = (if P (xs ! j) then add_mset (f (xs ! j)) else (\<lambda>m. m)) (mset (map f (filter P (drop_nth j xs))))"
    by (simp add: m)
qed

lemma in_service_take:
  assumes "i < length ws" "\<not> ws ! i" "length infos = length ws"
  shows "in_service (infos[i := info]) (ws[i := True]) = add_mset (ri_id info) (in_service infos ws)"
proof -
  have s: "{j. j < length (ws[i := True]) \<and> ws[i := True] ! j} = insert i {j. j < length ws \<and> ws ! j}"
    using assms(1) by (auto simp: nth_list_update split: if_splits)
  have "image_mset (\<lambda>j. ri_id (infos[i := info] ! j)) (mset_set {j. j < length ws \<and> ws ! j}) =
      image_mset (\<lambda>j. ri_id (infos ! j)) (mset_set {j. j < length ws \<and> ws ! j})"
    using assms by (intro image_mset_cong) (auto simp: nth_list_update)
  then show ?thesis unfolding in_service_def s using assms by simp
qed

lemma in_service_reply:
  assumes "i < length ws" "ws ! i"
  shows "in_service infos ws = add_mset (ri_id (infos ! i)) (in_service infos (ws[i := False]))"
proof -
  have "{j. j < length ws \<and> ws ! j} = insert i {j. j < length (ws[i := False]) \<and> ws[i := False] ! j}"
    using assms by (auto simp: nth_list_update split: if_splits)
  then show ?thesis unfolding in_service_def using assms by simp
qed

lemma flight_start:
  assumes "flight_ok c m rs" "cl_inFlightReqs c' = (cl_inFlightReqs c)(cl_startedReqs c \<mapsto> req)" "rq_id req = cl_startedReqs c"
    and "cl_startedReqs c' = cl_startedReqs c + 1" "cl_startedReqs c < cl_startedReqs c + 1" "set rs' \<subseteq> insert req (set rs)"
  shows "flight_ok c' (add_mset (rq_id req) m) rs'"
proof -
  have fresh: "cl_startedReqs c \<notin> dom (cl_inFlightReqs c)" using assms(1) by (auto simp: flight_ok_def)
  have "a < cl_startedReqs c + 1" if "a < cl_startedReqs c" for a using that assms(5) by (rule less_trans)
  moreover have "cl_inFlightReqs c' (rq_id r) = Some r" if "r \<in> set rs'" for r
  proof (cases "r = req")
    case False
    then have "cl_inFlightReqs c (rq_id r) = Some r" using that assms(1,6) by (auto simp: flight_ok_def)
    moreover have "rq_id r \<noteq> cl_startedReqs c" using calculation fresh by auto
    ultimately show ?thesis by (simp add: assms(2))
  qed (simp add: assms(2,3))
  ultimately show ?thesis
    using assms(1,5) fresh unfolding flight_ok_def by (auto simp: assms(2-4))
qed

lemma flight_finish:
  assumes "flight_ok c (add_mset a m) rs" "cl_inFlightReqs c' = (cl_inFlightReqs c)(a := None)"
    and "cl_startedReqs c' = cl_startedReqs c" "mset (map rq_id rs) \<subseteq># m"
  shows "flight_ok c' m rs"
proof -
  let ?D = "dom (cl_inFlightReqs c)"
  have f: "finite ?D" "add_mset a m = mset_set ?D" using assms(1) by (simp_all add: flight_ok_def)
  have "a \<in># mset_set ?D" using f(2) by (metis union_single_eq_member)
  then have "mset_set ?D = add_mset a (mset_set (?D - {a}))" using f(1) by (intro mset_set.remove) simp_all
  then have m: "m = mset_set (?D - {a})" using f(2) by simp
  have "rq_id r \<noteq> a" if "r \<in> set rs" for r
  proof -
    have "rq_id r \<in># m" using that mset_subset_eqD[OF assms(4)] by simp
    then show ?thesis using f(1) by (auto simp: m)
  qed
  then show ?thesis
    using assms(1) f(1) m unfolding flight_ok_def by (auto simp: assms(2,3))
qed

subsection \<open>What the threads do\<close>

lemma data_ok: "length data \<le> MAX_REQ_BYTES \<Longrightarrow> unat (of_nat (length data) :: u64) = length data"
  "length data \<le> MAX_RESP_BYTES \<Longrightarrow> unat (of_nat (length data) :: u64) = length data"
  by (simp_all add: unat_of_nat take_bit_nat_eq_self MAX_REQ_BYTES_def MAX_RESP_BYTES_def)

lemma recvReq_takes:
  assumes "single_client fd n sv ws" "i < n" "sendable r" "Io_failed \<notin> set script"
  shows "\<exists>script'. recvReq (int i) curNs [Some {fd}] sv (one_socket fd (request_message r @ later) script) =
    Some (Rr_request r (sv\<lparr>sv_recvClientHead := (sv_recvClientHead sv + 1) mod length (sv_clientFds sv),
        sv_reqbuf := (sv_reqbuf sv)[i := r], sv_reqInfo := (sv_reqInfo sv)[i := \<lparr>ri_id = rq_id r, ri_startNs = curNs\<rparr>],
        sv_activeFds := (sv_activeFds sv)[i := fd]\<rparr>)
      ((one_socket fd (request_message r @ later) script)(fd := (later, script'))))"
proof -
  let ?socks = "one_socket fd (request_message r @ later) script"
  obtain ios' where c: "client_send r [] = (True, request_message r, ios')" by (simp add: client_send_def)
  have sc: "sv_clientFds sv = [fd]" "list_all (\<lambda>fd. 0 \<le> fd \<and> fd < 1024) (sv_clientFds sv)"
    "length (sv_reqbuf sv) = n" "length (sv_reqInfo sv) = n" "length (sv_activeFds sv) = n"
    using assms(1) by (simp_all add: single_client_def)
  have "?socks fd = (request_message r @ later, script)" by (simp add: one_socket_def)
  then obtain script' where t: "recv_turn (int i) (Some {fd}) sv ?socks =
      Some (Turn_received fd r (sv\<lparr>sv_recvClientHead := (sv_recvClientHead sv + 1) mod length (sv_clientFds sv),
        sv_reqbuf := (sv_reqbuf sv)[i := r]\<rparr>) (?socks(fd := (later, script'))))"
    using request_received[OF assms(3) _ c, of ?socks fd later script sv "int i"] assms(2,4) sc by auto
  have sets: "arr_set (sv_reqInfo sv) (int i) x = Some ((sv_reqInfo sv)[i := x])"
    "arr_set (sv_activeFds sv) (int i) y = Some ((sv_activeFds sv)[i := y])" for x y
    using assms(2) sc by (simp_all add: arr_set_def)
  have ne: "sv_clientFds sv \<noteq> []" by (simp add: sc(1))
  show ?thesis
    unfolding recvReq.simps[of "int i" curNs "[Some {fd}]"] if_not_P[OF ne] list.case t option.case turn.case
    by (intro exI[of _ script']) (simp add: sets)
qed

text \<open>The messages of one answer.\<close>

definition follow_up :: "Response \<Rightarrow> NetworkedServer \<Rightarrow> Response list" where
  "follow_up resp sv = (if sv_finishedReqs sv = sv_warmupReqs sv then [resp\<lparr>rs_type := type_code ROI_BEGIN\<rparr>]
     else if sv_finishedReqs sv = sv_warmupReqs sv + sv_maxReqs sv then [resp\<lparr>rs_type := type_code FINISH\<rparr>] else [])"

lemma sendResp_result:
  assumes "sendResp (\<lambda>_ _. True) (int i) data curNs sv = Some (Returned (sv', out))"
    and "single_client fd n sv ws" "i < n" "ws ! i"
  obtains resp where "response_ok resp" "rs_type resp = type_code RESPONSE" "rs_id resp = ri_id (sv_reqInfo sv ! i)"
    "sv' = sv\<lparr>sv_finishedReqs := sv_finishedReqs sv + 1\<rparr>" "sent_to fd out = concat (map wire (resp # follow_up resp sv'))"
proof -
  have sc: "sv_clientFds sv = [fd]" "length (sv_reqInfo sv) = n" "length (sv_activeFds sv) = n" "sv_activeFds sv ! i = fd"
    using assms(2-4) by (simp_all add: single_client_def)
  obtain made where m: "new_response (int i) data curNs (Server.truncate sv) = Some made"
    using assms(1) by (cases "new_response (int i) data curNs (Server.truncate sv)") (simp_all add: sendResp_def)
  obtain resp where resp: "made = Returned resp"
    using assms(1) m by (cases made) (simp_all add: sendResp_def)
  have fd: "arr_get (sv_activeFds sv) (int i) = Some fd" using assms(3) sc by (simp add: arr_get_def)
  have r: "length data \<le> MAX_RESP_BYTES" "resp = \<lparr>rs_type = type_code RESPONSE, rs_id = ri_id (sv_reqInfo sv ! i),
      rs_svcNs = curNs - ri_startNs (sv_reqInfo sv ! i), rs_len = of_nat (length data), rs_data = data\<rparr>"
    using m resp assms(3) sc(2) by (auto simp: new_response_def arr_get_def Server.truncate_def split: if_splits)
  let ?sv' = "sv\<lparr>sv_finishedReqs := sv_finishedReqs sv + 1\<rparr>"
  have sv': "sv' = ?sv'" and out: "out = (fd, response_message resp) # announcement resp ?sv'"
    using assms(1) m resp fd by (auto simp: sendResp_def Let_def list_all_iff split: if_splits)
  have "concat (map snd (filter (\<lambda>(f, msg). f = fd) (announcement resp ?sv'))) = concat (map wire (follow_up resp ?sv'))"
    by (simp add: announcement_def follow_up_def broadcast_def sc(1) wire_def response_header_def)
  then have "sent_to fd out = concat (map wire (resp # follow_up resp sv'))"
    by (simp add: sent_to_def out sv' wire_def r(2))
  moreover have "response_ok resp" using r data_ok(2)[OF r(1)] by (simp add: response_ok_def)
  ultimately show thesis using that r(2) sv' by simp
qed

lemma follow_up_props:
  assumes "response_ok resp" "rs_type resp = type_code RESPONSE"
  shows "list_all response_ok (follow_up resp sv)" "answers (follow_up resp sv) = []"
    "rois (follow_up resp sv) = (if sv_finishedReqs sv = sv_warmupReqs sv then 1 else 0)"
  using assms by (simp_all add: follow_up_def response_ok_def)

lemma size_in_service: "i < length ws \<Longrightarrow> ws ! i \<Longrightarrow> 0 < size (in_service infos ws)"
  by (subst in_service_reply) simp_all

text \<open>\<open>recv\<close> on the messages under way.\<close>

lemma client_recv_next:
  assumes "response_ok r" "Io_failed \<notin> set script"
  obtains script' resp where "client_recv old (concat (map wire (r # resps))) script =
      Some \<lparr>rc_success = True, rc_resp = resp, rc_locked = False, rc_bytes = concat (map wire resps), rc_ios = script'\<rparr>"
    "rs_type resp = rs_type r" "rs_id resp = rs_id r"
proof -
  let ?resp = "if rs_type r = type_code RESPONSE then r else r\<lparr>rs_data := rs_data old\<rparr>"
  obtain script' where "client_recv old (wire r @ concat (map wire resps)) script = Some \<lparr>rc_success = True, rc_resp = ?resp,
      rc_locked = False, rc_bytes = concat (map wire resps), rc_ios = script'\<rparr>"
    using response_received[OF assms] by blast
  then show thesis by (intro that[of ?resp script']) simp_all
qed

subsection \<open>Every step keeps the invariant\<close>

lemma begin_warmup_phases:
  assumes "phases_ok W F a c" "startReq initNs data x curNs c = Some (req, sleep, c')"
  shows "phases_ok W F a c'"
proof -
  have "cl_status c' = (if cl_status c = INIT then WARMUP else cl_status c)"
    using assms(1) startReq_effect(10)[OF assms(2)] by (auto simp: phases_ok_def begin_warmup_def)
  then show ?thesis using assms(1) by (auto simp: phases_ok_def split: if_splits)
qed

lemma step_Starts:
  assumes ok: "exchange_ok fd n (Suc k) s reqs resps" and step: "exchange_step fd (Starts initNs data x curNs) s t"
  shows "exchange_ok fd n k t reqs resps" "cn_dumped t = None"
proof -
  obtain req sleep c where r: "startReq initNs data x curNs (cn_client s) = Some (req, sleep, c)" "data \<noteq> []" "cn_dumped s = None"
    "t = s\<lparr>cn_client := c, cn_issued := cn_issued s @ [req]\<rparr>"
    using step by (auto simp: exchange_step.simps)
  note eff = startReq_effect[OF r(1)]
  have room: "unat (cl_startedReqs (cn_client s)) + Suc k < 2 ^ 64" using ok by (simp add: exchange_ok_def)
  then have up: "unat (cl_startedReqs (cn_client s) + 1) = unat (cl_startedReqs (cn_client s)) + 1"
    using unat_add_lem[of "cl_startedReqs (cn_client s)" 1] by simp
  then have lt: "cl_startedReqs (cn_client s) < cl_startedReqs (cn_client s) + 1" by (simp add: word_less_nat_alt)
  have req: "sendable req" using eff(1,3,4) r(2) data_ok(1)[OF eff(1)] by (simp add: sendable_def)
  let ?serv = "in_service (sv_reqInfo (cn_server s)) (cn_workers s)"
  have "flight_ok (cn_client s) (whereabouts (cn_issued s) reqs ?serv resps (cn_received s)) (cn_issued s @ reqs)"
    using ok by (simp add: exchange_ok_def)
  from flight_start[OF this eff(5,2,6) lt, of "(cn_issued s @ [req]) @ reqs"]
  have "flight_ok c (whereabouts (cn_issued s @ [req]) reqs ?serv resps (cn_received s)) ((cn_issued s @ [req]) @ reqs)"
    by (simp add: whereabouts_def)
  moreover have "phases_ok (unat (sv_warmupReqs (cn_server s))) (unat (sv_finishedReqs (cn_server s)))
      (rois resps + rois (cn_received s)) c"
    using ok begin_warmup_phases[OF _ r(1)] by (simp add: exchange_ok_def)
  moreover have "messages_ok t reqs resps" using ok req by (simp add: exchange_ok_def messages_ok_def r(4))
  ultimately show "exchange_ok fd n k t reqs resps"
    using ok room up eff(6,7) by (simp add: exchange_ok_def r(4))
  show "cn_dumped t = None" by (simp add: r(3,4))
qed

lemma step_Sends:
  assumes ok: "exchange_ok fd n k s reqs resps" and step: "exchange_step fd (Sends j ios) s t"
  shows "exchange_ok fd n k t (reqs @ [cn_issued s ! j]) resps" "cn_dumped t = None"
proof -
  let ?r = "cn_issued s ! j"
  have j: "j < length (cn_issued s)" "Io_failed \<notin> set ios" "cn_dumped s = None"
    "t = s\<lparr>cn_issued := drop_nth j (cn_issued s), cn_to_server := cn_to_server s @ fst (snd (client_send ?r ios))\<rparr>"
    using step by (auto simp: exchange_step.simps)
  have sent: "fst (snd (client_send ?r ios)) = request_message ?r"
    using sendfull_all[OF j(2), of "request_message ?r"] by (simp add: client_send_def Let_def split_beta)
  note d = drop_nth_props[OF j(1)]
  have r: "?r \<in> set (cn_issued s)" using j(1) by simp
  have "messages_ok t (reqs @ [?r]) resps"
    using ok d(3) r by (auto simp: exchange_ok_def messages_ok_def j(4) sent list_all_iff)
  moreover have "whereabouts (drop_nth j (cn_issued s)) (reqs @ [?r]) m resps (cn_received s) = whereabouts (cn_issued s) reqs m resps (cn_received s)" for m
    using d(1)[of rq_id] by (simp add: whereabouts_def)
  moreover have "set (drop_nth j (cn_issued s) @ reqs @ [?r]) \<subseteq> set (cn_issued s @ reqs)" using d(3) r by auto
  ultimately show "exchange_ok fd n k t (reqs @ [?r]) resps"
    using ok d(2) by (auto simp: exchange_ok_def flight_ok_def j(4))
  show "cn_dumped t = None" by (simp add: j(3,4))
qed

lemma step_Takes:
  assumes ok: "exchange_ok fd n k s reqs resps" and step: "exchange_step fd (Takes i curNs script) s t"
  shows "exchange_ok fd n k t (tl reqs) resps" "cn_dumped t = None"
proof -
  let ?sv = "cn_server s" and ?ws = "cn_workers s"
  obtain req sv socks where r: "recvReq (int i) curNs [Some {fd}] ?sv (one_socket fd (cn_to_server s) script) = Some (Rr_request req sv socks)"
    "t = s\<lparr>cn_server := sv, cn_workers := ?ws[i := True], cn_to_server := fst (socks fd)\<rparr>"
    and i: "cn_dumped s = None" "i < length ?ws" "\<not> ?ws ! i" "cn_to_server s \<noteq> []" "Io_failed \<notin> set script"
    using step by (auto simp: exchange_step.simps)
  have sc: "single_client fd n ?sv ?ws" and m: "messages_ok s reqs resps" using ok by (simp_all add: exchange_ok_def)
  have len: "length ?ws = n" "length (sv_reqInfo ?sv) = length ?ws" "length (sv_activeFds ?sv) = n" using sc by (simp_all add: single_client_def)
  obtain q qs where q: "reqs = q # qs" using m i(4) by (cases reqs) (simp_all add: messages_ok_def)
  have "sendable q" "cn_to_server s = request_message q @ concat (map request_message qs)"
    using m q by (simp_all add: messages_ok_def)
  then obtain script' where s': "Rr_request req sv socks = Rr_request q (?sv\<lparr>sv_recvClientHead := (sv_recvClientHead ?sv + 1) mod length (sv_clientFds ?sv),
        sv_reqbuf := (sv_reqbuf ?sv)[i := q], sv_reqInfo := (sv_reqInfo ?sv)[i := \<lparr>ri_id = rq_id q, ri_startNs = curNs\<rparr>],
        sv_activeFds := (sv_activeFds ?sv)[i := fd]\<rparr>)
      ((one_socket fd (cn_to_server s) script)(fd := (concat (map request_message qs), script')))"
    using recvReq_takes[OF sc _ _ i(5), of i q curNs "concat (map request_message qs)"] i(2) r(1) len(1) by auto
  let ?serv = "in_service (sv_reqInfo ?sv) ?ws"
  have serv: "in_service ((sv_reqInfo ?sv)[i := \<lparr>ri_id = rq_id q, ri_startNs = curNs\<rparr>]) (?ws[i := True]) = add_mset (rq_id q) ?serv"
    using in_service_take[OF i(2,3) len(2)] by simp
  have sc': "single_client fd n sv (?ws[i := True])"
    using sc s' i(2) by (auto simp: single_client_def nth_list_update)
  have m': "messages_ok t qs resps" using m q s' by (simp add: messages_ok_def r(2))
  have w: "whereabouts (cn_issued s) qs (add_mset (rq_id q) ?serv) resps (cn_received s) = whereabouts (cn_issued s) reqs ?serv resps (cn_received s)"
    by (simp add: whereabouts_def q)
  have "flight_ok (cn_client s) (whereabouts (cn_issued s) reqs ?serv resps (cn_received s)) (cn_issued s @ reqs)"
    using ok by (simp add: exchange_ok_def)
  then have f': "flight_ok (cn_client s) (whereabouts (cn_issued s) qs (add_mset (rq_id q) ?serv) resps (cn_received s)) (cn_issued s @ qs)"
    unfolding w by (simp add: flight_ok_def q)
  show "exchange_ok fd n k t (tl reqs) resps"
    using ok sc' m' f' s' by (simp add: exchange_ok_def r(2) q serv)
  show "cn_dumped t = None" by (simp add: r(2) i(1))
qed

lemma step_Replies:
  assumes ok: "exchange_ok fd n k s reqs resps" and step: "exchange_step fd (Replies i data curNs) s t"
  shows "\<exists>resps'. exchange_ok fd n k t reqs resps'" "cn_dumped t = None"
proof -
  let ?sv = "cn_server s" and ?ws = "cn_workers s"
  let ?F = "unat (sv_finishedReqs ?sv)"
  obtain sv out where r: "sendResp (\<lambda>_ _. True) (int i) data curNs ?sv = Some (Returned (sv, out))"
    "t = s\<lparr>cn_server := sv, cn_workers := ?ws[i := False], cn_to_client := cn_to_client s @ sent_to fd out\<rparr>"
    and i: "cn_dumped s = None" "i < length ?ws" "?ws ! i"
    using step by (auto simp: exchange_step.simps)
  have sc: "single_client fd n ?sv ?ws" and m: "messages_ok s reqs resps" using ok by (simp_all add: exchange_ok_def)
  have "i < n" using sc i(2) by (simp add: single_client_def)
  then obtain resp where resp: "response_ok resp" "rs_type resp = type_code RESPONSE" "rs_id resp = ri_id (sv_reqInfo ?sv ! i)"
    "sv = ?sv\<lparr>sv_finishedReqs := sv_finishedReqs ?sv + 1\<rparr>" "sent_to fd out = concat (map wire (resp # follow_up resp sv))"
    using sendResp_result[OF r(1) sc _ i(3)] by blast
  note fu = follow_up_props[OF resp(1,2), of sv]
  let ?resps = "resps @ resp # follow_up resp sv"
  have serv: "in_service (sv_reqInfo ?sv) ?ws = add_mset (rs_id resp) (in_service (sv_reqInfo sv) (?ws[i := False]))"
    using in_service_reply[OF i(2,3), of "sv_reqInfo ?sv"] by (simp add: resp(3,4))
  have count: "?F + length (cn_issued s) + length reqs + size (in_service (sv_reqInfo ?sv) ?ws) = unat (cl_startedReqs (cn_client s))"
    "unat (cl_startedReqs (cn_client s)) + k < 2 ^ 64" using ok by (simp_all add: exchange_ok_def)
  then have "?F + 1 < 2 ^ 64" by (simp add: serv)
  then have F1: "unat (sv_finishedReqs ?sv + 1) = ?F + 1" using unat_add_lem[of "sv_finishedReqs ?sv" 1] by simp
  then have W: "sv_finishedReqs ?sv + 1 = sv_warmupReqs ?sv \<longleftrightarrow> ?F + 1 = unat (sv_warmupReqs ?sv)" by (simp add: word_unat_eq_iff)
  have m': "messages_ok t reqs ?resps"
    using m fu(1) resp(1) by (simp add: messages_ok_def r(2) resp(5))
  have sc': "single_client fd n sv (?ws[i := False])"
    using sc i(2) by (auto simp: single_client_def resp(4) nth_list_update)
  have w: "whereabouts (cn_issued s) reqs (in_service (sv_reqInfo sv) (?ws[i := False])) ?resps (cn_received s) =
      whereabouts (cn_issued s) reqs (in_service (sv_reqInfo ?sv) ?ws) resps (cn_received s)"
    using resp(2) fu(2) by (simp add: whereabouts_def serv)
  have ph: "phases_ok (unat (sv_warmupReqs ?sv)) ?F (rois resps + rois (cn_received s)) (cn_client s)"
    using ok by (simp add: exchange_ok_def)
  have new: "rois ?resps = rois resps + (if ?F + 1 = unat (sv_warmupReqs ?sv) then 1 else 0)"
    using resp(2) fu(3) W by (simp add: resp(4))
  have "phases_ok (unat (sv_warmupReqs ?sv)) (?F + 1) (rois ?resps + rois (cn_received s)) (cn_client s)"
    using ph unfolding phases_ok_def new by (auto split: if_splits)
  then have "exchange_ok fd n k t reqs ?resps"
    using ok m' sc' w F1 count serv by (simp add: exchange_ok_def r(2) resp(4))
  then show "\<exists>resps'. exchange_ok fd n k t reqs resps'" by blast
  show "cn_dumped t = None" by (simp add: r(2) i(1))
qed

lemma step_Arrives:
  assumes ok: "exchange_ok fd n k s reqs resps" and step: "exchange_step fd (Arrives old script) s t"
  shows "exchange_ok fd n k t reqs (tl resps)" "cn_dumped t = None"
proof -
  obtain rc where r: "client_recv old (cn_to_client s) script = Some rc"
    "t = s\<lparr>cn_to_client := rc_bytes rc, cn_received := cn_received s @ [rc_resp rc]\<rparr>"
    and i: "cn_dumped s = None" "cn_to_client s \<noteq> []" "Io_failed \<notin> set script"
    using step by (auto simp: exchange_step.simps)
  have m: "messages_ok s reqs resps" using ok by (simp add: exchange_ok_def)
  obtain q qs where q: "resps = q # qs" using m i(2) by (cases resps) (simp_all add: messages_ok_def)
  have bytes: "cn_to_client s = concat (map wire (q # qs))" and ok_q: "response_ok q" using m q by (simp_all add: messages_ok_def)
  obtain script' resp where c: "client_recv old (concat (map wire (q # qs))) script =
      Some \<lparr>rc_success = True, rc_resp = resp, rc_locked = False, rc_bytes = concat (map wire qs), rc_ios = script'\<rparr>"
    "rs_type resp = rs_type q" "rs_id resp = rs_id q"
    by (rule client_recv_next[OF ok_q i(3)])
  have rc: "rc_bytes rc = concat (map wire qs)" "rc_resp rc = resp" using r(1) c(1) unfolding bytes by simp_all
  have "messages_ok t reqs qs"
    using m q ok_q c(2) by (simp add: messages_ok_def r(2) rc response_ok_def)
  moreover have "whereabouts (cn_issued s) reqs x qs (cn_received s @ [resp]) = whereabouts (cn_issued s) reqs x resps (cn_received s)" for x
    by (simp add: whereabouts_def q c(2,3))
  moreover have "rois qs + rois (cn_received s @ [resp]) = rois resps + rois (cn_received s)" by (simp add: q c(2))
  then have "phases_ok (unat (sv_warmupReqs (cn_server s))) (unat (sv_finishedReqs (cn_server s)))
      (rois qs + rois (cn_received s @ [resp])) (cn_client s)" using ok by (simp only: exchange_ok_def)
  ultimately show "exchange_ok fd n k t reqs (tl resps)"
    using ok by (simp add: exchange_ok_def r(2) rc q)
  show "cn_dumped t = None" by (simp add: r(2) i(1))
qed

lemma handle_cases:
  assumes "recv_thread r curNs c = Some (Returned turn)" "rs_type r < 3"
  obtains (answer) c' where "rs_type r = type_code RESPONSE" "finiReq r curNs c = Returned c'" "turn = Recv_continues c'"
  | (roi) c' where "rs_type r = type_code ROI_BEGIN" "startRoi c = Returned c'" "turn = Recv_continues c'"
  | (leave) out where "rs_type r = type_code FINISH" "dumpStats c = Some out" "turn = Recv_exits out"
proof -
  have "rs_type r = 0 \<or> rs_type r = 1 \<or> rs_type r = 2" using assms(2) by auto
  then show thesis
    using assms(1) answer roi leave by (elim disjE) (auto simp: recv_thread_def split: checked.splits)
qed

lemma step_Handles:
  assumes ok: "exchange_ok fd n k s reqs resps" and step: "exchange_step fd (Handles j curNs) s t"
  shows "cn_dumped t = None \<longrightarrow> exchange_ok fd n k t reqs resps"
proof -
  let ?r = "cn_received s ! j" and ?c = "cn_client s"
  let ?serv = "in_service (sv_reqInfo (cn_server s)) (cn_workers s)"
  have j: "j < length (cn_received s)" "cn_dumped s = None" using step by (simp_all add: exchange_step.simps)
  obtain turn where turn: "recv_thread ?r curNs ?c = Some (Returned turn)"
    using step by (auto simp: exchange_step.simps split: option.splits checked.splits)
  have t: "case turn of Recv_continues c \<Rightarrow> t = s\<lparr>cn_client := c, cn_received := drop_nth j (cn_received s)\<rparr>
      | Recv_exits out \<Rightarrow> t = s\<lparr>cn_dumped := Some out\<rparr> | _ \<Rightarrow> False"
    using step turn by (simp add: exchange_step.simps)
  have m: "messages_ok s reqs resps" and times: "times_ok ?c" using ok by (simp_all add: exchange_ok_def)
  have ty: "rs_type ?r < 3" using m j(1) by (simp add: messages_ok_def list_all_length)
  note d = drop_nth_props[OF j(1)]
  have m': "messages_ok (s\<lparr>cn_client := c, cn_received := drop_nth j (cn_received s)\<rparr>) reqs resps" for c
    using m d(3) by (auto simp: messages_ok_def list_all_iff)
  have fl: "flight_ok ?c (whereabouts (cn_issued s) reqs ?serv resps (cn_received s)) (cn_issued s @ reqs)"
    using ok by (simp add: exchange_ok_def)
  have ph: "phases_ok (unat (sv_warmupReqs (cn_server s))) (unat (sv_finishedReqs (cn_server s))) (rois resps + rois (cn_received s)) ?c"
    using ok by (simp add: exchange_ok_def)
  show ?thesis
  proof (rule handle_cases[OF turn ty])
    fix c
    assume answer: "rs_type ?r = type_code RESPONSE" "finiReq ?r curNs ?c = Returned c" "turn = Recv_continues c"
    note eff = finiReq_effect[OF answer(2) times]
    let ?left = "whereabouts (cn_issued s) reqs ?serv resps (drop_nth j (cn_received s))"
    have "whereabouts (cn_issued s) reqs ?serv resps (cn_received s) = add_mset (rs_id ?r) ?left"
      using d(5)[of rs_id "\<lambda>r. rs_type r = type_code RESPONSE"] answer(1) by (simp add: whereabouts_def)
    moreover have "mset (map rq_id (cn_issued s @ reqs)) \<subseteq># ?left" by (simp add: whereabouts_def)
    ultimately have "flight_ok c ?left (cn_issued s @ reqs)"
      using flight_finish[of ?c "rs_id ?r" ?left "cn_issued s @ reqs" c] fl eff(4,5) by simp
    moreover have "rois (cn_received s) = rois (drop_nth j (cn_received s))"
      using d(4)[of "\<lambda>r. rs_type r = type_code ROI_BEGIN"] answer(1) by simp
    moreover have "phases_ok W F a c" if "phases_ok W F a ?c" for W F a
      using that eff(3,5,7) by (simp add: phases_ok_def)
    ultimately show ?thesis
      using ok t m'[of c] eff(2,5) ph by (simp add: exchange_ok_def answer(3))
  next
    fix c
    assume roi: "rs_type ?r = type_code ROI_BEGIN" "startRoi ?c = Returned c" "turn = Recv_continues c"
    note eff = startRoi_effect[OF roi(2)]
    have "whereabouts (cn_issued s) reqs ?serv resps (cn_received s) = whereabouts (cn_issued s) reqs ?serv resps (drop_nth j (cn_received s))"
      using d(5)[of rs_id "\<lambda>r. rs_type r = type_code RESPONSE"] roi(1) by (simp add: whereabouts_def)
    moreover have "rois (cn_received s) = rois (drop_nth j (cn_received s)) + 1"
      using d(4)[of "\<lambda>r. rs_type r = type_code ROI_BEGIN"] roi(1) by simp
    moreover have "phases_ok W F a c" if "phases_ok W F (a + 1) ?c" for W F a
      using that eff(1,2) by (auto simp: phases_ok_def split: if_splits)
    ultimately show ?thesis
      using ok t m'[of c] eff(3,5,6) ph fl by (simp add: exchange_ok_def flight_ok_def roi(3))
  next
    fix out
    assume leave: "turn = Recv_exits out"
    then show ?thesis using t by simp
  qed
qed

fun start_cost :: "exchange_event \<Rightarrow> nat" where
  "start_cost (Starts initNs data x curNs) = 1"
| "start_cost _ = 0"

lemma exchange_step_inv:
  assumes "exchange_inv fd n (start_cost ev + k) s" "exchange_step fd ev s t"
  shows "exchange_inv fd n k t"
proof -
  have "cn_dumped s = None" using assms(2) by (cases ev) (simp_all add: exchange_step.simps)
  then obtain reqs resps where ok: "exchange_ok fd n (start_cost ev + k) s reqs resps"
    using assms(1) by (auto simp: exchange_inv_def)
  show ?thesis
  proof (cases ev)
    case (Starts initNs data x curNs)
    then have "exchange_ok fd n (Suc k) s reqs resps" using ok by simp
    then have "exchange_ok fd n k t reqs resps" by (rule step_Starts(1)) (use assms(2) Starts in simp)
    then show ?thesis unfolding exchange_inv_def by blast
  next
    case (Sends j ios)
    then show ?thesis using step_Sends(1)[of fd n k s reqs resps j ios t] ok assms(2) by (auto simp: exchange_inv_def)
  next
    case (Takes i curNs script)
    then show ?thesis using step_Takes(1)[of fd n k s reqs resps i curNs script t] ok assms(2) by (auto simp: exchange_inv_def)
  next
    case (Replies i data curNs)
    then show ?thesis using step_Replies(1)[of fd n k s reqs resps i data curNs t] ok assms(2) by (auto simp: exchange_inv_def)
  next
    case (Arrives old script)
    then show ?thesis using step_Arrives(1)[of fd n k s reqs resps old script t] ok assms(2) by (auto simp: exchange_inv_def)
  next
    case (Handles j curNs)
    then show ?thesis using step_Handles[of fd n k s reqs resps j curNs t] ok assms(2) by (auto simp: exchange_inv_def)
  qed
qed

interpretation exchange: budgeted_system "exchange_step fd" start_cost "exchange_inv fd n" for fd n
  by unfold_locales (rule exchange_step_inv)

definition starts :: "exchange_event list \<Rightarrow> nat" where
  "starts evs = sum_list (map start_cost evs)"

lemma exchange_start_inv:
  assumes "new_NetworkedServer senv n ls 1 [(Some fd, True)] buffers = Some sv" "length buffers = n" "0 \<le> fd" "fd < 1024"
    and "k < 2 ^ 64"
  shows "exchange_inv fd n k (exchange_start read_double env sv n)"
proof -
  have sv: "sv = Server.extend (new_Server senv n) \<lparr>sv_reqbuf = buffers, sv_clientFds = [fd],
      sv_activeFds = replicate n 0, sv_recvClientHead = 0\<rparr>"
    using assms(1,2) by (auto simp: new_NetworkedServer_def split: if_splits)
  have none: "in_service infos (replicate n False) = {#}" for infos
  proof -
    have "{i. i < length (replicate n False) \<and> replicate n False ! i} = {}" by auto
    then show ?thesis by (simp only: in_service_def mset_set.empty image_mset_empty)
  qed
  have "exchange_ok fd n k (exchange_start read_double env sv n) [] []"
    using assms(2-5) none
    by (simp add: exchange_ok_def exchange_start_def single_client_def sv Server.defs new_Server_def messages_ok_def
        times_ok_def new_Client_def flight_ok_def whereabouts_def phases_ok_def) linarith
  then show ?thesis by (auto simp: exchange_inv_def)
qed

lemma exchange_run_ok:
  assumes "run (exchange_step fd) (exchange_start read_double env sv n) evs t" "cn_dumped t = None" "starts evs < 2 ^ 64"
    and "new_NetworkedServer senv n ls 1 [(Some fd, True)] buffers = Some sv" "length buffers = n" "0 \<le> fd" "fd < 1024"
  obtains reqs resps where "exchange_ok fd n 0 t reqs resps"
proof -
  have "exchange_inv fd n (sum_list (map start_cost evs) + 0) (exchange_start read_double env sv n)"
    using exchange_start_inv[OF assms(4-7)] assms(3) by (simp add: starts_def)
  then have "exchange_inv fd n 0 t" by (rule exchange.run_inv[OF assms(1)])
  then show thesis using that assms(2) by (auto simp: exchange_inv_def)
qed

subsection \<open>The assertions of the client\<close>

text \<open>The clocks of the two machines agree so far that no service seems longer than the whole.\<close>

definition timely :: "Response \<Rightarrow> u64 \<Rightarrow> Client \<Rightarrow> bool" where
  "timely r curNs c = (case cl_inFlightReqs c (rs_id r) of None \<Rightarrow> True
     | Some req \<Rightarrow> rq_genNs req < curNs \<and> rs_svcNs r \<le> curNs - rq_genNs req)"

lemma next_request_taken:
  assumes ok: "exchange_ok fd n k t reqs resps" and i: "i < n" "\<not> cn_workers t ! i" "cn_to_server t \<noteq> []" "Io_failed \<notin> set script"
  shows "\<exists>req sv socks. recvReq (int i) curNs [Some {fd}] (cn_server t) (one_socket fd (cn_to_server t) script) =
    Some (Rr_request req sv socks) \<and> cl_inFlightReqs (cn_client t) (rq_id req) = Some req"
proof -
  have sc: "single_client fd n (cn_server t) (cn_workers t)" and m: "messages_ok t reqs resps"
    and fl: "flight_ok (cn_client t) (whereabouts (cn_issued t) reqs (in_service (sv_reqInfo (cn_server t)) (cn_workers t)) resps
      (cn_received t)) (cn_issued t @ reqs)"
    using ok by (simp_all add: exchange_ok_def)
  obtain q qs where q: "reqs = q # qs" using m i(3) by (cases reqs) (simp_all add: messages_ok_def)
  have "sendable q" "cn_to_server t = request_message q @ concat (map request_message qs)"
    using m q by (simp_all add: messages_ok_def)
  then show ?thesis
    using recvReq_takes[OF sc i(1) _ i(4), of q curNs "concat (map request_message qs)"] fl q
    by (auto simp: flight_ok_def)
qed

lemma received_handled:
  assumes ok: "exchange_ok fd n k t reqs resps" and j: "j < length (cn_received t)"
    and time: "timely (cn_received t ! j) curNs (cn_client t)"
  shows "\<exists>turn. recv_thread (cn_received t ! j) curNs (cn_client t) = Some (Returned turn)"
proof -
  let ?r = "cn_received t ! j" and ?c = "cn_client t"
  have m: "messages_ok t reqs resps" and times: "times_ok ?c" using ok by (simp_all add: exchange_ok_def)
  have "rs_type ?r < 3" using m j by (simp add: messages_ok_def list_all_length)
  then consider (answer) "rs_type ?r = type_code RESPONSE" | (roi) "rs_type ?r = type_code ROI_BEGIN"
    | (leave) "rs_type ?r = type_code FINISH" by (auto simp: less_Suc_eq numeral_3_eq_3)
  then show ?thesis
  proof cases
    case answer
    have "?r \<in> set (cn_received t)" using j by simp
    then have "rs_id ?r \<in># whereabouts (cn_issued t) reqs (in_service (sv_reqInfo (cn_server t)) (cn_workers t)) resps (cn_received t)"
      using answer by (simp add: whereabouts_def)
    moreover have "flight_ok ?c (whereabouts (cn_issued t) reqs (in_service (sv_reqInfo (cn_server t)) (cn_workers t)) resps
        (cn_received t)) (cn_issued t @ reqs)" using ok by (simp add: exchange_ok_def)
    ultimately obtain req where req: "cl_inFlightReqs ?c (rs_id ?r) = Some req" by (auto simp: flight_ok_def)
    then have "\<exists>c. record_times ?r req curNs ?c = Returned c"
      using time by (simp add: timely_def record_times_def Let_def not_less)
    then show ?thesis using answer req by (auto simp: recv_thread_def finiReq_def)
  next
    case roi
    have "?r \<in> set (filter (\<lambda>r. rs_type r = type_code ROI_BEGIN) (cn_received t))" using j roi by simp
    then have "0 < rois (cn_received t)" by (rule length_pos_if_in_set)
    moreover have "phases_ok (unat (sv_warmupReqs (cn_server t))) (unat (sv_finishedReqs (cn_server t)))
        (rois resps + rois (cn_received t)) ?c" using ok by (simp add: exchange_ok_def)
    ultimately have "cl_status ?c \<noteq> ROI" "0 < unat (sv_finishedReqs (cn_server t))" "cl_status ?c \<noteq> FINISHED"
      "cl_status ?c = INIT \<longrightarrow> cl_startedReqs ?c = 0"
      by (auto simp: phases_ok_def split: if_splits)
    moreover have "unat (sv_finishedReqs (cn_server t)) \<le> unat (cl_startedReqs ?c)" using ok by (simp add: exchange_ok_def)
    ultimately have "cl_status ?c = WARMUP" by (cases "cl_status ?c") auto
    then show ?thesis using roi by (simp add: recv_thread_def startRoi_def)
  next
    case leave
    then show ?thesis using dumpStats_rows[OF times] by (auto simp: recv_thread_def)
  qed
qed


text \<open>The first request on its way.\<close>

definition listening_ok :: listening where
  "listening_ok = \<lparr>ls_getaddrinfo = True, ls_socket = True, ls_reuseaddr = True, ls_bind = True, ls_listen = True\<rparr>"

definition first_server :: NetworkedServer where
  "first_server = Server.extend (new_Server (\<lambda>_. None) 1) \<lparr>sv_reqbuf = [first_request], sv_clientFds = [4],
     sv_activeFds = [0], sv_recvClientHead = 0\<rparr>"

lemma first_server_accepts: "new_NetworkedServer (\<lambda>_. None) 1 listening_ok 1 [(Some 4, True)] [first_request] = Some first_server"
  by (simp add: new_NetworkedServer_def listening_ok_def first_server_def)

definition on_the_way :: exchange where
  "on_the_way = (exchange_start (\<lambda>_. None) (\<lambda>_. None) first_server 1)
     \<lparr>cn_client := sample_client\<lparr>cl_status := WARMUP, cl_inFlightReqs := [0 \<mapsto> first_request], cl_svcTimes := [],
        cl_queueTimes := [], cl_sjrnTimes := []\<rparr>, cn_to_server := request_message first_request\<rparr>"

lemma sent_on_the_way: "run (exchange_step 4) (exchange_start (\<lambda>_. None) (\<lambda>_. None) first_server 1)
    [Starts 1000 ''cat'' (Fin 500) 900, Sends 0 [Moved 5]] on_the_way"
proof -
  let ?s0 = "exchange_start (\<lambda>_. None) (\<lambda>_. None) first_server 1"
  let ?c = "sample_client\<lparr>cl_status := WARMUP, cl_inFlightReqs := [0 \<mapsto> first_request], cl_svcTimes := [],
    cl_queueTimes := [], cl_sjrnTimes := []\<rparr>"
  let ?s1 = "?s0\<lparr>cn_client := ?c, cn_issued := [first_request]\<rparr>"
  have "\<exists>req sleep. startReq 1000 ''cat'' (Fin 500) 900 (new_Client (\<lambda>_. None) (\<lambda>_. None)) = Some (req, sleep, ?c)"
    using sample_steps(1) by (simp add: client_step_def)
  then obtain req sleep where r: "startReq 1000 ''cat'' (Fin 500) 900 (new_Client (\<lambda>_. None) (\<lambda>_. None)) = Some (req, sleep, ?c)"
    by blast
  have "req = first_request" using fun_cong[OF startReq_effect(5)[OF r], of 0] by (simp add: new_Client_def)
  then have "exchange_step 4 (Starts 1000 ''cat'' (Fin 500) 900) ?s0 ?s1"
    using r by (simp add: exchange_step.simps exchange_start_def)
  moreover have "fst (snd (client_send first_request [Moved 5])) = request_message first_request"
    using sendfull_all[of "[Moved 5]" "request_message first_request"] by (simp add: client_send_def Let_def split_beta)
  then have "exchange_step 4 (Sends 0 [Moved 5]) ?s1 on_the_way"
    by (simp add: exchange_step.simps exchange_start_def on_the_way_def drop_nth_def)
  ultimately show ?thesis unfolding run_Cons run_nil by blast
qed


end
