(* ===== verification/Shmem.thy ===== *)
theory Shmem imports Floats begin

section \<open>The shared memory segment\<close>

text \<open>
  \<open>struct idleStats\<close>, which the kernel module (Monitor), the Balancer and the Listener map at
  \<open>/dev/qidlecpu\<close>.  The struct is declared three times, in \<open>Balancer/shmem.h\<close>,
  \<open>Listener/shmem.h\<close> and \<open>Monitor/monitor.h\<close>.  Here are the record that the model of every
  process uses, the shape invariant of its arrays, and the three declarations as C layouts
  (x86-64 sizes and alignments), so that it can be shown that the processes agree on every
  offset and that the struct fits the mapped segment.
\<close>

subsection \<open>The record\<close>

record ctr_info =
  ct_parent_pid :: int
  ct_nr_pids :: int
  ct_pidList :: "int list"

record primary_ctr_info =
  ci_NUMCPUS :: int
  ci_cpuList :: "int list"
  ci_LOWIDLEFREQ_THRESHOLD :: fp
  ci_LOW_TIC :: int
  ci_targetIdleCores :: int
  ci_static_targetIdleCores :: int
  ci_totalEligibleCores :: int
  ci_maxSecondaryCores :: int
  ci_minSecondaryCores :: int

record idleStats =
  is_numIdle :: int
  is_mask :: u64
  is_prev_irq_times :: "u64 list"
  is_curr_irq_times :: "u64 list"
  is_hist_irq_times :: "u64 list"
  is_samples :: int
  is_irq_samples :: int
  is_update_irq :: int
  is_balancerControl :: int
  is_updatingPids :: int
  is_secondary_pid_list :: "int list"
  is_nr_secondary_ctrs :: int
  is_needs_rebalance :: int
  is_affinity_list :: "int list"
  is_num_affinity :: int
  is_num_secondary_cores :: int
  is_secondary_cores_list :: "int list"
  is_secondary_ctrs :: "ctr_info list"
  is_primary_ctrs :: "primary_ctr_info list"
  is_nr_primary_ctrs :: int

text \<open>The array lengths of the declarations; a C array never changes its length.\<close>

definition ctr_shape :: "ctr_info \<Rightarrow> bool" where
  "ctr_shape c \<longleftrightarrow> length (ct_pidList c) = 128"

definition primary_shape :: "primary_ctr_info \<Rightarrow> bool" where
  "primary_shape c \<longleftrightarrow> length (ci_cpuList c) = 64"

definition shm_shape :: "idleStats \<Rightarrow> bool" where
  "shm_shape s \<longleftrightarrow>
     length (is_prev_irq_times s) = 64 \<and> length (is_curr_irq_times s) = 64 \<and>
     length (is_hist_irq_times s) = 64 \<and> length (is_secondary_pid_list s) = 128 \<and>
     length (is_affinity_list s) = 64 \<and> length (is_secondary_cores_list s) = 64 \<and>
     length (is_secondary_ctrs s) = 64 \<and> length (is_primary_ctrs s) = 64 \<and>
     (\<forall>c \<in> set (is_secondary_ctrs s). ctr_shape c) \<and>
     (\<forall>c \<in> set (is_primary_ctrs s). primary_shape c)"

lemma shm_shapeD:
  assumes "shm_shape s"
  shows "length (is_affinity_list s) = 64" "length (is_primary_ctrs s) = 64"
    "length (is_secondary_ctrs s) = 64" "length (is_curr_irq_times s) = 64"
    "length (is_hist_irq_times s) = 64" "length (is_secondary_cores_list s) = 64"
    "length (is_secondary_pid_list s) = 128"
  using assms by (simp_all add: shm_shape_def)

lemma shm_shape_primary_nth:
  "shm_shape s \<Longrightarrow> i < 64 \<Longrightarrow> primary_shape (is_primary_ctrs s ! i)"
  by (simp add: shm_shape_def)

lemma shm_shape_secondary_nth:
  "shm_shape s \<Longrightarrow> i < 64 \<Longrightarrow> ctr_shape (is_secondary_ctrs s ! i)"
  by (simp add: shm_shape_def)

text \<open>Freshly mapped memory: every field zero.\<close>

definition zero_ctr :: ctr_info where
  "zero_ctr = \<lparr>ct_parent_pid = 0, ct_nr_pids = 0, ct_pidList = replicate 128 0\<rparr>"

definition zero_primary :: primary_ctr_info where
  "zero_primary = \<lparr>ci_NUMCPUS = 0, ci_cpuList = replicate 64 0,
     ci_LOWIDLEFREQ_THRESHOLD = Fin 0, ci_LOW_TIC = 0, ci_targetIdleCores = 0,
     ci_static_targetIdleCores = 0, ci_totalEligibleCores = 0,
     ci_maxSecondaryCores = 0, ci_minSecondaryCores = 0\<rparr>"

definition zero_shm :: idleStats where
  "zero_shm = \<lparr>is_numIdle = 0, is_mask = 0, is_prev_irq_times = replicate 64 0,
     is_curr_irq_times = replicate 64 0, is_hist_irq_times = replicate 64 0,
     is_samples = 0, is_irq_samples = 0, is_update_irq = 0, is_balancerControl = 0,
     is_updatingPids = 0, is_secondary_pid_list = replicate 128 0,
     is_nr_secondary_ctrs = 0, is_needs_rebalance = 0, is_affinity_list = replicate 64 0,
     is_num_affinity = 0, is_num_secondary_cores = 0,
     is_secondary_cores_list = replicate 64 0, is_secondary_ctrs = replicate 64 zero_ctr,
     is_primary_ctrs = replicate 64 zero_primary, is_nr_primary_ctrs = 0\<rparr>"

lemma zero_shm_shape: "shm_shape zero_shm"
  by (simp add: shm_shape_def zero_shm_def ctr_shape_def primary_shape_def zero_ctr_def
      zero_primary_def)

subsection \<open>The three declarations as C layouts\<close>

datatype cty = CInt | CFloat | CULL | CArray nat cty | CStruct "(string \<times> cty) list"

fun c_align :: "cty \<Rightarrow> nat" where
  "c_align CInt = 4"
| "c_align CFloat = 4"
| "c_align CULL = 8"
| "c_align (CArray n t) = c_align t"
| "c_align (CStruct []) = 1"
| "c_align (CStruct ((f, t) # fs)) = max (c_align t) (c_align (CStruct fs))"

definition pad_to :: "nat \<Rightarrow> nat \<Rightarrow> nat" where
  "pad_to a off = (off + a - 1) div a * a"

text \<open>\<open>c_end t off\<close> is the first free offset after a \<open>t\<close> placed at or after \<open>off\<close>; a struct ends on
  a multiple of its alignment.\<close>

fun c_size :: "cty \<Rightarrow> nat" and c_fields_end :: "(string \<times> cty) list \<Rightarrow> nat \<Rightarrow> nat" where
  "c_size CInt = 4"
| "c_size CFloat = 4"
| "c_size CULL = 8"
| "c_size (CArray n t) = n * c_size t"
| "c_size (CStruct fs) = pad_to (c_align (CStruct fs)) (c_fields_end fs 0)"
| "c_fields_end [] off = off"
| "c_fields_end ((f, t) # fs) off = c_fields_end fs (pad_to (c_align t) off + c_size t)"

fun c_offsets :: "(string \<times> cty) list \<Rightarrow> nat \<Rightarrow> (string \<times> nat) list" where
  "c_offsets [] off = []"
| "c_offsets ((f, t) # fs) off =
     (let o' = pad_to (c_align t) off in (f, o') # c_offsets fs (o' + c_size t))"

definition SHMEM_SIZE :: nat where
  "SHMEM_SIZE = 4096 * 32"

definition balancer_ctr_layout :: "(string \<times> cty) list" where
  "balancer_ctr_layout =
     [(''parent_pid'', CInt), (''nr_pids'', CInt), (''pidList'', CArray 128 CInt)]"

definition balancer_primary_layout :: "(string \<times> cty) list" where
  "balancer_primary_layout =
     [(''NUMCPUS'', CInt), (''cpuList'', CArray 64 CInt), (''LOWIDLEFREQ_THRESHOLD'', CFloat),
      (''LOW_TIC'', CInt), (''targetIdleCores'', CInt), (''static_targetIdleCores'', CInt),
      (''totalEligibleCores'', CInt), (''maxSecondaryCores'', CInt), (''minSecondaryCores'', CInt)]"

definition balancer_layout :: "(string \<times> cty) list" where
  "balancer_layout =
     [(''numIdle'', CInt), (''mask'', CULL), (''prev_irq_times'', CArray 64 CULL),
      (''curr_irq_times'', CArray 64 CULL), (''hist_irq_times'', CArray 64 CULL),
      (''samples'', CInt), (''irq_samples'', CInt), (''update_irq'', CInt),
      (''balancerControl'', CInt), (''updatingPids'', CInt),
      (''secondary_pid_list'', CArray 128 CInt), (''nr_secondary_ctrs'', CInt),
      (''needs_rebalance'', CInt), (''affinity_list'', CArray 64 CInt), (''num_affinity'', CInt),
      (''num_secondary_cores'', CInt), (''secondary_cores_list'', CArray 64 CInt),
      (''secondary_ctrs'', CArray 64 (CStruct balancer_ctr_layout)),
      (''primary_ctrs'', CArray 64 (CStruct balancer_primary_layout)), (''nr_primary_ctrs'', CInt)]"

definition listener_ctr_layout :: "(string \<times> cty) list" where
  "listener_ctr_layout =
     [(''parent_pid'', CInt), (''nr_pids'', CInt), (''pidList'', CArray 128 CInt)]"

definition listener_primary_layout :: "(string \<times> cty) list" where
  "listener_primary_layout =
     [(''NUMCPUS'', CInt), (''cpuList'', CArray 64 CInt), (''LOWIDLEFREQ_THRESHOLD'', CFloat),
      (''LOW_TIC'', CInt), (''targetIdleCores'', CInt), (''static_targetIdleCores'', CInt),
      (''totalEligibleCores'', CInt), (''maxSecondaryCores'', CInt), (''minSecondaryCores'', CInt)]"

definition listener_layout :: "(string \<times> cty) list" where
  "listener_layout =
     [(''numIdle'', CInt), (''mask'', CULL), (''prev_irq_times'', CArray 64 CULL),
      (''curr_irq_times'', CArray 64 CULL), (''hist_irq_times'', CArray 64 CULL),
      (''samples'', CInt), (''irq_samples'', CInt), (''update_irq'', CInt),
      (''balancerControl'', CInt), (''updatingPids'', CInt),
      (''secondary_pid_list'', CArray 128 CInt), (''nr_secondary_ctrs'', CInt),
      (''needs_rebalance'', CInt), (''affinity_list'', CArray 64 CInt), (''num_affinity'', CInt),
      (''num_secondary_cores'', CInt), (''secondary_cores_list'', CArray 64 CInt),
      (''secondary_ctrs'', CArray 64 (CStruct listener_ctr_layout)),
      (''primary_ctrs'', CArray 64 (CStruct listener_primary_layout)), (''nr_primary_ctrs'', CInt)]"

definition monitor_ctr_layout :: "(string \<times> cty) list" where
  "monitor_ctr_layout =
     [(''parent_pid'', CInt), (''nr_pids'', CInt), (''pidList'', CArray 128 CInt)]"

definition monitor_primary_layout :: "(string \<times> cty) list" where
  "monitor_primary_layout =
     [(''NUMCPUS'', CInt), (''cpuList'', CArray 64 CInt), (''LOWIDLEFREQ_THRESHOLD'', CFloat),
      (''LOW_TIC'', CInt), (''targetIdleCores'', CInt), (''static_targetIdleCores'', CInt),
      (''totalEligibleCores'', CInt), (''maxSecondaryCores'', CInt), (''minSecondaryCores'', CInt)]"

definition monitor_layout :: "(string \<times> cty) list" where
  "monitor_layout =
     [(''numIdle'', CInt), (''mask'', CULL), (''prev_irq_times'', CArray 64 CULL),
      (''curr_irq_times'', CArray 64 CULL), (''hist_irq_times'', CArray 64 CULL),
      (''samples'', CInt), (''irq_samples'', CInt), (''update_irq'', CInt),
      (''balancerControl'', CInt), (''updatingPids'', CInt),
      (''secondary_pid_list'', CArray 128 CInt), (''nr_secondary_ctrs'', CInt),
      (''needs_rebalance'', CInt), (''affinity_list'', CArray 64 CInt), (''num_affinity'', CInt),
      (''num_secondary_cores'', CInt), (''secondary_cores_list'', CArray 64 CInt),
      (''secondary_ctrs'', CArray 64 (CStruct monitor_ctr_layout)),
      (''primary_ctrs'', CArray 64 (CStruct monitor_primary_layout)), (''nr_primary_ctrs'', CInt)]"

lemma layouts_equal:
  "balancer_layout = monitor_layout" "listener_layout = monitor_layout"
  "balancer_primary_layout = monitor_primary_layout"
  "listener_primary_layout = monitor_primary_layout"
  "balancer_ctr_layout = monitor_ctr_layout" "listener_ctr_layout = monitor_ctr_layout"
  by (simp_all only: balancer_layout_def monitor_layout_def listener_layout_def
      balancer_primary_layout_def monitor_primary_layout_def listener_primary_layout_def
      balancer_ctr_layout_def monitor_ctr_layout_def listener_ctr_layout_def)

lemma monitor_layout_size: "c_size (CStruct monitor_layout) = 54328"
  by (simp add: monitor_layout_def monitor_ctr_layout_def monitor_primary_layout_def pad_to_def)


end
