(* ===== verification/BalState.thy ===== *)
theory BalState imports Shmem begin

section \<open>The Balancer's own state\<close>

text \<open>
  The data of \<open>balancer.h\<close>, \<open>logger.h\<close> and \<open>interrupts.h\<close>: the per-container statistics
  \<open>balancer_info\<close>, the log entries and the heap blocks that hold them, the globals of the process.
  A heap block is \<open>None\<close> when its \<open>malloc\<close> failed and otherwise a partial map from indices to
  written entries; a write through a null pointer or outside the allocated entries is undefined
  behaviour.  Globals that no function of the program reads or writes are left out.
\<close>

subsection \<open>Time\<close>

record timespec =
  tv_sec :: int
  tv_nsec :: int

definition in_long :: "int \<Rightarrow> bool" where
  "in_long x \<longleftrightarrow> - (2 ^ 63) \<le> x \<and> x < 2 ^ 63"

definition c_long :: "int \<Rightarrow> int option" where
  "c_long x = (if in_long x then Some x else None)"

lemma c_long_Some [simp]: "c_long x = Some y \<longleftrightarrow> in_long x \<and> y = x"
  by (auto simp: c_long_def)

text \<open>\<open>getTimeElapsed\<close>: signed 64-bit arithmetic, stored in an \<open>unsigned long long\<close>.\<close>

definition getTimeElapsed :: "timespec \<Rightarrow> timespec \<Rightarrow> u64 option" where
  "getTimeElapsed prev_time curr_time = do {
     ds \<leftarrow> c_long (tv_sec curr_time - tv_sec prev_time);
     ns \<leftarrow> c_long (1000 * 1000 * 1000 * ds);
     dn \<leftarrow> c_long (tv_nsec curr_time - tv_nsec prev_time);
     elapsed \<leftarrow> c_long (ns + dn);
     Some (word_of_int elapsed) }"

subsection \<open>Per-container statistics\<close>

datatype balancerState = OBSERVE | ADJUST | HARVEST

record balancer_info =
  bi_prev_idleCoresCount :: int
  bi_idleCoresCount :: int
  bi_prev_targetIdleCores :: int
  bi_coreDifference :: int
  bi_this_sample_time :: u64
  bi_total_sample_time :: u64
  bi_surplus_sample_time :: u64
  bi_deficit_sample_time :: u64
  bi_deficit_aggIdleCoresCount :: u64
  bi_surplus_aggIdleCoresCount :: u64
  bi_aggIdleCoresCount :: fp
  bi_num_surplus_observed :: int
  bi_num_deficit_observed :: int
  bi_time_spent_surplus :: u64
  bi_time_spent_deficit :: u64
  bi_prev_sample_timestamp :: timespec
  bi_irq_sample_time :: timespec
  bi_num_samples_taken :: int
  bi_deficit_weight :: fp
  bi_surplus_weight :: fp
  bi_lowIdleFreq :: fp
  bi_SAMPLE_TYPE :: int
  bi_CoresAllocatedToSecondary :: int
  bi_SpareCoresToAllocate :: int
  bi_ACBF_high :: fp
  bi_ACBF_low :: fp
  bi_ACBF_current :: fp
  bi_deficits :: fp
  bi_deficit_rate :: fp
  bi_sample_time_elapsed :: u64
  bi_ramp_ctr :: int
  bi_surplus_evts :: int
  bi_within_error_flag :: int
  bi_currentState :: balancerState

subsection \<open>Logs\<close>

type_synonym 'a block = "(nat \<Rightarrow> 'a option) option"

definition block_set :: "nat \<Rightarrow> 'a block \<Rightarrow> nat \<Rightarrow> 'a \<Rightarrow> 'a block option" where
  "block_set cap b i v =
     (case b of None \<Rightarrow> None | Some m \<Rightarrow> if i < cap then Some (Some (m(i \<mapsto> v))) else None)"

definition block_get :: "'a block \<Rightarrow> nat \<Rightarrow> 'a option" where
  "block_get b i = (case b of None \<Rightarrow> None | Some m \<Rightarrow> m i)"

record logentry =
  le_startSec :: u64
  le_startNSec :: u64
  le_endSec :: u64
  le_endNSec :: u64
  le_coreDifference :: int
  le_setAffinity :: u32
  le_currIdleMask :: u64
  le_setAffinityMask :: u64
  le_idleCoresCount :: int
  le_CoresAllocatedToSecondary :: int

record idleMaskChange =
  mc_ts_sec :: u64
  mc_ts_nsec :: u64
  mc_oldMask :: u64
  mc_newMask :: u64

record dynamic_logentry =
  de_startSec :: u64
  de_startNSec :: u64
  de_sample_time_elapsed :: u64
  de_idleCoresCount :: int
  de_prev_targetIdleCores :: int
  de_targetIdleCores :: int
  de_time_spent_surplus :: u64
  de_time_spent_deficit :: u64
  de_surplus_weight :: fp
  de_deficit_weight :: fp
  de_num_samples_taken :: int
  de_aggIdleCoresCount :: fp
  de_lowIdleFreq :: fp

record logs =
  lg_loggingEnabled :: int
  lg_eventCount :: u32
  lg_iterationsCount :: u32
  lg_idleMaskChangeCount :: u32
  lg_dynamicEventCount :: u32
  lg_events :: "logentry block"
  lg_idleMaskChanges :: "idleMaskChange block"
  lg_dynamicEvents :: "dynamic_logentry block"

definition MAX_EVENTS :: nat where
  "MAX_EVENTS = 1000 * 1000 * 100"

subsection \<open>Interrupt statistics\<close>

record irq_state =
  ir_harvest_core_weights :: "u64 list"
  ir_prev_irq_times :: "u64 list"
  ir_harvestCores :: "int list"

subsection \<open>Globals\<close>

record balancer =
  g_NUMCPUS :: int
  g_cpuList :: "int list"
  g_IDLEACTIVE_SAMPLE_RATE :: u64
  g_allowSuspendSecondary :: int
  g_static_targetIdleCores :: int
  g_targetIdleCores :: int
  g_totalEligibleCores :: int
  g_maxSecondaryCores :: int
  g_minSecondaryCores :: int
  g_CoresAllocatedToSecondary :: int
  g_LOWIDLEFREQ_THRESHOLD :: fp
  g_LOW_TIC :: int
  g_idleCoresCount :: int
  g_coreDifference :: int
  g_currSecondaryCoreCount :: int
  g_lastSecondaryCoreCount :: int
  g_rebalanceAction :: int
  g_currIdleMask :: u64
  g_lastIdleMask :: u64
  g_setAffinityMask :: u64
  g_lastAffinityMask :: u64
  g_affinityListPos :: int
  g_secondary_pid :: int
  g_secondary_mask :: "int set"
  g_stats :: "balancer_info list"
  g_irq :: irq_state
  g_logs :: logs

text \<open>The globals when the process starts: C zeroes them, and the three heap blocks are null.\<close>

definition zero_logs :: logs where
  "zero_logs = \<lparr>lg_loggingEnabled = 0, lg_eventCount = 0, lg_iterationsCount = 0,
     lg_idleMaskChangeCount = 0, lg_dynamicEventCount = 0, lg_events = None,
     lg_idleMaskChanges = None, lg_dynamicEvents = None\<rparr>"

definition zero_globals :: balancer where
  "zero_globals = \<lparr>g_NUMCPUS = 0, g_cpuList = replicate 64 0, g_IDLEACTIVE_SAMPLE_RATE = 0,
     g_allowSuspendSecondary = 0, g_static_targetIdleCores = 0, g_targetIdleCores = 0,
     g_totalEligibleCores = 0, g_maxSecondaryCores = 0, g_minSecondaryCores = 0,
     g_CoresAllocatedToSecondary = 0, g_LOWIDLEFREQ_THRESHOLD = Fin 0, g_LOW_TIC = 0,
     g_idleCoresCount = 0, g_coreDifference = 0, g_currSecondaryCoreCount = 0,
     g_lastSecondaryCoreCount = 0, g_rebalanceAction = 0, g_currIdleMask = 0,
     g_lastIdleMask = 0, g_setAffinityMask = 0, g_lastAffinityMask = 0, g_affinityListPos = 0,
     g_secondary_pid = 0, g_secondary_mask = {}, g_stats = [],
     g_irq = \<lparr>ir_harvest_core_weights = replicate 64 0, ir_prev_irq_times = replicate 64 0,
       ir_harvestCores = replicate 64 0\<rparr>, g_logs = zero_logs\<rparr>"

definition MAX_CONTAINERS :: nat where
  "MAX_CONTAINERS = 64"

definition bal_shape :: "balancer \<Rightarrow> bool" where
  "bal_shape g \<longleftrightarrow> length (g_cpuList g) = 64 \<and> length (g_stats g) = MAX_CONTAINERS"

text \<open>The monitored cores and a sane core list: one to 64 distinct cores that fit a mask.\<close>

definition monitored :: "balancer \<Rightarrow> int list" where
  "monitored g = take (nat (g_NUMCPUS g)) (g_cpuList g)"

definition cpus_ok :: "balancer \<Rightarrow> bool" where
  "cpus_ok g \<longleftrightarrow> bal_shape g \<and> 1 \<le> g_NUMCPUS g \<and> g_NUMCPUS g \<le> 64 \<and>
     distinct (monitored g) \<and> (\<forall>c \<in> set (monitored g). core_ok c)"

lemma monitored_nth:
  assumes "cpus_ok g" "c < nat (g_NUMCPUS g)"
  shows "arr_get (g_cpuList g) (int c) = Some (monitored g ! c)" "c < length (monitored g)"
    "core_ok (monitored g ! c)"
proof -
  have len: "c < length (monitored g)"
    using assms by (auto simp: cpus_ok_def bal_shape_def monitored_def)
  then show "c < length (monitored g)" .
  show "arr_get (g_cpuList g) (int c) = Some (monitored g ! c)"
    using assms by (auto simp: cpus_ok_def bal_shape_def monitored_def)
  show "core_ok (monitored g ! c)"
    using assms(1) len by (simp add: cpus_ok_def)
qed

lemma length_monitored: "cpus_ok g \<Longrightarrow> length (monitored g) = nat (g_NUMCPUS g)"
  by (auto simp: cpus_ok_def bal_shape_def monitored_def)

lemma last_cpu:
  assumes "cpus_ok g"
  shows "arr_get (g_cpuList g) (g_NUMCPUS g - 1) = Some (last (monitored g))"
    "core_ok (last (monitored g))"
proof -
  have n: "nat (g_NUMCPUS g) - 1 < nat (g_NUMCPUS g)" "monitored g \<noteq> []"
    using assms length_monitored[OF assms] by (auto simp: cpus_ok_def)
  then have "last (monitored g) = monitored g ! (nat (g_NUMCPUS g) - 1)"
    by (simp add: last_conv_nth length_monitored[OF assms])
  moreover have "int (nat (g_NUMCPUS g) - 1) = g_NUMCPUS g - 1"
    using assms by (auto simp: cpus_ok_def)
  ultimately show "arr_get (g_cpuList g) (g_NUMCPUS g - 1) = Some (last (monitored g))"
    "core_ok (last (monitored g))"
    using monitored_nth[OF assms n(1)] by auto
qed

end
