(* ===== verification/Logger.thy ===== *)
theory Logger imports BalState begin

section \<open>Event logs and utilisation statistics (logger.c)\<close>

text \<open>
  The three logs the balancer appends to (\<open>addLogEvent\<close>, \<open>logDynamicEvent\<close> and the idle-mask
  changes that \<open>pollIdleCPU\<close> records itself), the printed masks (\<open>getHumanIdleMask\<close>), the
  statistics that \<open>writeLog\<close> computes and the per-core utilisation of \<open>calculateExecTime\<close>.
  What a log append promises is the \<open>event_log\<close> locale; the three logs interpret it.
\<close>

subsection \<open>Appending\<close>

definition addLogEvent ::
  "timespec \<Rightarrow> timespec \<Rightarrow> int \<Rightarrow> int \<Rightarrow> u64 \<Rightarrow> int \<Rightarrow> u64 \<Rightarrow> int \<Rightarrow> logs \<Rightarrow> logs option" where
  "addLogEvent eventStart eventEnd coreDifference setAffinity currIdleMask idleCoresCount
     setAffinityMask CoresAllocatedToSecondary l =
     (if lg_loggingEnabled l = 0 \<or> MAX_EVENTS < unat (lg_eventCount l) then Some l
      else do {
        b \<leftarrow> block_set MAX_EVENTS (lg_events l) (unat (lg_eventCount l))
               \<lparr>le_startSec = word_of_int (tv_sec eventStart),
                le_startNSec = word_of_int (tv_nsec eventStart),
                le_endSec = word_of_int (tv_sec eventEnd),
                le_endNSec = word_of_int (tv_nsec eventEnd),
                le_coreDifference = coreDifference,
                le_setAffinity = word_of_int setAffinity,
                le_currIdleMask = currIdleMask,
                le_setAffinityMask = setAffinityMask,
                le_idleCoresCount = idleCoresCount,
                le_CoresAllocatedToSecondary = CoresAllocatedToSecondary\<rparr>;
        Some (l\<lparr>lg_events := b, lg_eventCount := lg_eventCount l + 1\<rparr>) })"

definition logDynamicEvent ::
  "timespec \<Rightarrow> u64 \<Rightarrow> int \<Rightarrow> int \<Rightarrow> int \<Rightarrow> u64 \<Rightarrow> u64 \<Rightarrow> fp \<Rightarrow> fp \<Rightarrow> int \<Rightarrow> fp \<Rightarrow> fp \<Rightarrow>
   logs \<Rightarrow> logs option" where
  "logDynamicEvent eventTime sample_time_elapsed idleCoresCount prev_targetIdleCores
     targetIdleCores time_spent_surplus time_spent_deficit surplus_weight deficit_weight
     num_samples_taken aggIdleCoresCount lowIdleFreq l =
     (if lg_loggingEnabled l = 0 \<or> MAX_EVENTS < unat (lg_dynamicEventCount l) then Some l
      else do {
        b \<leftarrow> block_set MAX_EVENTS (lg_dynamicEvents l) (unat (lg_dynamicEventCount l))
               \<lparr>de_startSec = word_of_int (tv_sec eventTime),
                de_startNSec = word_of_int (tv_nsec eventTime),
                de_sample_time_elapsed = sample_time_elapsed,
                de_idleCoresCount = idleCoresCount,
                de_prev_targetIdleCores = prev_targetIdleCores,
                de_targetIdleCores = targetIdleCores,
                de_time_spent_surplus = time_spent_surplus,
                de_time_spent_deficit = time_spent_deficit,
                de_surplus_weight = surplus_weight,
                de_deficit_weight = deficit_weight,
                de_num_samples_taken = num_samples_taken,
                de_aggIdleCoresCount = aggIdleCoresCount,
                de_lowIdleFreq = lowIdleFreq\<rparr>;
        Some (l\<lparr>lg_dynamicEvents := b, lg_dynamicEventCount := lg_dynamicEventCount l + 1\<rparr>) })"

text \<open>The body of the \<open>if\<close> in \<open>pollIdleCPU\<close> that records a change of the idle mask; it has no
  guard on the number of entries and does not look at \<open>loggingEnabled\<close>.\<close>

definition recordMaskChange :: "timespec \<Rightarrow> u64 \<Rightarrow> u64 \<Rightarrow> logs \<Rightarrow> logs option" where
  "recordMaskChange idleMaskChangeTS lastIdleMask currIdleMask l = do {
     b \<leftarrow> block_set MAX_EVENTS (lg_idleMaskChanges l) (unat (lg_idleMaskChangeCount l))
            \<lparr>mc_ts_sec = word_of_int (tv_sec idleMaskChangeTS),
             mc_ts_nsec = word_of_int (tv_nsec idleMaskChangeTS),
             mc_oldMask = lastIdleMask,
             mc_newMask = currIdleMask\<rparr>;
     Some (l\<lparr>lg_idleMaskChanges := b,
             lg_idleMaskChangeCount := lg_idleMaskChangeCount l + 1\<rparr>) }"

subsection \<open>What a log promises\<close>

text \<open>The entries written so far, and the invariant that they are all there.\<close>

definition block_entries :: "'e block \<Rightarrow> nat \<Rightarrow> 'e list" where
  "block_entries b n = map (\<lambda>i. the (block_get b i)) [0..<n]"

definition block_full :: "'e block \<Rightarrow> nat \<Rightarrow> bool" where
  "block_full b n \<longleftrightarrow> b \<noteq> None \<and> n \<le> MAX_EVENTS \<and> (\<forall>i < n. block_get b i \<noteq> None)"

lemma block_set_append:
  assumes "block_full b n" "n < MAX_EVENTS"
  shows "\<exists>b'. block_set MAX_EVENTS b n e = Some b' \<and> block_full b' (Suc n) \<and>
     block_entries b' (Suc n) = block_entries b n @ [e]"
  using assms by (cases b) (auto simp: block_set_def block_full_def block_entries_def block_get_def
      less_Suc_eq)

lemma unat_Suc_below_cap:
  fixes c :: u32
  assumes "unat c < MAX_EVENTS"
  shows "unat (c + 1) = Suc (unat c)"
  using assms by (simp add: unat_word_ariths MAX_EVENTS_def)

locale event_log =
  fixes ready :: "'s \<Rightarrow> bool"
    and count :: "'s \<Rightarrow> nat"
    and blk :: "'s \<Rightarrow> 'e block"
    and app :: "'a \<Rightarrow> 's \<Rightarrow> 's option"
    and entry :: "'a \<Rightarrow> 'e"
  assumes app_step:
    "ready s \<Longrightarrow> block_full (blk s) (count s) \<Longrightarrow> count s < MAX_EVENTS \<Longrightarrow>
     \<exists>s' b'. app x s = Some s' \<and> ready s' \<and> count s' = Suc (count s) \<and>
       block_set MAX_EVENTS (blk s) (count s) (entry x) = Some b' \<and> blk s' = b'"
begin

lemma app_entries:
  assumes "ready s" "block_full (blk s) (count s)" "count s < MAX_EVENTS"
  shows "\<exists>s'. app x s = Some s' \<and> ready s' \<and> count s' = Suc (count s) \<and>
     block_full (blk s') (count s') \<and>
     block_entries (blk s') (count s') = block_entries (blk s) (count s) @ [entry x]"
  using app_step[OF assms, of x] block_set_append[OF assms(2,3), of "entry x"] by fastforce

lemma app_all_entries:
  assumes "ready s" "block_full (blk s) (count s)" "count s + length xs \<le> MAX_EVENTS"
  shows "\<exists>s'. run_all app xs s = Some s' \<and> ready s' \<and> block_full (blk s') (count s') \<and>
     block_entries (blk s') (count s') = block_entries (blk s) (count s) @ map entry xs"
  using assms
proof (induction xs arbitrary: s)
  case Nil
  then show ?case by simp
next
  case (Cons x xs)
  obtain s1 where s1: "app x s = Some s1" "ready s1" "count s1 = Suc (count s)"
    "block_full (blk s1) (count s1)"
    "block_entries (blk s1) (count s1) = block_entries (blk s) (count s) @ [entry x]"
    using app_entries[of s x] Cons.prems by auto
  then show ?case using Cons.IH[of s1] Cons.prems(3) by auto
qed

end

text \<open>The arguments of the three appends and the entry each of them writes.\<close>

definition event_entry ::
  "timespec \<times> timespec \<times> int \<times> int \<times> u64 \<times> int \<times> u64 \<times> int \<Rightarrow> logentry" where
  "event_entry = (\<lambda>(t0, t1, diff, aff, idle, n, mask, alloc).
     \<lparr>le_startSec = word_of_int (tv_sec t0), le_startNSec = word_of_int (tv_nsec t0),
      le_endSec = word_of_int (tv_sec t1), le_endNSec = word_of_int (tv_nsec t1),
      le_coreDifference = diff, le_setAffinity = word_of_int aff, le_currIdleMask = idle,
      le_setAffinityMask = mask, le_idleCoresCount = n, le_CoresAllocatedToSecondary = alloc\<rparr>)"

definition event_append ::
  "timespec \<times> timespec \<times> int \<times> int \<times> u64 \<times> int \<times> u64 \<times> int \<Rightarrow> logs \<Rightarrow> logs option" where
  "event_append = (\<lambda>(t0, t1, diff, aff, idle, n, mask, alloc).
     addLogEvent t0 t1 diff aff idle n mask alloc)"

definition change_entry :: "timespec \<times> u64 \<times> u64 \<Rightarrow> idleMaskChange" where
  "change_entry = (\<lambda>(t, old, new). \<lparr>mc_ts_sec = word_of_int (tv_sec t),
     mc_ts_nsec = word_of_int (tv_nsec t), mc_oldMask = old, mc_newMask = new\<rparr>)"

definition change_append :: "timespec \<times> u64 \<times> u64 \<Rightarrow> logs \<Rightarrow> logs option" where
  "change_append = (\<lambda>(t, old, new). recordMaskChange t old new)"

definition dynamic_append :: "dynamic_logentry \<Rightarrow> logs \<Rightarrow> logs option" where
  "dynamic_append d =
     logDynamicEvent \<lparr>tv_sec = uint (de_startSec d), tv_nsec = uint (de_startNSec d)\<rparr>
       (de_sample_time_elapsed d) (de_idleCoresCount d) (de_prev_targetIdleCores d)
       (de_targetIdleCores d) (de_time_spent_surplus d) (de_time_spent_deficit d)
       (de_surplus_weight d) (de_deficit_weight d) (de_num_samples_taken d)
       (de_aggIdleCoresCount d) (de_lowIdleFreq d)"

lemma block_set_full_defined:
  assumes "block_full b n" "n < MAX_EVENTS"
  obtains b' where "block_set MAX_EVENTS b n e = Some b'"
  using block_set_append[OF assms, of e] by auto

interpretation ev: event_log "\<lambda>l. lg_loggingEnabled l \<noteq> 0" "\<lambda>l. unat (lg_eventCount l)"
  lg_events event_append event_entry
proof
  fix l :: logs and x :: "timespec \<times> timespec \<times> int \<times> int \<times> u64 \<times> int \<times> u64 \<times> int"
  assume "lg_loggingEnabled l \<noteq> 0"
    and full: "block_full (lg_events l) (unat (lg_eventCount l))"
    and cap: "unat (lg_eventCount l) < MAX_EVENTS"
  moreover obtain b' where
    "block_set MAX_EVENTS (lg_events l) (unat (lg_eventCount l)) (event_entry x) = Some b'"
    using block_set_full_defined[OF full cap] .
  ultimately show "\<exists>s' b'. event_append x l = Some s' \<and> lg_loggingEnabled s' \<noteq> 0 \<and>
      unat (lg_eventCount s') = Suc (unat (lg_eventCount l)) \<and>
      block_set MAX_EVENTS (lg_events l) (unat (lg_eventCount l)) (event_entry x) = Some b' \<and>
      lg_events s' = b'"
    by (auto simp: event_append_def addLogEvent_def event_entry_def unat_Suc_below_cap
        split: prod.splits)
qed

interpretation mc: event_log "\<lambda>l. True" "\<lambda>l. unat (lg_idleMaskChangeCount l)"
  lg_idleMaskChanges change_append change_entry
proof
  fix l :: logs and x :: "timespec \<times> u64 \<times> u64"
  assume full: "block_full (lg_idleMaskChanges l) (unat (lg_idleMaskChangeCount l))"
    and cap: "unat (lg_idleMaskChangeCount l) < MAX_EVENTS"
  moreover obtain b' where
    "block_set MAX_EVENTS (lg_idleMaskChanges l) (unat (lg_idleMaskChangeCount l))
       (change_entry x) = Some b'"
    using block_set_full_defined[OF full cap] .
  ultimately show "\<exists>s' b'. change_append x l = Some s' \<and> True \<and>
      unat (lg_idleMaskChangeCount s') = Suc (unat (lg_idleMaskChangeCount l)) \<and>
      block_set MAX_EVENTS (lg_idleMaskChanges l) (unat (lg_idleMaskChangeCount l))
        (change_entry x) = Some b' \<and> lg_idleMaskChanges s' = b'"
    by (cases x) (simp add: change_append_def recordMaskChange_def change_entry_def
        unat_Suc_below_cap)
qed

interpretation dy: event_log "\<lambda>l. lg_loggingEnabled l \<noteq> 0" "\<lambda>l. unat (lg_dynamicEventCount l)"
  lg_dynamicEvents dynamic_append id
proof
  fix l :: logs and x :: dynamic_logentry
  assume "lg_loggingEnabled l \<noteq> 0"
    and full: "block_full (lg_dynamicEvents l) (unat (lg_dynamicEventCount l))"
    and cap: "unat (lg_dynamicEventCount l) < MAX_EVENTS"
  moreover obtain b' where
    "block_set MAX_EVENTS (lg_dynamicEvents l) (unat (lg_dynamicEventCount l)) (id x) = Some b'"
    using block_set_full_defined[OF full cap] .
  ultimately show "\<exists>s' b'. dynamic_append x l = Some s' \<and> lg_loggingEnabled s' \<noteq> 0 \<and>
      unat (lg_dynamicEventCount s') = Suc (unat (lg_dynamicEventCount l)) \<and>
      block_set MAX_EVENTS (lg_dynamicEvents l) (unat (lg_dynamicEventCount l)) (id x)
        = Some b' \<and> lg_dynamicEvents s' = b'"
    by (cases x) (simp add: dynamic_append_def logDynamicEvent_def unat_Suc_below_cap)
qed

text \<open>The guard of the two guarded appends admits the first index past the block.\<close>

lemma addLogEvent_at_capacity:
  "lg_loggingEnabled l \<noteq> 0 \<Longrightarrow> unat (lg_eventCount l) = MAX_EVENTS \<Longrightarrow>
   addLogEvent t0 t1 d a m n s c l = None"
  by (cases "lg_events l") (simp_all add: addLogEvent_def block_set_def)

lemma logDynamicEvent_at_capacity:
  "lg_loggingEnabled l \<noteq> 0 \<Longrightarrow> unat (lg_dynamicEventCount l) = MAX_EVENTS \<Longrightarrow>
   logDynamicEvent t e i p q s d sw dw n a f l = None"
  by (cases "lg_dynamicEvents l") (simp_all add: logDynamicEvent_def block_set_def)

subsection \<open>Printed masks\<close>

definition getHumanIdleMask :: "balancer \<Rightarrow> u64 \<Rightarrow> string option" where
  "getHumanIdleMask g bits = do {
     last_cpu \<leftarrow> arr_get (g_cpuList g) (g_NUMCPUS g - 1);
     for_loop 0 (nat (last_cpu + 1))
       (\<lambda>i s. do { b \<leftarrow> shl1 (int i);
                  Some (s @ [if bits AND b \<noteq> 0 then CHR ''1'' else CHR ''0'']) }) [] }"

subsection \<open>Utilisation of every core\<close>

record execTimes =
  et_idle :: u64
  et_active :: u64
  et_id :: int

type_synonym change_row = "u64 \<times> u64 \<times> string \<times> u64 \<times> string \<times> u64"

definition change_elapsed :: "idleMaskChange \<Rightarrow> idleMaskChange \<Rightarrow> u64" where
  "change_elapsed a b =
     1000 * 1000 * 1000 * (mc_ts_sec b - mc_ts_sec a) + (mc_ts_nsec b - mc_ts_nsec a)"

definition charge_core :: "balancer \<Rightarrow> u64 \<Rightarrow> u64 \<Rightarrow> nat \<Rightarrow> execTimes list \<Rightarrow> execTimes list option" where
  "charge_core g oldMask elapsed c util = do {
     cpu \<leftarrow> arr_get (g_cpuList g) (int c);
     b \<leftarrow> shl1 cpu;
     t \<leftarrow> arr_get util cpu;
     arr_set util cpu
       (if oldMask AND b \<noteq> 0 then t\<lparr>et_active := et_active t + elapsed\<rparr>
        else t\<lparr>et_idle := et_idle t + elapsed\<rparr>) }"

definition exec_step ::
  "balancer \<Rightarrow> nat \<Rightarrow> change_row list \<times> u64 \<times> execTimes list \<Rightarrow>
   (change_row list \<times> u64 \<times> execTimes list) option" where
  "exec_step g e = (\<lambda>(rows, totalExecTime, util). do {
     cur \<leftarrow> block_get (lg_idleMaskChanges (g_logs g)) e;
     nxt \<leftarrow> block_get (lg_idleMaskChanges (g_logs g)) (Suc e);
     humanOldMask \<leftarrow> getHumanIdleMask g (mc_oldMask cur);
     humanNewMask \<leftarrow> getHumanIdleMask g (mc_newMask cur);
     let elapsed = change_elapsed cur nxt;
     util' \<leftarrow> for_loop 0 (nat (g_NUMCPUS g)) (charge_core g (mc_oldMask nxt) elapsed) util;
     Some (rows @ [(mc_ts_sec cur, mc_ts_nsec cur, humanOldMask, mc_oldMask cur,
                    humanNewMask, mc_newMask cur)],
           totalExecTime + elapsed, util') })"

definition calculateExecTime ::
  "balancer \<Rightarrow> (change_row list \<times> u64 \<times> execTimes list) option" where
  "calculateExecTime g =
     for_loop 0 (unat (lg_idleMaskChangeCount (g_logs g) - 1)) (exec_step g)
       ([], 0, replicate 64 \<lparr>et_idle = 0, et_active = 0, et_id = 0\<rparr>)"

subsection \<open>Service-time statistics\<close>

record log_stats =
  ws_tooManyIdleCount :: u32
  ws_tooFewIdleCount :: u32
  ws_setAffinityCount :: u32
  ws_maxServiceTime :: u64
  ws_minServiceTime :: u64
  ws_avgServiceTime :: u64
  ws_tooManyIdleTime :: u64
  ws_tooFewIdleTime :: u64
  ws_totalProcessingTime :: u64

definition zero_stats :: log_stats where
  "zero_stats = \<lparr>ws_tooManyIdleCount = 0, ws_tooFewIdleCount = 0, ws_setAffinityCount = 0,
     ws_maxServiceTime = 0, ws_minServiceTime = 0, ws_avgServiceTime = 0,
     ws_tooManyIdleTime = 0, ws_tooFewIdleTime = 0, ws_totalProcessingTime = 0\<rparr>"

definition event_elapsed :: "logentry \<Rightarrow> u64" where
  "event_elapsed v =
     1000 * 1000 * 1000 * (le_endSec v - le_startSec v) + (le_endNSec v - le_startNSec v)"

definition stats_step :: "logentry \<Rightarrow> log_stats \<Rightarrow> log_stats" where
  "stats_step v ws =
     (let elapsed = event_elapsed v;
          ws = ws\<lparr>ws_totalProcessingTime := ws_totalProcessingTime ws + elapsed\<rparr>;
          ws = (if ws_maxServiceTime ws < elapsed then ws\<lparr>ws_maxServiceTime := elapsed\<rparr> else ws);
          ws = (if elapsed < ws_minServiceTime ws then ws\<lparr>ws_minServiceTime := elapsed\<rparr> else ws);
          ws = (if le_coreDifference v < 0
                then ws\<lparr>ws_tooFewIdleTime := ws_tooFewIdleTime ws + elapsed,
                        ws_tooFewIdleCount := ws_tooFewIdleCount ws + 1\<rparr>
                else if 0 < le_coreDifference v
                then ws\<lparr>ws_tooManyIdleTime := ws_tooManyIdleTime ws + elapsed,
                        ws_tooManyIdleCount := ws_tooManyIdleCount ws + 1\<rparr>
                else ws)
      in if le_setAffinity v \<noteq> 0 then ws\<lparr>ws_setAffinityCount := ws_setAffinityCount ws + 1\<rparr>
         else ws)"

type_synonym event_row =
  "u64 \<times> u64 \<times> u64 \<times> u64 \<times> u64 \<times> int \<times> string \<times> int \<times> string \<times> int"

definition write_event ::
  "balancer \<Rightarrow> nat \<Rightarrow> event_row list \<times> log_stats \<Rightarrow> (event_row list \<times> log_stats) option" where
  "write_event g e = (\<lambda>(rows, ws). do {
     v \<leftarrow> block_get (lg_events (g_logs g)) e;
     humanIdleMask \<leftarrow> getHumanIdleMask g (le_currIdleMask v);
     humanAffinityMask \<leftarrow> getHumanIdleMask g (le_setAffinityMask v);
     Some (rows @ [(le_endSec v, le_endNSec v, le_startSec v, le_startNSec v, event_elapsed v,
                    le_coreDifference v, humanIdleMask, le_idleCoresCount v, humanAffinityMask,
                    le_CoresAllocatedToSecondary v)],
           stats_step v ws) })"

definition write_dynamic ::
  "balancer \<Rightarrow> nat \<Rightarrow> dynamic_logentry list \<Rightarrow> dynamic_logentry list option" where
  "write_dynamic g e rows = do {
     d \<leftarrow> block_get (lg_dynamicEvents (g_logs g)) e;
     Some (rows @ [d]) }"

text \<open>What \<open>writeLog\<close> leaves behind: the rows of the files it could write.\<close>

datatype log_output =
    LogNotOpened
  | DynamicNotOpened "event_row list" log_stats "change_row list \<times> u64 \<times> execTimes list"
  | LogsWritten "event_row list" log_stats "change_row list \<times> u64 \<times> execTimes list"
      "dynamic_logentry list"

text \<open>\<open>fopen\<close> is a parameter: which files the process can open.  Only two of the five results are
  tested for null by the code; a null stream passed to \<open>fprintf\<close> is undefined.\<close>

definition writeLog :: "(string \<Rightarrow> bool) \<Rightarrow> balancer \<Rightarrow> log_output option" where
  "writeLog fopen g = do {
     last_cpu \<leftarrow> arr_get (g_cpuList g) (g_NUMCPUS g - 1);
     (if 1 + last_cpu + 1 \<le> 0 then None else
      if \<not> fopen ''balancer.log'' then Some LogNotOpened
      else do {
        (rows, ws) \<leftarrow> for_loop 0 (unat (lg_eventCount (g_logs g))) (write_event g)
                       ([], zero_stats);
        (if lg_eventCount (g_logs g) = 0 \<or> \<not> fopen ''idleMaskChanges.log''
            \<or> \<not> fopen ''util.log'' \<or> \<not> fopen ''stats.log'' then None
         else do {
           let ws = ws\<lparr>ws_avgServiceTime :=
                         ws_totalProcessingTime ws div ucast (lg_eventCount (g_logs g))\<rparr>;
           ex \<leftarrow> calculateExecTime g;
           (if \<not> fopen ''dynamic.log'' then Some (DynamicNotOpened rows ws ex)
            else do {
              dyn \<leftarrow> for_loop 0 (unat (lg_dynamicEventCount (g_logs g))) (write_dynamic g) [];
              Some (LogsWritten rows ws ex dyn) }) }) }) }"

subsection \<open>Facts about printed masks\<close>

definition mask_string :: "nat \<Rightarrow> u64 \<Rightarrow> string" where
  "mask_string n m = map (\<lambda>i. if bit m i then CHR ''1'' else CHR ''0'') [0..<n]"

lemma human_loop:
  assumes "n \<le> 64"
  shows "for_loop 0 n
    (\<lambda>i s. do { b \<leftarrow> shl1 (int i);
               Some (s @ [if m AND b \<noteq> 0 then CHR ''1'' else CHR ''0'']) }) []
    = Some (mask_string n m)"
  using assms
proof (induction n)
  case 0
  then show ?case by (simp add: mask_string_def)
next
  case (Suc n)
  then have "core_ok (int n)" by (simp add: core_ok_def)
  then show ?case using Suc
    by (simp only: for_loop_snoc)
      (simp add: and_shl1_nonzero[simplified] mask_string_def)
qed

lemma getHumanIdleMask_eq:
  assumes "cpus_ok g"
  shows "getHumanIdleMask g m = Some (mask_string (nat (last (monitored g) + 1)) m)"
proof -
  have "nat (last (monitored g) + 1) \<le> 64"
    using last_cpu(2)[OF assms] by (auto simp: core_ok_def)
  then show ?thesis
    by (simp add: getHumanIdleMask_def last_cpu(1)[OF assms] human_loop)
qed

text \<open>Reading the printed string back as binary digits gives the low bits of the mask.\<close>

definition parse_mask :: "string \<Rightarrow> u64" where
  "parse_mask s = horner_sum of_bool 2 (map ((=) CHR ''1'') s)"

lemma parse_mask_string: "parse_mask (mask_string n m) = take_bit n m"
proof -
  have "map ((=) CHR ''1'') (mask_string n m) = map (bit m) [0..<n]"
    by (simp add: mask_string_def)
  then show ?thesis by (simp add: parse_mask_def horner_sum_bit_eq_take_bit)
qed

subsection \<open>Facts about utilisation\<close>

abbreviation charged :: "execTimes list \<Rightarrow> int \<Rightarrow> u64" where
  "charged u c \<equiv> et_idle (u ! nat c) + et_active (u ! nat c)"

lemma charge_core_defined:
  assumes ok: "cpus_ok g" and c: "c < nat (g_NUMCPUS g)" and len: "length u = 64"
  shows "\<exists>u'. charge_core g m elapsed c u = Some u' \<and> length u' = 64 \<and>
    charged u' (monitored g ! c) = charged u (monitored g ! c) + elapsed \<and>
    (\<forall>k. k \<noteq> nat (monitored g ! c) \<longrightarrow> u' ! k = u ! k)"
proof -
  let ?cpu = "monitored g ! c"
  have cpu: "core_ok ?cpu" "arr_get (g_cpuList g) (int c) = Some ?cpu"
    using monitored_nth[OF ok c] by auto
  then have i: "nat ?cpu < length u" "arr_get u ?cpu = Some (u ! nat ?cpu)"
    "\<And>v. arr_set u ?cpu v = Some (u[nat ?cpu := v])"
    using len by (auto simp: core_ok_def arr_get_def arr_set_def)
  then show ?thesis using cpu len by (simp add: charge_core_def add.assoc add.commute)
qed

lemma charge_all:
  assumes ok: "cpus_ok g" and len: "length u = 64"
  shows "\<exists>u'. for_loop 0 (nat (g_NUMCPUS g)) (charge_core g m elapsed) u = Some u' \<and>
    length u' = 64 \<and> (\<forall>cpu \<in> set (monitored g). charged u' cpu = charged u cpu + elapsed)"
proof -
  let ?P = "\<lambda>n x. length x = 64 \<and>
    (\<forall>j < n. charged x (monitored g ! j) = charged u (monitored g ! j) + elapsed) \<and>
    (\<forall>j < nat (g_NUMCPUS g). n \<le> j \<longrightarrow> x ! nat (monitored g ! j) = u ! nat (monitored g ! j))"
  have dist: "nat (monitored g ! i) \<noteq> nat (monitored g ! j)"
    if "i < nat (g_NUMCPUS g)" "j < nat (g_NUMCPUS g)" "i \<noteq> j" for i j
  proof -
    have "monitored g ! i \<noteq> monitored g ! j"
      using ok that length_monitored[OF ok] by (simp add: cpus_ok_def nth_eq_iff_index_eq)
    then show ?thesis
      using monitored_nth(3)[OF ok, of i] monitored_nth(3)[OF ok, of j] that
      by (auto simp: core_ok_def)
  qed
  have "\<exists>t. for_loop 0 (nat (g_NUMCPUS g)) (charge_core g m elapsed) u = Some t \<and>
      ?P (0 + nat (g_NUMCPUS g)) t"
  proof (rule for_loop_total)
    show "?P 0 u" using len by simp
    fix i x
    assume i: "i < 0 + nat (g_NUMCPUS g)" and P: "?P i x"
    obtain y where y: "charge_core g m elapsed i x = Some y" "length y = 64"
      "charged y (monitored g ! i) = charged x (monitored g ! i) + elapsed"
      "\<And>k. k \<noteq> nat (monitored g ! i) \<Longrightarrow> y ! k = x ! k"
      using charge_core_defined[OF ok _ conjunct1[OF P], of i m elapsed] i by auto
    have "?P (Suc i) y"
      using y P dist i by (auto simp: less_Suc_eq)
    then show "\<exists>y. charge_core g m elapsed i x = Some y \<and> ?P (Suc i) y"
      using y(1) by blast
  qed
  then show ?thesis
    using length_monitored[OF ok] by (force simp: in_set_conv_nth)
qed

lemma change_elapsed_add:
  "change_elapsed a b + change_elapsed b c = change_elapsed a c"
  by (simp add: change_elapsed_def algebra_simps)

lemma change_elapsed_refl [simp]: "change_elapsed a a = 0"
  by (simp add: change_elapsed_def)

definition the_change :: "balancer \<Rightarrow> nat \<Rightarrow> idleMaskChange" where
  "the_change g e = the (block_get (lg_idleMaskChanges (g_logs g)) e)"

lemma exec_step_ok:
  assumes ok: "cpus_ok g"
    and full: "block_full (lg_idleMaskChanges (g_logs g)) n" and e: "Suc e < n"
    and len: "length util = 64"
    and bal: "\<forall>cpu \<in> set (monitored g). charged util cpu = tot"
  shows "\<exists>row util'. exec_step g e (rows, tot, util) =
      Some (rows @ [row], tot + change_elapsed (the_change g e) (the_change g (Suc e)), util') \<and>
    length util' = 64 \<and>
    (\<forall>cpu \<in> set (monitored g).
       charged util' cpu = tot + change_elapsed (the_change g e) (the_change g (Suc e)))"
proof -
  let ?c = "the_change g e" and ?d = "the_change g (Suc e)"
  have rd: "block_get (lg_idleMaskChanges (g_logs g)) e = Some ?c"
    "block_get (lg_idleMaskChanges (g_logs g)) (Suc e) = Some ?d"
    using full e by (auto simp: the_change_def block_full_def)
  obtain u' where "for_loop 0 (nat (g_NUMCPUS g))
      (charge_core g (mc_oldMask ?d) (change_elapsed ?c ?d)) util = Some u'" "length u' = 64"
    "\<forall>cpu \<in> set (monitored g). charged u' cpu = charged util cpu + change_elapsed ?c ?d"
    using charge_all[OF ok len] by blast
  then show ?thesis
    using rd bal by (simp add: exec_step_def getHumanIdleMask_eq[OF ok])
qed

lemma calculateExecTime_ok:
  assumes ok: "cpus_ok g"
    and full: "block_full (lg_idleMaskChanges (g_logs g)) (unat (lg_idleMaskChangeCount (g_logs g)))"
    and pos: "lg_idleMaskChangeCount (g_logs g) \<noteq> 0"
  shows "\<exists>rows tot util. calculateExecTime g = Some (rows, tot, util) \<and>
    length rows = unat (lg_idleMaskChangeCount (g_logs g)) - 1 \<and>
    tot = change_elapsed (the_change g 0)
      (the_change g (unat (lg_idleMaskChangeCount (g_logs g)) - 1)) \<and>
    (\<forall>cpu \<in> set (monitored g). charged util cpu = tot)"
proof -
  define n where "n = unat (lg_idleMaskChangeCount (g_logs g))"
  have n: "unat (lg_idleMaskChangeCount (g_logs g) - 1) = n - 1" "0 < n"
    using pos by (auto simp: n_def unat_minus_one word_neq_0_conv unat_gt_0)
  let ?P = "\<lambda>e (rows :: change_row list, tot, util). length rows = e \<and> length util = 64 \<and>
    tot = change_elapsed (the_change g 0) (the_change g e) \<and>
    (\<forall>cpu \<in> set (monitored g). charged util cpu = tot)"
  have init: "?P 0 ([], 0, replicate 64 \<lparr>et_idle = 0, et_active = 0, et_id = 0\<rparr>)"
    using ok by (auto simp: cpus_ok_def core_ok_def)
  have "\<exists>t. for_loop 0 (n - 1) (exec_step g)
      ([], 0, replicate 64 \<lparr>et_idle = 0, et_active = 0, et_id = 0\<rparr>) = Some t \<and> ?P (0 + (n - 1)) t"
  proof (rule for_loop_total)
    show "?P 0 ([], 0, replicate 64 \<lparr>et_idle = 0, et_active = 0, et_id = 0\<rparr>)"
      by (rule init)
    fix e x
    assume e: "e < 0 + (n - 1)" and P: "?P e x"
    obtain rows tot util where x: "x = (rows, tot, util)" by (cases x)
    have "Suc e < n" using e by simp
    from exec_step_ok[OF ok full[folded n_def] this, of util tot rows] P x
    obtain row util' where "exec_step g e x =
        Some (rows @ [row], tot + change_elapsed (the_change g e) (the_change g (Suc e)), util')"
      "length util' = 64" "\<forall>cpu \<in> set (monitored g).
         charged util' cpu = tot + change_elapsed (the_change g e) (the_change g (Suc e))"
      by auto
    then show "\<exists>y. exec_step g e x = Some y \<and> ?P (Suc e) y"
      using P x by (simp add: change_elapsed_add)
  qed
  then show ?thesis
    unfolding calculateExecTime_def n by (auto simp: n_def)
qed

subsection \<open>Facts about the service-time statistics\<close>

text \<open>The minimum starts at zero, so no elapsed time is ever below it.\<close>

lemma stats_step_min: "ws_minServiceTime ws = 0 \<Longrightarrow> ws_minServiceTime (stats_step v ws) = 0"
  by (simp add: stats_step_def Let_def)

lemma stats_step_max:
  "ws_maxServiceTime (stats_step v ws) = max (ws_maxServiceTime ws) (event_elapsed v)"
  by (auto simp: stats_step_def Let_def max_def)

lemma stats_step_total:
  "ws_totalProcessingTime (stats_step v ws) = ws_totalProcessingTime ws + event_elapsed v"
  by (simp add: stats_step_def Let_def)

lemma write_events_stats:
  assumes "for_loop 0 n (write_event g) (rows, ws) = Some (rows', ws')"
  shows "ws' = fold stats_step (block_entries (lg_events (g_logs g)) n) ws"
proof -
  have "case (rows', ws') of (r, w) \<Rightarrow>
      w = fold stats_step (block_entries (lg_events (g_logs g)) (0 + n)) ws"
    by (rule for_loop_inv[OF assms, where P = "\<lambda>i (r, w).
          w = fold stats_step (block_entries (lg_events (g_logs g)) i) ws"])
      (auto simp: block_entries_def write_event_def bind_eq_Some_conv)
  then show ?thesis by simp
qed

lemma fold_stats_min: "ws_minServiceTime ws = 0 \<Longrightarrow> ws_minServiceTime (fold stats_step vs ws) = 0"
  by (induction vs arbitrary: ws) (simp_all add: stats_step_min)

lemma fold_stats_max:
  "ws_maxServiceTime (fold stats_step vs ws) =
   fold (\<lambda>v m. max m (event_elapsed v)) vs (ws_maxServiceTime ws)"
  by (induction vs arbitrary: ws) (simp_all add: stats_step_max)

lemma fold_stats_total:
  "ws_totalProcessingTime (fold stats_step vs ws) =
   ws_totalProcessingTime ws + sum_list (map event_elapsed vs)"
  by (induction vs arbitrary: ws) (simp_all add: stats_step_total add.assoc)

end
