(* ===== verification/Policy.thy ===== *)
theory Policy imports Logger begin

section \<open>The harvesting policy (main.c)\<close>

text \<open>
  The per-container controller of the Balancer: \<open>within_error\<close>, \<open>doHarvest\<close>, \<open>doObserve\<close>,
  \<open>doAdjust\<close>, \<open>evaluatePrimaryContainer\<close> and \<open>evaluateContainers\<close>, with
  \<open>initializeBalancerInfo\<close>.  Every clock reading is an argument.  Floating-point fields are IEEE
  values (theory \<open>Floats\<close>); a \<open>double\<close> expression rounds in binary64, an assignment to a
  \<open>float\<close> field in binary32.
\<close>

subsection \<open>Constants of balancer.h\<close>

definition SURPLUS_EVTS_THRESH :: int where
  "SURPLUS_EVTS_THRESH = 10"

definition RAMPUP1 :: u32 where
  "RAMPUP1 = 5"

definition RAMPUP2 :: u32 where
  "RAMPUP2 = 5"

definition ALPHA :: fp where
  "ALPHA = r64 (85 / 100)"

definition one_minus_ALPHA :: fp where
  "one_minus_ALPHA = fp_add r64 (Fin 1) (fp_neg ALPHA)"

subsection \<open>CoreIsActive\<close>

definition CoreIsActive :: "int \<Rightarrow> u64 \<Rightarrow> int option" where
  "CoreIsActive core_id bits = do {
     b \<leftarrow> shl1 core_id;
     Some (if bits AND b \<noteq> 0 then 1 else 0) }"

lemma CoreIsActive_ok:
  "core_ok c \<Longrightarrow> CoreIsActive c m = Some (if bit m (nat c) then 1 else 0)"
  by (auto simp: CoreIsActive_def and_shl1_nonzero[simplified] core_ok_def shl1_def nat_less_iff)

subsection \<open>The controller\<close>

definition within_error :: "primary_ctr_info \<Rightarrow> balancer_info \<Rightarrow> int \<times> balancer_info" where
  "within_error ci bi =
     (if bi_within_error_flag bi \<noteq> 0 then (1, bi)
      else let f = (if fp_gt (bi_deficit_rate bi)
                         (fp_mul r64 (r64 (66 / 100)) (ci_LOWIDLEFREQ_THRESHOLD ci))
                    then 1 else 0)
           in (f, bi\<lparr>bi_within_error_flag := f\<rparr>))"

definition doHarvest ::
  "primary_ctr_info \<Rightarrow> balancer_info \<Rightarrow> balancer \<Rightarrow> (int \<times> balancer_info \<times> balancer) option" where
  "doHarvest ci bi g =
     (if 0 < bi_coreDifference bi \<and> bi_CoresAllocatedToSecondary bi = ci_maxSecondaryCores ci
      then Some (0, bi, g)
      else if bi_coreDifference bi < 0
              \<and> bi_CoresAllocatedToSecondary bi = ci_minSecondaryCores ci
      then Some (0, bi, g)
      else do {
        spare \<leftarrow> c_add (bi_CoresAllocatedToSecondary bi) (bi_coreDifference bi);
        let spare = (if spare \<le> 0 then 0 else spare);
        let spare = (if ci_maxSecondaryCores ci < spare then ci_maxSecondaryCores ci else spare);
        diff \<leftarrow> c_add (g_coreDifference g) (bi_coreDifference bi);
        idle \<leftarrow> c_add (g_idleCoresCount g) (bi_idleCoresCount bi);
        let g' = g\<lparr>g_coreDifference := diff, g_idleCoresCount := idle\<rparr>;
        let bi' = bi\<lparr>bi_SpareCoresToAllocate := spare, bi_currentState := ADJUST\<rparr>;
        Some (if bi_coreDifference bi' \<noteq> 0 then 1 else 0, bi', g') })"

text \<open>The two branches of \<open>doObserve\<close> end with the same update of the rate and its extremes.\<close>

definition observe_rate :: "balancer_info \<Rightarrow> balancer_info" where
  "observe_rate bi =
     (let rate = fp_div r64 (bi_deficits bi) (fp_of_int r64 (sint (bi_sample_time_elapsed bi)));
          bi = bi\<lparr>bi_deficit_rate := rate\<rparr>;
          bi = bi\<lparr>bi_ACBF_high :=
                 (if fp_gt rate (bi_ACBF_high bi) then fp_convert r32 rate else bi_ACBF_high bi)\<rparr>
      in bi\<lparr>bi_ACBF_low :=
                 (if fp_lt rate (bi_ACBF_low bi) then fp_convert r32 rate else bi_ACBF_low bi)\<rparr>)"

definition doObserve :: "primary_ctr_info \<Rightarrow> balancer_info \<Rightarrow> balancer_info option" where
  "doObserve ci bi =
     (if (word_of_int (bi_ramp_ctr bi) :: u32) < RAMPUP1 then do {
        r \<leftarrow> c_add (bi_ramp_ctr bi) 1;
        Some (bi\<lparr>bi_ramp_ctr := r\<rparr>) }
      else if (word_of_int (bi_ramp_ctr bi) :: u32) < RAMPUP1 + RAMPUP2 then do {
        let bi = (if bi_deficits bi = Fin 0 then bi\<lparr>bi_deficits := bi_lowIdleFreq bi\<rparr>
                  else bi\<lparr>bi_deficits :=
                         fp_add r64 (fp_mul r64 (r64 (1 / 2)) (bi_deficits bi))
                                    (fp_mul r64 (r64 (1 / 2)) (bi_lowIdleFreq bi))\<rparr>);
        let bi = observe_rate bi;
        r \<leftarrow> c_add (bi_ramp_ctr bi) 1;
        Some (bi\<lparr>bi_ramp_ctr := r\<rparr>) }
      else Some (bi\<lparr>bi_ramp_ctr := 0, bi_currentState := ADJUST\<rparr>))"

text \<open>The exponentially weighted average of \<open>doAdjust\<close> and its rate.\<close>

definition smooth_deficits :: "balancer_info \<Rightarrow> balancer_info" where
  "smooth_deficits bi =
     (let d = fp_add r64 (fp_mul r64 ALPHA (bi_deficits bi))
                         (fp_mul r64 one_minus_ALPHA (bi_lowIdleFreq bi))
      in bi\<lparr>bi_deficits := d,
            bi_deficit_rate := fp_div r64 d (fp_of_int r64 (sint (bi_sample_time_elapsed bi)))\<rparr>)"

definition raise_target ::
  "primary_ctr_info \<Rightarrow> balancer_info \<Rightarrow> (primary_ctr_info \<times> balancer_info) option" where
  "raise_target ci bi = do {
     t \<leftarrow> c_add (ci_targetIdleCores ci) 1;
     Some (ci\<lparr>ci_targetIdleCores :=
                (if ci_static_targetIdleCores ci < t then ci_static_targetIdleCores ci else t)\<rparr>,
           bi\<lparr>bi_prev_targetIdleCores := ci_targetIdleCores ci\<rparr>) }"

definition lower_target ::
  "int \<Rightarrow> primary_ctr_info \<Rightarrow> balancer_info \<Rightarrow> (primary_ctr_info \<times> balancer_info) option" where
  "lower_target L ci bi = do {
     t \<leftarrow> c_sub (ci_targetIdleCores ci) 1;
     Some (ci\<lparr>ci_targetIdleCores := (if t < L then L else t)\<rparr>,
           bi\<lparr>bi_prev_targetIdleCores := ci_targetIdleCores ci, bi_surplus_evts := 0\<rparr>) }"

text \<open>The branching of \<open>doAdjust\<close> on the deficit rate.  The floor \<open>L\<close> is the global \<open>LOW_TIC\<close>, not the
  field of the container.\<close>

definition adjust_target ::
  "int \<Rightarrow> primary_ctr_info \<Rightarrow> balancer_info \<Rightarrow> (primary_ctr_info \<times> balancer_info) option" where
  "adjust_target L ci bi =
     (if fp_gt (bi_deficit_rate bi) (ci_LOWIDLEFREQ_THRESHOLD ci) then raise_target ci bi
      else let (w, bi) = within_error ci bi
           in if w \<noteq> 0
              then if bi_surplus_evts bi < SURPLUS_EVTS_THRESH
                   then do {
                     e \<leftarrow> c_add (bi_surplus_evts bi) 1;
                     Some (ci, bi\<lparr>bi_surplus_evts := e\<rparr>) }
                   else do {
                     (ci, bi) \<leftarrow> lower_target L ci bi;
                     Some (ci, bi\<lparr>bi_within_error_flag := 0\<rparr>) }
              else lower_target L ci bi)"

definition doAdjust ::
  "int \<Rightarrow> primary_ctr_info \<Rightarrow> balancer_info \<Rightarrow> logs \<Rightarrow>
   (primary_ctr_info \<times> balancer_info \<times> logs) option" where
  "doAdjust L ci bi l = do {
     (ci, bi) \<leftarrow> adjust_target L ci (smooth_deficits bi);
     num_samples_taken \<leftarrow> fp_to_int (bi_deficits bi);
     l \<leftarrow> logDynamicEvent (bi_prev_sample_timestamp bi) (bi_sample_time_elapsed bi)
            (bi_idleCoresCount bi) (bi_prev_targetIdleCores bi) (ci_targetIdleCores ci)
            (bi_time_spent_surplus bi) (bi_time_spent_deficit bi) (bi_surplus_weight bi)
            (bi_deficit_weight bi) num_samples_taken (fp_convert r32 (bi_deficit_rate bi))
            (bi_lowIdleFreq bi) l;
     diff \<leftarrow> c_sub (bi_idleCoresCount bi) (ci_targetIdleCores ci);
     m \<leftarrow> c_sub (ci_totalEligibleCores ci) (ci_targetIdleCores ci);
     Some (ci\<lparr>ci_maxSecondaryCores := m\<rparr>,
           bi\<lparr>bi_coreDifference := diff, bi_currentState := HARVEST\<rparr>, l) }"

subsection \<open>One container\<close>

definition count_idle :: "primary_ctr_info \<Rightarrow> u64 \<Rightarrow> int option" where
  "count_idle ci currIdleMask =
     for_loop 0 (nat (ci_NUMCPUS ci))
       (\<lambda>i n. do { cpu \<leftarrow> arr_get (ci_cpuList ci) (int i);
                  a \<leftarrow> CoreIsActive cpu currIdleMask;
                  if a = 0 then c_add n 1 else Some n }) 0"

text \<open>The sampling half of \<open>evaluatePrimaryContainer\<close>: count the idle cores, charge the time since
  the last sample.  \<open>t1\<close> is the clock read by \<open>getTimeElapsed\<close>, \<open>t2\<close> the new time stamp.\<close>

definition charge_low_idle :: "balancer_info \<Rightarrow> balancer_info" where
  "charge_low_idle bi =
     (if bi_prev_idleCoresCount bi = 0 \<or> bi_prev_targetIdleCores bi = 1
      then bi\<lparr>bi_lowIdleFreq :=
                fp_add r32 (bi_lowIdleFreq bi) (fp_of_int r32 (uint (bi_this_sample_time bi)))\<rparr>
      else bi)"

definition take_sample ::
  "timespec \<Rightarrow> timespec \<Rightarrow> primary_ctr_info \<Rightarrow> balancer_info \<Rightarrow> u64 \<Rightarrow> balancer_info option" where
  "take_sample t1 t2 ci bi currIdleMask = do {
     n \<leftarrow> count_idle ci currIdleMask;
     diff \<leftarrow> c_sub n (ci_targetIdleCores ci);
     elapsed \<leftarrow> getTimeElapsed (bi_prev_sample_timestamp bi) t1;
     Some (charge_low_idle
       (bi\<lparr>bi_prev_idleCoresCount := bi_idleCoresCount bi, bi_idleCoresCount := n,
           bi_coreDifference := diff, bi_this_sample_time := elapsed,
           bi_prev_sample_timestamp := t2,
           bi_sample_time_elapsed := bi_sample_time_elapsed bi + elapsed\<rparr>)) }"

text \<open>The block under \<open>if (bi->sample_time_elapsed >= IDLEACTIVE_SAMPLE_RATE)\<close>.\<close>

definition close_period :: "balancer_info \<Rightarrow> balancer_info" where
  "close_period bi = bi\<lparr>bi_lowIdleFreq := Fin 0, bi_sample_time_elapsed := 0\<rparr>"

definition observe_if :: "primary_ctr_info \<Rightarrow> balancer_info \<Rightarrow> balancer_info option" where
  "observe_if ci bi = (if bi_currentState bi = OBSERVE then doObserve ci bi else Some bi)"

definition sampling_period ::
  "primary_ctr_info \<Rightarrow> balancer_info \<Rightarrow> balancer \<Rightarrow>
   (primary_ctr_info \<times> balancer_info \<times> balancer) option" where
  "sampling_period ci bi g =
     (if g_IDLEACTIVE_SAMPLE_RATE g \<le> bi_sample_time_elapsed bi then do {
        bi \<leftarrow> observe_if ci bi;
        (ci, bi, l) \<leftarrow> doAdjust (g_LOW_TIC g) ci bi (g_logs g);
        Some (ci, close_period bi, g\<lparr>g_logs := l\<rparr>) }
      else Some (ci, bi, g))"

definition evaluatePrimaryContainer ::
  "timespec \<times> timespec \<Rightarrow> primary_ctr_info \<Rightarrow> balancer_info \<Rightarrow> balancer \<Rightarrow>
   (int \<times> primary_ctr_info \<times> balancer_info \<times> balancer) option" where
  "evaluatePrimaryContainer clk ci bi g = do {
     bi \<leftarrow> take_sample (fst clk) (snd clk) ci bi (g_currIdleMask g);
     (ci, bi, g) \<leftarrow> sampling_period ci bi g;
     (result, bi, g) \<leftarrow> doHarvest ci bi g;
     Some (result, ci, bi, g) }"

subsection \<open>All containers\<close>

definition evaluate_one ::
  "(nat \<Rightarrow> timespec \<times> timespec) \<Rightarrow> nat \<Rightarrow> int \<times> idleStats \<times> balancer \<Rightarrow>
   (int \<times> idleStats \<times> balancer) option" where
  "evaluate_one clk i = (\<lambda>(needs_rebalance, shm, g). do {
     ci \<leftarrow> arr_get (is_primary_ctrs shm) (int i);
     bi \<leftarrow> arr_get (g_stats g) (int i);
     (r, ci, bi, g) \<leftarrow> evaluatePrimaryContainer (clk i) ci bi g;
     ctrs \<leftarrow> arr_set (is_primary_ctrs shm) (int i) ci;
     stats \<leftarrow> arr_set (g_stats g) (int i) bi;
     needs_rebalance \<leftarrow> c_add needs_rebalance r;
     Some (needs_rebalance, shm\<lparr>is_primary_ctrs := ctrs\<rparr>, g\<lparr>g_stats := stats\<rparr>) })"

definition evaluateContainers ::
  "(nat \<Rightarrow> timespec \<times> timespec) \<Rightarrow> idleStats \<Rightarrow> balancer \<Rightarrow> (int \<times> idleStats \<times> balancer) option" where
  "evaluateContainers clk shm g =
     for_loop 0 (nat (is_nr_primary_ctrs shm)) (evaluate_one clk) (0, shm, g)"

subsection \<open>Initialisation\<close>

definition init_info :: "timespec \<Rightarrow> timespec \<Rightarrow> balancer_info" where
  "init_info ts irq_ts =
     \<lparr>bi_prev_idleCoresCount = 0, bi_idleCoresCount = 0, bi_prev_targetIdleCores = 0,
      bi_coreDifference = 0, bi_this_sample_time = 0, bi_total_sample_time = 0,
      bi_surplus_sample_time = 0, bi_deficit_sample_time = 0, bi_deficit_aggIdleCoresCount = 0,
      bi_surplus_aggIdleCoresCount = 0, bi_aggIdleCoresCount = Fin 0, bi_num_surplus_observed = 0,
      bi_num_deficit_observed = 0, bi_time_spent_surplus = 0, bi_time_spent_deficit = 0,
      bi_prev_sample_timestamp = ts, bi_irq_sample_time = irq_ts, bi_num_samples_taken = 0,
      bi_deficit_weight = Fin 0, bi_surplus_weight = Fin 0, bi_lowIdleFreq = Fin 0,
      bi_SAMPLE_TYPE = 0, bi_CoresAllocatedToSecondary = 0, bi_SpareCoresToAllocate = 0,
      bi_ACBF_high = fp_convert r32 (r64 (- 2147483648)),
      bi_ACBF_low = fp_convert r32 (r64 2147483647),
      bi_ACBF_current = Fin 0, bi_deficits = Fin 0, bi_deficit_rate = Fin 0,
      bi_sample_time_elapsed = 0, bi_ramp_ctr = 0, bi_surplus_evts = SURPLUS_EVTS_THRESH + 1,
      bi_within_error_flag = 0, bi_currentState = OBSERVE\<rparr>"

text \<open>
  \<open>initializeBalancerInfo\<close>: \<open>malloc\<close>'s result is the first argument (\<open>None\<close>: out of memory), whose
  time stamps are not initialised here.  Returns the C return value and the statistics.
\<close>

definition initializeBalancerInfo ::
  "balancer_info list option \<Rightarrow> int \<times> balancer_info list option" where
  "initializeBalancerInfo mem =
     (case mem of None \<Rightarrow> (1, None)
      | Some infos \<Rightarrow>
          (0, Some (map (\<lambda>b. init_info (bi_prev_sample_timestamp b) (bi_irq_sample_time b)) infos)))"

subsection \<open>What the controller keeps\<close>

text \<open>The band of the target, and the fields of a container that the controller never writes.\<close>

definition target_ok :: "int \<Rightarrow> primary_ctr_info \<Rightarrow> bool" where
  "target_ok L ci \<longleftrightarrow> L \<le> ci_targetIdleCores ci
     \<and> ci_targetIdleCores ci \<le> ci_static_targetIdleCores ci"

definition same_config :: "primary_ctr_info \<Rightarrow> primary_ctr_info \<Rightarrow> bool" where
  "same_config a b \<longleftrightarrow>
     ci_NUMCPUS b = ci_NUMCPUS a \<and> ci_cpuList b = ci_cpuList a \<and>
     ci_LOWIDLEFREQ_THRESHOLD b = ci_LOWIDLEFREQ_THRESHOLD a \<and> ci_LOW_TIC b = ci_LOW_TIC a \<and>
     ci_static_targetIdleCores b = ci_static_targetIdleCores a \<and>
     ci_totalEligibleCores b = ci_totalEligibleCores a \<and>
     ci_minSecondaryCores b = ci_minSecondaryCores a"

lemma same_config_refl [simp]: "same_config a a"
  by (simp add: same_config_def)

lemma same_config_trans: "same_config a b \<Longrightarrow> same_config b c \<Longrightarrow> same_config a c"
  by (simp add: same_config_def)

text \<open>What one adjustment decides, as a value.\<close>

datatype decision = Raise | Hold | Lower

definition decide :: "fp \<Rightarrow> fp \<Rightarrow> bool \<Rightarrow> int \<Rightarrow> decision" where
  "decide rate threshold flag evts =
     (if fp_gt rate threshold then Raise
      else if (flag \<or> fp_gt rate (fp_mul r64 (r64 (66 / 100)) threshold))
              \<and> evts < SURPLUS_EVTS_THRESH then Hold
      else Lower)"

definition decision_of :: "primary_ctr_info \<Rightarrow> balancer_info \<Rightarrow> decision" where
  "decision_of ci bi = decide (bi_deficit_rate bi) (ci_LOWIDLEFREQ_THRESHOLD ci)
     (bi_within_error_flag bi \<noteq> 0) (bi_surplus_evts bi)"

definition next_target :: "int \<Rightarrow> primary_ctr_info \<Rightarrow> decision \<Rightarrow> int" where
  "next_target L ci d =
     (case d of Raise \<Rightarrow> min (ci_static_targetIdleCores ci) (ci_targetIdleCores ci + 1)
      | Hold \<Rightarrow> ci_targetIdleCores ci
      | Lower \<Rightarrow> max L (ci_targetIdleCores ci - 1))"

lemmas adjust_defs = adjust_target_def raise_target_def lower_target_def within_error_def

lemma adjust_target_decision:
  assumes "adjust_target L ci bi = Some (ci', bi')"
  shows "ci' = ci\<lparr>ci_targetIdleCores := next_target L ci (decision_of ci bi)\<rparr>"
  using assms unfolding adjust_defs decision_of_def decide_def next_target_def Let_def
  by (auto simp: bind_eq_Some_conv split: if_splits)

lemma next_target_ok:
  "target_ok L ci \<Longrightarrow> target_ok L (ci\<lparr>ci_targetIdleCores := next_target L ci d\<rparr>)"
  by (cases d) (auto simp: target_ok_def next_target_def)

lemma next_target_step: "target_ok L ci \<Longrightarrow> \<bar>next_target L ci d - ci_targetIdleCores ci\<bar> \<le> 1"
  by (cases d) (auto simp: target_ok_def next_target_def)

text \<open>The fields of the statistics that an adjustment of the target leaves alone.\<close>

lemma adjust_target_frame:
  assumes "adjust_target L ci bi = Some (ci', bi')"
  shows "bi_deficits bi' = bi_deficits bi" "bi_deficit_rate bi' = bi_deficit_rate bi"
    "bi_lowIdleFreq bi' = bi_lowIdleFreq bi" "bi_idleCoresCount bi' = bi_idleCoresCount bi"
    "bi_sample_time_elapsed bi' = bi_sample_time_elapsed bi"
    "bi_currentState bi' = bi_currentState bi" "bi_ramp_ctr bi' = bi_ramp_ctr bi"
    "bi_ACBF_high bi' = bi_ACBF_high bi" "bi_ACBF_low bi' = bi_ACBF_low bi"
    "bi_CoresAllocatedToSecondary bi' = bi_CoresAllocatedToSecondary bi"
    "bi_SpareCoresToAllocate bi' = bi_SpareCoresToAllocate bi"
    "bi_prev_sample_timestamp bi' = bi_prev_sample_timestamp bi"
  using assms unfolding adjust_defs Let_def
  by (auto simp: bind_eq_Some_conv split: if_splits)

lemma adjust_target_evts:
  assumes "adjust_target L ci bi = Some (ci', bi')" "0 \<le> bi_surplus_evts bi" "bi_surplus_evts bi \<le> 11"
  shows "0 \<le> bi_surplus_evts bi'" "bi_surplus_evts bi' \<le> 11"
  using assms unfolding adjust_defs Let_def
  by (auto simp: bind_eq_Some_conv SURPLUS_EVTS_THRESH_def split: if_splits)

lemma adjust_target_defined:
  assumes "in_int (ci_targetIdleCores ci + 1)" "in_int (ci_targetIdleCores ci - 1)"
    "0 \<le> bi_surplus_evts bi" "bi_surplus_evts bi \<le> 11"
  shows "\<exists>ci' bi'. adjust_target L ci bi = Some (ci', bi')"
proof -
  have "in_int (bi_surplus_evts bi + 1)"
    using assms(3,4) by (auto simp: in_int_def)
  then show ?thesis using assms(1,2)
    unfolding adjust_defs Let_def by (auto simp: c_add_def c_sub_def c_int_def)
qed

lemma doAdjust_Some:
  assumes "doAdjust L ci bi l = Some (ci', bi', l')"
  obtains ci1 bi1 where
    "adjust_target L ci (smooth_deficits bi) = Some (ci1, bi1)"
    "ci' = ci1\<lparr>ci_maxSecondaryCores := ci_totalEligibleCores ci1 - ci_targetIdleCores ci1\<rparr>"
    "bi' = bi1\<lparr>bi_coreDifference := bi_idleCoresCount bi1 - ci_targetIdleCores ci1,
               bi_currentState := HARVEST\<rparr>"
  using assms by (auto simp: doAdjust_def bind_eq_Some_conv)

lemma doAdjust_target:
  assumes "doAdjust L ci bi l = Some (ci', bi', l')"
  shows "ci_targetIdleCores ci' = next_target L ci (decision_of ci (smooth_deficits bi))"
    and "ci_maxSecondaryCores ci' = ci_totalEligibleCores ci' - ci_targetIdleCores ci'"
    and "same_config ci ci'"
proof -
  obtain ci1 bi1 where a: "adjust_target L ci (smooth_deficits bi) = Some (ci1, bi1)"
    and c: "ci' = ci1\<lparr>ci_maxSecondaryCores := ci_totalEligibleCores ci1 - ci_targetIdleCores ci1\<rparr>"
    using assms by (rule doAdjust_Some)
  note d = adjust_target_decision[OF a]
  show "ci_targetIdleCores ci' = next_target L ci (decision_of ci (smooth_deficits bi))"
    "ci_maxSecondaryCores ci' = ci_totalEligibleCores ci' - ci_targetIdleCores ci'"
    "same_config ci ci'"
    unfolding c d by (simp_all add: same_config_def)
qed

definition harvest_skipped :: "primary_ctr_info \<Rightarrow> balancer_info \<Rightarrow> bool" where
  "harvest_skipped ci bi \<longleftrightarrow>
     0 < bi_coreDifference bi \<and> bi_CoresAllocatedToSecondary bi = ci_maxSecondaryCores ci \<or>
     bi_coreDifference bi < 0 \<and> bi_CoresAllocatedToSecondary bi = ci_minSecondaryCores ci"

definition harvest_spare :: "primary_ctr_info \<Rightarrow> balancer_info \<Rightarrow> int" where
  "harvest_spare ci bi = min (ci_maxSecondaryCores ci)
     (max 0 (bi_CoresAllocatedToSecondary bi + bi_coreDifference bi))"

definition harvested :: "primary_ctr_info \<Rightarrow> balancer_info \<Rightarrow> balancer_info" where
  "harvested ci bi = bi\<lparr>bi_SpareCoresToAllocate := harvest_spare ci bi, bi_currentState := ADJUST\<rparr>"

definition harvest_accounted :: "balancer_info \<Rightarrow> balancer \<Rightarrow> balancer" where
  "harvest_accounted bi g = g\<lparr>g_coreDifference := g_coreDifference g + bi_coreDifference bi,
     g_idleCoresCount := g_idleCoresCount g + bi_idleCoresCount bi\<rparr>"

lemma harvested_diff:
  "bi_coreDifference (bi\<lparr>bi_SpareCoresToAllocate := x, bi_currentState := s\<rparr>)
   = bi_coreDifference bi"
  by simp

lemma clamp_spare:
  "(if m < (if s \<le> 0 then 0 else s) then m else if s \<le> 0 then 0 else s) = min m (max 0 (s :: int))"
  by (simp add: min_def max_def)

lemma doHarvest_skip: "harvest_skipped ci bi \<Longrightarrow> doHarvest ci bi g = Some (0, bi, g)"
  by (auto simp: harvest_skipped_def doHarvest_def)

lemma doHarvest_go:
  assumes "\<not> harvest_skipped ci bi"
  shows "doHarvest ci bi g =
    (if in_int (bi_CoresAllocatedToSecondary bi + bi_coreDifference bi)
        \<and> in_int (g_coreDifference g + bi_coreDifference bi)
        \<and> in_int (g_idleCoresCount g + bi_idleCoresCount bi)
     then Some (if bi_coreDifference bi \<noteq> 0 then 1 else 0, harvested ci bi, harvest_accounted bi g)
     else None)"
proof -
  have n: "\<not> (0 < bi_coreDifference bi \<and> bi_CoresAllocatedToSecondary bi = ci_maxSecondaryCores ci)"
    "\<not> (bi_coreDifference bi < 0 \<and> bi_CoresAllocatedToSecondary bi = ci_minSecondaryCores ci)"
    using assms by (simp_all add: harvest_skipped_def)
  show ?thesis
    unfolding doHarvest_def if_not_P[OF n(1)] if_not_P[OF n(2)] Let_def clamp_spare c_add_bind
      harvested_def harvest_spare_def harvest_accounted_def harvested_diff
    by (rule if_nested3)
qed

lemma doHarvest_Some:
  assumes "doHarvest ci bi g = Some (r, bi', g')"
  obtains (skip) "harvest_skipped ci bi" "r = 0" "bi' = bi" "g' = g"
  | (go) "\<not> harvest_skipped ci bi" "r = (if bi_coreDifference bi \<noteq> 0 then 1 else 0)"
      "bi' = harvested ci bi" "g' = harvest_accounted bi g"
proof (cases "harvest_skipped ci bi")
  case True
  have "r = 0 \<and> bi' = bi \<and> g' = g" using assms doHarvest_skip[OF True, of g] by simp
  then show ?thesis using True by (intro skip) simp_all
next
  case False
  have "r = (if bi_coreDifference bi \<noteq> 0 then 1 else 0) \<and> bi' = harvested ci bi
      \<and> g' = harvest_accounted bi g"
    using assms unfolding doHarvest_go[OF False, of g] by (simp only: split: if_split_asm) simp_all
  then show ?thesis using False by (intro go) simp_all
qed

lemma harvest_accounted_simps [simp]:
  "g_stats (harvest_accounted bi g) = g_stats g"
  "g_logs (harvest_accounted bi g) = g_logs g"
  "g_currIdleMask (harvest_accounted bi g) = g_currIdleMask g"
  "g_IDLEACTIVE_SAMPLE_RATE (harvest_accounted bi g) = g_IDLEACTIVE_SAMPLE_RATE g"
  "g_LOW_TIC (harvest_accounted bi g) = g_LOW_TIC g"
  "g_coreDifference (harvest_accounted bi g) = g_coreDifference g + bi_coreDifference bi"
  "g_idleCoresCount (harvest_accounted bi g) = g_idleCoresCount g + bi_idleCoresCount bi"
  by (simp_all add: harvest_accounted_def)

lemma harvested_simps [simp]:
  "bi_SpareCoresToAllocate (harvested ci bi) = harvest_spare ci bi"
  "bi_currentState (harvested ci bi) = ADJUST"
  "bi_coreDifference (harvested ci bi) = bi_coreDifference bi"
  "bi_idleCoresCount (harvested ci bi) = bi_idleCoresCount bi"
  "bi_CoresAllocatedToSecondary (harvested ci bi) = bi_CoresAllocatedToSecondary bi"
  "bi_deficits (harvested ci bi) = bi_deficits bi"
  "bi_lowIdleFreq (harvested ci bi) = bi_lowIdleFreq bi"
  "bi_surplus_evts (harvested ci bi) = bi_surplus_evts bi"
  "bi_ramp_ctr (harvested ci bi) = bi_ramp_ctr bi"
  "bi_sample_time_elapsed (harvested ci bi) = bi_sample_time_elapsed bi"
  "bi_prev_sample_timestamp (harvested ci bi) = bi_prev_sample_timestamp bi"
  by (simp_all add: harvested_def)

lemma doHarvest_result: "doHarvest ci bi g = Some (r, bi', g') \<Longrightarrow> r \<in> {0, 1}"
  by (erule doHarvest_Some) auto

lemma doHarvest_quiet:
  "doHarvest ci bi g = Some (0, bi', g') \<Longrightarrow> g_coreDifference g' = g_coreDifference g"
  by (erule doHarvest_Some) (auto split: if_splits)

lemma doHarvest_globals:
  assumes "doHarvest ci bi g = Some (r, bi', g')"
  shows "g_stats g' = g_stats g \<and> g_logs g' = g_logs g \<and> g_currIdleMask g' = g_currIdleMask g
    \<and> g_IDLEACTIVE_SAMPLE_RATE g' = g_IDLEACTIVE_SAMPLE_RATE g \<and> g_LOW_TIC g' = g_LOW_TIC g"
  using assms by (rule doHarvest_Some) simp_all

lemma doHarvest_state:
  assumes "doHarvest ci bi g = Some (r, bi', g')"
  shows "bi_currentState bi' = bi_currentState bi \<or> bi_currentState bi' = ADJUST"
    and "bi_ramp_ctr bi' = bi_ramp_ctr bi"
  using assms by (auto elim: doHarvest_Some)

subsection \<open>The observation phase\<close>

lemma charge_low_idle_simps [simp]:
  "bi_currentState (charge_low_idle bi) = bi_currentState bi"
  "bi_ramp_ctr (charge_low_idle bi) = bi_ramp_ctr bi"
  "bi_deficits (charge_low_idle bi) = bi_deficits bi"
  "bi_surplus_evts (charge_low_idle bi) = bi_surplus_evts bi"
  "bi_CoresAllocatedToSecondary (charge_low_idle bi) = bi_CoresAllocatedToSecondary bi"
  "bi_SpareCoresToAllocate (charge_low_idle bi) = bi_SpareCoresToAllocate bi"
  "bi_idleCoresCount (charge_low_idle bi) = bi_idleCoresCount bi"
  "bi_coreDifference (charge_low_idle bi) = bi_coreDifference bi"
  "bi_sample_time_elapsed (charge_low_idle bi) = bi_sample_time_elapsed bi"
  "bi_prev_sample_timestamp (charge_low_idle bi) = bi_prev_sample_timestamp bi"
  "bi_ACBF_high (charge_low_idle bi) = bi_ACBF_high bi"
  "bi_ACBF_low (charge_low_idle bi) = bi_ACBF_low bi"
  by (simp_all add: charge_low_idle_def)

lemma close_period_simps [simp]:
  "bi_currentState (close_period bi) = bi_currentState bi"
  "bi_ramp_ctr (close_period bi) = bi_ramp_ctr bi"
  "bi_deficits (close_period bi) = bi_deficits bi"
  "bi_surplus_evts (close_period bi) = bi_surplus_evts bi"
  "bi_CoresAllocatedToSecondary (close_period bi) = bi_CoresAllocatedToSecondary bi"
  "bi_SpareCoresToAllocate (close_period bi) = bi_SpareCoresToAllocate bi"
  "bi_idleCoresCount (close_period bi) = bi_idleCoresCount bi"
  "bi_coreDifference (close_period bi) = bi_coreDifference bi"
  "bi_lowIdleFreq (close_period bi) = Fin 0"
  "bi_sample_time_elapsed (close_period bi) = 0"
  by (simp_all add: close_period_def)

lemma take_sample_Some:
  assumes "take_sample t1 t2 ci bi m = Some bi'"
  obtains n e where "count_idle ci m = Some n" "in_int (n - ci_targetIdleCores ci)"
    "getTimeElapsed (bi_prev_sample_timestamp bi) t1 = Some e"
    "bi' = charge_low_idle
       (bi\<lparr>bi_prev_idleCoresCount := bi_idleCoresCount bi, bi_idleCoresCount := n,
           bi_coreDifference := n - ci_targetIdleCores ci, bi_this_sample_time := e,
           bi_prev_sample_timestamp := t2,
           bi_sample_time_elapsed := bi_sample_time_elapsed bi + e\<rparr>)"
  using assms unfolding take_sample_def by (auto simp: bind_eq_Some_conv)

lemma take_sample_frame:
  assumes "take_sample t1 t2 ci bi m = Some bi'"
  shows "bi_currentState bi' = bi_currentState bi \<and> bi_ramp_ctr bi' = bi_ramp_ctr bi \<and>
    bi_deficits bi' = bi_deficits bi \<and> bi_surplus_evts bi' = bi_surplus_evts bi \<and>
    bi_CoresAllocatedToSecondary bi' = bi_CoresAllocatedToSecondary bi \<and>
    bi_SpareCoresToAllocate bi' = bi_SpareCoresToAllocate bi"
  using assms by (rule take_sample_Some) simp

lemma sampling_period_Some:
  assumes "sampling_period ci bi g = Some (ci', bi', g')"
  obtains (within) "bi_sample_time_elapsed bi < g_IDLEACTIVE_SAMPLE_RATE g" "ci' = ci" "bi' = bi"
      "g' = g"
  | (period) bi1 bi2 l where "g_IDLEACTIVE_SAMPLE_RATE g \<le> bi_sample_time_elapsed bi"
      "observe_if ci bi = Some bi1" "doAdjust (g_LOW_TIC g) ci bi1 (g_logs g) = Some (ci', bi2, l)"
      "bi' = close_period bi2" "g' = g\<lparr>g_logs := l\<rparr>"
proof (cases "g_IDLEACTIVE_SAMPLE_RATE g \<le> bi_sample_time_elapsed bi")
  case True
  have "\<exists>b1 b2 l. observe_if ci bi = Some b1 \<and> doAdjust (g_LOW_TIC g) ci b1 (g_logs g) = Some (ci', b2, l)
      \<and> bi' = close_period b2 \<and> g' = g\<lparr>g_logs := l\<rparr>"
    using assms unfolding sampling_period_def if_P[OF True]
    by (auto simp: bind_eq_Some_conv)
  then show ?thesis using True period by blast
next
  case False
  then have "ci' = ci" "bi' = bi" "g' = g"
    using assms unfolding sampling_period_def if_not_P[OF False] by simp_all
  then show ?thesis using False within by (simp only: not_le)
qed

lemma evaluate_Some:
  assumes "evaluatePrimaryContainer clk ci bi g = Some (r, ci', bi', g')"
  obtains bi1 bi2 g2 where
    "take_sample (fst clk) (snd clk) ci bi (g_currIdleMask g) = Some bi1"
    "sampling_period ci bi1 g = Some (ci', bi2, g2)"
    "doHarvest ci' bi2 g2 = Some (r, bi', g')"
  using assms by (auto simp: evaluatePrimaryContainer_def bind_eq_Some_conv)

lemma doAdjust_state:
  assumes "doAdjust L ci bi l = Some (ci', bi', l')"
  shows "bi_currentState bi' = HARVEST" and "bi_ramp_ctr bi' = bi_ramp_ctr bi"
proof -
  obtain ci1 bi1 where a: "adjust_target L ci (smooth_deficits bi) = Some (ci1, bi1)"
    and b: "bi' = bi1\<lparr>bi_coreDifference := bi_idleCoresCount bi1 - ci_targetIdleCores ci1,
               bi_currentState := HARVEST\<rparr>"
    using assms by (rule doAdjust_Some)
  show "bi_currentState bi' = HARVEST" unfolding b by simp
  show "bi_ramp_ctr bi' = bi_ramp_ctr bi"
    unfolding b using adjust_target_frame(7)[OF a] by (simp add: smooth_deficits_def Let_def)
qed

text \<open>Once out of \<open>OBSERVE\<close>, a container never comes back, and nothing else counts the ramp up.\<close>

lemma evaluate_leaves_observe:
  assumes "evaluatePrimaryContainer clk ci bi g = Some (r, ci', bi', g')"
    and "bi_currentState bi \<noteq> OBSERVE"
  shows "bi_currentState bi' \<noteq> OBSERVE \<and> bi_ramp_ctr bi' = bi_ramp_ctr bi"
proof -
  obtain bi1 bi2 g2 where
    s: "take_sample (fst clk) (snd clk) ci bi (g_currIdleMask g) = Some bi1"
    and p: "sampling_period ci bi1 g = Some (ci', bi2, g2)"
    and h: "doHarvest ci' bi2 g2 = Some (r, bi', g')"
    using assms(1) by (rule evaluate_Some)
  note f = take_sample_frame[OF s]
  have "bi_currentState bi2 \<noteq> OBSERVE \<and> bi_ramp_ctr bi2 = bi_ramp_ctr bi1"
    using p
  proof (cases rule: sampling_period_Some)
    case within
    then show ?thesis using f assms(2) by simp
  next
    case (period b1 b2 l)
    then have "b1 = bi1" using f assms(2) by (simp add: observe_if_def)
    then show ?thesis using period doAdjust_state[OF period(3)] by simp
  qed
  then show ?thesis using doHarvest_state[OF h] f by auto
qed

definition ramp_inv :: "balancer_info \<Rightarrow> bool" where
  "ramp_inv bi \<longleftrightarrow>
     (if bi_currentState bi = OBSERVE then bi_ramp_ctr bi = 0
      else 0 \<le> bi_ramp_ctr bi \<and> bi_ramp_ctr bi \<le> 1)"

lemma doObserve_first:
  "bi_ramp_ctr bi = 0 \<Longrightarrow> doObserve ci bi = Some (bi\<lparr>bi_ramp_ctr := 1\<rparr>)"
  by (simp add: doObserve_def RAMPUP1_def c_add_def c_int_def in_int_def)

lemma evaluate_ramp_inv:
  assumes e: "evaluatePrimaryContainer clk ci bi g = Some (r, ci', bi', g')" and inv: "ramp_inv bi"
  shows "ramp_inv bi'"
proof (cases "bi_currentState bi = OBSERVE")
  case False
  then show ?thesis using evaluate_leaves_observe[OF e] inv by (simp add: ramp_inv_def)
next
  case True
  obtain bi1 bi2 g2 where
    s: "take_sample (fst clk) (snd clk) ci bi (g_currIdleMask g) = Some bi1"
    and p: "sampling_period ci bi1 g = Some (ci', bi2, g2)"
    and h: "doHarvest ci' bi2 g2 = Some (r, bi', g')"
    using e by (rule evaluate_Some)
  have 1: "bi_currentState bi1 = OBSERVE" "bi_ramp_ctr bi1 = 0"
    using take_sample_frame[OF s] True inv by (auto simp: ramp_inv_def)
  have "ramp_inv bi2"
    using p
  proof (cases rule: sampling_period_Some)
    case within
    then show ?thesis using 1 by (simp add: ramp_inv_def)
  next
    case (period b1 b2 l)
    have "b1 = bi1\<lparr>bi_ramp_ctr := 1\<rparr>"
      using period(2) 1 doObserve_first[of bi1 ci] by (simp add: observe_if_def)
    then show ?thesis
      using period(4) doAdjust_state[OF period(3)] by (simp add: ramp_inv_def)
  qed
  then show ?thesis using doHarvest_state[OF h] by (auto simp: ramp_inv_def split: if_splits)
qed

text \<open>A container's statistics over any sequence of evaluations, whatever the clock, the container
  record and the globals are each time.\<close>

definition eval_step ::
  "(timespec \<times> timespec) \<times> primary_ctr_info \<times> balancer \<Rightarrow> balancer_info \<Rightarrow> balancer_info option" where
  "eval_step = (\<lambda>(clk, ci, g) bi.
     map_option (\<lambda>(r, ci', bi', g'). bi') (evaluatePrimaryContainer clk ci bi g))"

lemma eval_run_ramp_inv:
  "run_all eval_step xs bi = Some bi' \<Longrightarrow> ramp_inv bi \<Longrightarrow> ramp_inv bi'"
proof (induction xs arbitrary: bi)
  case (Cons x xs)
  then obtain b where b: "eval_step x bi = Some b" "run_all eval_step xs b = Some bi'"
    by (auto simp: bind_eq_Some_conv)
  then have "ramp_inv b"
    using Cons.prems(2) evaluate_ramp_inv by (fastforce simp: eval_step_def split: prod.splits)
  with b(2) show ?case by (rule Cons.IH)
qed simp

subsection \<open>Idle cores\<close>

definition pool :: "primary_ctr_info \<Rightarrow> int list" where
  "pool ci = take (nat (ci_NUMCPUS ci)) (ci_cpuList ci)"

definition ctr_ok :: "primary_ctr_info \<Rightarrow> bool" where
  "ctr_ok ci \<longleftrightarrow> primary_shape ci \<and> 0 \<le> ci_NUMCPUS ci \<and> ci_NUMCPUS ci \<le> 64 \<and>
     distinct (pool ci) \<and> (\<forall>c \<in> set (pool ci). core_ok c) \<and>
     ci_totalEligibleCores ci = ci_NUMCPUS ci \<and>
     0 \<le> ci_targetIdleCores ci \<and> ci_targetIdleCores ci \<le> ci_static_targetIdleCores ci \<and>
     ci_static_targetIdleCores ci \<le> ci_totalEligibleCores ci \<and>
     0 \<le> ci_maxSecondaryCores ci \<and> ci_maxSecondaryCores ci \<le> 64"

lemma ctr_ok_nth:
  assumes "ctr_ok ci" "i < nat (ci_NUMCPUS ci)"
  shows "arr_get (ci_cpuList ci) (int i) = Some (pool ci ! i)" "core_ok (pool ci ! i)"
    "i < length (pool ci)"
  using assms nth_mem[of i "pool ci"] by (auto simp: ctr_ok_def pool_def primary_shape_def)

lemma length_pool: "ctr_ok ci \<Longrightarrow> length (pool ci) = nat (ci_NUMCPUS ci)"
  by (auto simp: ctr_ok_def pool_def primary_shape_def)

definition idle_cores :: "primary_ctr_info \<Rightarrow> u64 \<Rightarrow> int list" where
  "idle_cores ci m = filter (\<lambda>c. \<not> bit m (nat c)) (pool ci)"

lemma count_idle_eq:
  assumes "ctr_ok ci"
  shows "count_idle ci m = Some (int (length (idle_cores ci m)))"
proof -
  let ?body = "\<lambda>i n. do { cpu \<leftarrow> arr_get (ci_cpuList ci) (int i);
                  a \<leftarrow> CoreIsActive cpu m; if a = 0 then c_add n 1 else Some n }"
  let ?P = "\<lambda>i n. n = int (length (filter (\<lambda>c. \<not> bit m (nat c)) (take i (pool ci))))"
  have "\<exists>t. for_loop 0 (nat (ci_NUMCPUS ci)) ?body 0 = Some t \<and> ?P (0 + nat (ci_NUMCPUS ci)) t"
  proof (rule for_loop_total)
    show "?P 0 0" by simp
    fix i n
    assume i: "i < 0 + nat (ci_NUMCPUS ci)" and P: "?P i n"
    have l: "length (filter (\<lambda>c. \<not> bit m (nat c)) (take i (pool ci))) \<le> 64"
      using length_filter_le[of "\<lambda>c. \<not> bit m (nat c)" "take i (pool ci)"] length_pool[OF assms] assms
      by (auto simp: ctr_ok_def)
    show "\<exists>y. ?body i n = Some y \<and> ?P (Suc i) y"
      using i P l ctr_ok_nth[OF assms, of i]
      by (auto simp: CoreIsActive_ok take_Suc_conv_app_nth c_add_def c_int_def in_int_def)
  qed
  then show ?thesis
    using length_pool[OF assms] by (simp add: count_idle_def idle_cores_def)
qed

lemma idle_cores_length: "ctr_ok ci \<Longrightarrow> length (idle_cores ci m) \<le> 64"
  using length_filter_le[of "\<lambda>c. \<not> bit m (nat c)" "pool ci"] length_pool[of ci]
  by (auto simp: idle_cores_def ctr_ok_def)

subsection \<open>The smoothed deficits\<close>

lemma ALPHA_val: "ALPHA = Fin (7656119366529843 / 9007199254740992)"
  by code_simp

lemma one_minus_ALPHA_val: "one_minus_ALPHA = Fin (1351079888211149 / 9007199254740992)"
proof -
  have "r64 (1351079888211149 / 9007199254740992) = Fin (1351079888211149 / 9007199254740992)"
    by code_simp
  then show ?thesis by (simp add: one_minus_ALPHA_def ALPHA_val)
qed

lemma half_val: "r64 (1 / 2) = Fin (1 / 2)"
  by code_simp

definition deficit_cap :: rat where
  "deficit_cap = 2147483647"

definition low_cap :: rat where
  "low_cap = 2000000000"

definition finite_upto :: "rat \<Rightarrow> fp \<Rightarrow> bool" where
  "finite_upto c x \<longleftrightarrow> (\<exists>v. x = Fin v \<and> 0 \<le> v \<and> v \<le> c)"

lemma smooth_upto:
  assumes "finite_upto deficit_cap d" "finite_upto low_cap l"
  shows "finite_upto deficit_cap (fp_add r64 (fp_mul r64 ALPHA d) (fp_mul r64 one_minus_ALPHA l))"
proof -
  obtain a b where a: "d = Fin a" "0 \<le> a" "a \<le> 2147483647" and b: "l = Fin b" "0 \<le> b" "b \<le> 2000000000"
    using assms by (auto simp: finite_upto_def deficit_cap_def low_cap_def)
  have top: "r64 (7656119366529843 / 9007199254740992 * 2147483647) = Fin (7656119362964685 / 4194304)"
    "r64 (1351079888211149 / 9007199254740992 * 2000000000) = Fin (5033164800000001 / 16777216)"
    "r64 (7656119362964685 / 4194304 + 5033164800000001 / 16777216)
      = Fin (8914410562964685 / 4194304)"
    by code_simp+
  obtain v where "fp_add r64 (fp_mul r64 ALPHA d) (fp_mul r64 one_minus_ALPHA l) = Fin v"
    "0 \<le> v" "v \<le> 8914410562964685 / 4194304"
    unfolding ALPHA_val one_minus_ALPHA_val a(1) b(1)
    by (rule dbl.smooth_bounded[OF _ _ a(2,3) b(2,3) top]) simp_all
  then show ?thesis by (auto simp: finite_upto_def deficit_cap_def)
qed

lemma half_upto:
  assumes "finite_upto deficit_cap d" "finite_upto low_cap l"
  shows "finite_upto deficit_cap
    (fp_add r64 (fp_mul r64 (r64 (1 / 2)) d) (fp_mul r64 (r64 (1 / 2)) l))"
proof -
  obtain a b where a: "d = Fin a" "0 \<le> a" "a \<le> 2147483647" and b: "l = Fin b" "0 \<le> b" "b \<le> 2000000000"
    using assms by (auto simp: finite_upto_def deficit_cap_def low_cap_def)
  have top: "r64 (1 / 2 * 2147483647) = Fin (2147483647 / 2)" "r64 (1 / 2 * 2000000000) = Fin 1000000000"
    "r64 (2147483647 / 2 + 1000000000) = Fin (4147483647 / 2)"
    by code_simp+
  obtain v where "fp_add r64 (fp_mul r64 (r64 (1 / 2)) d) (fp_mul r64 (r64 (1 / 2)) l) = Fin v"
    "0 \<le> v" "v \<le> 4147483647 / 2"
    unfolding half_val a(1) b(1)
    by (rule dbl.smooth_bounded[OF _ _ a(2,3) b(2,3) top]) simp_all
  then show ?thesis by (auto simp: finite_upto_def deficit_cap_def)
qed

lemma finite_upto_to_int:
  assumes "finite_upto deficit_cap x"
  shows "\<exists>n. fp_to_int x = Some n"
proof -
  obtain v where v: "x = Fin v" "0 \<le> v" "v \<le> 2147483647"
    using assms by (auto simp: finite_upto_def deficit_cap_def)
  have "0 \<le> \<lfloor>v\<rfloor>" "\<lfloor>v\<rfloor> \<le> 2147483647"
    using v floor_mono[OF v(3)] by auto
  then show ?thesis using v by (simp add: rat_trunc_def c_int_def in_int_def)
qed

text \<open>The average is never negative or not a number, so the comparisons with a threshold that is a
  number are total.\<close>

lemma smooth_deficits_nonneg:
  assumes "fp_nonneg (bi_deficits bi)" "fp_nonneg (bi_lowIdleFreq bi)"
  shows "fp_nonneg (bi_deficits (smooth_deficits bi))"
  using assms dbl.smooth_nonneg[of "7656119366529843 / 9007199254740992"
      "1351079888211149 / 9007199254740992" "bi_deficits bi" "bi_lowIdleFreq bi"]
  by (simp add: smooth_deficits_def Let_def ALPHA_val one_minus_ALPHA_val)

text \<open>A period without low-idle time never raises the average.\<close>

lemma smooth_deficits_decay:
  assumes "bi_deficits bi = Fin a" "0 \<le> a" "exact64 a" "bi_lowIdleFreq bi = Fin 0"
  obtains v where "bi_deficits (smooth_deficits bi) = Fin v" "0 \<le> v" "v \<le> a" "exact64 v"
  using dbl.decay[of "7656119366529843 / 9007199254740992" a "1351079888211149 / 9007199254740992"]
    assms that by (auto simp: smooth_deficits_def Let_def ALPHA_val one_minus_ALPHA_val)

subsection \<open>No undefined behaviour\<close>

definition info_ok :: "balancer_info \<Rightarrow> bool" where
  "info_ok bi \<longleftrightarrow>
     0 \<le> bi_idleCoresCount bi \<and> bi_idleCoresCount bi \<le> 64 \<and>
     \<bar>bi_coreDifference bi\<bar> \<le> 64 \<and>
     0 \<le> bi_CoresAllocatedToSecondary bi \<and> bi_CoresAllocatedToSecondary bi \<le> 64 \<and>
     0 \<le> bi_surplus_evts bi \<and> bi_surplus_evts bi \<le> 11 \<and>
     0 \<le> bi_ramp_ctr bi \<and> bi_ramp_ctr bi \<le> 10 \<and>
     finite_upto deficit_cap (bi_deficits bi) \<and> finite_upto low_cap (bi_lowIdleFreq bi)"

text \<open>Room for \<open>k\<close> more entries of the dynamic log.\<close>

definition dyn_room :: "nat \<Rightarrow> logs \<Rightarrow> bool" where
  "dyn_room k l \<longleftrightarrow> lg_loggingEnabled l = 0 \<or>
     block_full (lg_dynamicEvents l) (unat (lg_dynamicEventCount l)) \<and>
     unat (lg_dynamicEventCount l) + k \<le> MAX_EVENTS"

lemma logDynamicEvent_defined:
  assumes "dyn_room (Suc k) l"
  shows "\<exists>l'. logDynamicEvent t e i p q s d sw dw n a f l = Some l' \<and> dyn_room k l'"
proof (cases "lg_loggingEnabled l = 0")
  case True
  then show ?thesis by (simp add: logDynamicEvent_def dyn_room_def)
next
  case False
  let ?v = "\<lparr>de_startSec = word_of_int (tv_sec t), de_startNSec = word_of_int (tv_nsec t),
    de_sample_time_elapsed = e, de_idleCoresCount = i, de_prev_targetIdleCores = p,
    de_targetIdleCores = q, de_time_spent_surplus = s, de_time_spent_deficit = d,
    de_surplus_weight = sw, de_deficit_weight = dw, de_num_samples_taken = n,
    de_aggIdleCoresCount = a, de_lowIdleFreq = f\<rparr>"
  have full: "block_full (lg_dynamicEvents l) (unat (lg_dynamicEventCount l))"
    and cap: "unat (lg_dynamicEventCount l) + Suc k \<le> MAX_EVENTS"
    using assms False by (auto simp: dyn_room_def)
  obtain b' where b: "block_set MAX_EVENTS (lg_dynamicEvents l) (unat (lg_dynamicEventCount l)) ?v
      = Some b'" "block_full b' (Suc (unat (lg_dynamicEventCount l)))"
    using block_set_append[OF full, of ?v] cap by auto
  show ?thesis using False cap b
    by (simp add: logDynamicEvent_def dyn_room_def unat_Suc_below_cap not_less)
qed

lemma doObserve_ok:
  assumes "info_ok bi"
  shows "\<exists>bi'. doObserve ci bi = Some bi' \<and> info_ok bi' \<and> bi_coreDifference bi' = bi_coreDifference bi"
proof -
  have r: "0 \<le> bi_ramp_ctr bi" "bi_ramp_ctr bi \<le> 10" using assms by (auto simp: info_ok_def)
  then have w: "((word_of_int (bi_ramp_ctr bi) :: u32) < RAMPUP1) = (bi_ramp_ctr bi < 5)"
    "((word_of_int (bi_ramp_ctr bi) :: u32) < RAMPUP1 + RAMPUP2) = (bi_ramp_ctr bi < 10)"
    by (simp_all add: RAMPUP1_def RAMPUP2_def word_less_def uint_word_of_int)
  have upto: "finite_upto deficit_cap (bi_lowIdleFreq bi)"
    using assms by (auto simp: info_ok_def finite_upto_def deficit_cap_def low_cap_def)
  consider "bi_ramp_ctr bi < 5" | "\<not> bi_ramp_ctr bi < 5" "bi_ramp_ctr bi < 10"
    | "\<not> bi_ramp_ctr bi < 5" "\<not> bi_ramp_ctr bi < 10" by blast
  then show ?thesis
  proof cases
    case 1
    then show ?thesis using assms r unfolding doObserve_def w
      by (simp add: c_add_def c_int_def in_int_def info_ok_def)
  next
    case 2
    then show ?thesis using assms r upto
        half_upto[of "bi_deficits bi" "bi_lowIdleFreq bi"] unfolding doObserve_def w
      by (simp add: c_add_def c_int_def in_int_def info_ok_def observe_rate_def Let_def)
  next
    case 3
    then show ?thesis using assms r unfolding doObserve_def w by (simp add: info_ok_def)
  qed
qed

lemma ctr_ok_target:
  "ctr_ok ci \<Longrightarrow> 0 \<le> ci_targetIdleCores ci \<and> ci_targetIdleCores ci \<le> ci_totalEligibleCores ci
    \<and> ci_totalEligibleCores ci \<le> 64"
  by (auto simp: ctr_ok_def)

lemma ctr_ok_adjusted:
  assumes "ctr_ok ci" "same_config ci ci'" "target_ok L ci'" "0 \<le> L"
    "ci_maxSecondaryCores ci' = ci_totalEligibleCores ci' - ci_targetIdleCores ci'"
  shows "ctr_ok ci'"
proof -
  have "pool ci' = pool ci" using assms(2) by (simp add: pool_def same_config_def)
  then show ?thesis using assms by (auto simp: ctr_ok_def same_config_def primary_shape_def target_ok_def)
qed

lemma smooth_info_ok: "info_ok bi \<Longrightarrow> info_ok (smooth_deficits bi)"
  using smooth_upto[of "bi_deficits bi" "bi_lowIdleFreq bi"]
  by (simp add: info_ok_def smooth_deficits_def Let_def)

lemma adjust_target_info_ok:
  assumes "adjust_target L ci bi = Some (ci', bi')" "info_ok bi"
  shows "info_ok (bi'\<lparr>bi_coreDifference := bi_coreDifference bi, bi_currentState := s\<rparr>)"
  using assms adjust_target_evts[OF assms(1)] adjust_target_frame[OF assms(1)]
  by (simp add: info_ok_def)

lemma doAdjust_ok:
  assumes c: "ctr_ok ci" "target_ok L ci" "0 \<le> L" and i: "info_ok bi" and l: "dyn_room (Suc k) l"
  shows "\<exists>ci' bi' l'. doAdjust L ci bi l = Some (ci', bi', l') \<and> ctr_ok ci' \<and> target_ok L ci' \<and>
    info_ok bi' \<and> dyn_room k l'"
proof -
  let ?s = "smooth_deficits bi"
  have s: "info_ok ?s" by (rule smooth_info_ok[OF i])
  have t: "0 \<le> ci_targetIdleCores ci" "ci_targetIdleCores ci \<le> 64"
    using ctr_ok_target[OF c(1)] by auto
  obtain ci1 bi1 where a: "adjust_target L ci ?s = Some (ci1, bi1)"
    using adjust_target_defined[of ci ?s L] s t by (auto simp: info_ok_def in_int_def)
  note ci1 = adjust_target_decision[OF a] and fr = adjust_target_frame[OF a]
  have cfg: "same_config ci ci1" unfolding ci1 by (simp add: same_config_def)
  have tok: "target_ok L ci1" unfolding ci1 using c(2) by (rule next_target_ok)
  have t1: "0 \<le> ci_targetIdleCores ci1" "ci_targetIdleCores ci1 \<le> ci_totalEligibleCores ci1"
    "ci_totalEligibleCores ci1 \<le> 64"
    using tok cfg c by (auto simp: target_ok_def same_config_def ctr_ok_def)
  have idle: "0 \<le> bi_idleCoresCount bi1" "bi_idleCoresCount bi1 \<le> 64"
    using s fr by (auto simp: info_ok_def)
  obtain n where n: "fp_to_int (bi_deficits bi1) = Some n"
    using finite_upto_to_int[of "bi_deficits bi1"] s fr by (auto simp: info_ok_def)
  obtain l' where l': "logDynamicEvent (bi_prev_sample_timestamp bi1)
      (bi_sample_time_elapsed bi1) (bi_idleCoresCount bi1) (bi_prev_targetIdleCores bi1)
      (ci_targetIdleCores ci1) (bi_time_spent_surplus bi1) (bi_time_spent_deficit bi1)
      (bi_surplus_weight bi1) (bi_deficit_weight bi1) n (fp_convert r32 (bi_deficit_rate bi1))
      (bi_lowIdleFreq bi1) l = Some l'" "dyn_room k l'"
    using logDynamicEvent_defined[OF l] by blast
  let ?ci = "ci1\<lparr>ci_maxSecondaryCores := ci_totalEligibleCores ci1 - ci_targetIdleCores ci1\<rparr>"
  let ?bi = "bi1\<lparr>bi_coreDifference := bi_idleCoresCount bi1 - ci_targetIdleCores ci1,
                 bi_currentState := HARVEST\<rparr>"
  have "doAdjust L ci bi l = Some (?ci, ?bi, l')"
    using a n l' t1 idle by (simp add: doAdjust_def c_sub_bind in_int_def)
  moreover have "target_ok L ?ci" using tok by (simp add: target_ok_def)
  moreover have "ctr_ok ?ci"
    by (rule ctr_ok_adjusted[OF c(1) _ \<open>target_ok L ?ci\<close> c(3)])
      (use cfg in \<open>simp_all add: same_config_def\<close>)
  moreover have "info_ok ?bi"
    using adjust_target_info_ok[OF a s, of HARVEST] idle t1 by (auto simp: info_ok_def)
  ultimately show ?thesis using l'(2) by blast
qed

lemma doHarvest_ok:
  assumes c: "ctr_ok ci" and i: "info_ok bi"
    and acc: "\<bar>g_coreDifference g\<bar> \<le> 100000" "\<bar>g_idleCoresCount g\<bar> \<le> 100000"
  shows "\<exists>r bi' g'. doHarvest ci bi g = Some (r, bi', g') \<and> info_ok bi' \<and>
    \<bar>g_coreDifference g'\<bar> \<le> \<bar>g_coreDifference g\<bar> + 64 \<and>
    \<bar>g_idleCoresCount g'\<bar> \<le> \<bar>g_idleCoresCount g\<bar> + 64"
proof (cases "harvest_skipped ci bi")
  case True
  then show ?thesis using i by (simp add: doHarvest_skip)
next
  case False
  have "in_int (bi_CoresAllocatedToSecondary bi + bi_coreDifference bi)
      \<and> in_int (g_coreDifference g + bi_coreDifference bi)
      \<and> in_int (g_idleCoresCount g + bi_idleCoresCount bi)"
    using i acc by (auto simp: info_ok_def in_int_def)
  then have "doHarvest ci bi g = Some (if bi_coreDifference bi \<noteq> 0 then 1 else 0,
      harvested ci bi, harvest_accounted bi g)"
    unfolding doHarvest_go[OF False] by (rule if_P)
  moreover have "info_ok (harvested ci bi)" using i by (simp add: info_ok_def)
  ultimately show ?thesis using i by (auto simp: info_ok_def)
qed

text \<open>The clock readings of one evaluation are sane for a container: the elapsed time is
  representable and the low-idle time of the period stays below the cap.\<close>

definition sample_fits :: "timespec \<times> timespec \<Rightarrow> balancer_info \<Rightarrow> bool" where
  "sample_fits clk bi \<longleftrightarrow>
     (case getTimeElapsed (bi_prev_sample_timestamp bi) (fst clk) of None \<Rightarrow> False
      | Some e \<Rightarrow> fp_le (fp_add r32 (bi_lowIdleFreq bi) (fp_of_int r32 (uint e))) (Fin low_cap))"

lemma take_sample_ok:
  assumes c: "ctr_ok ci" and i: "info_ok bi" and f: "sample_fits (t1, t2) bi"
  shows "\<exists>bi'. take_sample t1 t2 ci bi m = Some bi' \<and> info_ok bi'"
proof -
  obtain e where e: "getTimeElapsed (bi_prev_sample_timestamp bi) t1 = Some e"
    and le: "fp_le (fp_add r32 (bi_lowIdleFreq bi) (fp_of_int r32 (uint e))) (Fin low_cap)"
    using f by (auto simp: sample_fits_def split: option.splits)
  have low: "finite_upto low_cap (bi_lowIdleFreq bi)" using i by (simp add: info_ok_def)
  then have "fp_nonneg (fp_add r32 (bi_lowIdleFreq bi) (fp_of_int r32 (uint e)))"
    by (intro sgl.add_nonneg sgl.of_int_nonneg) (auto simp: finite_upto_def)
  with le have low': "finite_upto low_cap (fp_add r32 (bi_lowIdleFreq bi) (fp_of_int r32 (uint e)))"
    by (cases "fp_add r32 (bi_lowIdleFreq bi) (fp_of_int r32 (uint e))")
      (auto simp: finite_upto_def fp_le_def)
  have d: "\<bar>int (length (idle_cores ci m)) - ci_targetIdleCores ci\<bar> \<le> 64"
    using idle_cores_length[OF c, of m] ctr_ok_target[OF c] by auto
  then have "in_int (int (length (idle_cores ci m)) - ci_targetIdleCores ci)"
    by (intro in_int_small) simp
  then show ?thesis
    using i low low' d idle_cores_length[OF c, of m]
    by (simp add: take_sample_def count_idle_eq[OF c] c_sub_bind e info_ok_def charge_low_idle_def)
qed

lemma sampling_period_ok:
  assumes c: "ctr_ok ci" "target_ok (g_LOW_TIC g) ci" "0 \<le> g_LOW_TIC g"
    and i: "info_ok bi" and l: "dyn_room (Suc k) (g_logs g)"
  shows "\<exists>ci' bi' g'. sampling_period ci bi g = Some (ci', bi', g') \<and> ctr_ok ci' \<and> info_ok bi' \<and>
    target_ok (g_LOW_TIC g) ci' \<and> g_LOW_TIC g' = g_LOW_TIC g \<and>
    dyn_room k (g_logs g') \<and> g_coreDifference g' = g_coreDifference g \<and>
    g_idleCoresCount g' = g_idleCoresCount g \<and> g_stats g' = g_stats g"
proof (cases "g_IDLEACTIVE_SAMPLE_RATE g \<le> bi_sample_time_elapsed bi")
  case False
  have "dyn_room k (g_logs g)" using l by (auto simp: dyn_room_def)
  then show ?thesis using c i False by (simp add: sampling_period_def)
next
  case True
  obtain b1 where b1: "observe_if ci bi = Some b1" "info_ok b1"
    using i doObserve_ok[OF i, of ci]
    by (cases "bi_currentState bi = OBSERVE") (auto simp: observe_if_def)
  obtain ci' b2 l' where a: "doAdjust (g_LOW_TIC g) ci b1 (g_logs g) = Some (ci', b2, l')" "ctr_ok ci'"
    "info_ok b2" "dyn_room k l'" "target_ok (g_LOW_TIC g) ci'"
    using doAdjust_ok[OF c b1(2) l] by blast
  have "info_ok (close_period b2)"
    using a(3) by (simp add: info_ok_def finite_upto_def low_cap_def)
  then show ?thesis
    unfolding sampling_period_def if_P[OF True] using b1 a by simp
qed

lemma evaluate_ok:
  assumes c: "ctr_ok ci" "target_ok (g_LOW_TIC g) ci" "0 \<le> g_LOW_TIC g"
    and i: "info_ok bi" and f: "sample_fits clk bi"
    and l: "dyn_room (Suc k) (g_logs g)"
    and acc: "\<bar>g_coreDifference g\<bar> \<le> 100000" "\<bar>g_idleCoresCount g\<bar> \<le> 100000"
  shows "\<exists>r ci' bi' g'. evaluatePrimaryContainer clk ci bi g = Some (r, ci', bi', g') \<and>
    ctr_ok ci' \<and> info_ok bi' \<and> dyn_room k (g_logs g') \<and> g_stats g' = g_stats g \<and>
    target_ok (g_LOW_TIC g) ci' \<and> g_LOW_TIC g' = g_LOW_TIC g \<and>
    \<bar>g_coreDifference g'\<bar> \<le> \<bar>g_coreDifference g\<bar> + 64 \<and>
    \<bar>g_idleCoresCount g'\<bar> \<le> \<bar>g_idleCoresCount g\<bar> + 64"
proof -
  obtain b1 where b1: "take_sample (fst clk) (snd clk) ci bi (g_currIdleMask g) = Some b1" "info_ok b1"
    using take_sample_ok[OF c(1) i, of "fst clk" "snd clk"] f by auto
  obtain ci' b2 g2 where p: "sampling_period ci b1 g = Some (ci', b2, g2)" "ctr_ok ci'" "info_ok b2"
    "dyn_room k (g_logs g2)" "g_coreDifference g2 = g_coreDifference g"
    "g_idleCoresCount g2 = g_idleCoresCount g" "g_stats g2 = g_stats g"
    "target_ok (g_LOW_TIC g) ci'" "g_LOW_TIC g2 = g_LOW_TIC g"
    using sampling_period_ok[OF c b1(2) l] by blast
  obtain r bi' g' where h: "doHarvest ci' b2 g2 = Some (r, bi', g')" "info_ok bi'"
    "\<bar>g_coreDifference g'\<bar> \<le> \<bar>g_coreDifference g\<bar> + 64"
    "\<bar>g_idleCoresCount g'\<bar> \<le> \<bar>g_idleCoresCount g\<bar> + 64"
    using doHarvest_ok[OF p(2,3), of g2] acc p(5,6) by auto
  have "evaluatePrimaryContainer clk ci bi g = Some (r, ci', bi', g')"
    using b1 p(1) h(1) by (simp add: evaluatePrimaryContainer_def)
  then show ?thesis using p h doHarvest_globals[OF h(1)] by auto
qed

lemma evaluate_result: "evaluatePrimaryContainer clk ci bi g = Some (r, ci', bi', g') \<Longrightarrow> r \<in> {0, 1}"
  by (erule evaluate_Some) (rule doHarvest_result)

subsection \<open>All containers of a sample\<close>

text \<open>The containers below \<open>nr_primary_ctrs\<close> and their statistics are well formed.\<close>

definition system_ok :: "idleStats \<Rightarrow> balancer \<Rightarrow> bool" where
  "system_ok shm g \<longleftrightarrow> shm_shape shm \<and> bal_shape g \<and>
     0 \<le> is_nr_primary_ctrs shm \<and> is_nr_primary_ctrs shm \<le> 64 \<and> 0 \<le> g_LOW_TIC g \<and>
     (\<forall>i < nat (is_nr_primary_ctrs shm). ctr_ok (is_primary_ctrs shm ! i) \<and>
        target_ok (g_LOW_TIC g) (is_primary_ctrs shm ! i) \<and> info_ok (g_stats g ! i))"

lemma shm_shape_update:
  "shm_shape shm \<Longrightarrow> primary_shape ci \<Longrightarrow>
   shm_shape (shm\<lparr>is_primary_ctrs := (is_primary_ctrs shm)[i := ci]\<rparr>)"
  by (auto simp: shm_shape_def dest: set_update_subset_insert[THEN subsetD])

lemma evaluate_one_ok:
  assumes ok: "system_ok shm g" and i: "i < nat (is_nr_primary_ctrs shm)"
    and f: "sample_fits (clk i) (g_stats g ! i)" and l: "dyn_room (Suc k) (g_logs g)"
    and acc: "\<bar>g_coreDifference g\<bar> \<le> 64 * int i" "\<bar>g_idleCoresCount g\<bar> \<le> 64 * int i"
      "0 \<le> n" "n \<le> int i"
  shows "\<exists>n' ci' shm' g'. evaluate_one clk i (n, shm, g) = Some (n', shm', g') \<and>
    shm' = shm\<lparr>is_primary_ctrs := (is_primary_ctrs shm)[i := ci']\<rparr> \<and> system_ok shm' g' \<and>
    dyn_room k (g_logs g') \<and> (\<forall>j. j \<noteq> i \<longrightarrow> g_stats g' ! j = g_stats g ! j) \<and>
    \<bar>g_coreDifference g'\<bar> \<le> 64 * int (Suc i) \<and> \<bar>g_idleCoresCount g'\<bar> \<le> 64 * int (Suc i) \<and>
    0 \<le> n' \<and> n' \<le> int (Suc i)"
proof -
  let ?ci = "is_primary_ctrs shm ! i" and ?bi = "g_stats g ! i"
  have i64: "i < 64" using i ok by (auto simp: system_ok_def)
  have len: "length (is_primary_ctrs shm) = 64" "length (g_stats g) = 64"
    using ok by (auto simp: system_ok_def bal_shape_def MAX_CONTAINERS_def dest: shm_shapeD)
  obtain r ci' bi' g' where e: "evaluatePrimaryContainer (clk i) ?ci ?bi g = Some (r, ci', bi', g')"
    "ctr_ok ci'" "info_ok bi'" "dyn_room k (g_logs g')" "g_stats g' = g_stats g"
    "target_ok (g_LOW_TIC g) ci'" "g_LOW_TIC g' = g_LOW_TIC g"
    "\<bar>g_coreDifference g'\<bar> \<le> \<bar>g_coreDifference g\<bar> + 64"
    "\<bar>g_idleCoresCount g'\<bar> \<le> \<bar>g_idleCoresCount g\<bar> + 64"
    using evaluate_ok[OF _ _ _ _ f l, of ?ci] ok i i64 acc by (auto simp: system_ok_def)
  let ?shm = "shm\<lparr>is_primary_ctrs := (is_primary_ctrs shm)[i := ci']\<rparr>"
  let ?g = "g'\<lparr>g_stats := (g_stats g')[i := bi']\<rparr>"
  have r: "r \<in> {0, 1}" using e(1) by (rule evaluate_result)
  then have in_n: "in_int (n + r)" using acc i64 by (auto simp: in_int_def)
  have step: "evaluate_one clk i (n, shm, g) = Some (n + r, ?shm, ?g)"
    using i64 len e(1,5) in_n by (simp add: evaluate_one_def c_add_bind)
  have gc: "length (g_cpuList g') = length (g_cpuList g)"
    using e(1) by (auto elim!: evaluate_Some sampling_period_Some doHarvest_Some
        simp: harvest_accounted_def)
  have "system_ok ?shm ?g"
    using ok e(2,3,5,6,7) gc len i64 by (auto simp: system_ok_def bal_shape_def nth_list_update
        ctr_ok_def intro!: shm_shape_update)
  then show ?thesis using step e r acc by auto
qed

lemma evaluateContainers_ok:
  assumes ok: "system_ok shm g" and l: "dyn_room (nat (is_nr_primary_ctrs shm) + k) (g_logs g)"
    and f: "\<And>i. i < nat (is_nr_primary_ctrs shm) \<Longrightarrow> sample_fits (clk i) (g_stats g ! i)"
    and acc: "g_coreDifference g = 0" "g_idleCoresCount g = 0"
  shows "\<exists>n shm' g'. evaluateContainers clk shm g = Some (n, shm', g') \<and> system_ok shm' g' \<and>
    dyn_room k (g_logs g') \<and>
    is_nr_primary_ctrs shm' = is_nr_primary_ctrs shm \<and> 0 \<le> n \<and> n \<le> is_nr_primary_ctrs shm \<and>
    (\<forall>j. nat (is_nr_primary_ctrs shm) \<le> j \<longrightarrow> g_stats g' ! j = g_stats g ! j)"
proof -
  let ?N = "nat (is_nr_primary_ctrs shm)"
  let ?P = "\<lambda>i (n, s, h). system_ok s h \<and> is_nr_primary_ctrs s = is_nr_primary_ctrs shm \<and>
    dyn_room (?N - i + k) (g_logs h) \<and> (\<forall>j. i \<le> j \<longrightarrow> g_stats h ! j = g_stats g ! j) \<and>
    \<bar>g_coreDifference h\<bar> \<le> 64 * int i \<and> \<bar>g_idleCoresCount h\<bar> \<le> 64 * int i \<and>
    0 \<le> n \<and> n \<le> int i"
  have "\<exists>t. for_loop 0 ?N (evaluate_one clk) (0, shm, g) = Some t \<and> ?P (0 + ?N) t"
  proof (rule for_loop_total)
    show "?P 0 (0, shm, g)" using ok l acc by simp
    fix i x
    assume i: "i < 0 + ?N" and P: "?P i x"
    obtain n s h where x: "x = (n, s, h)" by (cases x)
    have "?N - i + k = Suc (?N - Suc i + k)" using i by simp
    then have room: "dyn_room (Suc (?N - Suc i + k)) (g_logs h)"
      using P x by simp
    have ih: "system_ok s h" "i < nat (is_nr_primary_ctrs s)" "sample_fits (clk i) (g_stats h ! i)"
      "\<bar>g_coreDifference h\<bar> \<le> 64 * int i" "\<bar>g_idleCoresCount h\<bar> \<le> 64 * int i" "0 \<le> n" "n \<le> int i"
      using P x i f[of i] by auto
    from evaluate_one_ok[where clk = clk and k = "?N - Suc i + k", OF ih(1,2,3) room ih(4,5,6,7)]
    obtain n' ci' s' h' where st: "evaluate_one clk i (n, s, h) = Some (n', s', h')"
      "s' = s\<lparr>is_primary_ctrs := (is_primary_ctrs s)[i := ci']\<rparr>" "system_ok s' h'"
      "dyn_room (?N - Suc i + k) (g_logs h')" "\<forall>j. j \<noteq> i \<longrightarrow> g_stats h' ! j = g_stats h ! j"
      "\<bar>g_coreDifference h'\<bar> \<le> 64 * int (Suc i)" "\<bar>g_idleCoresCount h'\<bar> \<le> 64 * int (Suc i)"
      "0 \<le> n'" "n' \<le> int (Suc i)"
      by blast
    show "\<exists>y. evaluate_one clk i x = Some y \<and> ?P (Suc i) y"
      using st P x by simp
  qed
  then show ?thesis using ok by (auto simp: evaluateContainers_def system_ok_def)
qed

lemma evaluate_quiet:
  assumes "evaluatePrimaryContainer clk ci bi g = Some (0, ci', bi', g')"
  shows "g_coreDifference g' = g_coreDifference g"
  using assms
  by (auto elim!: evaluate_Some sampling_period_Some dest!: doHarvest_quiet)

lemma evaluate_one_quiet:
  assumes "evaluate_one clk i (n, shm, g) = Some (n', shm', g')" "0 \<le> n"
  shows "n \<le> n'" and "n' = n \<Longrightarrow> g_coreDifference g' = g_coreDifference g"
proof -
  obtain ci bi r ci' bi' g1 stats where
    e: "evaluatePrimaryContainer (clk i) ci bi g = Some (r, ci', bi', g1)"
    and n': "n' = n + r" and g': "g' = g1\<lparr>g_stats := stats\<rparr>"
    using assms(1) by (auto simp: evaluate_one_def bind_eq_Some_conv)
  show "n \<le> n'" using evaluate_result[OF e] n' by auto
  show "g_coreDifference g' = g_coreDifference g" if "n' = n"
    using evaluate_quiet[of "clk i" ci bi g ci' bi' g1] e n' g' that by simp
qed

lemma evaluateContainers_quiet:
  assumes "evaluateContainers clk shm g = Some (n, shm', g')" "g_coreDifference g = 0"
  shows "0 \<le> n" and "n = 0 \<Longrightarrow> g_coreDifference g' = 0"
proof -
  let ?P = "\<lambda>i :: nat. \<lambda>(n :: int, s :: idleStats, h). 0 \<le> n \<and> (n = 0 \<longrightarrow> g_coreDifference h = 0)"
  have "?P (0 + nat (is_nr_primary_ctrs shm)) (n, shm', g')"
  proof (rule for_loop_inv[OF assms(1)[unfolded evaluateContainers_def], where P = ?P])
    show "?P 0 (0, shm, g)" using assms(2) by simp
    fix i x y
    assume P: "?P i x" and st: "evaluate_one clk i x = Some y"
    obtain n s h n1 s1 h1 where xy: "x = (n, s, h)" "y = (n1, s1, h1)" by (cases x; cases y)
    show "?P (Suc i) y"
      using evaluate_one_quiet[OF st[unfolded xy]] P xy by auto
  qed
  then show "0 \<le> n" "n = 0 \<Longrightarrow> g_coreDifference g' = 0" by auto
qed

subsection \<open>Hysteresis\<close>

text \<open>An adjustment for a given deficit rate, and what it takes to hold the target.\<close>

definition adjust_rate ::
  "int \<Rightarrow> fp \<Rightarrow> primary_ctr_info \<times> balancer_info \<Rightarrow> (primary_ctr_info \<times> balancer_info) option" where
  "adjust_rate L rate = (\<lambda>(ci, bi). adjust_target L ci (bi\<lparr>bi_deficit_rate := rate\<rparr>))"

definition near_threshold :: "primary_ctr_info \<Rightarrow> fp \<Rightarrow> bool" where
  "near_threshold ci rate \<longleftrightarrow>
     fp_gt rate (fp_mul r64 (r64 (66 / 100)) (ci_LOWIDLEFREQ_THRESHOLD ci))"

lemma adjust_hold:
  assumes "\<not> fp_gt rate (ci_LOWIDLEFREQ_THRESHOLD ci)"
    "bi_within_error_flag bi = 1 \<or> bi_within_error_flag bi = 0 \<and> near_threshold ci rate"
    "0 \<le> bi_surplus_evts bi" "bi_surplus_evts bi < 10"
  shows "\<exists>bi'. adjust_rate L rate (ci, bi) = Some (ci, bi') \<and> bi_within_error_flag bi' = 1 \<and>
    bi_surplus_evts bi' = bi_surplus_evts bi + 1"
  using assms
  by (auto simp: adjust_rate_def adjust_target_def within_error_def near_threshold_def Let_def
      c_add_bind in_int_def SURPLUS_EVTS_THRESH_def)

lemma adjust_hold_run:
  assumes "\<forall>r \<in> set rs. \<not> fp_gt r (ci_LOWIDLEFREQ_THRESHOLD ci)"
    "bi_within_error_flag bi = 1" "0 \<le> bi_surplus_evts bi"
    "bi_surplus_evts bi + int (length rs) \<le> 10"
  shows "\<exists>bi'. run_all (adjust_rate L) rs (ci, bi) = Some (ci, bi') \<and> bi_within_error_flag bi' = 1 \<and>
    bi_surplus_evts bi' = bi_surplus_evts bi + int (length rs)"
  using assms
proof (induction rs arbitrary: bi)
  case (Cons r rs)
  obtain b where b: "adjust_rate L r (ci, bi) = Some (ci, b)" "bi_within_error_flag b = 1"
    "bi_surplus_evts b = bi_surplus_evts bi + 1"
    using adjust_hold[of r ci bi] Cons.prems by auto
  then show ?case using Cons.IH[of b] Cons.prems by auto
qed simp

lemma adjust_release:
  assumes "\<not> fp_gt rate (ci_LOWIDLEFREQ_THRESHOLD ci)" "bi_within_error_flag bi = 1"
    "bi_surplus_evts bi = 10" "in_int (ci_targetIdleCores ci - 1)"
  shows "\<exists>bi'. adjust_rate L rate (ci, bi) =
      Some (ci\<lparr>ci_targetIdleCores := max L (ci_targetIdleCores ci - 1)\<rparr>, bi') \<and>
    bi_within_error_flag bi' = 0 \<and> bi_surplus_evts bi' = 0"
  using assms
  by (auto simp: adjust_rate_def adjust_target_def within_error_def lower_target_def Let_def
      c_sub_bind SURPLUS_EVTS_THRESH_def max_def)

end
