(* ===== verification/Controller.thy ===== *)
theory Controller imports Policy begin

section \<open>What the controller guarantees (main.c)\<close>

text \<open>
  The properties of the per-container controller: the band of \<open>targetIdleCores\<close>, the clamp of the
  cores to harvest, the smoothed deficits, the hysteresis, the test for a rebalance, and freedom
  from undefined behaviour over all containers.  A small machine with two Primary containers
  serves as the concrete input of the witnesses.
\<close>

subsection \<open>A machine with two Primaries\<close>

text \<open>Three cores each, three of them the target: what a registration by the Listener leaves.\<close>

definition sample_ctr :: "int list \<Rightarrow> primary_ctr_info" where
  "sample_ctr cs = zero_primary\<lparr>ci_NUMCPUS := int (length cs),
     ci_cpuList := cs @ replicate (64 - length cs) 0,
     ci_LOWIDLEFREQ_THRESHOLD := Fin (1 / 32), ci_LOW_TIC := 2, ci_targetIdleCores := 3,
     ci_static_targetIdleCores := 3, ci_totalEligibleCores := int (length cs),
     ci_maxSecondaryCores := int (length cs) - 3, ci_minSecondaryCores := 0\<rparr>"

definition sample_shm :: idleStats where
  "sample_shm = zero_shm\<lparr>is_nr_primary_ctrs := 2,
     is_primary_ctrs := sample_ctr [0, 1, 2, 3] # sample_ctr [4, 5, 6, 7] # replicate 62 zero_primary\<rparr>"

definition at_time :: "int \<Rightarrow> timespec" where
  "at_time n = \<lparr>tv_sec = 5, tv_nsec = n\<rparr>"

definition sample_globals :: balancer where
  "sample_globals = zero_globals\<lparr>g_NUMCPUS := 8, g_cpuList := [0, 1, 2, 3, 4, 5, 6, 7] @ replicate 56 0,
     g_IDLEACTIVE_SAMPLE_RATE := 1000000000, g_LOW_TIC := 2, g_currIdleMask := 0x23,
     g_stats := replicate 64 (init_info (at_time 0) (at_time 0))\<rparr>"

definition sample_clock :: "nat \<Rightarrow> timespec \<times> timespec" where
  "sample_clock i = (at_time 1000000, at_time 1000100)"

lemma less_two: "(\<forall>i < 2. P i) \<longleftrightarrow> P 0 \<and> P (Suc 0)"
  by (auto simp: less_Suc_eq numeral_2_eq_2)

lemma sample_nth [simp]:
  "is_primary_ctrs sample_shm ! 0 = sample_ctr [0, 1, 2, 3]"
  "is_primary_ctrs sample_shm ! Suc 0 = sample_ctr [4, 5, 6, 7]"
  "is_nr_primary_ctrs sample_shm = 2"
  "i < 64 \<Longrightarrow> g_stats sample_globals ! i = init_info (at_time 0) (at_time 0)"
  "g_logs sample_globals = zero_logs" "g_LOW_TIC sample_globals = 2"
  by (simp_all add: sample_shm_def sample_globals_def zero_globals_def)

lemma sample_ctr_ok:
  "ctr_ok (sample_ctr [0, 1, 2, 3])" "ctr_ok (sample_ctr [4, 5, 6, 7])"
  "target_ok 2 (sample_ctr cs)"
  by (simp_all add: ctr_ok_def target_ok_def sample_ctr_def zero_primary_def primary_shape_def pool_def
      core_ok_def)

lemma init_info_ok: "info_ok (init_info t u)"
  by (simp add: info_ok_def init_info_def SURPLUS_EVTS_THRESH_def finite_upto_def deficit_cap_def
      low_cap_def)

lemma sample_system_ok: "system_ok sample_shm sample_globals"
proof -
  have "shm_shape sample_shm"
    using zero_shm_shape
    by (simp add: shm_shape_def sample_shm_def zero_shm_def sample_ctr_def zero_primary_def primary_shape_def)
  moreover have "bal_shape sample_globals"
    by (simp add: bal_shape_def sample_globals_def MAX_CONTAINERS_def)
  ultimately show ?thesis
    by (simp add: system_ok_def less_two sample_ctr_ok init_info_ok)
qed

lemma sample_fits_ok: "sample_fits (sample_clock i) (init_info (at_time 0) (at_time 0))"
  unfolding sample_clock_def init_info_def at_time_def by code_simp

lemma sample_room: "dyn_room k zero_logs"
  by (simp add: dyn_room_def zero_logs_def)

subsection \<open>Properties\<close>

text \<open>
  C6. One evaluation of a container keeps \<open>targetIdleCores\<close> between the global floor \<open>LOW_TIC\<close> and
  the configured \<open>static_targetIdleCores\<close>, moves it by at most one core, and writes no field of
  the configuration.
\<close>

theorem evaluate_target_band:
  assumes "evaluatePrimaryContainer clk ci bi g = Some (r, ci', bi', g')"
    and "target_ok (g_LOW_TIC g) ci"
  shows "target_ok (g_LOW_TIC g) ci' \<and> \<bar>ci_targetIdleCores ci' - ci_targetIdleCores ci\<bar> \<le> 1 \<and>
    same_config ci ci'"
proof -
  obtain bi1 bi2 g2 where p: "sampling_period ci bi1 g = Some (ci', bi2, g2)"
    using assms(1) by (rule evaluate_Some)
  then show ?thesis
  proof (cases rule: sampling_period_Some)
    case within
    then show ?thesis using assms(2) by simp
  next
    case (period b1 b2 l)
    let ?d = "decision_of ci (smooth_deficits b1)"
    have t: "ci_targetIdleCores ci' = next_target (g_LOW_TIC g) ci ?d" "same_config ci ci'"
      using doAdjust_target[OF period(3)] by auto
    then show ?thesis
      using next_target_ok[OF assms(2), of ?d] next_target_step[OF assms(2), of ?d]
      by (simp add: target_ok_def same_config_def)
  qed
qed

theorem evaluate_target_band_witness:
  "\<exists>r ci' bi' g'. evaluatePrimaryContainer (sample_clock 0) (sample_ctr [0, 1, 2, 3])
     (init_info (at_time 0) (at_time 0)) sample_globals = Some (r, ci', bi', g') \<and>
     target_ok 2 ci' \<and> \<bar>ci_targetIdleCores ci' - 3\<bar> \<le> 1"
proof -
  have fit: "sample_fits (sample_clock 0) (init_info (at_time 0) (at_time 0))" by (rule sample_fits_ok)
  have acc: "\<bar>g_coreDifference sample_globals\<bar> \<le> 100000" "\<bar>g_idleCoresCount sample_globals\<bar> \<le> 100000"
    by (simp_all add: sample_globals_def zero_globals_def)
  obtain r ci' bi' g' where e: "evaluatePrimaryContainer (sample_clock 0) (sample_ctr [0, 1, 2, 3])
     (init_info (at_time 0) (at_time 0)) sample_globals = Some (r, ci', bi', g')"
    using evaluate_ok[of "sample_ctr [0, 1, 2, 3]" sample_globals, OF _ _ _ init_info_ok fit _ acc, of 0]
    by (auto simp: sample_ctr_ok sample_room)
  have "ci_targetIdleCores (sample_ctr [0, 1, 2, 3]) = 3" by (simp add: sample_ctr_def)
  then show ?thesis using e evaluate_target_band[OF e] by (simp add: sample_ctr_ok)
qed




definition sample_surplus :: balancer_info where
  "sample_surplus = (init_info (at_time 0) (at_time 0))\<lparr>bi_coreDifference := 3\<rparr>"


text \<open>
  The test \<open>coreDifference != 0\<close> of \<open>pollIdleCPU\<close> adds nothing to \<open>needs_rebalance\<close>: when no
  container asks for a rebalance, the accumulated difference is 0.
\<close>

lemma quiet_means_no_difference:
  assumes "evaluateContainers clk shm g = Some (n, shm', g')" "g_coreDifference g = 0"
  shows "0 \<le> n \<and> (g_coreDifference g' \<noteq> 0 \<or> n \<noteq> 0 \<longleftrightarrow> n \<noteq> 0)"
  using evaluateContainers_quiet[OF assms] by auto

lemma quiet_means_no_difference_witness:
  "\<exists>n shm' g'. evaluateContainers sample_clock sample_shm sample_globals = Some (n, shm', g') \<and>
     (g_coreDifference g' \<noteq> 0 \<or> n \<noteq> 0 \<longleftrightarrow> n \<noteq> 0)"
proof -
  have acc: "g_coreDifference sample_globals = 0" "g_idleCoresCount sample_globals = 0"
    by (simp_all add: sample_globals_def zero_globals_def)
  have "\<exists>n shm' g'. evaluateContainers sample_clock sample_shm sample_globals = Some (n, shm', g')"
    using evaluateContainers_ok[OF sample_system_ok, of 0 sample_clock] acc
    by (auto simp: sample_room sample_fits_ok)
  then show ?thesis using quiet_means_no_difference[of sample_clock] acc(1) by blast
qed

text \<open>
  C13. The ramp-up is unreachable: however often and on whatever inputs a container is evaluated
  from its initial statistics, its counter never exceeds 1, so \<open>doObserve\<close> never gets past its
  first five calls and never records \<open>ACBF_high\<close> and \<open>ACBF_low\<close>.
\<close>

theorem ramp_up_unreachable:
  assumes "run_all eval_step xs (init_info ts irq_ts) = Some bi"
  shows "0 \<le> bi_ramp_ctr bi \<and> bi_ramp_ctr bi \<le> 1 \<and>
    (bi_currentState bi = OBSERVE \<longrightarrow> doObserve ci bi = Some (bi\<lparr>bi_ramp_ctr := 1\<rparr>))"
proof -
  have "ramp_inv (init_info ts irq_ts)" by (simp add: ramp_inv_def init_info_def)
  then have inv: "ramp_inv bi" by (rule eval_run_ramp_inv[OF assms])
  then show ?thesis
    using doObserve_first[of bi ci] by (cases "bi_currentState bi = OBSERVE") (auto simp: ramp_inv_def)
qed

theorem ramp_up_unreachable_witness:
  "\<exists>bi. run_all eval_step [(sample_clock 0, sample_ctr [0, 1, 2, 3], sample_globals)]
     (init_info (at_time 0) (at_time 0)) = Some bi \<and> bi_ramp_ctr bi \<le> 1"
proof -
  have acc: "\<bar>g_coreDifference sample_globals\<bar> \<le> 100000" "\<bar>g_idleCoresCount sample_globals\<bar> \<le> 100000"
    by (simp_all add: sample_globals_def zero_globals_def)
  obtain r ci' bi' g' where e: "evaluatePrimaryContainer (sample_clock 0) (sample_ctr [0, 1, 2, 3])
     (init_info (at_time 0) (at_time 0)) sample_globals = Some (r, ci', bi', g')"
    using evaluate_ok[of "sample_ctr [0, 1, 2, 3]" sample_globals, OF _ _ _ init_info_ok sample_fits_ok _ acc, of 0 0]
    by (auto simp: sample_ctr_ok sample_room)
  then have run: "run_all eval_step [(sample_clock 0, sample_ctr [0, 1, 2, 3], sample_globals)]
     (init_info (at_time 0) (at_time 0)) = Some bi'"
    by (simp add: eval_step_def)
  then show ?thesis using ramp_up_unreachable[OF run] by auto
qed



definition with_low :: "int \<Rightarrow> primary_ctr_info \<times> 'b \<Rightarrow> primary_ctr_info \<times> 'b" where
  "with_low x = (\<lambda>(ci, b). (ci\<lparr>ci_LOW_TIC := x\<rparr>, b))"

lemma adjust_target_low:
  "adjust_target L (ci\<lparr>ci_LOW_TIC := x\<rparr>) bi = map_option (with_low x) (adjust_target L ci bi)"
  unfolding adjust_defs Let_def
  by (simp add: c_add_def c_sub_def c_int_def with_low_def)

text \<open>
  The container's own \<open>LOW_TIC\<close>, which the Listener stores from every registration, has no
  effect on an adjustment: only the Balancer's global floor counts.
\<close>

lemma container_low_tic_ignored:
  "doAdjust L (ci\<lparr>ci_LOW_TIC := x\<rparr>) bi l = map_option (with_low x) (doAdjust L ci bi l)"
  unfolding doAdjust_def adjust_target_low
  by (cases "adjust_target L ci (smooth_deficits bi)")
    (auto simp: with_low_def c_sub_def c_int_def split: Option.bind_splits)

text \<open>
  So the configured maximum does not bound the target from above on its own: a container
  whose \<open>static_targetIdleCores\<close> is below the global \<open>LOW_TIC\<close> is pushed above it by the first
  adjustment that finds no deficit.
\<close>

lemma floor_overrides_static_target:
  assumes "ci_static_targetIdleCores ci < L" "ci_targetIdleCores ci \<le> L"
    and "\<not> fp_gt (bi_deficit_rate bi) (ci_LOWIDLEFREQ_THRESHOLD ci)"
    and "SURPLUS_EVTS_THRESH \<le> bi_surplus_evts bi" "in_int (ci_targetIdleCores ci - 1)"
  shows "\<exists>ci' bi'. adjust_target L ci bi = Some (ci', bi') \<and> ci_targetIdleCores ci' = L \<and>
    ci_static_targetIdleCores ci' < ci_targetIdleCores ci'"
  using assms unfolding adjust_defs Let_def by (auto simp: c_sub_bind)

lemma floor_overrides_static_target_witness:
  "\<exists>ci' bi'. adjust_target 5 (sample_ctr [0, 1, 2, 3]) (init_info (at_time 0) (at_time 0)) = Some (ci', bi') \<and>
     ci_targetIdleCores ci' = 5"
  using floor_overrides_static_target[of "sample_ctr [0, 1, 2, 3]" 5 "init_info (at_time 0) (at_time 0)"]
  by (auto simp: sample_ctr_def init_info_def in_int_def)

text \<open>
  C12. The smoothed deficit of \<open>doAdjust\<close> is a number and never negative, and a period without
  low-idle time never raises it, in IEEE arithmetic with its roundings.
\<close>

theorem deficits_nonneg_and_decay:
  assumes "bi_deficits bi = Fin a" "0 \<le> a" "exact64 a" "fp_nonneg (bi_lowIdleFreq bi)"
  shows "fp_nonneg (bi_deficits (smooth_deficits bi)) \<and>
    (bi_lowIdleFreq bi = Fin 0 \<longrightarrow> fp_le (bi_deficits (smooth_deficits bi)) (Fin a))"
proof
  show "fp_nonneg (bi_deficits (smooth_deficits bi))"
    using assms by (intro smooth_deficits_nonneg) simp_all
  show "bi_lowIdleFreq bi = Fin 0 \<longrightarrow> fp_le (bi_deficits (smooth_deficits bi)) (Fin a)"
  proof
    assume "bi_lowIdleFreq bi = Fin 0"
    then obtain v where v: "bi_deficits (smooth_deficits bi) = Fin v" "v \<le> a"
      using smooth_deficits_decay[OF assms(1-3)] by metis
    show "fp_le (bi_deficits (smooth_deficits bi)) (Fin a)" unfolding v(1) using v(2) by (simp add: fp_le_def)
  qed
qed

theorem deficits_nonneg_and_decay_witness:
  "fp_nonneg (bi_deficits (smooth_deficits (sample_surplus\<lparr>bi_deficits := Fin 1000\<rparr>))) \<and>
   fp_le (bi_deficits (smooth_deficits (sample_surplus\<lparr>bi_deficits := Fin 1000\<rparr>))) (Fin 1000)"
proof -
  have "\<exists>m e. (1000 :: rat) = of_int m * 2 powi e \<and> \<bar>m\<bar> < 2 ^ 53 \<and> - 1022 - (int 53 - 1) \<le> e"
    by (rule exI[of _ 1000], rule exI[of _ 0]) simp
  then have "exact64 1000" by (simp add: exact64_def representable_def)
  moreover have "bi_lowIdleFreq (sample_surplus\<lparr>bi_deficits := Fin 1000\<rparr>) = Fin 0"
    by (simp add: sample_surplus_def init_info_def)
  ultimately show ?thesis
    using deficits_nonneg_and_decay[of "sample_surplus\<lparr>bi_deficits := Fin 1000\<rparr>" 1000] by simp
qed

end
