(* ===== verification/Interrupts.thy ===== *)
theory Interrupts imports Controller CString "HOL-Library.Multiset" begin

section \<open>Interrupt weights and task lists (interrupts.c, taskinfo.c)\<close>

text \<open>
  \<open>getInterruptWeights\<close> orders the harvest cores by the time spent in interrupts; the comparison
  function converts a 64-bit unsigned difference to \<open>int\<close>.  \<open>qsort\<close> is a parameter: the C
  library promises a sorted permutation for a consistent comparison only.  \<open>proc_next_tid\<close> walks a
  \<open>/proc/<pid>/task\<close> directory, given as the list of the entries that \<open>readdir\<close> still returns.
\<close>

subsection \<open>Ordering the harvest cores\<close>

record harvest_core =
  hc_cpuid :: int
  hc_curr_weight :: u64

text \<open>The conversion to \<open>int\<close> keeps the low 32 bits.\<close>

definition u64_to_int :: "u64 \<Rightarrow> int" where
  "u64_to_int d = sint (ucast d :: u32)"

definition cmpweights :: "u64 list \<Rightarrow> harvest_core \<Rightarrow> harvest_core \<Rightarrow> int option" where
  "cmpweights harvest_core_weights s1 s2 =
     (if hc_curr_weight s1 = hc_curr_weight s2 then do {
        w1 \<leftarrow> arr_get harvest_core_weights (hc_cpuid s1);
        w2 \<leftarrow> arr_get harvest_core_weights (hc_cpuid s2);
        Some (u64_to_int (w1 - w2)) }
      else Some (u64_to_int (hc_curr_weight s1 - hc_curr_weight s2)))"

definition request_irq_times :: "idleStats \<Rightarrow> idleStats" where
  "request_irq_times shm = shm\<lparr>is_update_irq := 1\<rparr>"

definition weigh_core ::
  "idleStats \<Rightarrow> balancer \<Rightarrow> nat \<Rightarrow> harvest_core list \<times> int \<times> u64 list \<Rightarrow>
   (harvest_core list \<times> int \<times> u64 list) option" where
  "weigh_core shm g i = (\<lambda>(newHarvestCores, num_changes, prev_irq_times). do {
     cpu \<leftarrow> arr_get (g_cpuList g) (int i);
     now \<leftarrow> arr_get (is_curr_irq_times shm) cpu;
     before \<leftarrow> arr_get prev_irq_times cpu;
     let w = now - before;
     num_changes \<leftarrow> (if 0 < w then c_add num_changes 1 else Some num_changes);
     prev_irq_times \<leftarrow> arr_set prev_irq_times cpu now;
     (if 64 \<le> i then None
      else Some (newHarvestCores @ [\<lparr>hc_cpuid = cpu, hc_curr_weight = w\<rparr>], num_changes, prev_irq_times)) })"

text \<open>The last loop: at the first difference, copy the whole new order and return 1.\<close>

fun first_difference :: "int list \<Rightarrow> int list \<Rightarrow> bool" where
  "first_difference (a # as) (b # bs) = (if a \<noteq> b then True else first_difference as bs)"
| "first_difference _ _ = False"

type_synonym c_sort = "(harvest_core \<Rightarrow> harvest_core \<Rightarrow> int) \<Rightarrow> harvest_core list \<Rightarrow> harvest_core list"

definition compare_cores :: "balancer \<Rightarrow> harvest_core \<Rightarrow> harvest_core \<Rightarrow> int" where
  "compare_cores g a b = (case cmpweights (ir_harvest_core_weights (g_irq g)) a b of Some r \<Rightarrow> r | None \<Rightarrow> 0)"

text \<open>After the Monitor has answered the request.\<close>

definition getInterruptWeights :: "c_sort \<Rightarrow> idleStats \<Rightarrow> balancer \<Rightarrow> (int \<times> balancer) option" where
  "getInterruptWeights qsort shm g = do {
     (newHarvestCores, num_changes, prev) \<leftarrow>
       for_loop 0 (nat (g_NUMCPUS g)) (weigh_core shm g) ([], 0, ir_prev_irq_times (g_irq g));
     let g = g\<lparr>g_irq := (g_irq g)\<lparr>ir_prev_irq_times := prev\<rparr>\<rparr>;
     (if num_changes = 0 then Some (0, g)
      else if \<exists>a \<in> set newHarvestCores. \<exists>b \<in> set newHarvestCores.
                cmpweights (ir_harvest_core_weights (g_irq g)) a b = None then None
      else do {
        let new = map hc_cpuid (qsort (compare_cores g) newHarvestCores);
        let old = ir_harvestCores (g_irq g);
        l \<leftarrow> arr_get new (g_NUMCPUS g - 1);
        h \<leftarrow> arr_get old (g_NUMCPUS g - 1);
        (if l = h then Some (0, g)
         else if first_difference new (take (length new) old)
         then Some (1, g\<lparr>g_irq := (g_irq g)\<lparr>ir_harvestCores := new @ drop (length new) old\<rparr>\<rparr>)
         else Some (0, g)) }) }"

subsection \<open>The order it establishes\<close>

text \<open>What the C library promises of \<open>qsort\<close>: a permutation, sorted when the comparison is the
  sign of a difference of keys.\<close>

definition qsort_ok :: "c_sort \<Rightarrow> bool" where
  "qsort_ok qsort \<longleftrightarrow> (\<forall>cmp xs. mset (qsort cmp xs) = mset xs \<and>
     (\<forall>key :: harvest_core \<Rightarrow> int.
        (\<forall>a \<in> set xs. \<forall>b \<in> set xs. (cmp a b < 0 \<longleftrightarrow> key a < key b) \<and> (cmp a b = 0 \<longleftrightarrow> key a = key b)) \<longrightarrow>
        sorted (map key (qsort cmp xs))))"

text \<open>Insertion sort is such a function.\<close>

fun insert_by :: "('a \<Rightarrow> 'a \<Rightarrow> int) \<Rightarrow> 'a \<Rightarrow> 'a list \<Rightarrow> 'a list" where
  "insert_by cmp x [] = [x]"
| "insert_by cmp x (y # ys) = (if cmp x y \<le> 0 then x # y # ys else y # insert_by cmp x ys)"

definition insertion_sort :: "('a \<Rightarrow> 'a \<Rightarrow> int) \<Rightarrow> 'a list \<Rightarrow> 'a list" where
  "insertion_sort cmp xs = foldr (insert_by cmp) xs []"

lemma mset_insert_by [simp]: "mset (insert_by cmp x ys) = add_mset x (mset ys)"
  by (induction ys) auto

lemma mset_insertion_sort: "mset (insertion_sort cmp xs) = mset xs"
  by (induction xs) (simp_all add: insertion_sort_def)

lemma set_insert_by [simp]: "set (insert_by cmp x ys) = insert x (set ys)"
  by (induction ys) auto

lemma sorted_insert_by:
  assumes "sorted (map key ys)" "\<forall>y \<in> set ys. (cmp x y < 0 \<longleftrightarrow> key x < key y) \<and> (cmp x y = 0 \<longleftrightarrow> key x = (key y :: int))"
  shows "sorted (map key (insert_by cmp x ys))"
  using assms
proof (induction ys)
  case (Cons y ys)
  have le: "cmp x y \<le> 0 \<longleftrightarrow> key x \<le> key y" using Cons.prems(2) by (auto simp: order_le_less)
  have tail: "sorted (map key (insert_by cmp x ys))" using Cons by simp
  have y: "\<forall>z \<in> set ys. key y \<le> key z" using Cons.prems(1) by simp
  show ?case
  proof (cases "cmp x y \<le> 0")
    case True
    then have "\<forall>z \<in> set (y # ys). key x \<le> key z" using le y by (auto intro: order_trans)
    then show ?thesis using True Cons.prems(1) by simp
  next
    case False
    then have "\<forall>z \<in> set (insert_by cmp x ys). key y \<le> key z" using le y by simp
    then show ?thesis using False tail by simp
  qed
qed simp

lemma insertion_sort_qsort_ok: "qsort_ok insertion_sort"
proof -
  have "sorted (map key (insertion_sort cmp xs))"
    if "\<forall>a \<in> set xs. \<forall>b \<in> set xs. (cmp a b < 0 \<longleftrightarrow> key a < key b) \<and> (cmp a b = 0 \<longleftrightarrow> key a = key b)"
    for cmp and key :: "harvest_core \<Rightarrow> int" and xs
    using that
  proof (induction xs)
    case (Cons x xs)
    have elems: "set (insertion_sort cmp xs) = set xs"
      by (rule mset_eq_setD) (rule mset_insertion_sort)
    have "sorted (map key (insertion_sort cmp xs))" by (rule Cons.IH) (use Cons.prems in simp)
    then have "sorted (map key (insert_by cmp x (insertion_sort cmp xs)))"
      by (rule sorted_insert_by) (use Cons.prems in \<open>simp add: elems\<close>)
    then show ?case by (simp add: insertion_sort_def)
  qed (simp add: insertion_sort_def)
  then show ?thesis by (simp add: qsort_ok_def mset_insertion_sort)
qed

subsection \<open>What a sample of the weights does\<close>

lemma u64_to_int_diff:
  assumes "uint a < 2 ^ 31" "uint b < 2 ^ 31"
  shows "u64_to_int (a - b) = uint a - uint b"
proof -
  have "sint (ucast (a - b) :: u32) = signed_take_bit 31 (uint (a - b))"
    by (simp add: sint_uint unsigned_ucast_eq signed_take_bit_take_bit)
  also have "uint (a - b) = take_bit 64 (uint a - uint b)"
    by (simp add: uint_word_ariths take_bit_eq_mod)
  also have "signed_take_bit 31 (take_bit 64 (uint a - uint b)) = signed_take_bit 31 (uint a - uint b)"
    by (simp add: signed_take_bit_take_bit)
  also have "\<dots> = uint a - uint b"
  proof (rule signed_take_bit_int_eq_self)
    have "0 \<le> uint a" "0 \<le> uint b" by simp_all
    then show "- (2 ^ 31) \<le> uint a - uint b" "uint a - uint b < 2 ^ 31" using assms by linarith+
  qed
  finally show ?thesis by (simp add: u64_to_int_def)
qed

definition irq_weight :: "idleStats \<Rightarrow> balancer \<Rightarrow> int \<Rightarrow> u64" where
  "irq_weight shm g c = is_curr_irq_times shm ! nat c - ir_prev_irq_times (g_irq g) ! nat c"

definition weighed :: "idleStats \<Rightarrow> balancer \<Rightarrow> int \<Rightarrow> harvest_core" where
  "weighed shm g c = \<lparr>hc_cpuid = c, hc_curr_weight = irq_weight shm g c\<rparr>"

definition irq_ok :: "idleStats \<Rightarrow> balancer \<Rightarrow> bool" where
  "irq_ok shm g \<longleftrightarrow> cpus_ok g \<and> shm_shape shm \<and> length (ir_prev_irq_times (g_irq g)) = 64 \<and>
     length (ir_harvestCores (g_irq g)) = 64 \<and> ir_harvest_core_weights (g_irq g) = replicate 64 0 \<and>
     (\<forall>c \<in> set (monitored g). uint (irq_weight shm g c) < 2 ^ 31)"

lemma weigh_all:
  assumes ok: "irq_ok shm g"
  shows "\<exists>k prev. for_loop 0 (nat (g_NUMCPUS g)) (weigh_core shm g) ([], 0, ir_prev_irq_times (g_irq g)) =
      Some (map (weighed shm g) (monitored g), k, prev) \<and>
    (k = 0 \<longleftrightarrow> (\<forall>c \<in> set (monitored g). irq_weight shm g c = 0)) \<and>
    (\<forall>c \<in> set (monitored g). prev ! nat c = is_curr_irq_times shm ! nat c)"
proof -
  let ?N = "nat (g_NUMCPUS g)" and ?p = "ir_prev_irq_times (g_irq g)"
  have cpus: "cpus_ok g" and len: "length (is_curr_irq_times shm) = 64" "length ?p = 64"
    using ok by (auto simp: irq_ok_def dest: shm_shapeD)
  have n: "length (monitored g) = ?N" "?N \<le> 64" "distinct (monitored g)"
    using length_monitored[OF cpus] cpus by (auto simp: cpus_ok_def)
  let ?P = "\<lambda>i (cs, k, prev). cs = map (weighed shm g) (take i (monitored g)) \<and> length prev = 64 \<and>
    0 \<le> k \<and> k \<le> int i \<and> (k = 0 \<longleftrightarrow> (\<forall>c \<in> set (take i (monitored g)). irq_weight shm g c = 0)) \<and>
    (\<forall>c \<in> set (take i (monitored g)). prev ! nat c = is_curr_irq_times shm ! nat c) \<and>
    (\<forall>c \<in> set (drop i (monitored g)). prev ! nat c = ?p ! nat c)"
  have "\<exists>t. for_loop 0 ?N (weigh_core shm g) ([], 0, ?p) = Some t \<and> ?P (0 + ?N) t"
  proof (rule for_loop_total)
    show "?P 0 ([], 0, ?p)" using len by simp
    fix i x
    assume i: "i < 0 + ?N" and P: "?P i x"
    obtain cs k prev where x: "x = (cs, k, prev)" by (cases x)
    let ?c = "monitored g ! i"
    have c: "arr_get (g_cpuList g) (int i) = Some ?c" "core_ok ?c" "i < length (monitored g)"
      using monitored_nth[OF cpus, of i] i by auto
    have tk: "take (Suc i) (monitored g) = take i (monitored g) @ [?c]"
      "drop i (monitored g) = ?c # drop (Suc i) (monitored g)"
      using c(3) by (simp_all add: take_Suc_conv_app_nth Cons_nth_drop_Suc)
    have cc: "0 \<le> ?c" "?c < 64" using c(2) by (auto simp: core_ok_def)
    have fresh: "nat c \<noteq> nat ?c" if "c \<in> set (take i (monitored g)) \<union> set (drop (Suc i) (monitored g))" for c
    proof -
      have "distinct (take i (monitored g) @ ?c # drop (Suc i) (monitored g))"
        using n(3) c(3) by (simp add: id_take_nth_drop[symmetric])
      then have "c \<noteq> ?c" using that by auto
      moreover have "c \<in> set (monitored g)" using that by (auto dest: in_set_takeD in_set_dropD)
      ultimately show ?thesis using cpus cc by (auto simp: cpus_ok_def core_ok_def)
    qed
    have w: "is_curr_irq_times shm ! nat ?c - prev ! nat ?c = irq_weight shm g ?c"
      using P x tk(2) by (simp add: irq_weight_def)
    have kk: "in_int (k + 1)" "i < 64" using P x i n(2) by (auto simp: in_int_def)
    let ?k = "if 0 < irq_weight shm g ?c then k + 1 else k"
    have "weigh_core shm g i x = Some (cs @ [weighed shm g ?c], ?k,
        prev[nat ?c := is_curr_irq_times shm ! nat ?c])"
      using x c cc w kk len P
      by (auto simp: weigh_core_def arr_get_def arr_set_def weighed_def c_add_bind)
    moreover have "\<forall>c \<in> set (take (Suc i) (monitored g)). prev[nat ?c := is_curr_irq_times shm ! nat ?c] ! nat c
        = is_curr_irq_times shm ! nat c"
    proof
      fix c assume "c \<in> set (take (Suc i) (monitored g))"
      then consider "c = ?c" | "c \<in> set (take i (monitored g))" using tk(1) by auto
      then show "prev[nat ?c := is_curr_irq_times shm ! nat ?c] ! nat c = is_curr_irq_times shm ! nat c"
        using P x cc fresh[of c] by cases simp_all
    qed
    moreover have "\<forall>c \<in> set (drop (Suc i) (monitored g)).
        prev[nat ?c := is_curr_irq_times shm ! nat ?c] ! nat c = ?p ! nat c"
    proof
      fix c assume c: "c \<in> set (drop (Suc i) (monitored g))"
      then have "nat ?c \<noteq> nat c" using fresh[of c] by simp
      then show "prev[nat ?c := is_curr_irq_times shm ! nat ?c] ! nat c = ?p ! nat c"
        using P x c tk(2) by simp
    qed
    moreover have "?k = 0 \<longleftrightarrow> (\<forall>c \<in> set (take (Suc i) (monitored g)). irq_weight shm g c = 0)"
      using P x by (auto simp: tk(1) word_gt_0)
    ultimately have "weigh_core shm g i x = Some (cs @ [weighed shm g ?c], ?k,
        prev[nat ?c := is_curr_irq_times shm ! nat ?c])"
      "?P (Suc i) (cs @ [weighed shm g ?c], ?k, prev[nat ?c := is_curr_irq_times shm ! nat ?c])"
      using P x tk(1) by auto
    then show "\<exists>y. weigh_core shm g i x = Some y \<and> ?P (Suc i) y" by blast
  qed
  then show ?thesis using n by auto
qed

lemma compare_small:
  assumes "irq_ok shm g" "a \<in> set (map (weighed shm g) (monitored g))"
    "b \<in> set (map (weighed shm g) (monitored g))"
  shows "cmpweights (ir_harvest_core_weights (g_irq g)) a b =
      Some (uint (hc_curr_weight a) - uint (hc_curr_weight b))"
    "compare_cores g a b = uint (hc_curr_weight a) - uint (hc_curr_weight b)"
proof -
  have w: "uint (hc_curr_weight a) < 2 ^ 31" "uint (hc_curr_weight b) < 2 ^ 31"
    and c: "core_ok (hc_cpuid a)" "core_ok (hc_cpuid b)"
    using assms by (auto simp: irq_ok_def weighed_def cpus_ok_def)
  show "cmpweights (ir_harvest_core_weights (g_irq g)) a b =
      Some (uint (hc_curr_weight a) - uint (hc_curr_weight b))"
    using assms(1) c u64_to_int_diff[OF w]
    by (auto simp: cmpweights_def irq_ok_def arr_get_def core_ok_def u64_to_int_def)
  then show "compare_cores g a b = uint (hc_curr_weight a) - uint (hc_curr_weight b)"
    by (simp add: compare_cores_def)
qed

lemma first_difference_neq: "length as = length bs \<Longrightarrow> first_difference as bs \<longleftrightarrow> as \<noteq> bs"
  by (induction as bs rule: first_difference.induct) auto

text \<open>The order the comparison establishes, and when it replaces the old one.\<close>

definition weight_order :: "c_sort \<Rightarrow> idleStats \<Rightarrow> balancer \<Rightarrow> int list" where
  "weight_order qsort shm g = map hc_cpuid (qsort (compare_cores g) (map (weighed shm g) (monitored g)))"

definition order_changes :: "c_sort \<Rightarrow> idleStats \<Rightarrow> balancer \<Rightarrow> bool" where
  "order_changes qsort shm g \<longleftrightarrow> (\<exists>c \<in> set (monitored g). irq_weight shm g c \<noteq> 0) \<and>
     last (weight_order qsort shm g) \<noteq> ir_harvestCores (g_irq g) ! (length (monitored g) - 1)"

lemma weight_order_sorted:
  assumes "irq_ok shm g" "qsort_ok qsort"
  shows "mset (weight_order qsort shm g) = mset (monitored g)"
    "sorted (map (\<lambda>c. uint (irq_weight shm g c)) (weight_order qsort shm g))"
proof -
  let ?cs = "map (weighed shm g) (monitored g)" and ?sorted = "qsort (compare_cores g) (map (weighed shm g) (monitored g))"
  have perm: "mset ?sorted = mset ?cs" using assms(2) by (simp add: qsort_ok_def)
  then have "mset (map hc_cpuid ?sorted) = mset (map hc_cpuid ?cs)" by (metis mset_map)
  then show "mset (weight_order qsort shm g) = mset (monitored g)" by (simp add: weight_order_def weighed_def o_def)
  have "sorted (map (\<lambda>a. uint (hc_curr_weight a)) ?sorted)"
    using assms(2) compare_small(2)[OF assms(1)] unfolding qsort_ok_def by simp
  moreover have "hc_curr_weight a = irq_weight shm g (hc_cpuid a)" if "a \<in> set ?sorted" for a
    using that mset_eq_setD[OF perm] by (auto simp: weighed_def)
  then have "map (\<lambda>a. uint (hc_curr_weight a)) ?sorted = map (\<lambda>c. uint (irq_weight shm g c)) (map hc_cpuid ?sorted)"
    by simp
  ultimately show "sorted (map (\<lambda>c. uint (irq_weight shm g c)) (weight_order qsort shm g))"
    by (simp add: weight_order_def)
qed

text \<open>The last entries of the two orders decide: when they differ, so do the orders.\<close>

lemma last_entries:
  assumes "length order = n" "length old = 64" "0 < n" "n \<le> 64"
  shows "arr_get order (int n - 1) = Some (last order)" "arr_get old (int n - 1) = Some (old ! (n - 1))"
    "last order \<noteq> old ! (n - 1) \<Longrightarrow> first_difference order (take n old)"
proof -
  have "order \<noteq> []" using assms(1,3) by auto
  then have nth: "last order = order ! (n - 1)" unfolding assms(1)[symmetric] by (rule last_conv_nth)
  have n: "int n - 1 = int (n - 1)" using assms(3) by linarith
  show "arr_get order (int n - 1) = Some (last order)" unfolding n nth by (rule arr_get_int) (use assms in linarith)
  show "arr_get old (int n - 1) = Some (old ! (n - 1))" unfolding n by (rule arr_get_int) (use assms in linarith)
  assume "last order \<noteq> old ! (n - 1)"
  moreover have "take n old ! (n - 1) = old ! (n - 1)" using assms(3) by simp
  ultimately have "order \<noteq> take n old" using nth by metis
  then show "first_difference order (take n old)" using assms by (simp add: first_difference_neq)
qed

lemma getInterruptWeights_outcome:
  assumes "irq_ok shm g" "qsort_ok qsort"
  shows "\<exists>prev. (\<forall>c \<in> set (monitored g). prev ! nat c = is_curr_irq_times shm ! nat c) \<and>
    getInterruptWeights qsort shm g = Some (if order_changes qsort shm g
      then (1, g\<lparr>g_irq := (g_irq g)\<lparr>ir_prev_irq_times := prev, ir_harvestCores :=
        weight_order qsort shm g @ drop (length (monitored g)) (ir_harvestCores (g_irq g))\<rparr>\<rparr>)
      else (0, g\<lparr>g_irq := (g_irq g)\<lparr>ir_prev_irq_times := prev\<rparr>\<rparr>))"
proof -
  let ?cs = "map (weighed shm g) (monitored g)" and ?old = "ir_harvestCores (g_irq g)"
  let ?N = "nat (g_NUMCPUS g)" and ?order = "weight_order qsort shm g"
  obtain k prev where loop: "for_loop 0 ?N (weigh_core shm g) ([], 0, ir_prev_irq_times (g_irq g)) =
      Some (?cs, k, prev)" and k: "k = 0 \<longleftrightarrow> (\<forall>c \<in> set (monitored g). irq_weight shm g c = 0)"
    and prev: "\<forall>c \<in> set (monitored g). prev ! nat c = is_curr_irq_times shm ! nat c"
    using weigh_all[OF assms(1)] by blast
  have cpus: "cpus_ok g" and old: "length ?old = 64" using assms(1) by (auto simp: irq_ok_def)
  have n: "length (monitored g) = ?N" "0 < ?N" "?N \<le> 64" "int ?N = g_NUMCPUS g"
    using length_monitored[OF cpus] cpus by (auto simp: cpus_ok_def)
  have lo: "length ?order = ?N" using weight_order_sorted(1)[OF assms] n(1) by (metis size_mset)
  let ?g = "g\<lparr>g_irq := (g_irq g)\<lparr>ir_prev_irq_times := prev\<rparr>\<rparr>"
  have cmp: "compare_cores ?g = compare_cores g" by (simp add: compare_cores_def fun_eq_iff)
  have defd: "\<not> (\<exists>a \<in> set ?cs. \<exists>b \<in> set ?cs. cmpweights (ir_harvest_core_weights (g_irq g)) a b = None)"
    using compare_small(1)[OF assms(1)] by (metis option.distinct(1))
  note last = last_entries[OF lo old n(2,3), unfolded n(4)]
  have "getInterruptWeights qsort shm g =
    (if k = 0 then Some (0, ?g) else if last ?order = ?old ! (?N - 1) then Some (0, ?g)
     else Some (1, ?g\<lparr>g_irq := (g_irq ?g)\<lparr>ir_harvestCores := ?order @ drop ?N ?old\<rparr>\<rparr>))"
    unfolding getInterruptWeights_def loop Let_def bind.simps prod.case cmp weight_order_def[symmetric]
    using defd last lo by simp fastforce
  then show ?thesis using prev k n(1) by (intro exI[of _ prev]) (auto simp: order_changes_def)
qed

text \<open>
  \<open>getInterruptWeights\<close>, while the weights of a sample stay below \<open>2^31\<close>: it never fails; it
  remembers the current interrupt times; it returns 1 exactly when some weight is nonzero and
  the busiest core changed, and then the new harvest order is a permutation of the
  monitored cores, sorted by weight; otherwise the order is left alone.
\<close>

lemma interrupt_order:
  assumes "irq_ok shm g" "qsort_ok qsort"
  shows "\<exists>r g' order. getInterruptWeights qsort shm g = Some (r, g') \<and>
    mset order = mset (monitored g) \<and> sorted (map (\<lambda>c. uint (irq_weight shm g c)) order) \<and>
    (\<forall>c \<in> set (monitored g). ir_prev_irq_times (g_irq g') ! nat c = is_curr_irq_times shm ! nat c) \<and>
    (let n = length (monitored g); old = ir_harvestCores (g_irq g);
         changed = ((\<exists>c \<in> set (monitored g). irq_weight shm g c \<noteq> 0) \<and> last order \<noteq> old ! (n - 1))
     in r = (if changed then 1 else 0) \<and>
        ir_harvestCores (g_irq g') = (if changed then order @ drop n old else old))"
proof -
  obtain prev where prev: "\<forall>c \<in> set (monitored g). prev ! nat c = is_curr_irq_times shm ! nat c"
    and res: "getInterruptWeights qsort shm g = Some (if order_changes qsort shm g
      then (1, g\<lparr>g_irq := (g_irq g)\<lparr>ir_prev_irq_times := prev, ir_harvestCores :=
        weight_order qsort shm g @ drop (length (monitored g)) (ir_harvestCores (g_irq g))\<rparr>\<rparr>)
      else (0, g\<lparr>g_irq := (g_irq g)\<lparr>ir_prev_irq_times := prev\<rparr>\<rparr>))"
    using getInterruptWeights_outcome[OF assms] by blast
  show ?thesis
    unfolding res Let_def using prev weight_order_sorted[OF assms]
    by (cases "order_changes qsort shm g"; simp; intro exI[of _ "weight_order qsort shm g"])
      (simp_all add: order_changes_def)
qed

definition sample_irq :: "idleStats \<times> balancer" where
  "sample_irq = (sample_shm\<lparr>is_curr_irq_times := [30, 10, 20] @ replicate 61 0\<rparr>,
     sample_globals\<lparr>g_NUMCPUS := 3,
       g_irq := (g_irq zero_globals)\<lparr>ir_harvestCores := [0, 1, 2] @ replicate 61 0\<rparr>\<rparr>)"

lemma sample_irq_ok: "irq_ok (fst sample_irq) (snd sample_irq)"
proof -
  have "shm_shape (fst sample_irq)"
    using sample_system_ok by (simp add: sample_irq_def system_ok_def shm_shape_def)
  then show ?thesis
    by (simp add: irq_ok_def sample_irq_def cpus_ok_def bal_shape_def monitored_def sample_globals_def
        zero_globals_def MAX_CONTAINERS_def core_ok_def irq_weight_def)
qed

lemma interrupt_order_witness:
  "\<exists>g' order. getInterruptWeights insertion_sort (fst sample_irq) (snd sample_irq) = Some (1, g') \<and>
     mset order = {#0, 1, 2 :: int#} \<and> last order = 0"
proof -
  have m: "monitored (snd sample_irq) = [0, 1, 2]"
    by (simp add: monitored_def sample_irq_def sample_globals_def)
  have w: "irq_weight (fst sample_irq) (snd sample_irq) 0 = 30" "irq_weight (fst sample_irq) (snd sample_irq) 1 = 10"
    "irq_weight (fst sample_irq) (snd sample_irq) 2 = 20"
    by (simp_all add: irq_weight_def sample_irq_def zero_globals_def)
  have old: "ir_harvestCores (g_irq (snd sample_irq)) ! Suc (Suc 0) = 2" by (simp add: sample_irq_def)
  obtain r g' order where r: "getInterruptWeights insertion_sort (fst sample_irq) (snd sample_irq) = Some (r, g')"
    "mset order = mset [0, 1, 2]"
    "sorted (map (\<lambda>c. uint (irq_weight (fst sample_irq) (snd sample_irq) c)) order)"
    "r = (if last order \<noteq> 2 then 1 else 0)"
    using interrupt_order[OF sample_irq_ok insertion_sort_qsort_ok] m w old
    by (auto simp: Let_def)
  have "set order = {0, 1, 2}" using mset_eq_setD[OF r(2)] by simp
  moreover have "length order = 3" using r(2) by (metis size_mset length_Cons list.size(3) numeral_3_eq_3)
  ultimately obtain a b c where abc: "order = [a, b, c]" "{a, b, c} = {0, 1, 2}"
    by (auto simp: length_Suc_conv numeral_3_eq_3)
  have "distinct order" using mset_eq_imp_distinct_iff[OF r(2)] by simp
  moreover have "a \<in> {0, 1, 2}" "b \<in> {0, 1, 2}" "c \<in> {0, 1, 2}" using abc(2) by blast+
  ultimately have "c = 0" using r(3) w abc(1) by auto
  then have l: "last order = 0" using abc(1) by simp
  have "mset order = {#0, 1, 2#}" using r(2) by simp
  moreover have "r = 1" using r(4) l by simp
  ultimately show ?thesis using r(1) l by blast
qed

text \<open>
  Above that bound the comparison is wrong: a core whose sample is heavier by exactly
  \<open>2^31\<close> compares as lighter, and by \<open>2^32\<close> as equal, because the difference is cut to 32 bits.
\<close>

lemma cmpweights_truncates:
  assumes "w < 2 ^ 31"
  shows "\<exists>r. cmpweights hw \<lparr>hc_cpuid = a, hc_curr_weight = w + 0x80000000\<rparr> \<lparr>hc_cpuid = b, hc_curr_weight = w\<rparr>
      = Some r \<and> r < 0 \<and>
    cmpweights hw \<lparr>hc_cpuid = a, hc_curr_weight = w + 0x100000000\<rparr> \<lparr>hc_cpuid = b, hc_curr_weight = w\<rparr>
      = Some 0"
  by (simp add: cmpweights_def u64_to_int_def)

lemma cmpweights_truncates_witness:
  "\<exists>r. cmpweights (replicate 64 0) \<lparr>hc_cpuid = 1, hc_curr_weight = 0x80000005\<rparr>
     \<lparr>hc_cpuid = 2, hc_curr_weight = 5\<rparr> = Some r \<and> r < 0"
  using cmpweights_truncates[of 5 "replicate 64 0" 1 2] by auto

subsection \<open>Task directories\<close>

text \<open>The parameters are the results of \<open>malloc\<close> and \<open>opendir\<close>; a directory is the list of the names
  that \<open>readdir\<close> still returns.\<close>

definition proc_open_tasks :: "bool \<Rightarrow> (string \<Rightarrow> string list option) \<Rightarrow> int \<Rightarrow> string list option" where
  "proc_open_tasks malloc_ok opendir pid =
     (if malloc_ok then opendir (''/proc/'' @ show_int pid @ ''/task/'') else None)"

text \<open>The file names a client holds open: closing gives one back, and a null argument is allowed.\<close>

definition proc_close_tasks :: "nat \<Rightarrow> string list option \<Rightarrow> nat" where
  "proc_close_tasks open_dirs tasks = (case tasks of None \<Rightarrow> open_dirs | Some _ \<Rightarrow> open_dirs - 1)"

definition EINVAL :: int where
  "EINVAL = 22"

text \<open>A \<open>long\<close> stored in a \<open>pid_t\<close> keeps its low 32 bits.\<close>

definition to_pid :: "int \<Rightarrow> int" where
  "to_pid v = sint (word_of_int v :: u32)"

text \<open>The \<open>do ... while (!*tid)\<close> loop; the result is the return value, \<open>*tid\<close>, and what is left of
  the directory.  \<open>err\<close> is the \<open>errno\<close> that \<open>readdir\<close> leaves at the end of the directory.\<close>

fun next_tid_loop :: "int \<Rightarrow> string list \<Rightarrow> int \<times> int \<times> string list" where
  "next_tid_loop err [] = (if err \<noteq> 0 then -1 else 1, 0, [])"
| "next_tid_loop err (d # ds) =
     (if d = [] \<or> \<not> c_isdigit (hd d) then next_tid_loop err ds
      else let (v, range, rest) = strtol d
      in if range \<or> rest = d \<or> rest \<noteq> [] then (-1, to_pid v, ds)
         else if to_pid v = 0 then next_tid_loop err ds
         else (0, to_pid v, ds))"

definition proc_next_tid ::
  "int \<Rightarrow> string list option \<Rightarrow> bool \<Rightarrow> int \<times> int option \<times> string list option" where
  "proc_next_tid err tasks has_tid = (case tasks of None \<Rightarrow> (- EINVAL, None, None)
     | Some ds \<Rightarrow> if \<not> has_tid then (- EINVAL, None, Some ds)
         else case next_tid_loop err ds of (r, t, rest) \<Rightarrow> (r, Some t, Some rest))"

lemma next_tid_shorter: "next_tid_loop err ds = (0, t, rest) \<Longrightarrow> length rest < length ds"
proof (induction err ds rule: next_tid_loop.induct)
  case (2 err d ds)
  then show ?case by (fastforce split: if_splits prod.splits)
qed (simp split: if_splits)

text \<open>The calls of a client until the first nonzero result: the thread ids, and that result.\<close>

function all_tids :: "int \<Rightarrow> string list \<Rightarrow> int list \<times> int" where
  "all_tids err ds = (case next_tid_loop err ds of (r, t, rest) \<Rightarrow>
     if r = 0 then (let (ts, r') = all_tids err rest in (t # ts, r')) else ([], r))"
  by pat_completeness auto

termination
  by (relation "measure (\<lambda>(err, ds). length ds)") (auto dest: next_tid_shorter[OF sym])

declare all_tids.simps [simp del]

lemma strtol_show:
  assumes "0 \<le> v" "v < 2 ^ 31"
  shows "strtol (show_int v) = (v, False, [])"
  using read_signed_show[of "[]" v] assms by (simp add: strtol_def)

lemma to_pid_small: "0 \<le> v \<Longrightarrow> v < 2 ^ 31 \<Longrightarrow> to_pid v = v"
  by (simp add: to_pid_def sint_sbintrunc' signed_take_bit_int_eq_self)

lemma show_int_first: "0 \<le> v \<Longrightarrow> show_int v \<noteq> [] \<and> c_isdigit (hd (show_int v))"
  using show_nat_digits[of "nat v"] show_nat_ne[of "nat v"] by (auto simp: show_int_def)

text \<open>A directory of a process: the numeric names among others, such as the two dot entries.\<close>

definition is_tid_name :: "string \<Rightarrow> bool" where
  "is_tid_name d \<longleftrightarrow> d \<noteq> [] \<and> c_isdigit (hd d)"

definition task_dir :: "string list \<Rightarrow> int list \<Rightarrow> bool" where
  "task_dir ds pids \<longleftrightarrow> filter is_tid_name ds = map show_int pids \<and> (\<forall>p \<in> set pids. 0 < p \<and> p < 2 ^ 31)"

lemma all_tids_skip: "\<not> is_tid_name d \<Longrightarrow> all_tids err (d # ds) = all_tids err ds"
  by (subst (1 2) all_tids.simps) (simp add: is_tid_name_def)

lemma all_tids_show:
  assumes "0 < p" "p < 2 ^ 31"
  shows "all_tids err (show_int p # ds) = (let (ts, r) = all_tids err ds in (p # ts, r))"
proof -
  have "next_tid_loop err (show_int p # ds) = (0, p, ds)"
    using assms strtol_show[of p] to_pid_small[of p] show_int_first[of p] by auto
  then show ?thesis by (subst all_tids.simps) simp
qed

text \<open>
  Calling \<open>proc_next_tid\<close> until it returns a nonzero value enumerates exactly the thread ids of
  the directory, in order, skipping every other name, and ends with 1 when \<open>readdir\<close> reports
  no error.
\<close>

lemma tids_enumerated:
  assumes "task_dir ds pids"
  shows "all_tids 0 ds = (pids, 1)"
  using assms
proof (induction ds arbitrary: pids)
  case Nil
  then show ?case by (simp add: task_dir_def all_tids.simps)
next
  case (Cons d ds)
  show ?case
  proof (cases "is_tid_name d")
    case False
    then show ?thesis using Cons by (simp add: task_dir_def all_tids_skip)
  next
    case True
    then obtain p ps where p: "pids = p # ps" "d = show_int p" "task_dir ds ps" "0 < p" "p < 2 ^ 31"
      using Cons.prems by (cases pids) (auto simp: task_dir_def)
    then show ?thesis using Cons.IH[OF p(3)] all_tids_show[OF p(4,5)] by simp
  qed
qed

lemma tids_enumerated_witness:
  "all_tids 0 [''.'', ''..'', show_int 812, show_int 815] = ([812, 815], 1)"
proof -
  have "is_tid_name (show_int 812)" "is_tid_name (show_int 815)"
    using show_int_first[of 812] show_int_first[of 815] by (simp_all add: is_tid_name_def)
  moreover have "\<not> is_tid_name ''.''" "\<not> is_tid_name ''..''"
    by (simp_all add: is_tid_name_def c_isdigit_def)
  ultimately show ?thesis by (intro tids_enumerated) (simp add: task_dir_def)
qed

end
