(* ===== verification/LogFacts.thy ===== *)
theory LogFacts imports Controller begin

section \<open>What the logs and the layout guarantee (logger.c, shmem.h)\<close>

text \<open>
  The properties of the event logs, the printed masks, the utilisation of the cores, the
  statistics file, the elapsed time and the layout of the shared segment.
\<close>

subsection \<open>The whole of \<open>writeLog\<close>\<close>

lemma write_events_defined:
  assumes ok: "cpus_ok g" and full: "block_full (lg_events (g_logs g)) n"
  shows "\<exists>rows ws. for_loop 0 n (write_event g) ([], zero_stats) = Some (rows, ws) \<and> length rows = n \<and>
    ws = fold stats_step (block_entries (lg_events (g_logs g)) n) zero_stats"
proof -
  have "\<exists>t. for_loop 0 n (write_event g) ([], zero_stats) = Some t \<and>
      (\<lambda>i (rows, ws). length rows = i) (0 + n) t"
  proof (rule for_loop_total)
    fix i and x :: "event_row list \<times> log_stats"
    assume i: "i < 0 + n" and P: "case x of (rows, ws) \<Rightarrow> length rows = i"
    obtain v where v: "block_get (lg_events (g_logs g)) i = Some v"
      using full i by (auto simp: block_full_def)
    show "\<exists>y. write_event g i x = Some y \<and> (case y of (rows, ws) \<Rightarrow> length rows = Suc i)"
      using P by (cases x) (simp add: write_event_def v getHumanIdleMask_eq[OF ok])
  qed simp
  then obtain rows ws where r: "for_loop 0 n (write_event g) ([], zero_stats) = Some (rows, ws)"
    "length rows = n" by auto
  then show ?thesis using write_events_stats[OF r(1)] by blast
qed

lemma write_dynamics_defined:
  assumes "block_full (lg_dynamicEvents (g_logs g)) n"
  shows "for_loop 0 n (write_dynamic g) [] = Some (block_entries (lg_dynamicEvents (g_logs g)) n)"
proof -
  have "\<exists>t. for_loop 0 n (write_dynamic g) [] = Some t \<and>
      (\<lambda>i rows. rows = block_entries (lg_dynamicEvents (g_logs g)) i) (0 + n) t"
  proof (rule for_loop_total)
    fix i x
    assume i: "i < 0 + n" and P: "x = block_entries (lg_dynamicEvents (g_logs g)) i"
    obtain v where v: "block_get (lg_dynamicEvents (g_logs g)) i = Some v"
      using assms i by (auto simp: block_full_def)
    show "\<exists>y. write_dynamic g i x = Some y \<and> y = block_entries (lg_dynamicEvents (g_logs g)) (Suc i)"
      using P by (simp add: write_dynamic_def v block_entries_def)
  qed (simp add: block_entries_def)
  then show ?thesis by simp
qed

text \<open>Logs whose written entries are all there, with at least one event and one mask change.\<close>

definition logs_complete :: "logs \<Rightarrow> bool" where
  "logs_complete l \<longleftrightarrow> lg_eventCount l \<noteq> 0 \<and> lg_idleMaskChangeCount l \<noteq> 0 \<and>
     block_full (lg_events l) (unat (lg_eventCount l)) \<and>
     block_full (lg_idleMaskChanges l) (unat (lg_idleMaskChangeCount l)) \<and>
     block_full (lg_dynamicEvents l) (unat (lg_dynamicEventCount l))"

definition logged_events :: "balancer \<Rightarrow> logentry list" where
  "logged_events g = block_entries (lg_events (g_logs g)) (unat (lg_eventCount (g_logs g)))"

lemma zero_stats_fields:
  "ws_minServiceTime zero_stats = 0" "ws_maxServiceTime zero_stats = 0"
  "ws_totalProcessingTime zero_stats = 0"
  by (simp_all add: zero_stats_def)

text \<open>
  C15. \<open>writeLog\<close> writes every log on complete logs when every file opens: one row per event; the
  longest service time and the total are those of the events, the average is their
  quotient; the dynamic rows are the dynamic entries.  The shortest service time is reported
  as 0 whatever the events are, because the running minimum starts at 0.
\<close>

theorem writeLog_statistics:
  assumes "cpus_ok g" "logs_complete (g_logs g)" "\<forall>f. fopen f"
  shows "\<exists>rows ws ex dyn. writeLog fopen g = Some (LogsWritten rows ws ex dyn) \<and>
    length rows = length (logged_events g) \<and>
    ws_maxServiceTime ws = fold (\<lambda>v m. max m (event_elapsed v)) (logged_events g) 0 \<and>
    ws_totalProcessingTime ws = sum_list (map event_elapsed (logged_events g)) \<and>
    ws_avgServiceTime ws = ws_totalProcessingTime ws div ucast (lg_eventCount (g_logs g)) \<and>
    ws_minServiceTime ws = 0 \<and>
    dyn = block_entries (lg_dynamicEvents (g_logs g)) (unat (lg_dynamicEventCount (g_logs g)))"
proof -
  let ?n = "unat (lg_eventCount (g_logs g))"
  obtain rows ws where w: "for_loop 0 ?n (write_event g) ([], zero_stats) = Some (rows, ws)"
    "length rows = ?n" "ws = fold stats_step (logged_events g) zero_stats"
    using write_events_defined[OF assms(1), of ?n] assms(2)
    unfolding logs_complete_def logged_events_def by blast
  obtain ex where ex: "calculateExecTime g = Some ex"
    using calculateExecTime_ok[OF assms(1)] assms(2) by (auto simp: logs_complete_def)
  have dyn: "for_loop 0 (unat (lg_dynamicEventCount (g_logs g))) (write_dynamic g) [] =
      Some (block_entries (lg_dynamicEvents (g_logs g)) (unat (lg_dynamicEventCount (g_logs g))))"
    using assms(2) by (intro write_dynamics_defined) (simp add: logs_complete_def)
  have last: "arr_get (g_cpuList g) (g_NUMCPUS g - 1) = Some (last (monitored g))"
    "\<not> 1 + last (monitored g) + 1 \<le> 0"
    using last_cpu[OF assms(1)] by (auto simp: core_ok_def)
  have files: "fopen f" for f using assms(3) by simp
  have cnt: "lg_eventCount (g_logs g) \<noteq> 0" using assms(2) by (simp add: logs_complete_def)
  have len: "length (logged_events g) = ?n" by (simp add: logged_events_def block_entries_def)
  show ?thesis
    using w ex dyn last files cnt len
    by (cases ex) (simp add: writeLog_def fold_stats_min fold_stats_max fold_stats_total zero_stats_fields)
qed

subsection \<open>Sample logs\<close>

definition sample_event :: logentry where
  "sample_event = event_entry (at_time 100, at_time 350, 1, 1, 0x23, 5, 0xCC, 4)"

definition sample_logs :: logs where
  "sample_logs = zero_logs\<lparr>lg_loggingEnabled := 1, lg_eventCount := 1, lg_idleMaskChangeCount := 2,
     lg_events := Some [0 \<mapsto> sample_event],
     lg_idleMaskChanges := Some [0 \<mapsto> change_entry (at_time 100, 0, 0x23),
                                 Suc 0 \<mapsto> change_entry (at_time 900, 0x23, 0x0F)],
     lg_dynamicEvents := Some Map.empty\<rparr>"

definition sample_logged :: balancer where
  "sample_logged = sample_globals\<lparr>g_logs := sample_logs\<rparr>"

lemma sample_cpus_ok: "cpus_ok sample_logged"
  by (simp add: cpus_ok_def bal_shape_def monitored_def sample_logged_def sample_globals_def
      MAX_CONTAINERS_def core_ok_def)

lemma sample_logs_complete: "logs_complete sample_logs"
proof -
  have "unat (lg_idleMaskChangeCount sample_logs) = Suc (Suc 0)"
    "unat (lg_eventCount sample_logs) = Suc 0" "unat (lg_dynamicEventCount sample_logs) = 0"
    by (simp_all add: sample_logs_def zero_logs_def)
  then show ?thesis
    by (simp add: logs_complete_def block_full_def MAX_EVENTS_def less_Suc_eq)
      (simp add: sample_logs_def block_get_def)
qed

theorem writeLog_statistics_witness:
  "\<exists>rows ws ex dyn. writeLog (\<lambda>_. True) sample_logged = Some (LogsWritten rows ws ex dyn) \<and>
     length rows = 1 \<and> ws_maxServiceTime ws = 250 \<and> ws_minServiceTime ws = 0"
proof -
  have c: "logs_complete (g_logs sample_logged)" by (simp add: sample_logged_def sample_logs_complete)
  have "logged_events sample_logged = [sample_event]"
    by (simp add: logged_events_def block_entries_def sample_logged_def sample_logs_def block_get_def)
  moreover have "event_elapsed sample_event = 250"
    by (simp add: event_elapsed_def sample_event_def event_entry_def at_time_def)
  ultimately show ?thesis
    using writeLog_statistics[OF sample_cpus_ok c, of "\<lambda>_. True"] by auto
qed

text \<open>
  \<open>calculateExecTime\<close> conserves time: for every monitored core, idle plus active time is the
  total, and the total is the time between the first and the last change of the mask.
\<close>

lemma exec_time_conserved:
  assumes "cpus_ok g" "logs_complete (g_logs g)"
  shows "\<exists>rows tot util. calculateExecTime g = Some (rows, tot, util) \<and>
    tot = change_elapsed (the_change g 0)
      (the_change g (unat (lg_idleMaskChangeCount (g_logs g)) - 1)) \<and>
    (\<forall>cpu \<in> set (monitored g). et_idle (util ! nat cpu) + et_active (util ! nat cpu) = tot)"
  using calculateExecTime_ok[OF assms(1)] assms(2) by (auto simp: logs_complete_def)

lemma exec_time_conserved_witness:
  "\<exists>rows util. calculateExecTime sample_logged = Some (rows, 800, util) \<and>
     et_idle (util ! 3) + et_active (util ! 3) = 800"
proof -
  have c: "logs_complete (g_logs sample_logged)" by (simp add: sample_logged_def sample_logs_complete)
  have "the_change sample_logged 0 = change_entry (at_time 100, 0, 0x23)"
    "the_change sample_logged (unat (lg_idleMaskChangeCount (g_logs sample_logged)) - 1) =
       change_entry (at_time 900, 0x23, 0x0F)"
    by (simp_all add: the_change_def sample_logged_def sample_logs_def block_get_def)
  moreover have "change_elapsed (change_entry (at_time 100, 0, 0x23)) (change_entry (at_time 900, 0x23, 0x0F)) = 800"
    by (simp add: change_elapsed_def change_entry_def at_time_def)
  moreover have "3 \<in> set (monitored sample_logged)"
    by (simp add: monitored_def sample_logged_def sample_globals_def)
  ultimately show ?thesis using exec_time_conserved[OF sample_cpus_ok c] by fastforce
qed

text \<open>
  The event log is a bounded list: while there is room, a sequence of appends is defined and
  the entries of the block become the old ones followed by the new ones, in order.
\<close>

lemma event_log_appends:
  assumes "lg_loggingEnabled l \<noteq> 0" "block_full (lg_events l) (unat (lg_eventCount l))"
    and "unat (lg_eventCount l) + length xs \<le> MAX_EVENTS"
  shows "\<exists>l'. run_all event_append xs l = Some l' \<and>
    block_entries (lg_events l') (unat (lg_eventCount l')) =
      block_entries (lg_events l) (unat (lg_eventCount l)) @ map event_entry xs"
  using ev.app_all_entries[OF assms] by blast

lemma event_log_appends_witness:
  "\<exists>l'. run_all event_append [(at_time 400, at_time 450, 1, 1, 0x23, 5, 0xCC, 4)] sample_logs = Some l' \<and>
     length (block_entries (lg_events l') (unat (lg_eventCount l'))) = 2"
  using event_log_appends[of sample_logs "[(at_time 400, at_time 450, 1, 1, 0x23, 5, 0xCC, 4)]"]
    sample_logs_complete
  by (fastforce simp: logs_complete_def sample_logs_def block_entries_def MAX_EVENTS_def)

text \<open>
  The guard of \<open>addLogEvent\<close> and \<open>logDynamicEvent\<close> lets one append too many through: with
  exactly \<open>MAX_EVENTS\<close> entries the write goes past the end of the block.
\<close>

lemma full_log_overflows:
  assumes "lg_loggingEnabled l \<noteq> 0"
  shows "(unat (lg_eventCount l) = MAX_EVENTS \<longrightarrow> addLogEvent t0 t1 d a m n s c l = None) \<and>
    (unat (lg_dynamicEventCount l) = MAX_EVENTS \<longrightarrow>
       logDynamicEvent t e i p q ts td sw dw k ag f l = None)"
  using assms by (simp add: addLogEvent_at_capacity logDynamicEvent_at_capacity)

lemma full_log_overflows_witness:
  "addLogEvent (at_time 1) (at_time 2) 0 1 0 0 0 0 (sample_logs\<lparr>lg_eventCount := 100000000\<rparr>) = None"
  using full_log_overflows[where l = "sample_logs\<lparr>lg_eventCount := 100000000\<rparr>"]
  by (simp add: MAX_EVENTS_def sample_logs_def)

text \<open>
  The printed mask is a faithful picture of the low bits of the mask, one character for each
  core up to the last one of the list: reading it back gives the mask cut to those bits.
\<close>

lemma printed_mask_roundtrip:
  assumes "cpus_ok g"
  shows "\<exists>s. getHumanIdleMask g m = Some s \<and> length s = nat (last (monitored g) + 1) \<and>
    parse_mask s = take_bit (nat (last (monitored g) + 1)) m"
proof -
  have "length (mask_string k m) = k" for k by (simp add: mask_string_def)
  then show ?thesis using getHumanIdleMask_eq[OF assms, of m] parse_mask_string by blast
qed

lemma printed_mask_roundtrip_witness:
  "\<exists>s. getHumanIdleMask sample_logged 0x123 = Some s \<and> parse_mask s = 0x23"
proof -
  have "last (monitored sample_logged) = 7"
    by (simp add: monitored_def sample_logged_def sample_globals_def)
  moreover have "take_bit 8 (0x123 :: u64) = 0x23" by (simp add: take_bit_eq_mod)
  ultimately show ?thesis using printed_mask_roundtrip[where m = "0x123", OF sample_cpus_ok] by auto
qed

subsection \<open>Elapsed time\<close>

lemma uint_word_small: "0 \<le> x \<Longrightarrow> x < 2 ^ 64 \<Longrightarrow> uint (word_of_int x :: u64) = x"
  by (simp add: uint_word_of_int)

definition nanos :: "timespec \<Rightarrow> int" where
  "nanos t = 1000000000 * tv_sec t + tv_nsec t"

definition normalized :: "timespec \<Rightarrow> bool" where
  "normalized t \<longleftrightarrow> 0 \<le> tv_nsec t \<and> tv_nsec t < 1000000000"

text \<open>
  \<open>getTimeElapsed\<close> is the difference of the two readings in nanoseconds, with no overflow and
  no wrap-around, for readings in order that are less than 146 years apart.
\<close>

lemma elapsed_nanoseconds:
  assumes "normalized t0" "normalized t1" "nanos t0 \<le> nanos t1" "nanos t1 - nanos t0 < 2 ^ 62"
  shows "\<exists>w. getTimeElapsed t0 t1 = Some w \<and> uint w = nanos t1 - nanos t0"
proof -
  let ?ds = "tv_sec t1 - tv_sec t0" and ?dn = "tv_nsec t1 - tv_nsec t0"
  have d: "nanos t1 - nanos t0 = 1000000000 * ?ds + ?dn" by (simp add: nanos_def algebra_simps)
  have "- 1000000000 < ?dn" "?dn < 1000000000" using assms(1,2) by (auto simp: normalized_def)
  then have "in_long ?ds" "in_long (1000000000 * ?ds)" "in_long ?dn"
    "in_long (1000000000 * ?ds + ?dn)"
    using assms(3,4) d by (auto simp: in_long_def)
  moreover have "uint (word_of_int (1000000000 * ?ds + ?dn) :: u64) = 1000000000 * ?ds + ?dn"
    by (rule uint_word_small) (use assms(3,4) d in auto)
  ultimately show ?thesis using d by (simp add: getTimeElapsed_def c_long_def)
qed

lemma elapsed_nanoseconds_witness:
  "\<exists>w. getTimeElapsed (at_time 999999999) \<lparr>tv_sec = 7, tv_nsec = 1\<rparr> = Some w \<and> uint w = 1000000002"
  using elapsed_nanoseconds[of "at_time 999999999" "\<lparr>tv_sec = 7, tv_nsec = 1\<rparr>"]
  by (simp add: normalized_def nanos_def at_time_def)

end
