(* ===== verification/Monitor.thy ===== *)
theory Monitor imports Controller begin

section \<open>The Monitor's kernel thread (monitor.c)\<close>

text \<open>
  The state of the kernel module, the interrupt statistics, the placement of the Secondary's tasks
  (\<open>twopa\<close>) and one iteration of \<open>check_idle_cpus\<close>.  The kernel is a parameter: which cores are
  idle, the interrupt time of a core, the tasks with their core, state and allowed cores, the
  tasks of a container's control group, and the effect of \<open>set_cpus_allowed_ptr\<close> on a task.
\<close>

subsection \<open>State\<close>

record monitor_logentry =
  ml_sec :: u64
  ml_nsec :: u64
  ml_mask :: u64

record monitor =
  mo_NUMCPUS :: int
  mo_NUM_INTERRUPTS :: int
  mo_NUM_INTERRUPT_CPUS :: int
  mo_LOG_LEVEL :: int
  mo_numentries :: int
  mo_entrypos :: int
  mo_events :: "nat \<Rightarrow> monitor_logentry option"
  mo_runnable :: int
  mo_numIdleCpus :: int
  mo_samples :: int
  mo_currMask :: u64
  mo_lastMask :: u64
  mo_rebalancing :: int
  mo_handle_irq :: int
  mo_cpuList :: "int list"
  mo_irqAffinity :: "int list"
  mo_irqList :: "int list"
  mo_procfs_buffer_size :: u64

definition LOGSIZE :: int where
  "LOGSIZE = (1000 * 1000 * 1000) div 100 * 60"

text \<open>The kernel's side of a task, and of the control group of a container's first task.\<close>

record task =
  tk_cpu :: int
  tk_running :: bool
  tk_allowed :: "int set"

record kernel =
  kn_nr_cpus :: int
  kn_task :: "int \<Rightarrow> task option"
  kn_group :: "int \<Rightarrow> int list"
  kn_nr_tasks :: "int \<Rightarrow> int"

definition cpumask_set_cpu :: "int \<Rightarrow> int \<Rightarrow> int set \<Rightarrow> int set option" where
  "cpumask_set_cpu nr_cpus cpu m = (if 0 \<le> cpu \<and> cpu < nr_cpus then Some (insert cpu m) else None)"

text \<open>\<open>for (i = 0; i < n; i++) cpumask_set_cpu(xs[i], mask)\<close>.\<close>

definition add_cpus :: "int \<Rightarrow> int list \<Rightarrow> int \<Rightarrow> int set \<Rightarrow> int set option" where
  "add_cpus nr_cpus xs n = for_loop 0 (nat n)
     (\<lambda>i m. do { c \<leftarrow> arr_get xs (int i); cpumask_set_cpu nr_cpus c m })"

subsection \<open>Interrupts\<close>

text \<open>The result is the sequence of calls of \<open>irq_set_affinity\<close>.\<close>

definition set_irq_affinity ::
  "int \<Rightarrow> int \<Rightarrow> idleStats \<Rightarrow> monitor \<Rightarrow> (int \<times> (int \<times> int set) list) option" where
  "set_irq_affinity nr_cpus num_cpus shm mo = do {
     m \<leftarrow> add_cpus nr_cpus (mo_irqAffinity mo) num_cpus {};
     m \<leftarrow> add_cpus nr_cpus (is_affinity_list shm) (is_num_affinity shm) m;
     calls \<leftarrow> for_loop 0 (nat (mo_NUM_INTERRUPTS mo))
       (\<lambda>i calls. do { irq \<leftarrow> arr_get (mo_irqList mo) (int i); Some (calls @ [(irq, m)]) }) [];
     Some (0, calls) }"

definition NSEC_PER_SEC :: u64 where
  "NSEC_PER_SEC = 1000000000"

definition USER_HZ :: u64 where
  "USER_HZ = 100"

definition hiq_of :: "u64 \<Rightarrow> u64" where
  "hiq_of cputime_irq = (cputime_irq * 9) div ((9 * NSEC_PER_SEC + USER_HZ div 2) div USER_HZ)"

definition irq_time_step :: "(int \<Rightarrow> u64) \<Rightarrow> monitor \<Rightarrow> nat \<Rightarrow> idleStats \<Rightarrow> idleStats option" where
  "irq_time_step cputime_irq mo pos shm = do {
     cpu \<leftarrow> arr_get (mo_cpuList mo) (int pos);
     let hiq = hiq_of (cputime_irq cpu);
     curr \<leftarrow> arr_set (is_curr_irq_times shm) cpu hiq;
     h \<leftarrow> arr_get (is_hist_irq_times shm) cpu;
     hist \<leftarrow> arr_set (is_hist_irq_times shm) cpu (h + hiq);
     Some (shm\<lparr>is_curr_irq_times := curr, is_hist_irq_times := hist\<rparr>) }"

definition get_irq_times :: "(int \<Rightarrow> u64) \<Rightarrow> monitor \<Rightarrow> idleStats \<Rightarrow> idleStats option" where
  "get_irq_times cputime_irq mo shm =
     for_loop 0 (nat (mo_NUMCPUS mo)) (irq_time_step cputime_irq mo) shm"

subsection \<open>The cache of process ids\<close>

text \<open>The walk over the group's tasks, from position \<open>curr_pid\<close>; it stops after 128 of them.\<close>

fun cache_pids :: "int list \<Rightarrow> int \<Rightarrow> ctr_info \<Rightarrow> (int \<times> ctr_info) option" where
  "cache_pids [] curr_pid ctr = Some (0, ctr)"
| "cache_pids (pid # pids) curr_pid ctr = do {
     l \<leftarrow> arr_set (ct_pidList ctr) curr_pid pid;
     let ctr = ctr\<lparr>ct_pidList := l, ct_nr_pids := curr_pid + 1\<rparr>;
     (if 127 < curr_pid + 1 then Some (-1, ctr) else cache_pids pids (curr_pid + 1) ctr) }"

definition update_pid_cache :: "kernel \<Rightarrow> int \<Rightarrow> ctr_info \<Rightarrow> (int \<times> ctr_info) option" where
  "update_pid_cache k init_pid ctr = cache_pids (kn_group k init_pid) 0 ctr"

text \<open>The first loop of \<open>twopa\<close>: a container whose first process is gone advances the counter
  twice, once by hand and once by the loop.\<close>

function refresh_caches :: "kernel \<Rightarrow> int \<Rightarrow> idleStats \<Rightarrow> idleStats option" where
  "refresh_caches k i shm =
     (if is_nr_secondary_ctrs shm \<le> i then Some shm
      else case arr_get (is_secondary_ctrs shm) i of None \<Rightarrow> None
      | Some ctr \<Rightarrow>
          (if kn_task k (ct_parent_pid ctr) = None then refresh_caches k (i + 2) shm
           else if ct_nr_pids ctr \<noteq> kn_nr_tasks k (ct_parent_pid ctr)
           then (case update_pid_cache k (ct_parent_pid ctr) ctr of None \<Rightarrow> None
             | Some (r, ctr') \<Rightarrow> refresh_caches k (i + 1)
                 (shm\<lparr>is_secondary_ctrs := (is_secondary_ctrs shm)[nat i := ctr']\<rparr>))
           else refresh_caches k (i + 1) shm))"
  by pat_completeness auto

termination
  by (relation "measure (\<lambda>(k, i, shm). nat (is_nr_secondary_ctrs shm - i))") auto

declare refresh_caches.simps [simp del]

subsection \<open>Placement\<close>

text \<open>The locals of \<open>twopa\<close>: \<open>has_task\<close>, \<open>num_placements\<close> and \<open>curr_cpu\<close>, with the kernel's tasks.\<close>

record placement =
  pl_has_task :: "bool list"
  pl_num_placements :: int
  pl_curr_cpu :: int
  pl_task :: "int \<Rightarrow> task option"

text \<open>Moving a running task off a core that already has one: which entry of the list it gets.\<close>

definition migrate_task ::
  "(int set \<Rightarrow> task \<Rightarrow> task) \<Rightarrow> kernel \<Rightarrow> idleStats \<Rightarrow> int \<Rightarrow> task \<Rightarrow> placement \<Rightarrow>
   (bool \<times> placement) option" where
  "migrate_task set_allowed k shm pid t p = do {
     a \<leftarrow> arr_get (is_affinity_list shm) (pl_curr_cpu p);
     c \<leftarrow> (if a = tk_cpu t then c_add (pl_curr_cpu p) 1 else Some (pl_curr_cpu p));
     let c = (if c = is_num_affinity shm then 0 else c);
     target \<leftarrow> arr_get (is_affinity_list shm) c;
     m \<leftarrow> cpumask_set_cpu (kn_nr_cpus k) target {};
     has \<leftarrow> arr_set (pl_has_task p) target True;
     n \<leftarrow> c_add (pl_num_placements p) 1;
     let p = p\<lparr>pl_task := (pl_task p)(pid \<mapsto> set_allowed m t), pl_has_task := has,
               pl_num_placements := n, pl_curr_cpu := c\<rparr>;
     (if n = is_num_affinity shm then Some (True, p)
      else do { c' \<leftarrow> c_add c 1; Some (False, p\<lparr>pl_curr_cpu := c'\<rparr>) }) }"

text \<open>Phase 1 for one process: the flag is the \<open>break\<close>.\<close>

definition place_task ::
  "(int set \<Rightarrow> task \<Rightarrow> task) \<Rightarrow> kernel \<Rightarrow> idleStats \<Rightarrow> int \<Rightarrow> placement \<Rightarrow>
   (bool \<times> placement) option" where
  "place_task set_allowed k shm pid p =
     (case pl_task p pid of None \<Rightarrow> Some (False, p)
      | Some t \<Rightarrow>
          if \<not> tk_running t then Some (False, p)
          else do {
            has \<leftarrow> arr_get (pl_has_task p) (tk_cpu t);
            (if \<not> has then do {
               l \<leftarrow> arr_set (pl_has_task p) (tk_cpu t) True;
               n \<leftarrow> c_add (pl_num_placements p) 1;
               Some (False, p\<lparr>pl_has_task := l, pl_num_placements := n\<rparr>) }
             else migrate_task set_allowed k shm pid t p) })"

fun phase1 ::
  "(int set \<Rightarrow> task \<Rightarrow> task) \<Rightarrow> kernel \<Rightarrow> idleStats \<Rightarrow> int list \<Rightarrow> placement \<Rightarrow> placement option" where
  "phase1 set_allowed k shm [] p = Some p"
| "phase1 set_allowed k shm (pid # pids) p =
     (case place_task set_allowed k shm pid p of None \<Rightarrow> None
      | Some (stop, p') \<Rightarrow> if stop then Some p' else phase1 set_allowed k shm pids p')"

text \<open>Phase 2: the dedicated cores and the harvested cores together, for every process.\<close>

definition full_mask :: "kernel \<Rightarrow> idleStats \<Rightarrow> int set option" where
  "full_mask k shm = do {
     m \<leftarrow> add_cpus (kn_nr_cpus k) (is_secondary_cores_list shm) (is_num_secondary_cores shm) {};
     add_cpus (kn_nr_cpus k) (is_affinity_list shm) (is_num_affinity shm) m }"

fun phase2 :: "(int set \<Rightarrow> task \<Rightarrow> task) \<Rightarrow> int set \<Rightarrow> int list \<Rightarrow> (int \<Rightarrow> task option) \<Rightarrow> int \<Rightarrow> task option" where
  "phase2 set_allowed m [] tasks = tasks"
| "phase2 set_allowed m (pid # pids) tasks = phase2 set_allowed m pids
     (case tasks pid of None \<Rightarrow> tasks | Some t \<Rightarrow> tasks(pid \<mapsto> set_allowed m t))"

definition cached_pids :: "ctr_info \<Rightarrow> int list option" where
  "cached_pids ctr = (if int (length (ct_pidList ctr)) < ct_nr_pids ctr then None
     else Some (take (nat (ct_nr_pids ctr)) (ct_pidList ctr)))"

definition place_container ::
  "(int set \<Rightarrow> task \<Rightarrow> task) \<Rightarrow> kernel \<Rightarrow> idleStats \<Rightarrow> nat \<Rightarrow> placement \<Rightarrow> placement option" where
  "place_container set_allowed k shm i p = do {
     ctr \<leftarrow> arr_get (is_secondary_ctrs shm) (int i);
     pids \<leftarrow> cached_pids ctr;
     p \<leftarrow> (if is_needs_rebalance shm = 1 then phase1 set_allowed k shm pids p else Some p);
     m \<leftarrow> full_mask k shm;
     Some (p\<lparr>pl_curr_cpu := max 0 (is_num_affinity shm),
             pl_task := phase2 set_allowed m pids (pl_task p)\<rparr>) }"

definition twopa ::
  "(int set \<Rightarrow> task \<Rightarrow> task) \<Rightarrow> kernel \<Rightarrow> idleStats \<Rightarrow> (kernel \<times> idleStats) option" where
  "twopa set_allowed k shm = do {
     shm \<leftarrow> refresh_caches k 0 shm;
     p \<leftarrow> for_loop 0 (nat (is_nr_secondary_ctrs shm)) (place_container set_allowed k shm)
       \<lparr>pl_has_task = replicate 64 False, pl_num_placements = 0, pl_curr_cpu = 0, pl_task = kn_task k\<rparr>;
     Some (k\<lparr>kn_task := pl_task p\<rparr>, shm) }"

subsection \<open>The polling thread\<close>

text \<open>The assignments before the loop.\<close>

definition monitor_start :: "monitor \<Rightarrow> idleStats \<Rightarrow> (monitor \<times> idleStats) option" where
  "monitor_start mo shm = do {
     curr \<leftarrow> for_loop 0 (nat (mo_NUMCPUS mo))
       (\<lambda>pos xs. do { cpu \<leftarrow> arr_get (mo_cpuList mo) (int pos); arr_set xs cpu 0 })
       (is_curr_irq_times shm);
     Some (mo\<lparr>mo_numentries := 0, mo_entrypos := 0, mo_LOG_LEVEL := 0, mo_handle_irq := 0,
              mo_runnable := 0, mo_samples := 0, mo_currMask := 0, mo_lastMask := 0,
              mo_rebalancing := 0\<rparr>,
           shm\<lparr>is_numIdle := 0, is_num_affinity := 0, is_mask := 0, is_samples := 0,
               is_irq_samples := 0, is_needs_rebalance := 0, is_nr_secondary_ctrs := 0,
               is_nr_primary_ctrs := 0, is_curr_irq_times := curr\<rparr>) }"

text \<open>One core of the sampling loop, on \<open>idleCount\<close> and \<open>currMask\<close>: bit 0 is idle, bit 1 active.\<close>

definition sample_core :: "(int \<Rightarrow> bool) \<Rightarrow> monitor \<Rightarrow> nat \<Rightarrow> int \<times> u64 \<Rightarrow> (int \<times> u64) option" where
  "sample_core idle_cpu mo i = (\<lambda>(idleCount, currMask). do {
     cpu \<leftarrow> arr_get (mo_cpuList mo) (int i);
     b \<leftarrow> shl1 cpu;
     (if idle_cpu cpu then do { n \<leftarrow> c_add idleCount 1; Some (n, currMask AND NOT b) }
      else Some (idleCount, currMask OR b)) })"

definition sample_cores :: "(int \<Rightarrow> bool) \<Rightarrow> monitor \<Rightarrow> idleStats \<Rightarrow> (monitor \<times> idleStats) option" where
  "sample_cores idle_cpu mo shm = do {
     (idleCount, currMask) \<leftarrow> for_loop 0 (nat (mo_NUMCPUS mo)) (sample_core idle_cpu mo) (0, mo_currMask mo);
     Some (mo\<lparr>mo_currMask := currMask\<rparr>, shm\<lparr>is_numIdle := idleCount, is_mask := currMask\<rparr>) }"

definition answer_irq_request :: "(int \<Rightarrow> u64) \<Rightarrow> monitor \<Rightarrow> idleStats \<Rightarrow> idleStats option" where
  "answer_irq_request cputime_irq mo shm =
     (if 0 < is_update_irq shm
      then do { shm \<leftarrow> get_irq_times cputime_irq mo shm; Some (shm\<lparr>is_update_irq := 0\<rparr>) }
      else Some shm)"

definition answer_rebalance ::
  "(int set \<Rightarrow> task \<Rightarrow> task) \<Rightarrow> monitor \<Rightarrow> kernel \<times> idleStats \<Rightarrow> (kernel \<times> idleStats) option" where
  "answer_rebalance set_allowed mo = (\<lambda>(k, shm).
     (if 0 < is_needs_rebalance shm \<and> mo_rebalancing mo = 0
      then do { (k, shm) \<leftarrow> twopa set_allowed k shm; Some (k, shm\<lparr>is_needs_rebalance := 0\<rparr>) }
      else Some (k, shm)))"

definition count_sample :: "(int \<Rightarrow> u64) \<Rightarrow> monitor \<Rightarrow> idleStats \<Rightarrow> (monitor \<times> idleStats) option" where
  "count_sample cputime_irq mo shm =
     (if 100000 < mo_samples mo
      then do { shm \<leftarrow> get_irq_times cputime_irq mo shm;
                n \<leftarrow> c_add (is_irq_samples shm) 1;
                Some (mo, shm\<lparr>is_irq_samples := n\<rparr>) }
      else do { n \<leftarrow> c_add (mo_samples mo) 1; Some (mo\<lparr>mo_samples := n\<rparr>, shm) })"

definition log_sample :: "timespec \<Rightarrow> monitor \<Rightarrow> monitor option" where
  "log_sample now mo =
     (if mo_LOG_LEVEL mo \<le> 0 then Some mo
      else if LOGSIZE - 1 < mo_numentries mo then Some mo
      else if mo_LOG_LEVEL mo = 1 \<and> mo_currMask mo = mo_lastMask mo then Some mo
      else if mo_numentries mo < 0 then None
      else do {
        n \<leftarrow> c_add (mo_numentries mo) 1;
        Some (mo\<lparr>mo_events := (mo_events mo)(nat (mo_numentries mo) \<mapsto>
                   \<lparr>ml_sec = word_of_int (tv_sec now), ml_nsec = word_of_int (tv_nsec now),
                    ml_mask = mo_currMask mo\<rparr>),
                 mo_lastMask := mo_currMask mo, mo_numentries := n\<rparr>) })"

text \<open>One turn of the loop of \<open>check_idle_cpus\<close> that does not stop; a thread that is not runnable
  sleeps at the start of the turn and goes on with it when it is woken.\<close>

definition monitor_turn ::
  "(int set \<Rightarrow> task \<Rightarrow> task) \<Rightarrow> (int \<Rightarrow> bool) \<Rightarrow> (int \<Rightarrow> u64) \<Rightarrow> timespec \<Rightarrow>
   monitor \<times> kernel \<times> idleStats \<Rightarrow> (monitor \<times> kernel \<times> idleStats) option" where
  "monitor_turn set_allowed idle_cpu cputime_irq now = (\<lambda>(mo, k, shm). do {
     (mo, shm) \<leftarrow> sample_cores idle_cpu mo shm;
     shm \<leftarrow> answer_irq_request cputime_irq mo shm;
     (k, shm) \<leftarrow> answer_rebalance set_allowed mo (k, shm);
     (mo, shm) \<leftarrow> count_sample cputime_irq mo shm;
     mo \<leftarrow> log_sample now mo;
     Some (mo, k, shm) })"

text \<open>\<open>kthread_should_stop\<close> is asked first: the flag says whether the thread returned.\<close>

definition check_idle_cpus_step ::
  "bool \<Rightarrow> (int set \<Rightarrow> task \<Rightarrow> task) \<Rightarrow> (int \<Rightarrow> bool) \<Rightarrow> (int \<Rightarrow> u64) \<Rightarrow> timespec \<Rightarrow>
   monitor \<times> kernel \<times> idleStats \<Rightarrow> (bool \<times> monitor \<times> kernel \<times> idleStats) option" where
  "check_idle_cpus_step should_stop set_allowed idle_cpu cputime_irq now s =
     (if should_stop then Some (True, s)
      else map_option (Pair False) (monitor_turn set_allowed idle_cpu cputime_irq now s))"

end
