(* ===== verification/Procfs.thy ===== *)
theory Procfs imports Monitor CString begin

section \<open>The Monitor's files under /proc/idlecpu (procfs.h)\<close>

text \<open>
  The writers and readers of the module's files.  A write request carries what the kernel decides
  (whether \<open>kzalloc\<close> and \<open>copy_from_user\<close> succeed) and the bytes written; a read request the
  position, the size of the user's buffer and whether \<open>vmalloc\<close>'s pages reach the user.  A reply
  says what is returned, which kernel calls were made and whether the buffer was lost.
  \<open>vmalloc\<close> hands out whole pages, not zeroed; a byte that was never written is \<open>None\<close>.  The
  kernel's \<open>sscanf\<close> is read as C's, so a number outside \<open>int\<close> is left undefined.
\<close>

subsection \<open>Writers\<close>

definition PROCFS_MAX_SIZE :: int where
  "PROCFS_MAX_SIZE = 1024"

definition ENOMEM :: int where
  "ENOMEM = 12"

definition EFAULT :: int where
  "EFAULT = 14"

record write_request =
  wr_alloc :: bool
  wr_copied :: bool
  wr_data :: string

datatype kernel_call = Wake_thread | Bind_thread int | Set_irq int "int set"

record write_reply =
  wp_ret :: int
  wp_calls :: "kernel_call list"
  wp_leaked :: bool

definition c_string :: "string \<Rightarrow> string" where
  "c_string data = takeWhile (\<lambda>c. c \<noteq> CHR 0x00) data"

text \<open>The start of every writer: the copy of the user's bytes, or the error (\<open>efault\<close> when the copy
  fails, which some writers return with the wrong sign).\<close>

definition user_copy :: "int \<Rightarrow> write_request \<Rightarrow> int + string" where
  "user_copy efault rq = (if \<not> wr_alloc rq then Inl (- ENOMEM)
     else if \<not> wr_copied rq then Inl efault else Inr (c_string (wr_data rq)))"

definition written :: "write_request \<Rightarrow> int" where
  "written rq = (if int (length (wr_data rq)) < PROCFS_MAX_SIZE then int (length (wr_data rq)) else PROCFS_MAX_SIZE)"

definition failed :: "int \<Rightarrow> bool \<Rightarrow> write_reply" where
  "failed r leak = \<lparr>wp_ret = r, wp_calls = [], wp_leaked = leak\<rparr>"

definition control_writer :: "write_request \<Rightarrow> monitor \<Rightarrow> (write_reply \<times> monitor) option" where
  "control_writer rq mo = (case user_copy EFAULT rq of Inl e \<Rightarrow> Some (failed e False, mo)
     | Inr tmp \<Rightarrow> (case sscanf_d tmp of None \<Rightarrow> None
         | Some None \<Rightarrow> Some (failed (- EFAULT) True, mo)
         | Some (Some ctrl) \<Rightarrow>
             if ctrl = 1 then Some (\<lparr>wp_ret = written rq, wp_calls = [Wake_thread], wp_leaked = False\<rparr>,
                                    mo\<lparr>mo_runnable := 1\<rparr>)
             else if ctrl = 0 then Some (\<lparr>wp_ret = written rq, wp_calls = [], wp_leaked = False\<rparr>,
                                         mo\<lparr>mo_runnable := 0\<rparr>)
             else Some (\<lparr>wp_ret = written rq, wp_calls = [], wp_leaked = False\<rparr>, mo)))"

definition logcontrol_writer :: "write_request \<Rightarrow> monitor \<Rightarrow> (write_reply \<times> monitor) option" where
  "logcontrol_writer rq mo = (case user_copy (- EFAULT) rq of Inl e \<Rightarrow> Some (failed e False, mo)
     | Inr tmp \<Rightarrow> (case sscanf_d tmp of None \<Rightarrow> None
         | Some None \<Rightarrow> Some (failed (- EFAULT) True, mo)
         | Some (Some ctrl) \<Rightarrow>
             Some (\<lparr>wp_ret = written rq, wp_calls = [], wp_leaked = False\<rparr>,
                   mo\<lparr>mo_LOG_LEVEL := if 0 \<le> ctrl \<and> ctrl < 3 then ctrl else 0\<rparr>)))"

definition irqcontrol_writer :: "write_request \<Rightarrow> monitor \<Rightarrow> (write_reply \<times> monitor) option" where
  "irqcontrol_writer rq mo = (case user_copy EFAULT rq of Inl e \<Rightarrow> Some (failed e False, mo)
     | Inr tmp \<Rightarrow> (case sscanf_d tmp of None \<Rightarrow> None
         | Some None \<Rightarrow> Some (failed (- EFAULT) True, mo)
         | Some (Some ctrl) \<Rightarrow>
             Some (\<lparr>wp_ret = written rq, wp_calls = [], wp_leaked = False\<rparr>,
                   if ctrl = 1 then mo\<lparr>mo_handle_irq := 1\<rparr>
                   else if ctrl = 0 then mo\<lparr>mo_handle_irq := 0\<rparr> else mo)))"

definition bindcpu_writer :: "write_request \<Rightarrow> monitor \<Rightarrow> (write_reply \<times> monitor) option" where
  "bindcpu_writer rq mo = (case user_copy EFAULT rq of Inl e \<Rightarrow> Some (failed e False, mo)
     | Inr tmp \<Rightarrow> (case sscanf_d tmp of None \<Rightarrow> None
         | Some None \<Rightarrow> Some (failed (- EFAULT) True, mo)
         | Some (Some bind_cpu) \<Rightarrow>
             Some (\<lparr>wp_ret = written rq, wp_calls = [Bind_thread bind_cpu, Wake_thread],
                    wp_leaked = False\<rparr>, mo)))"

text \<open>The bodies of the three list loops.  \<open>strsep\<close> leaves \<open>tmp\<close> null, so \<open>kfree(tmp)\<close> frees nothing.\<close>

definition cpulist_token :: "string \<Rightarrow> int \<times> monitor \<Rightarrow> (int \<times> monitor) option" where
  "cpulist_token token = (\<lambda>(curr_cpu, mo). do {
     l \<leftarrow> scan_into (mo_cpuList mo) curr_cpu token;
     n \<leftarrow> c_add curr_cpu 1;
     Some (n, mo\<lparr>mo_cpuList := l\<rparr>) })"

definition irqlist_token :: "string \<Rightarrow> int \<times> monitor \<Rightarrow> (int \<times> monitor) option" where
  "irqlist_token token = (\<lambda>(curr_irq, mo). do {
     l \<leftarrow> scan_into (mo_irqList mo) curr_irq token;
     n \<leftarrow> c_add curr_irq 1;
     Some (n, mo\<lparr>mo_irqList := l\<rparr>) })"

definition irqaffinity_token :: "string \<Rightarrow> int \<times> monitor \<Rightarrow> (int \<times> monitor) option" where
  "irqaffinity_token token = (\<lambda>(curr_cpu, mo). do {
     l \<leftarrow> scan_into (mo_irqAffinity mo) curr_cpu token;
     n \<leftarrow> c_add curr_cpu 1;
     Some (n, mo\<lparr>mo_irqAffinity := l\<rparr>) })"

definition cpulist_writer :: "write_request \<Rightarrow> monitor \<Rightarrow> (write_reply \<times> monitor) option" where
  "cpulist_writer rq mo = (case user_copy EFAULT rq of Inl e \<Rightarrow> Some (failed e False, mo)
     | Inr tmp \<Rightarrow> do {
         (curr_cpu, mo) \<leftarrow> while_strsep CHR '','' cpulist_token (Some tmp) (0, mo);
         Some (\<lparr>wp_ret = written rq, wp_calls = [], wp_leaked = True\<rparr>, mo\<lparr>mo_NUMCPUS := curr_cpu\<rparr>) })"

definition irqlist_writer :: "write_request \<Rightarrow> monitor \<Rightarrow> (write_reply \<times> monitor) option" where
  "irqlist_writer rq mo = (case user_copy EFAULT rq of Inl e \<Rightarrow> Some (failed e False, mo)
     | Inr tmp \<Rightarrow> do {
         (curr_irq, mo) \<leftarrow> while_strsep CHR '','' irqlist_token (Some tmp) (0, mo);
         Some (\<lparr>wp_ret = written rq, wp_calls = [], wp_leaked = True\<rparr>, mo\<lparr>mo_NUM_INTERRUPTS := curr_irq\<rparr>) })"

text \<open>\<open>shm\<close> is \<open>idleCpuStats\<close>, which is null (\<open>None\<close>) until the thread has run for the first time.\<close>

definition irqaffinity_writer ::
  "int \<Rightarrow> idleStats option \<Rightarrow> write_request \<Rightarrow> monitor \<Rightarrow> (write_reply \<times> monitor) option" where
  "irqaffinity_writer nr_cpus shm rq mo = (case user_copy EFAULT rq of Inl e \<Rightarrow> Some (failed e False, mo)
     | Inr tmp \<Rightarrow> do {
         (curr_cpu, mo) \<leftarrow> while_strsep CHR '','' irqaffinity_token (Some tmp) (0, mo);
         let mo = mo\<lparr>mo_NUM_INTERRUPT_CPUS := curr_cpu\<rparr>;
         s \<leftarrow> shm;
         (r, calls) \<leftarrow> set_irq_affinity nr_cpus (mo_NUM_INTERRUPT_CPUS mo) s mo;
         Some (\<lparr>wp_ret = written rq, wp_calls = map (\<lambda>(irq, m). Set_irq irq m) calls, wp_leaked = True\<rparr>, mo) })"

subsection \<open>Readers\<close>

record read_request =
  rr_offset :: int
  rr_count :: int
  rr_copied :: bool

record read_reply =
  rp_ret :: int
  rp_data :: "char option list"
  rp_offset :: int
  rp_leaked :: bool

definition no_data :: "int \<Rightarrow> bool \<Rightarrow> read_request \<Rightarrow> read_reply" where
  "no_data r leak rq = \<lparr>rp_ret = r, rp_data = [], rp_offset = rr_offset rq, rp_leaked = leak\<rparr>"

text \<open>\<open>vmalloc(n)\<close>: whole pages of 4096 bytes, uninitialised; nothing for 0 bytes.\<close>

definition vmalloc :: "nat \<Rightarrow> char option list" where
  "vmalloc n = replicate ((n + 4095) div 4096 * 4096) None"

text \<open>\<open>sprintf(&buf[pos], ...)\<close> writes the text and its terminator.\<close>

definition sprintf_at :: "char option list \<Rightarrow> u64 \<Rightarrow> string \<Rightarrow> char option list option" where
  "sprintf_at buf pos s =
     (if unat pos + length s + 1 \<le> length buf
      then Some (take (unat pos) buf @ map Some s @ Some CHR 0x00 # drop (unat pos + length s + 1) buf)
      else None)"

definition append_text :: "char option list \<times> monitor \<Rightarrow> string \<Rightarrow> (char option list \<times> monitor) option" where
  "append_text = (\<lambda>(buf, mo) s. do {
     buf \<leftarrow> sprintf_at buf (mo_procfs_buffer_size mo) s;
     Some (buf, mo\<lparr>mo_procfs_buffer_size := mo_procfs_buffer_size mo + of_nat (length s)\<rparr>) })"

text \<open>The end of every reader: what is copied out is the buffer from its first byte.\<close>

definition copy_out :: "read_request \<Rightarrow> char option list \<Rightarrow> monitor \<Rightarrow> (read_reply \<times> monitor) option" where
  "copy_out rq buf mo = (let n = unat (mo_procfs_buffer_size mo) in
     (if length buf < n then None
      else if \<not> rr_copied rq then Some (no_data (- EFAULT) True rq, mo)
      else Some (\<lparr>rp_ret = int n, rp_data = take n buf, rp_offset = int n, rp_leaked = False\<rparr>, mo)))"

definition skips_read :: "read_request \<Rightarrow> bool" where
  "skips_read rq \<longleftrightarrow> 0 < rr_offset rq \<or> rr_count rq < PROCFS_MAX_SIZE"

definition list_end :: string where
  "list_end = [CHR 0x08, CHR '' '', CHR 0x08, CHR 0x0A]"

definition print_entries ::
  "(nat \<Rightarrow> string option) \<Rightarrow> nat \<Rightarrow> char option list \<times> monitor \<Rightarrow> (char option list \<times> monitor) option" where
  "print_entries entry n s = for_loop 0 n (\<lambda>pos s. entry pos \<bind> append_text s) s"

definition cpulist_reader :: "read_request \<Rightarrow> monitor \<Rightarrow> (read_reply \<times> monitor) option" where
  "cpulist_reader rq mo =
     (if skips_read rq then Some (no_data 0 False rq, mo)
      else do {
        (buf, mo) \<leftarrow> print_entries (\<lambda>pos. do { c \<leftarrow> arr_get (mo_cpuList mo) (int pos); Some (show_int c @ '','') })
                      (nat (mo_NUMCPUS mo)) (vmalloc (nat (mo_NUMCPUS mo)), mo);
        (buf, mo) \<leftarrow> append_text (buf, mo) list_end;
        copy_out rq buf mo })"

definition irqlist_reader :: "read_request \<Rightarrow> monitor \<Rightarrow> (read_reply \<times> monitor) option" where
  "irqlist_reader rq mo =
     (if skips_read rq then Some (no_data 0 False rq, mo)
      else do {
        (buf, mo) \<leftarrow> print_entries (\<lambda>pos. do { c \<leftarrow> arr_get (mo_irqList mo) (int pos); Some (show_int c @ '','') })
                      (nat (mo_NUM_INTERRUPTS mo)) (vmalloc (nat (mo_NUM_INTERRUPTS mo)), mo);
        (buf, mo) \<leftarrow> append_text (buf, mo) list_end;
        copy_out rq buf mo })"

text \<open>The length of the list's end is not added here.\<close>

definition irqtime_reader :: "(int \<Rightarrow> u64) \<Rightarrow> read_request \<Rightarrow> monitor \<Rightarrow> (read_reply \<times> monitor) option" where
  "irqtime_reader cputime_irq rq mo =
     (if skips_read rq then Some (no_data 0 False rq, mo)
      else do {
        (buf, mo) \<leftarrow> print_entries (\<lambda>pos. do { c \<leftarrow> arr_get (mo_cpuList mo) (int pos);
                                         Some (show_int (sint (hiq_of (cputime_irq c))) @ '','') })
                      (nat (mo_NUMCPUS mo)) (vmalloc (8 * nat (mo_NUMCPUS mo) + nat (mo_NUMCPUS mo)), mo);
        buf \<leftarrow> sprintf_at buf (mo_procfs_buffer_size mo) list_end;
        copy_out rq buf mo })"

definition mask_reader :: "read_request \<Rightarrow> monitor \<Rightarrow> (read_reply \<times> monitor) option" where
  "mask_reader rq mo =
     (if skips_read rq then Some (no_data 0 False rq, mo)
      else do {
        buf \<leftarrow> sprintf_at (vmalloc 1) 0 (show_int (mo_numIdleCpus mo) @ [CHR 0x0A]);
        copy_out rq buf (mo\<lparr>mo_procfs_buffer_size := of_nat (length (show_int (mo_numIdleCpus mo)) + 1)\<rparr>) })"

text \<open>The mask as text: character \<open>i\<close> is bit \<open>i\<close>, up to the last listed core.\<close>

definition log_mask :: "u64 \<Rightarrow> int \<Rightarrow> string option" where
  "log_mask m last_cpu = for_loop 0 (nat (last_cpu + 1))
     (\<lambda>i t. do { b \<leftarrow> shl1 (int i); Some (t @ (if m AND b \<noteq> 0 then ''1'' else ''0'')) }) []"

definition log_reader :: "read_request \<Rightarrow> monitor \<Rightarrow> (read_reply \<times> monitor) option" where
  "log_reader rq mo =
     (if mo_numentries mo - 1 < mo_entrypos mo then Some (no_data 0 False rq, mo)
      else if mo_entrypos mo < 0 then None
      else do {
        e \<leftarrow> mo_events mo (nat (mo_entrypos mo));
        c \<leftarrow> arr_get (mo_cpuList mo) (mo_NUMCPUS mo - 1);
        (if c < -1 then None else do {
        t \<leftarrow> log_mask (ml_mask e) c;
        let line = show_nat (unat (ml_sec e)) @ '','' @ show_nat (unat (ml_nsec e)) @ '','' @ t @ [CHR 0x0A];
        buf \<leftarrow> sprintf_at (vmalloc 24) 0 line;
        (rp, mo') \<leftarrow> copy_out rq buf (mo\<lparr>mo_procfs_buffer_size := of_nat (length line)\<rparr>);
        (if rr_copied rq then do { n \<leftarrow> c_add (mo_entrypos mo') 1; Some (rp, mo'\<lparr>mo_entrypos := n\<rparr>) }
         else Some (rp\<lparr>rp_leaked := False\<rparr>, mo')) }) })"

subsection \<open>The table of files\<close>

datatype proc_file = Mask_file | Control_file | Cpulist_file | Bindcpu_file | Irqtime_file | Log_file
  | Logcontrol_file | Irqlist_file | Irqaffinity_file | Irqcontrol_file

text \<open>\<open>proc_write\<close> and \<open>proc_read\<close> of each entry; without one the kernel answers \<open>-EIO\<close>, given as
  \<open>Inl ()\<close>.\<close>

definition proc_write ::
  "proc_file \<Rightarrow> int \<Rightarrow> idleStats option \<Rightarrow> write_request \<Rightarrow> monitor \<Rightarrow> unit + (write_reply \<times> monitor) option" where
  "proc_write f nr_cpus shm rq mo = (case f of
       Control_file \<Rightarrow> Inr (control_writer rq mo)
     | Cpulist_file \<Rightarrow> Inr (cpulist_writer rq mo)
     | Bindcpu_file \<Rightarrow> Inr (bindcpu_writer rq mo)
     | Logcontrol_file \<Rightarrow> Inr (logcontrol_writer rq mo)
     | Irqlist_file \<Rightarrow> Inr (irqlist_writer rq mo)
     | Irqaffinity_file \<Rightarrow> Inr (irqaffinity_writer nr_cpus shm rq mo)
     | Irqcontrol_file \<Rightarrow> Inr (irqcontrol_writer rq mo)
     | _ \<Rightarrow> Inl ())"

definition proc_read ::
  "proc_file \<Rightarrow> (int \<Rightarrow> u64) \<Rightarrow> read_request \<Rightarrow> monitor \<Rightarrow> unit + (read_reply \<times> monitor) option" where
  "proc_read f cputime_irq rq mo = (case f of
       Mask_file \<Rightarrow> Inr (mask_reader rq mo)
     | Cpulist_file \<Rightarrow> Inr (cpulist_reader rq mo)
     | Irqtime_file \<Rightarrow> Inr (irqtime_reader cputime_irq rq mo)
     | Log_file \<Rightarrow> Inr (log_reader rq mo)
     | Irqlist_file \<Rightarrow> Inr (irqlist_reader rq mo)
     | _ \<Rightarrow> Inl ())"

end
