(* ===== verification/MonitorFacts.thy ===== *)
theory MonitorFacts imports Monitor begin

section \<open>What the Monitor guarantees (monitor.c)\<close>

text \<open>
  The published mask, the interrupt times, the process-id cache and the outcome of \<open>twopa\<close>, with
  the defects of its two cursors.
\<close>

subsection \<open>The monitored cores\<close>

definition mo_cpus :: "monitor \<Rightarrow> int list" where
  "mo_cpus mo = take (nat (mo_NUMCPUS mo)) (mo_cpuList mo)"

definition mo_ok :: "monitor \<Rightarrow> bool" where
  "mo_ok mo \<longleftrightarrow> length (mo_cpuList mo) = 64 \<and> 0 \<le> mo_NUMCPUS mo \<and> mo_NUMCPUS mo \<le> 64 \<and>
     distinct (mo_cpus mo) \<and> (\<forall>c \<in> set (mo_cpus mo). core_ok c)"

lemma mo_ok_nth:
  assumes "mo_ok mo" "i < nat (mo_NUMCPUS mo)"
  shows "arr_get (mo_cpuList mo) (int i) = Some (mo_cpus mo ! i)" "i < length (mo_cpus mo)"
    "core_ok (mo_cpus mo ! i)"
    "take (Suc i) (mo_cpus mo) = take i (mo_cpus mo) @ [mo_cpus mo ! i]"
proof -
  show l: "i < length (mo_cpus mo)" using assms by (auto simp: mo_ok_def mo_cpus_def)
  show "arr_get (mo_cpuList mo) (int i) = Some (mo_cpus mo ! i)"
    using assms by (auto simp: mo_ok_def mo_cpus_def)
  show "core_ok (mo_cpus mo ! i)" using assms(1) l by (simp add: mo_ok_def)
  show "take (Suc i) (mo_cpus mo) = take i (mo_cpus mo) @ [mo_cpus mo ! i]"
    using l by (simp add: take_Suc_conv_app_nth)
qed

lemma mo_ok_length: "mo_ok mo \<Longrightarrow> length (mo_cpus mo) = nat (mo_NUMCPUS mo)"
  by (auto simp: mo_ok_def mo_cpus_def)

lemma mo_ok_fresh:
  assumes "mo_ok mo" "i < nat (mo_NUMCPUS mo)"
  shows "mo_cpus mo ! i \<notin> set (take i (mo_cpus mo))"
proof -
  have "distinct (take (Suc i) (mo_cpus mo))" using assms(1) by (simp add: mo_ok_def)
  then show ?thesis unfolding mo_ok_nth(4)[OF assms] by simp
qed

subsection \<open>The published mask\<close>

lemma bit_core: "core_ok c \<Longrightarrow> bit (m OR push_bit (nat c) 1 :: u64) k \<longleftrightarrow> bit m k \<or> int k = c"
  "core_ok c \<Longrightarrow> bit (m AND NOT (push_bit (nat c) 1) :: u64) k \<longleftrightarrow> bit m k \<and> int k \<noteq> c"
  unfolding bit_or_shl1 bit_clear_shl1 by (auto simp: core_ok_def)

definition mask_shows :: "(int \<Rightarrow> bool) \<Rightarrow> int list \<Rightarrow> u64 \<Rightarrow> u64 \<Rightarrow> bool" where
  "mask_shows idle_cpu cs old m \<longleftrightarrow>
     (\<forall>k. bit m k \<longleftrightarrow> (if int k \<in> set cs then \<not> idle_cpu (int k) else bit old k))"

lemma sample_core_step:
  assumes "mo_ok mo" "i < nat (mo_NUMCPUS mo)" "0 \<le> n" "n \<le> int i"
    and "mask_shows idle_cpu (take i (mo_cpus mo)) old m"
    and "n = int (length (filter idle_cpu (take i (mo_cpus mo))))"
  shows "\<exists>n' m'. sample_core idle_cpu mo i (n, m) = Some (n', m') \<and> n' \<le> int (Suc i) \<and>
    mask_shows idle_cpu (take (Suc i) (mo_cpus mo)) old m' \<and>
    n' = int (length (filter idle_cpu (take (Suc i) (mo_cpus mo))))"
proof -
  let ?c = "mo_cpus mo ! i"
  note c = mo_ok_nth[OF assms(1,2)]
  have "in_int (n + 1)" using assms by (auto simp: mo_ok_def in_int_def)
  then have st: "sample_core idle_cpu mo i (n, m) = (if idle_cpu ?c
      then Some (n + 1, m AND NOT (push_bit (nat ?c) 1)) else Some (n, m OR push_bit (nat ?c) 1))"
    unfolding sample_core_def using c(1,3) by (simp add: c_add_bind)
  show ?thesis
  proof (cases "idle_cpu ?c")
    case True
    have "mask_shows idle_cpu (take (Suc i) (mo_cpus mo)) old (m AND NOT (push_bit (nat ?c) 1))"
      using assms(5) True unfolding mask_shows_def bit_core[OF c(3)] c(4) by auto
    then show ?thesis using st True assms(4,6) c(4) by simp
  next
    case False
    have "mask_shows idle_cpu (take (Suc i) (mo_cpus mo)) old (m OR push_bit (nat ?c) 1)"
      using assms(5) False unfolding mask_shows_def bit_core[OF c(3)] c(4) by auto
    then show ?thesis using st False assms(4,6) c(4) by simp
  qed
qed

lemma sample_cores_spec:
  assumes "mo_ok mo"
  shows "\<exists>m. sample_cores idle_cpu mo shm = Some (mo\<lparr>mo_currMask := m\<rparr>,
      shm\<lparr>is_numIdle := int (length (filter idle_cpu (mo_cpus mo))), is_mask := m\<rparr>) \<and>
    mask_shows idle_cpu (mo_cpus mo) (mo_currMask mo) m"
proof -
  let ?N = "nat (mo_NUMCPUS mo)" and ?old = "mo_currMask mo"
  let ?P = "\<lambda>i (n, m). 0 \<le> n \<and> n \<le> int i \<and> mask_shows idle_cpu (take i (mo_cpus mo)) ?old m \<and>
    n = int (length (filter idle_cpu (take i (mo_cpus mo))))"
  have "\<exists>t. for_loop 0 ?N (sample_core idle_cpu mo) (0, ?old) = Some t \<and> ?P (0 + ?N) t"
  proof (rule for_loop_total)
    show "?P 0 (0, ?old)" by (simp add: mask_shows_def)
    fix i x
    assume i: "i < 0 + ?N" and P: "?P i x"
    obtain n m where x: "x = (n, m)" by (cases x)
    show "\<exists>y. sample_core idle_cpu mo i x = Some y \<and> ?P (Suc i) y"
      using sample_core_step[OF assms, of i n idle_cpu ?old m] P x i by auto
  qed
  then show ?thesis
    using mo_ok_length[OF assms] by (auto simp: sample_cores_def mask_shows_def)
qed

text \<open>
  A sample publishes the truth about the monitored cores: bit \<open>c\<close> of the mask is 0 exactly
  when core \<open>c\<close> is idle, \<open>numIdle\<close> counts the idle ones; the bits of other cores keep their last
  value (a core dropped from the list stays as it was last seen).
\<close>

lemma published_mask:
  assumes "mo_ok mo"
  shows "\<exists>mo' shm'. sample_cores idle_cpu mo shm = Some (mo', shm') \<and>
    (\<forall>k. bit (is_mask shm') k \<longleftrightarrow>
       (if int k \<in> set (mo_cpus mo) then \<not> idle_cpu (int k) else bit (mo_currMask mo) k)) \<and>
    is_numIdle shm' = int (length (filter idle_cpu (mo_cpus mo))) \<and> mo_currMask mo' = is_mask shm'"
  using sample_cores_spec[OF assms, of idle_cpu shm] by (auto simp: mask_shows_def)

definition sample_monitor :: monitor where
  "sample_monitor = \<lparr>mo_NUMCPUS = 3, mo_NUM_INTERRUPTS = 2, mo_NUM_INTERRUPT_CPUS = 1,
     mo_LOG_LEVEL = 1, mo_numentries = 0, mo_entrypos = 0, mo_events = Map.empty, mo_runnable = 1,
     mo_numIdleCpus = 0, mo_samples = 0, mo_currMask = 0x10, mo_lastMask = 0, mo_rebalancing = 0,
     mo_handle_irq = 0, mo_cpuList = [0, 1, 2] @ replicate 61 0, mo_irqAffinity = replicate 32 0,
     mo_irqList = [30, 31] @ replicate 62 0, mo_procfs_buffer_size = 0\<rparr>"

lemma sample_mo_ok: "mo_ok sample_monitor" "mo_cpus sample_monitor = [0, 1, 2]"
  by (simp_all add: mo_ok_def mo_cpus_def sample_monitor_def core_ok_def)

lemma published_mask_witness:
  "\<exists>mo' shm'. sample_cores (\<lambda>c. c = 1) sample_monitor zero_shm = Some (mo', shm') \<and>
     bit (is_mask shm') 0 \<and> \<not> bit (is_mask shm') 1 \<and> bit (is_mask shm') 2 \<and> is_numIdle shm' = 1"
proof -
  obtain mo' shm' where "sample_cores (\<lambda>c. c = 1) sample_monitor zero_shm = Some (mo', shm')"
    and m: "\<And>k. bit (is_mask shm') k \<longleftrightarrow> (if int k \<in> set (mo_cpus sample_monitor) then \<not> (\<lambda>c. c = 1) (int k)
      else bit (mo_currMask sample_monitor) k)"
    and "is_numIdle shm' = int (length (filter (\<lambda>c. c = 1) (mo_cpus sample_monitor)))"
    using published_mask[OF sample_mo_ok(1), of "\<lambda>c. c = 1" zero_shm] by blast
  then show ?thesis using m[of 0] m[of 1] m[of 2] by (auto simp: sample_mo_ok(2))
qed

subsection \<open>Interrupt times\<close>

lemma get_irq_times_spec:
  assumes "mo_ok mo" "shm_shape shm"
  shows "\<exists>curr hist. get_irq_times cputime_irq mo shm =
      Some (shm\<lparr>is_curr_irq_times := curr, is_hist_irq_times := hist\<rparr>) \<and>
    length curr = 64 \<and> length hist = 64 \<and>
    (\<forall>c. core_ok c \<longrightarrow> curr ! nat c = (if c \<in> set (mo_cpus mo) then hiq_of (cputime_irq c)
                                  else is_curr_irq_times shm ! nat c) \<and>
       hist ! nat c = is_hist_irq_times shm ! nat c +
         (if c \<in> set (mo_cpus mo) then hiq_of (cputime_irq c) else 0))"
proof -
  let ?N = "nat (mo_NUMCPUS mo)" and ?c0 = "is_curr_irq_times shm" and ?h0 = "is_hist_irq_times shm"
  let ?upd = "\<lambda>i curr hist. length curr = 64 \<and> length hist = 64 \<and>
    (\<forall>c. core_ok c \<longrightarrow> curr ! nat c = (if c \<in> set (take i (mo_cpus mo)) then hiq_of (cputime_irq c) else ?c0 ! nat c) \<and>
       hist ! nat c = ?h0 ! nat c + (if c \<in> set (take i (mo_cpus mo)) then hiq_of (cputime_irq c) else 0))"
  let ?P = "\<lambda>i s. \<exists>curr hist. s = shm\<lparr>is_curr_irq_times := curr, is_hist_irq_times := hist\<rparr> \<and> ?upd i curr hist"
  have "\<exists>t. for_loop 0 ?N (irq_time_step cputime_irq mo) shm = Some t \<and> ?P (0 + ?N) t"
  proof (rule for_loop_total)
    show "?P 0 shm"
      using assms(2) by (intro exI[of _ ?c0] exI[of _ ?h0]) (simp add: shm_shapeD)
    fix i s
    assume i: "i < 0 + ?N" and "?P i s"
    then obtain curr hist where s: "s = shm\<lparr>is_curr_irq_times := curr, is_hist_irq_times := hist\<rparr>"
      and u: "?upd i curr hist" by blast
    let ?c = "mo_cpus mo ! i"
    have i': "i < ?N" using i by simp
    note c = mo_ok_nth[OF assms(1) i'] and fresh = mo_ok_fresh[OF assms(1) i']
    have b: "0 \<le> ?c" "nat ?c < 64" "?c < 64" using c(3) by (auto simp: core_ok_def)
    let ?curr = "curr[nat ?c := hiq_of (cputime_irq ?c)]"
    let ?hist = "hist[nat ?c := hist ! nat ?c + hiq_of (cputime_irq ?c)]"
    have "irq_time_step cputime_irq mo i s = Some (shm\<lparr>is_curr_irq_times := ?curr, is_hist_irq_times := ?hist\<rparr>)"
      using c(1) b u s by (simp add: irq_time_step_def arr_get_def arr_set_def Let_def)
    moreover have "?upd (Suc i) ?curr ?hist"
      using u b c(3) fresh unfolding c(4)
      by (auto simp: nth_list_update core_ok_def nat_eq_iff2)
    ultimately show "\<exists>y. irq_time_step cputime_irq mo i s = Some y \<and> ?P (Suc i) y" by blast
  qed
  then obtain curr hist where f: "for_loop 0 ?N (irq_time_step cputime_irq mo) shm =
      Some (shm\<lparr>is_curr_irq_times := curr, is_hist_irq_times := hist\<rparr>)"
    and u: "?upd (0 + ?N) curr hist" by blast
  have e: "take (0 + ?N) (mo_cpus mo) = mo_cpus mo" using mo_ok_length[OF assms(1)] by simp
  show ?thesis using f u unfolding get_irq_times_def e by blast
qed

text \<open>
  \<open>get_irq_times\<close> stores the interrupt time of every monitored core in clock ticks, adds it to
  the core's history, and leaves the other cores and the rest of the segment alone.
\<close>

lemma irq_times_recorded:
  assumes "mo_ok mo" "shm_shape shm"
  shows "\<exists>curr hist. get_irq_times cputime_irq mo shm =
      Some (shm\<lparr>is_curr_irq_times := curr, is_hist_irq_times := hist\<rparr>) \<and>
    length curr = 64 \<and> length hist = 64 \<and>
    (\<forall>c. core_ok c \<longrightarrow> curr ! nat c = (if c \<in> set (mo_cpus mo) then hiq_of (cputime_irq c)
                                  else is_curr_irq_times shm ! nat c) \<and>
       hist ! nat c = is_hist_irq_times shm ! nat c +
         (if c \<in> set (mo_cpus mo) then hiq_of (cputime_irq c) else 0))"
  by (rule get_irq_times_spec[OF assms])

lemma irq_times_recorded_witness:
  "\<exists>curr hist. get_irq_times (\<lambda>c. 50000000) sample_monitor zero_shm =
      Some (zero_shm\<lparr>is_curr_irq_times := curr, is_hist_irq_times := hist\<rparr>) \<and> curr ! 1 = 5 \<and> hist ! 1 = 5"
proof -
  obtain curr hist where "get_irq_times (\<lambda>c. 50000000) sample_monitor zero_shm =
      Some (zero_shm\<lparr>is_curr_irq_times := curr, is_hist_irq_times := hist\<rparr>)"
    "\<forall>c. core_ok c \<longrightarrow> curr ! nat c = (if c \<in> set (mo_cpus sample_monitor) then hiq_of 50000000
        else is_curr_irq_times zero_shm ! nat c) \<and>
      hist ! nat c = is_hist_irq_times zero_shm ! nat c +
        (if c \<in> set (mo_cpus sample_monitor) then hiq_of 50000000 else 0)"
    using irq_times_recorded[OF sample_mo_ok(1) zero_shm_shape, of "\<lambda>c. 50000000"] by blast
  moreover have "core_ok 1" "hiq_of 50000000 = 5" "is_hist_irq_times zero_shm ! 1 = 0"
    by (simp_all add: core_ok_def hiq_of_def NSEC_PER_SEC_def USER_HZ_def zero_shm_def)
  ultimately show ?thesis by (fastforce simp: sample_mo_ok(2))
qed

end
