(* ===== verification/Twopa.thy ===== *)
theory Twopa imports MonitorFacts begin

section \<open>The two-phase placement of the Secondary's tasks (twopa, monitor.c)\<close>

text \<open>
  The process-id caches, the totality and the outcome of \<open>twopa\<close>, and the runs in which its two
  cursors (over the containers and over the granted cores) leave their course.
\<close>

subsection \<open>The cache of process ids\<close>

definition fresh_cache :: "kernel \<Rightarrow> ctr_info \<Rightarrow> ctr_info" where
  "fresh_cache k ctr = (let g = take 128 (kn_group k (ct_parent_pid ctr)) in
     (if ct_nr_pids ctr = kn_nr_tasks k (ct_parent_pid ctr) \<or> g = [] then ctr
      else ctr\<lparr>ct_pidList := g @ drop (length g) (ct_pidList ctr), ct_nr_pids := int (length g)\<rparr>))"

lemma cache_pids_eq:
  assumes "n < 128" "length (ct_pidList ctr) = 128"
  shows "cache_pids pids (int n) ctr = Some (if 128 - n \<le> length pids then -1 else 0,
     if pids = [] then ctr
     else let g = take (128 - n) pids in
       ctr\<lparr>ct_pidList := take n (ct_pidList ctr) @ g @ drop (n + length g) (ct_pidList ctr),
           ct_nr_pids := int (n + length g)\<rparr>)"
  using assms
proof (induction pids arbitrary: n ctr)
  case Nil
  then show ?case by simp
next
  case (Cons pid pids)
  let ?l = "ct_pidList ctr"
  let ?ctr = "ctr\<lparr>ct_pidList := ?l[n := pid], ct_nr_pids := int n + 1\<rparr>"
  have st: "cache_pids (pid # pids) (int n) ctr =
      (if n = 127 then Some (-1, ?ctr) else cache_pids pids (int (Suc n)) ?ctr)"
    using Cons.prems by (auto simp: Let_def add.commute)
  have upd: "?l[n := pid] = take n ?l @ [pid] @ drop (Suc n) ?l"
    using Cons.prems by (simp add: upd_conv_take_nth_drop)
  show ?case
  proof (cases "n = 127")
    case True
    then show ?thesis unfolding st upd by simp
  next
    case False
    then have n: "Suc n < 128" using Cons.prems by simp
    have g: "take (128 - n) (pid # pids) = pid # take (128 - Suc n) pids"
      using n by (simp add: take_Cons')
    have ih: "cache_pids pids (int (Suc n)) ?ctr = Some (if 128 - Suc n \<le> length pids then -1 else 0,
       if pids = [] then ?ctr else let g = take (128 - Suc n) pids in
         ?ctr\<lparr>ct_pidList := take (Suc n) (?l[n := pid]) @ g @ drop (Suc n + length g) (?l[n := pid]),
             ct_nr_pids := int (Suc n + length g)\<rparr>)"
      using Cons.IH[OF n, of ?ctr] Cons.prems by simp
    have le: "128 - n \<le> length (pid # pids) \<longleftrightarrow> 128 - Suc n \<le> length pids"
      using n by auto
    show ?thesis
    proof (cases "pids = []")
      case True
      have "take (128 - n) [pid] = [pid]" using n by (simp add: take_Cons')
      then show ?thesis unfolding st using False Cons.prems True n by (simp add: Let_def upd)
    next
      case pids: False
      have "take (Suc n) (?l[n := pid]) = take n ?l @ [pid]"
        using Cons.prems by (simp add: take_Suc_update)
      moreover have "drop (Suc n + m) (?l[n := pid]) = drop (Suc n + m) ?l" for m
        by simp
      ultimately show ?thesis
        unfolding st if_not_P[OF False] ih le if_not_P[OF pids] g Let_def
        by (simp add: ac_simps)
    qed
  qed
qed

text \<open>
  The pid cache of a container holds the first 128 tasks of its control group in order, and
  \<open>nr_pids\<close> counts them; -1 is returned exactly for a group of 128 tasks or more, and an empty
  group leaves the old cache in place.  So the cache never writes outside \<open>pidList\<close>.
\<close>

lemma pid_cache_first_128:
  assumes "ctr_shape ctr"
  shows "\<exists>ctr'. update_pid_cache k p ctr = Some (if 128 \<le> length (kn_group k p) then -1 else 0, ctr') \<and>
    ctr_shape ctr' \<and> ct_parent_pid ctr' = ct_parent_pid ctr \<and>
    (if kn_group k p = [] then ctr' = ctr
     else ct_nr_pids ctr' = int (min 128 (length (kn_group k p))) \<and>
       take (nat (ct_nr_pids ctr')) (ct_pidList ctr') = take 128 (kn_group k p))"
  using assms cache_pids_eq[of 0 ctr "kn_group k p"]
  by (auto simp: update_pid_cache_def ctr_shape_def Let_def min_def)

definition sample_kernel :: kernel where
  "sample_kernel = \<lparr>kn_nr_cpus = 64,
     kn_task = Map.empty(70 \<mapsto> \<lparr>tk_cpu = 3, tk_running = True, tk_allowed = {3}\<rparr>,
                         71 \<mapsto> \<lparr>tk_cpu = 3, tk_running = True, tk_allowed = {3}\<rparr>,
                         72 \<mapsto> \<lparr>tk_cpu = 9, tk_running = False, tk_allowed = {9}\<rparr>),
     kn_group = (\<lambda>p. if p = 70 then [70, 71, 72] else []), kn_nr_tasks = (\<lambda>p. 3)\<rparr>"

lemma pid_cache_first_128_witness:
  "\<exists>ctr'. update_pid_cache sample_kernel 70 zero_ctr = Some (0, ctr') \<and> ct_nr_pids ctr' = 3 \<and>
     take 3 (ct_pidList ctr') = [70, 71, 72]"
proof -
  have "ctr_shape zero_ctr" "kn_group sample_kernel 70 = [70, 71, 72]"
    by (simp_all add: ctr_shape_def zero_ctr_def sample_kernel_def)
  then show ?thesis using pid_cache_first_128[of zero_ctr sample_kernel 70] by auto
qed

lemma update_pid_cache_fresh:
  assumes "ctr_shape ctr" "ct_nr_pids ctr \<noteq> kn_nr_tasks k (ct_parent_pid ctr)"
  shows "\<exists>r. update_pid_cache k (ct_parent_pid ctr) ctr = Some (r, fresh_cache k ctr)"
  using assms cache_pids_eq[of 0 ctr "kn_group k (ct_parent_pid ctr)"]
  by (auto simp: update_pid_cache_def ctr_shape_def Let_def fresh_cache_def)

lemma fresh_cache_shape [simp]: "ctr_shape ctr \<Longrightarrow> ctr_shape (fresh_cache k ctr)"
  by (auto simp: ctr_shape_def fresh_cache_def Let_def min_def)

lemma fresh_cache_parent [simp]: "ct_parent_pid (fresh_cache k ctr) = ct_parent_pid ctr"
  by (simp add: fresh_cache_def Let_def)

subsection \<open>Refreshing the caches of all containers\<close>

definition alive :: "kernel \<Rightarrow> ctr_info \<Rightarrow> bool" where
  "alive k ctr \<longleftrightarrow> kn_task k (ct_parent_pid ctr) \<noteq> None"

text \<open>What \<open>refresh_caches\<close> from container \<open>s\<close> on makes of the list \<open>l0\<close>.\<close>

definition refreshed :: "kernel \<Rightarrow> nat \<Rightarrow> nat \<Rightarrow> ctr_info list \<Rightarrow> ctr_info list \<Rightarrow> bool" where
  "refreshed k s nr l0 l \<longleftrightarrow> length l = length l0 \<and>
     (\<forall>j < length l0. l ! j = l0 ! j \<or> l ! j = fresh_cache k (l0 ! j)) \<and>
     (\<forall>j < length l0. j < s \<longrightarrow> l ! j = l0 ! j) \<and>
     ((\<forall>j \<in> {s..<nr}. alive k (l0 ! j)) \<longrightarrow> (\<forall>j \<in> {s..<nr}. l ! j = fresh_cache k (l0 ! j))) \<and>
     (\<forall>d \<in> {s..<nr}. (\<forall>j \<in> {s..<d}. alive k (l0 ! j)) \<and> \<not> alive k (l0 ! d) \<and> Suc d < length l0 \<longrightarrow>
        l ! Suc d = l0 ! Suc d)"

lemma refreshed_self: "nr \<le> s \<Longrightarrow> refreshed k s nr l0 l0"
  by (simp add: refreshed_def)

lemma refreshed_dead:
  assumes "refreshed k (s + 2) nr l0 l" "s < nr" "\<not> alive k (l0 ! s)"
  shows "refreshed k s nr l0 l"
proof -
  have len: "length l = length l0"
    and each: "\<And>j. j < length l0 \<Longrightarrow> l ! j = l0 ! j \<or> l ! j = fresh_cache k (l0 ! j)"
    and before: "\<And>j. j < length l0 \<Longrightarrow> j < s + 2 \<Longrightarrow> l ! j = l0 ! j"
    using assms(1) by (auto simp only: refreshed_def)
  show ?thesis
    unfolding refreshed_def
  proof (intro conjI ballI impI allI)
    fix d
    assume "d \<in> {s..<nr}"
      and a: "(\<forall>j \<in> {s..<d}. alive k (l0 ! j)) \<and> \<not> alive k (l0 ! d) \<and> Suc d < length l0"
    then have "d = s" using assms(3) by (metis atLeastLessThan_iff le_eq_less_or_eq order_refl)
    then show "l ! Suc d = l0 ! Suc d" using before a by simp
  next
    fix j
    assume "\<forall>j \<in> {s..<nr}. alive k (l0 ! j)" and "j \<in> {s..<nr}"
    then show "l ! j = fresh_cache k (l0 ! j)" using assms(2,3) by auto
  next
    fix j
    assume "j < length l0" "j < s"
    then show "l ! j = l0 ! j" using before by simp
  next
    fix j
    assume "j < length l0"
    then show "l ! j = l0 ! j \<or> l ! j = fresh_cache k (l0 ! j)" by (rule each)
  qed (rule len)
qed

lemma refreshed_live:
  assumes "refreshed k (Suc s) nr (l0[s := c]) l" "s < nr" "s < length l0" "alive k (l0 ! s)"
    "c = fresh_cache k (l0 ! s)"
  shows "refreshed k s nr l0 l"
proof -
  let ?l = "l0[s := c]"
  have other: "?l ! j = l0 ! j" if "j \<noteq> s" for j using that by simp
  have alive: "alive k (?l ! j) \<longleftrightarrow> alive k (l0 ! j)" for j
    using assms(3,5) other by (cases "j = s") (simp_all add: alive_def)
  have len: "length l = length l0"
    and each: "\<And>j. j < length l0 \<Longrightarrow> l ! j = ?l ! j \<or> l ! j = fresh_cache k (?l ! j)"
    and before: "\<And>j. j < length l0 \<Longrightarrow> j < Suc s \<Longrightarrow> l ! j = ?l ! j"
    and all: "\<forall>j \<in> {Suc s..<nr}. alive k (?l ! j) \<Longrightarrow> \<forall>j \<in> {Suc s..<nr}. l ! j = fresh_cache k (?l ! j)"
    and dead: "\<And>d. d \<in> {Suc s..<nr} \<Longrightarrow> \<forall>j \<in> {Suc s..<d}. alive k (?l ! j) \<Longrightarrow>
      \<not> alive k (?l ! d) \<Longrightarrow> Suc d < length l0 \<Longrightarrow> l ! Suc d = ?l ! Suc d"
    using assms(1) unfolding refreshed_def length_list_update by blast+
  have at_s: "l ! s = c" using before[of s] assms(3) by simp
  show ?thesis
    unfolding refreshed_def
  proof (intro conjI ballI impI allI)
    fix j
    assume j: "j < length l0"
    show "l ! j = l0 ! j \<or> l ! j = fresh_cache k (l0 ! j)"
    proof (cases "j = s")
      case False
      show ?thesis using each[OF j] unfolding other[OF False] .
    qed (use at_s assms(5) in simp)
  next
    fix j
    assume "j < length l0" "j < s"
    then show "l ! j = l0 ! j" using before[of j] other[of j] by simp
  next
    fix j
    assume a: "\<forall>j \<in> {s..<nr}. alive k (l0 ! j)" and j: "j \<in> {s..<nr}"
    have "\<forall>j \<in> {Suc s..<nr}. l ! j = fresh_cache k (?l ! j)"
      by (rule all) (use a alive in auto)
    then show "l ! j = fresh_cache k (l0 ! j)"
      using j at_s assms(5) other[of j] by (cases "j = s") auto
  next
    fix d
    assume d: "d \<in> {s..<nr}"
      and a: "(\<forall>j \<in> {s..<d}. alive k (l0 ! j)) \<and> \<not> alive k (l0 ! d) \<and> Suc d < length l0"
    have "d \<noteq> s" using a assms(4) by blast
    then have "d \<in> {Suc s..<nr}" using d by auto
    then have "l ! Suc d = ?l ! Suc d" by (rule dead) (use a alive in auto)
    then show "l ! Suc d = l0 ! Suc d" using d other[of "Suc d"] by simp
  qed (rule len)
qed

lemma fresh_unchanged:
  "ct_nr_pids ctr = kn_nr_tasks k (ct_parent_pid ctr) \<Longrightarrow> fresh_cache k ctr = ctr"
  by (simp add: fresh_cache_def)

lemma refresh_caches_spec:
  assumes "length (is_secondary_ctrs shm) = 64" "\<forall>c \<in> set (is_secondary_ctrs shm). ctr_shape c"
    "is_nr_secondary_ctrs shm \<le> 64" "0 \<le> i"
  shows "\<exists>l. refresh_caches k i shm = Some (shm\<lparr>is_secondary_ctrs := l\<rparr>) \<and>
    refreshed k (nat i) (nat (is_nr_secondary_ctrs shm)) (is_secondary_ctrs shm) l"
  using assms
proof (induction k i shm rule: refresh_caches.induct)
  case (1 k i shm)
  let ?l0 = "is_secondary_ctrs shm" and ?nr = "is_nr_secondary_ctrs shm"
  show ?case
  proof (cases "?nr \<le> i")
    case True
    then show ?thesis using 1(4-7)
      by (intro exI[of _ ?l0]) (simp add: refresh_caches.simps[of k i shm] refreshed_self)
  next
    case False
    let ?ctr = "?l0 ! nat i"
    have i: "nat i < 64" "nat i < nat ?nr" "nat (i + 1) = Suc (nat i)" "nat (i + 2) = nat i + 2"
      using False 1(6,7) by auto
    have g: "arr_get ?l0 i = Some ?ctr" using i 1(4,7) by (simp add: arr_get_def)
    have shape: "ctr_shape ?ctr" using 1(4,5) i by simp
    note st = refresh_caches.simps[of k i shm] if_not_P[OF False] g option.case
    show ?thesis
    proof (cases "kn_task k (ct_parent_pid ?ctr) = None")
      case True
      have "\<exists>l. refresh_caches k (i + 2) shm = Some (shm\<lparr>is_secondary_ctrs := l\<rparr>) \<and>
          refreshed k (nat (i + 2)) (nat ?nr) ?l0 l"
        by (rule 1(1)[OF False g True 1(4-6)]) (use 1(7) in simp)
      then show ?thesis
        using refreshed_dead[of k "nat i" "nat ?nr" ?l0] i True
        unfolding st if_P[OF True] by (auto simp: alive_def)
    next
      case live: False
      show ?thesis
      proof (cases "ct_nr_pids ?ctr = kn_nr_tasks k (ct_parent_pid ?ctr)")
        case True
        have "\<exists>l. refresh_caches k (i + 1) shm = Some (shm\<lparr>is_secondary_ctrs := l\<rparr>) \<and>
            refreshed k (nat (i + 1)) (nat ?nr) ?l0 l"
          by (rule 1(3)[OF False g live _ 1(4-6)]) (use True 1(7) in simp_all)
        then obtain l where l: "refresh_caches k (i + 1) shm = Some (shm\<lparr>is_secondary_ctrs := l\<rparr>)"
          "refreshed k (Suc (nat i)) (nat ?nr) ?l0 l" using i by auto
        have "refreshed k (nat i) (nat ?nr) ?l0 l"
          by (rule refreshed_live[of k "nat i" "nat ?nr" ?l0 ?ctr])
            (use l(2) i live 1(4) True in \<open>simp_all add: alive_def fresh_unchanged\<close>)
        then show ?thesis using l(1) True unfolding st if_not_P[OF live] by (simp, blast)
      next
        case grown: False
        obtain r where u: "update_pid_cache k (ct_parent_pid ?ctr) ?ctr = Some (r, fresh_cache k ?ctr)"
          using update_pid_cache_fresh[OF shape grown] by blast
        let ?shm = "shm\<lparr>is_secondary_ctrs := ?l0[nat i := fresh_cache k ?ctr]\<rparr>"
        have sh: "\<forall>c \<in> set (is_secondary_ctrs ?shm). ctr_shape c"
          using 1(5) shape by (auto dest!: subsetD[OF set_update_subset_insert])
        have "\<exists>l. refresh_caches k (i + 1) ?shm = Some (?shm\<lparr>is_secondary_ctrs := l\<rparr>) \<and>
            refreshed k (nat (i + 1)) (nat (is_nr_secondary_ctrs ?shm)) (is_secondary_ctrs ?shm) l"
          by (rule 1(2)[OF False g live grown u refl _ sh]) (use 1(4,6,7) in simp_all)
        then obtain l where l: "refresh_caches k (i + 1) ?shm = Some (shm\<lparr>is_secondary_ctrs := l\<rparr>)"
          "refreshed k (Suc (nat i)) (nat ?nr) (?l0[nat i := fresh_cache k ?ctr]) l" using i by auto
        have "refreshed k (nat i) (nat ?nr) ?l0 l"
          by (rule refreshed_live[OF l(2)]) (use i live 1(4) in \<open>simp_all add: alive_def\<close>)
        then show ?thesis using l(1) grown u unfolding st if_not_P[OF live] by (simp, blast)
      qed
    qed
  qed
qed

text \<open>
  The cursor of the first loop of \<open>twopa\<close> steps twice over a container whose first process is
  gone: the container after it keeps its old cache, whatever its group holds now.
\<close>

lemma dead_container_hides_next:
  assumes "shm_shape shm" "is_nr_secondary_ctrs shm \<le> 64" "int d + 1 < is_nr_secondary_ctrs shm"
    and "\<forall>j < d. alive k (is_secondary_ctrs shm ! j)" "\<not> alive k (is_secondary_ctrs shm ! d)"
  shows "\<exists>l. refresh_caches k 0 shm = Some (shm\<lparr>is_secondary_ctrs := l\<rparr>) \<and>
    l ! (d + 1) = is_secondary_ctrs shm ! (d + 1)"
proof -
  obtain l where "refresh_caches k 0 shm = Some (shm\<lparr>is_secondary_ctrs := l\<rparr>)"
    "refreshed k 0 (nat (is_nr_secondary_ctrs shm)) (is_secondary_ctrs shm) l"
    using refresh_caches_spec[of shm 0 k] assms(1,2) by (auto simp: shm_shape_def)
  moreover from this(2) have "l ! Suc d = is_secondary_ctrs shm ! Suc d"
    using assms unfolding refreshed_def shm_shapeD(3)[OF assms(1)] by simp
  ultimately show ?thesis by (intro exI[of _ l]) simp
qed

definition two_containers :: "int \<Rightarrow> int \<Rightarrow> idleStats" where
  "two_containers p q = zero_shm\<lparr>is_nr_secondary_ctrs := 2,
     is_secondary_ctrs := zero_ctr\<lparr>ct_parent_pid := p\<rparr> # zero_ctr\<lparr>ct_parent_pid := q\<rparr> # replicate 62 zero_ctr\<rparr>"

lemma two_containers_shape: "shm_shape (two_containers p q)"
  by (simp add: two_containers_def shm_shape_def zero_shm_def ctr_shape_def primary_shape_def
      zero_ctr_def zero_primary_def)

lemma dead_container_hides_next_witness:
  "\<exists>l. refresh_caches sample_kernel 0 (two_containers 99 70) =
      Some (two_containers 99 70\<lparr>is_secondary_ctrs := l\<rparr>) \<and> ct_nr_pids (l ! 1) = 0"
  using dead_container_hides_next[OF two_containers_shape[of 99 70], of 0 sample_kernel]
  by (auto simp: two_containers_def alive_def sample_kernel_def zero_ctr_def)

subsection \<open>The outcome of the placement\<close>

definition entitled :: "idleStats \<Rightarrow> int set" where
  "entitled shm = set (take (nat (is_num_secondary_cores shm)) (is_secondary_cores_list shm)) \<union>
     set (take (nat (is_num_affinity shm)) (is_affinity_list shm))"

text \<open>What \<open>set_cpus_allowed_ptr\<close> does: an empty mask is refused, otherwise the mask is stored and a
  running task is moved onto it; a task never goes anywhere else.\<close>

definition sched_ok :: "(int set \<Rightarrow> task \<Rightarrow> task) \<Rightarrow> bool" where
  "sched_ok set_allowed \<longleftrightarrow> (\<forall>t. set_allowed {} t = t) \<and>
     (\<forall>m t. finite m \<and> m \<noteq> {} \<longrightarrow> tk_allowed (set_allowed m t) = m \<and>
        tk_running (set_allowed m t) = tk_running t \<and>
        tk_cpu (set_allowed m t) \<in> (if tk_running t then m else insert (tk_cpu t) m))"

definition placed :: "int set \<Rightarrow> task \<Rightarrow> bool" where
  "placed m t \<longleftrightarrow> tk_allowed t = m \<and> (tk_running t \<longrightarrow> tk_cpu t \<in> m)"

lemma finite_entitled [simp]: "finite (entitled shm)"
  by (simp add: entitled_def)

lemma sched_placed:
  assumes "sched_ok f" "finite m" "m \<noteq> {}"
  shows "placed m (f m t)"
proof -
  have "tk_allowed (f m t) = m" "tk_running (f m t) = tk_running t"
    "tk_cpu (f m t) \<in> (if tk_running t then m else insert (tk_cpu t) m)"
    using assms unfolding sched_ok_def by blast+
  then show ?thesis by (auto simp: placed_def split: if_splits)
qed

text \<open>The stale entry after the granted cores is no core that matters.\<close>

definition cores_clear :: "kernel \<Rightarrow> idleStats \<Rightarrow> bool" where
  "cores_clear k shm \<longleftrightarrow> (\<forall>c \<in> entitled shm. core_ok c) \<and> 64 \<le> kn_nr_cpus k \<and>
     0 \<le> is_num_affinity shm \<and> is_num_affinity shm \<le> 64 \<and>
     0 \<le> is_num_secondary_cores shm \<and> is_num_secondary_cores shm \<le> 64"

definition stale_core :: "idleStats \<Rightarrow> int" where
  "stale_core shm = is_affinity_list shm ! nat (is_num_affinity shm)"

definition cursor_ok :: "idleStats \<Rightarrow> bool" where
  "cursor_ok shm \<longleftrightarrow> 0 < is_num_affinity shm \<and> is_num_affinity shm < 64 \<and> stale_core shm \<notin> entitled shm"

definition tasks_ok :: "int set \<Rightarrow> (int \<Rightarrow> task option) \<Rightarrow> bool" where
  "tasks_ok S tasks \<longleftrightarrow> (\<forall>pid t. tasks pid = Some t \<longrightarrow> core_ok (tk_cpu t) \<and> tk_cpu t \<notin> S)"

lemma tasks_ok_update:
  assumes "sched_ok f" "finite m" "tasks_ok S tasks" "tasks pid = Some t" "\<forall>c \<in> m. core_ok c \<and> c \<notin> S"
  shows "tasks_ok S (tasks(pid \<mapsto> f m t))"
proof -
  have t: "core_ok (tk_cpu t) \<and> tk_cpu t \<notin> S" using assms(3,4) by (simp add: tasks_ok_def)
  have "tk_cpu (f m t) \<in> insert (tk_cpu t) m"
  proof (cases "m = {}")
    case True
    then show ?thesis using assms(1) by (simp add: sched_ok_def)
  next
    case False
    then have "tk_cpu (f m t) \<in> (if tk_running t then m else insert (tk_cpu t) m)"
      using assms(1,2) by (simp add: sched_ok_def)
    then show ?thesis by (auto split: if_splits)
  qed
  then have "core_ok (tk_cpu (f m t)) \<and> tk_cpu (f m t) \<notin> S" using t assms(5) by auto
  then show ?thesis using assms(3) by (simp add: tasks_ok_def)
qed

lemma add_cpus_eq:
  assumes "0 \<le> n" "n \<le> int (length xs)" "\<forall>c \<in> set (take (nat n) xs). 0 \<le> c \<and> c < nr"
  shows "add_cpus nr xs n m = Some (m \<union> set (take (nat n) xs))"
proof -
  have "\<exists>t. for_loop 0 (nat n) (\<lambda>i m. do { c \<leftarrow> arr_get xs (int i); cpumask_set_cpu nr c m }) m = Some t \<and>
      t = m \<union> set (take (0 + nat n) xs)"
  proof (rule for_loop_total[where P = "\<lambda>i t. t = m \<union> set (take i xs)"])
    fix i x
    assume i: "i < 0 + nat n" and x: "x = m \<union> set (take i xs)"
    have l: "i < length xs" using i assms(2) by simp
    have "xs ! i \<in> set (take (nat n) xs)" using i l by (auto simp: in_set_conv_nth)
    then have "0 \<le> xs ! i \<and> xs ! i < nr" using assms(3) by blast
    then show "\<exists>y. (do { c \<leftarrow> arr_get xs (int i); cpumask_set_cpu nr c x }) = Some y \<and>
        y = m \<union> set (take (Suc i) xs)"
      using l x by (simp add: cpumask_set_cpu_def take_Suc_conv_app_nth)
  qed simp
  then show ?thesis by (simp add: add_cpus_def)
qed

lemma full_mask_eq:
  assumes "shm_shape shm" "cores_clear k shm"
  shows "full_mask k shm = Some (entitled shm)"
proof -
  have r: "0 \<le> c \<and> c < kn_nr_cpus k" if "c \<in> entitled shm" for c
    using assms(2) that by (force simp: cores_clear_def core_ok_def)
  have a: "add_cpus (kn_nr_cpus k) (is_secondary_cores_list shm) (is_num_secondary_cores shm) {} =
      Some ({} \<union> set (take (nat (is_num_secondary_cores shm)) (is_secondary_cores_list shm)))"
    by (rule add_cpus_eq) (use assms r in \<open>simp_all add: cores_clear_def shm_shapeD entitled_def\<close>)
  have b: "add_cpus (kn_nr_cpus k) (is_affinity_list shm) (is_num_affinity shm) m =
      Some (m \<union> set (take (nat (is_num_affinity shm)) (is_affinity_list shm)))" for m
    by (rule add_cpus_eq) (use assms r in \<open>simp_all add: cores_clear_def shm_shapeD entitled_def\<close>)
  show ?thesis unfolding full_mask_def a b bind.simps entitled_def by simp
qed

text \<open>Phase 1 keeps its cursor on the granted cores; it touches the tasks of the list only.\<close>

definition pl_ok :: "idleStats \<Rightarrow> nat \<Rightarrow> placement \<Rightarrow> bool" where
  "pl_ok shm n p \<longleftrightarrow> length (pl_has_task p) = 64 \<and> 0 \<le> pl_num_placements p \<and>
     pl_num_placements p \<le> int n \<and> 0 \<le> pl_curr_cpu p \<and> pl_curr_cpu p \<le> is_num_affinity shm \<and>
     tasks_ok {stale_core shm} (pl_task p)"

definition same_tasks :: "int set \<Rightarrow> (int \<Rightarrow> task option) \<Rightarrow> (int \<Rightarrow> task option) \<Rightarrow> bool" where
  "same_tasks S tasks tasks' \<longleftrightarrow> dom tasks' = dom tasks \<and> (\<forall>pid. pid \<notin> S \<longrightarrow> tasks' pid = tasks pid)"

lemma same_tasks_refl [simp]: "same_tasks S tasks tasks"
  by (simp add: same_tasks_def)

lemma same_tasks_trans:
  "same_tasks S a b \<Longrightarrow> same_tasks T b c \<Longrightarrow> same_tasks (S \<union> T) a c"
  by (simp add: same_tasks_def)

lemma same_tasks_upd: "tasks pid = Some t \<Longrightarrow> same_tasks {pid} tasks (tasks(pid \<mapsto> u))"
  by (auto simp: same_tasks_def)

lemma pl_ok_mono: "pl_ok shm n p \<Longrightarrow> n \<le> n' \<Longrightarrow> pl_ok shm n' p"
  by (simp add: pl_ok_def)

lemma wrap_cursor:
  assumes "shm_shape shm" "cursor_ok shm" "0 \<le> cc" "cc \<le> is_num_affinity shm" "cpu \<noteq> stale_core shm"
  defines "c \<equiv> (if is_affinity_list shm ! nat cc = cpu then cc + 1 else cc)"
  shows "0 \<le> (if c = is_num_affinity shm then 0 else c)"
    "(if c = is_num_affinity shm then 0 else c) < is_num_affinity shm"
    "in_int (cc + 1)"
proof -
  have "cc < is_num_affinity shm" if "is_affinity_list shm ! nat cc = cpu"
    using that assms(4,5) by (cases "cc = is_num_affinity shm") (auto simp: stale_core_def)
  then show "0 \<le> (if c = is_num_affinity shm then 0 else c)"
    "(if c = is_num_affinity shm then 0 else c) < is_num_affinity shm"
    using assms(2,3,4) by (auto simp: c_def cursor_ok_def)
  show "in_int (cc + 1)" using assms(2-4) by (auto simp: cursor_ok_def in_int_def)
qed

lemma migrate_task_ok:
  assumes shape: "shm_shape shm" and clear: "cores_clear k shm" and cur: "cursor_ok shm"
    and sched: "sched_ok f" and p: "pl_ok shm n p" and t: "pl_task p pid = Some t" and n: "n < 10000"
  shows "\<exists>stop p'. migrate_task f k shm pid t p = Some (stop, p') \<and> pl_ok shm (Suc n) p' \<and>
    same_tasks {pid} (pl_task p) (pl_task p')"
proof -
  let ?A = "is_affinity_list shm" and ?N = "is_num_affinity shm" and ?cc = "pl_curr_cpu p"
  let ?c1 = "if ?A ! nat ?cc = tk_cpu t then ?cc + 1 else ?cc"
  define c where "c = (if ?c1 = ?N then 0 else ?c1)"
  have cc: "0 \<le> ?cc" "?cc \<le> ?N" using p by (simp_all add: pl_ok_def)
  have tc: "core_ok (tk_cpu t)" "tk_cpu t \<noteq> stale_core shm" using p t by (auto simp: pl_ok_def tasks_ok_def)
  note w = wrap_cursor[OF shape cur cc tc(2)]
  have c: "0 \<le> c" "c < ?N" using w(1,2) by (simp_all only: c_def)
  have N: "?N < 64" "length ?A = 64" using cur shape by (simp_all add: cursor_ok_def shm_shapeD)
  let ?target = "?A ! nat c"
  have ent: "?target \<in> entitled shm"
    using c N by (auto simp: entitled_def in_set_conv_nth intro!: exI[of _ "nat c"])
  then have tgt: "core_ok ?target" "?target \<noteq> stale_core shm" "0 \<le> ?target" "?target < kn_nr_cpus k" "?target < 64"
    using clear cur by (force simp: cores_clear_def cursor_ok_def core_ok_def)+
  have g1: "arr_get ?A ?cc = Some (?A ! nat ?cc)" "arr_get ?A c = Some ?target"
    using cc c N by (simp_all add: arr_get_def)
  have g2: "(if ?A ! nat ?cc = tk_cpu t then c_add ?cc 1 else Some ?cc) = Some ?c1"
    using w(3) by simp
  have m: "cpumask_set_cpu (kn_nr_cpus k) ?target {} = Some {?target}"
    using tgt by (simp add: cpumask_set_cpu_def)
  have has: "arr_set (pl_has_task p) ?target True = Some ((pl_has_task p)[nat ?target := True])"
    using tgt p by (simp add: arr_set_def pl_ok_def)
  have pn: "c_add (pl_num_placements p) 1 = Some (pl_num_placements p + 1)" "c_add c 1 = Some (c + 1)"
    using p n c N by (auto simp: pl_ok_def in_int_def)
  let ?p = "\<lambda>d. p\<lparr>pl_task := (pl_task p)(pid \<mapsto> f {?target} t),
      pl_has_task := (pl_has_task p)[nat ?target := True],
      pl_num_placements := pl_num_placements p + 1, pl_curr_cpu := d\<rparr>"
  have r: "migrate_task f k shm pid t p = (if pl_num_placements p + 1 = ?N then Some (True, ?p c)
      else Some (False, ?p (c + 1)))"
    unfolding migrate_task_def g1(1) bind.simps g2 Let_def
    unfolding c_def[symmetric] g1(2) bind.simps m has pn by simp
  have "tasks_ok {stale_core shm} ((pl_task p)(pid \<mapsto> f {?target} t))"
    by (rule tasks_ok_update[where f = f, OF sched]) (use p t tgt in \<open>simp_all add: pl_ok_def\<close>)
  then have "pl_ok shm (Suc n) (?p d)" if "0 \<le> d" "d \<le> ?N" for d
    using p that by (simp add: pl_ok_def)
  then have "pl_ok shm (Suc n) (?p c)" "pl_ok shm (Suc n) (?p (c + 1))" using c by simp_all
  moreover have "same_tasks {pid} (pl_task p) (pl_task (?p d))" for d
    using same_tasks_upd[of "pl_task p", OF t] by simp
  ultimately show ?thesis unfolding r by (cases "pl_num_placements p + 1 = ?N") auto
qed

lemma place_task_ok:
  assumes "shm_shape shm" "cores_clear k shm" "cursor_ok shm" "sched_ok f" "pl_ok shm n p" "n < 10000"
  shows "\<exists>stop p'. place_task f k shm pid p = Some (stop, p') \<and> pl_ok shm (Suc n) p' \<and>
    same_tasks {pid} (pl_task p) (pl_task p')"
proof (cases "pl_task p pid")
  case None
  then show ?thesis using pl_ok_mono[OF assms(5), of "Suc n"]
    by (intro exI[of _ False]) (simp add: place_task_def)
next
  case (Some t)
  have tc: "core_ok (tk_cpu t)" using assms(5) Some by (auto simp: pl_ok_def tasks_ok_def)
  then have g: "arr_get (pl_has_task p) (tk_cpu t) = Some (pl_has_task p ! nat (tk_cpu t))"
    "arr_set (pl_has_task p) (tk_cpu t) True = Some ((pl_has_task p)[nat (tk_cpu t) := True])"
    using assms(5) by (auto simp: arr_get_def arr_set_def core_ok_def pl_ok_def)
  have pn: "c_add (pl_num_placements p) 1 = Some (pl_num_placements p + 1)"
    using assms(5,6) by (auto simp: pl_ok_def in_int_def)
  consider "\<not> tk_running t" | "tk_running t" "\<not> pl_has_task p ! nat (tk_cpu t)"
    | "tk_running t" "pl_has_task p ! nat (tk_cpu t)" by blast
  then show ?thesis
  proof cases
    case 1
    then show ?thesis using Some pl_ok_mono[OF assms(5), of "Suc n"]
      by (intro exI[of _ False]) (simp add: place_task_def)
  next
    case 2
    then show ?thesis using Some g pn assms(5)
      by (intro exI[of _ False]) (simp add: place_task_def pl_ok_def c_add_bind)
  next
    case 3
    then have "place_task f k shm pid p = migrate_task f k shm pid t p"
      using Some g by (simp add: place_task_def)
    then show ?thesis using migrate_task_ok[OF assms(1-5) Some assms(6)] by simp
  qed
qed

lemma phase1_ok:
  assumes "shm_shape shm" "cores_clear k shm" "cursor_ok shm" "sched_ok f" "pl_ok shm n p"
    "n + length pids \<le> 10000"
  shows "\<exists>p'. phase1 f k shm pids p = Some p' \<and> pl_ok shm (n + length pids) p' \<and>
    same_tasks (set pids) (pl_task p) (pl_task p')"
  using assms(5,6)
proof (induction pids arbitrary: n p)
  case Nil
  then show ?case by simp
next
  case (Cons pid pids)
  obtain stop q where q: "place_task f k shm pid p = Some (stop, q)" "pl_ok shm (Suc n) q"
    "same_tasks {pid} (pl_task p) (pl_task q)"
    using place_task_ok[OF assms(1-4) Cons.prems(1), of pid] Cons.prems(2) by auto
  show ?case
  proof (cases stop)
    case True
    have "pl_ok shm (n + length (pid # pids)) q" by (rule pl_ok_mono[OF q(2)]) simp
    moreover have "same_tasks (set (pid # pids)) (pl_task p) (pl_task q)"
      using q(3) by (simp add: same_tasks_def)
    ultimately show ?thesis using q(1) True by simp
  next
    case False
    obtain p' where "phase1 f k shm pids q = Some p'" "pl_ok shm (Suc n + length pids) p'"
      "same_tasks (set pids) (pl_task q) (pl_task p')"
      using Cons.IH[OF q(2)] Cons.prems(2) by auto
    then show ?thesis using q(1) False same_tasks_trans[OF q(3)] by auto
  qed
qed

subsection \<open>Phase 2 and the whole of twopa\<close>

lemma phase2_keeps:
  assumes "\<And>t. R t \<Longrightarrow> R (f m t)" "\<And>t. tasks pid = Some t \<Longrightarrow> R t" "phase2 f m pids tasks pid = Some t"
  shows "R t"
  using assms(2,3)
proof (induction pids arbitrary: tasks)
  case (Cons q pids)
  show ?case
    by (rule Cons.IH[OF _ Cons.prems(2)[unfolded phase2.simps]])
      (use Cons.prems(1) assms(1) in \<open>auto split: option.splits if_splits\<close>)
qed simp

lemma phase2_sets:
  assumes "\<And>t. R (f m t)" "pid \<in> set pids" "phase2 f m pids tasks pid = Some t"
  shows "R t"
  using assms(2,3)
proof (induction pids arbitrary: tasks)
  case (Cons q pids)
  let ?tasks = "case tasks q of None \<Rightarrow> tasks | Some t \<Rightarrow> tasks(q \<mapsto> f m t)"
  have r: "phase2 f m pids ?tasks pid = Some t" using Cons.prems(2) by simp
  show ?case
  proof (cases "pid \<in> set pids")
    case True
    then show ?thesis by (rule Cons.IH[OF _ r])
  next
    case False
    then have "pid = q" using Cons.prems(1) by simp
    then show ?thesis
      by (intro phase2_keeps[where R = R, OF _ _ r]) (use assms(1) in \<open>auto split: option.splits\<close>)
  qed
qed simp

lemma phase2_same: "same_tasks (set pids) tasks (phase2 f m pids tasks)"
proof (induction pids arbitrary: tasks)
  case (Cons q pids)
  let ?tasks = "case tasks q of None \<Rightarrow> tasks | Some t \<Rightarrow> tasks(q \<mapsto> f m t)"
  have "same_tasks {q} tasks ?tasks" by (auto simp: same_tasks_def split: option.splits)
  from same_tasks_trans[OF this Cons.IH] show ?case by simp
qed simp

lemma phase2_tasks_ok:
  assumes "sched_ok f" "finite m" "\<forall>c \<in> m. core_ok c \<and> c \<notin> S" "tasks_ok S tasks"
  shows "tasks_ok S (phase2 f m pids tasks)"
  using assms(4)
proof (induction pids arbitrary: tasks)
  case (Cons q pids)
  show ?case
  proof (cases "tasks q")
    case None
    then show ?thesis using Cons by simp
  next
    case (Some t)
    then have "tasks_ok S (tasks(q \<mapsto> f m t))"
      using tasks_ok_update[where f = f, OF assms(1,2) Cons.prems _ assms(3)] by blast
    then have "tasks_ok S (phase2 f m pids (tasks(q \<mapsto> f m t)))" by (rule Cons.IH)
    then show ?thesis using Some by simp
  qed
qed simp

definition cache_ok :: "ctr_info \<Rightarrow> bool" where
  "cache_ok ctr \<longleftrightarrow> ctr_shape ctr \<and> ct_nr_pids ctr \<le> 128"

definition ctr_pids :: "ctr_info \<Rightarrow> int set" where
  "ctr_pids ctr = set (take (nat (ct_nr_pids ctr)) (ct_pidList ctr))"

text \<open>What \<open>twopa\<close> needs: sizes in range, and, when running tasks are to be migrated one by one,
  at least one and less than 64 granted cores with no task on the stale entry behind them.\<close>

definition twopa_ok :: "kernel \<Rightarrow> idleStats \<Rightarrow> bool" where
  "twopa_ok k shm \<longleftrightarrow> shm_shape shm \<and> cores_clear k shm \<and> is_nr_secondary_ctrs shm \<le> 64 \<and>
     (\<forall>ctr \<in> set (is_secondary_ctrs shm). cache_ok ctr) \<and>
     (is_needs_rebalance shm = 1 \<longrightarrow> cursor_ok shm \<and> tasks_ok {stale_core shm} (kn_task k))"

lemma place_container_ok:
  assumes shape: "shm_shape shm" and clear: "cores_clear k shm" and sched: "sched_ok f"
    and caches: "\<forall>ctr \<in> set (is_secondary_ctrs shm). cache_ok ctr" and i: "i < 64"
    and reb: "is_needs_rebalance shm = 1 \<Longrightarrow> cursor_ok shm \<and> pl_ok shm (128 * i) p"
  shows "\<exists>p'. place_container f k shm i p = Some p' \<and>
    (is_needs_rebalance shm = 1 \<longrightarrow> pl_ok shm (128 * Suc i) p') \<and>
    same_tasks (ctr_pids (is_secondary_ctrs shm ! i)) (pl_task p) (pl_task p') \<and>
    (\<forall>pid t. entitled shm \<noteq> {} \<longrightarrow> pid \<in> ctr_pids (is_secondary_ctrs shm ! i) \<longrightarrow>
       pl_task p' pid = Some t \<longrightarrow> placed (entitled shm) t)"
proof -
  let ?ctr = "is_secondary_ctrs shm ! i"
  have len: "length (is_secondary_ctrs shm) = 64" using shape by (rule shm_shapeD)
  have c: "cache_ok ?ctr" using caches len i by simp
  let ?pids = "take (nat (ct_nr_pids ?ctr)) (ct_pidList ?ctr)"
  have pids: "cached_pids ?ctr = Some ?pids" "length ?pids \<le> 128" "set ?pids = ctr_pids ?ctr"
    using c by (simp_all add: cached_pids_def cache_ok_def ctr_shape_def ctr_pids_def)
  have g: "arr_get (is_secondary_ctrs shm) (int i) = Some ?ctr" using i len by simp
  have ph1: "\<exists>q. (if is_needs_rebalance shm = 1 then phase1 f k shm ?pids p else Some p) = Some q \<and>
      (is_needs_rebalance shm = 1 \<longrightarrow> pl_ok shm (128 * Suc i) q) \<and> same_tasks (ctr_pids ?ctr) (pl_task p) (pl_task q)"
  proof (cases "is_needs_rebalance shm = 1")
    case True
    obtain q where "phase1 f k shm ?pids p = Some q" "pl_ok shm (128 * i + length ?pids) q"
      "same_tasks (set ?pids) (pl_task p) (pl_task q)"
      using phase1_ok[OF shape clear _ sched, of "128 * i" p ?pids] reb[OF True] i pids(2) by auto
    then show ?thesis using True pids(2,3) pl_ok_mono[of shm _ q "128 * Suc i"] by simp
  qed simp
  then obtain q where q: "(if is_needs_rebalance shm = 1 then phase1 f k shm ?pids p else Some p) = Some q"
    "is_needs_rebalance shm = 1 \<longrightarrow> pl_ok shm (128 * Suc i) q" "same_tasks (ctr_pids ?ctr) (pl_task p) (pl_task q)"
    by blast
  let ?p' = "q\<lparr>pl_curr_cpu := max 0 (is_num_affinity shm),
      pl_task := phase2 f (entitled shm) ?pids (pl_task q)\<rparr>"
  have "place_container f k shm i p = Some ?p'"
    unfolding place_container_def g bind.simps pids(1) q(1) full_mask_eq[OF shape clear] by simp
  moreover have "pl_ok shm (128 * Suc i) ?p'" if r: "is_needs_rebalance shm = 1"
  proof -
    have m: "\<forall>c \<in> entitled shm. core_ok c \<and> c \<notin> {stale_core shm}"
      using clear reb[OF r] by (auto simp: cores_clear_def cursor_ok_def)
    have ok: "pl_ok shm (128 * Suc i) q" using q(2) r by blast
    then have "tasks_ok {stale_core shm} (phase2 f (entitled shm) ?pids (pl_task q))"
      by (intro phase2_tasks_ok[OF sched finite_entitled m]) (simp add: pl_ok_def)
    then show ?thesis using ok clear by (simp add: pl_ok_def cores_clear_def)
  qed
  moreover have "same_tasks (ctr_pids ?ctr) (pl_task p) (pl_task ?p')"
    using same_tasks_trans[OF q(3) phase2_same[of ?pids "pl_task q" f "entitled shm"]] pids(3) by simp
  moreover have "placed (entitled shm) t"
    if "entitled shm \<noteq> {}" "pid \<in> ctr_pids ?ctr" "pl_task ?p' pid = Some t" for pid t
    by (rule phase2_sets[where R = "placed (entitled shm)", of f "entitled shm" pid ?pids "pl_task q" t])
      (use that pids(3) sched_placed[OF sched finite_entitled that(1)] in simp_all)
  ultimately show ?thesis by blast
qed

lemma cache_ok_fresh: "cache_ok c \<Longrightarrow> cache_ok (fresh_cache k c)"
  by (auto simp: cache_ok_def) (simp add: fresh_cache_def Let_def)

lemma ctr_pids_fresh:
  assumes "ct_nr_pids c \<noteq> kn_nr_tasks k (ct_parent_pid c)"
  shows "set (take 128 (kn_group k (ct_parent_pid c))) \<subseteq> ctr_pids (fresh_cache k c)"
  using assms by (auto simp: ctr_pids_def fresh_cache_def Let_def min_def)

lemma place_all_ok:
  assumes shape: "shm_shape shm" and clear: "cores_clear k shm" and sched: "sched_ok f"
    and caches: "\<forall>ctr \<in> set (is_secondary_ctrs shm). cache_ok ctr" and nr: "nr \<le> 64"
    and reb: "is_needs_rebalance shm = 1 \<Longrightarrow> cursor_ok shm \<and> pl_ok shm 0 p"
  shows "\<exists>p'. for_loop 0 nr (place_container f k shm) p = Some p' \<and>
    same_tasks (\<Union>j<nr. ctr_pids (is_secondary_ctrs shm ! j)) (pl_task p) (pl_task p') \<and>
    (entitled shm \<noteq> {} \<longrightarrow> (\<forall>j < nr. \<forall>pid \<in> ctr_pids (is_secondary_ctrs shm ! j). \<forall>t.
       pl_task p' pid = Some t \<longrightarrow> placed (entitled shm) t))"
proof -
  let ?S = "\<lambda>j. ctr_pids (is_secondary_ctrs shm ! j)"
  let ?done = "\<lambda>i q. entitled shm \<noteq> {} \<longrightarrow> (\<forall>j < i. \<forall>pid \<in> ?S j. \<forall>t. pl_task q pid = Some t \<longrightarrow> placed (entitled shm) t)"
  let ?P = "\<lambda>i q. (is_needs_rebalance shm = 1 \<longrightarrow> pl_ok shm (128 * i) q) \<and>
      same_tasks (\<Union>j<i. ?S j) (pl_task p) (pl_task q) \<and> ?done i q"
  have "\<exists>t. for_loop 0 nr (place_container f k shm) p = Some t \<and> ?P (0 + nr) t"
  proof (rule for_loop_total)
    show "?P 0 p" using reb by simp
    fix i q
    assume i: "i < 0 + nr" and P: "?P i q"
    have i64: "i < 64" using i nr by simp
    obtain q' where q': "place_container f k shm i q = Some q'"
      "is_needs_rebalance shm = 1 \<longrightarrow> pl_ok shm (128 * Suc i) q'" "same_tasks (?S i) (pl_task q) (pl_task q')"
      "\<And>pid t. entitled shm \<noteq> {} \<Longrightarrow> pid \<in> ?S i \<Longrightarrow> pl_task q' pid = Some t \<Longrightarrow> placed (entitled shm) t"
      using place_container_ok[OF shape clear sched caches i64, of q] reb P by blast
    have "same_tasks (\<Union>j<Suc i. ?S j) (pl_task p) (pl_task q')"
      using same_tasks_trans[OF conjunct1[OF conjunct2[OF P]] q'(3)] by (simp add: lessThan_Suc Un_commute)
    moreover have "?done (Suc i) q'"
    proof (intro impI allI ballI)
      fix j pid t
      assume e: "entitled shm \<noteq> {}" and j: "j < Suc i" "pid \<in> ?S j" and t: "pl_task q' pid = Some t"
      show "placed (entitled shm) t"
      proof (cases "pid \<in> ?S i")
        case True
        then show ?thesis using q'(4) e t by blast
      next
        case False
        then have "pl_task q pid = Some t" using q'(3) t by (simp add: same_tasks_def)
        moreover have "j < i" using False j by (cases "j = i") auto
        ultimately show ?thesis using P e j(2) by blast
      qed
    qed
    ultimately show "\<exists>y. place_container f k shm i q = Some y \<and> ?P (Suc i) y" using q'(1,2) by blast
  qed
  then show ?thesis by auto
qed

lemma twopa_outcome:
  assumes "twopa_ok k shm" "sched_ok f"
  shows "\<exists>k' shm'. twopa f k shm = Some (k', shm') \<and>
    (\<exists>l. shm' = shm\<lparr>is_secondary_ctrs := l\<rparr> \<and> shm_shape shm' \<and> (\<forall>ctr \<in> set l. cache_ok ctr)) \<and>
    (\<forall>i < nat (is_nr_secondary_ctrs shm). \<forall>pid \<in> ctr_pids (is_secondary_ctrs shm' ! i). \<forall>t.
       entitled shm \<noteq> {} \<longrightarrow> kn_task k' pid = Some t \<longrightarrow> placed (entitled shm) t) \<and>
    (\<forall>pid. (\<forall>i < nat (is_nr_secondary_ctrs shm). pid \<notin> ctr_pids (is_secondary_ctrs shm' ! i)) \<longrightarrow>
       kn_task k' pid = kn_task k pid) \<and>
    ((\<forall>i < nat (is_nr_secondary_ctrs shm). alive k (is_secondary_ctrs shm ! i)) \<longrightarrow>
      (\<forall>i < nat (is_nr_secondary_ctrs shm). let ctr = is_secondary_ctrs shm ! i in
         ct_nr_pids ctr \<noteq> kn_nr_tasks k (ct_parent_pid ctr) \<longrightarrow>
         set (take 128 (kn_group k (ct_parent_pid ctr))) \<subseteq> ctr_pids (is_secondary_ctrs shm' ! i)))"
proof -
  let ?nr = "nat (is_nr_secondary_ctrs shm)" and ?l0 = "is_secondary_ctrs shm"
  have ok: "shm_shape shm" "cores_clear k shm" "is_nr_secondary_ctrs shm \<le> 64" "?nr \<le> 64"
    "\<forall>ctr \<in> set ?l0. cache_ok ctr"
    "is_needs_rebalance shm = 1 \<Longrightarrow> cursor_ok shm \<and> tasks_ok {stale_core shm} (kn_task k)"
    using assms(1) by (auto simp: twopa_ok_def)
  have l0: "length ?l0 = 64" "\<forall>c \<in> set ?l0. ctr_shape c" using ok(1) by (simp_all add: shm_shape_def)
  obtain l where l: "refresh_caches k 0 shm = Some (shm\<lparr>is_secondary_ctrs := l\<rparr>)"
    "refreshed k 0 ?nr ?l0 l"
    using refresh_caches_spec[OF l0 ok(3), of 0 k] by auto
  have each: "\<And>j. j < 64 \<Longrightarrow> l ! j = ?l0 ! j \<or> l ! j = fresh_cache k (?l0 ! j)" and len: "length l = 64"
    using l(2) l0(1) by (auto simp only: refreshed_def)
  have c_l: "\<forall>c \<in> set l. cache_ok c"
  proof
    fix c
    assume "c \<in> set l"
    then obtain j where j: "j < 64" "c = l ! j" using len by (auto simp: in_set_conv_nth)
    have "cache_ok (?l0 ! j)" using ok(5) j(1) l0(1) by simp
    then show "cache_ok c" using each[OF j(1)] j(2) cache_ok_fresh by auto
  qed
  let ?shm = "shm\<lparr>is_secondary_ctrs := l\<rparr>"
  have shape: "shm_shape ?shm" using ok(1) len c_l by (simp add: shm_shape_def cache_ok_def)
  have same: "entitled ?shm = entitled shm" "cores_clear k ?shm" "cursor_ok ?shm = cursor_ok shm"
    "stale_core ?shm = stale_core shm"
    using ok(2) by (simp_all add: entitled_def cores_clear_def cursor_ok_def stale_core_def)
  let ?p = "\<lparr>pl_has_task = replicate 64 False, pl_num_placements = 0, pl_curr_cpu = 0, pl_task = kn_task k\<rparr>"
  have "cursor_ok ?shm \<and> pl_ok ?shm 0 ?p" if "is_needs_rebalance ?shm = 1"
    using ok(2,6) that same by (simp add: pl_ok_def cores_clear_def)
  then obtain p' where p': "for_loop 0 ?nr (place_container f k ?shm) ?p = Some p'"
    "same_tasks (\<Union>j<?nr. ctr_pids (l ! j)) (kn_task k) (pl_task p')"
    "entitled shm \<noteq> {} \<longrightarrow> (\<forall>j < ?nr. \<forall>pid \<in> ctr_pids (l ! j). \<forall>t.
       pl_task p' pid = Some t \<longrightarrow> placed (entitled shm) t)"
    using place_all_ok[OF shape same(2) assms(2) _ ok(4), of ?p] c_l unfolding same(1) by auto
  have r: "twopa f k shm = Some (k\<lparr>kn_task := pl_task p'\<rparr>, ?shm)"
    unfolding twopa_def l(1) bind.simps using p'(1) by simp
  have "\<forall>i < ?nr. let ctr = ?l0 ! i in ct_nr_pids ctr \<noteq> kn_nr_tasks k (ct_parent_pid ctr) \<longrightarrow>
      set (take 128 (kn_group k (ct_parent_pid ctr))) \<subseteq> ctr_pids (l ! i)"
    if "\<forall>i < ?nr. alive k (?l0 ! i)"
  proof -
    have "\<forall>j \<in> {0..<?nr}. l ! j = fresh_cache k (?l0 ! j)"
      using l(2) that unfolding refreshed_def by simp
    then show ?thesis using ctr_pids_fresh by (simp add: Let_def)
  qed
  moreover have "\<exists>l'. ?shm = shm\<lparr>is_secondary_ctrs := l'\<rparr> \<and> shm_shape ?shm \<and> (\<forall>ctr \<in> set l'. cache_ok ctr)"
    using shape c_l by (intro exI[of _ l]) simp
  moreover have "kn_task (k\<lparr>kn_task := pl_task p'\<rparr>) pid = kn_task k pid"
    if "\<forall>i < ?nr. pid \<notin> ctr_pids (is_secondary_ctrs ?shm ! i)" for pid
    using p'(2) that by (simp add: same_tasks_def)
  ultimately show ?thesis
    using p'(3) unfolding r
    by (intro exI[of _ "k\<lparr>kn_task := pl_task p'\<rparr>"] exI[of _ ?shm]) simp
qed


text \<open>A scheduler that keeps a task where it is when it may stay there.\<close>

definition sample_sched :: "int set \<Rightarrow> task \<Rightarrow> task" where
  "sample_sched m t = (if m = {} then t
     else t\<lparr>tk_allowed := m, tk_cpu := if tk_cpu t \<in> m then tk_cpu t else Min m\<rparr>)"

lemma sample_sched_ok: "sched_ok sample_sched"
  by (auto simp: sched_ok_def sample_sched_def)

definition sample_twopa :: idleStats where
  "sample_twopa = zero_shm\<lparr>is_nr_secondary_ctrs := 1, is_needs_rebalance := 1,
     is_secondary_ctrs := zero_ctr\<lparr>ct_parent_pid := 70\<rparr> # replicate 63 zero_ctr,
     is_num_affinity := 2, is_affinity_list := [4, 5] @ replicate 62 0,
     is_num_secondary_cores := 1, is_secondary_cores_list := 8 # replicate 63 0\<rparr>"

lemma sample_twopa_entitled: "entitled sample_twopa = {4, 5, 8}"
  by (auto simp: entitled_def sample_twopa_def numeral_2_eq_2)

lemma sample_twopa_ok: "twopa_ok sample_kernel sample_twopa"
proof -
  have "shm_shape sample_twopa"
    by (simp add: sample_twopa_def shm_shape_def zero_shm_def ctr_shape_def primary_shape_def
        zero_ctr_def zero_primary_def)
  moreover have "cores_clear sample_kernel sample_twopa"
    unfolding cores_clear_def sample_twopa_entitled
    by (simp add: core_ok_def sample_kernel_def) (simp add: sample_twopa_def)
  moreover have "stale_core sample_twopa = 0"
    by (simp add: stale_core_def sample_twopa_def numeral_2_eq_2)
  moreover have "cursor_ok sample_twopa"
    unfolding cursor_ok_def sample_twopa_entitled calculation(3) by (simp add: sample_twopa_def)
  moreover have "tasks_ok {0} (kn_task sample_kernel)"
    by (simp add: tasks_ok_def sample_kernel_def core_ok_def)
  ultimately show ?thesis
    by (simp add: twopa_ok_def) (simp add: sample_twopa_def cache_ok_def ctr_shape_def zero_ctr_def)
qed


text \<open>A state in which the cursor of phase 1 leaves the granted cores 4, 5 and 6: the entry behind
  them is core 7, granted before, where 125 of the 128 running tasks still are.\<close>

definition crowded_kernel :: kernel where
  "crowded_kernel = \<lparr>kn_nr_cpus = 64,
     kn_task = (\<lambda>p. if 0 \<le> p \<and> p < 128
       then Some \<lparr>tk_cpu = (if p < 3 then p else 7), tk_running = True, tk_allowed = {0, 1, 2, 4, 5, 6, 7}\<rparr>
       else None),
     kn_group = (\<lambda>p. map int [0..<128]), kn_nr_tasks = (\<lambda>p. 128)\<rparr>"

definition crowded_shm :: idleStats where
  "crowded_shm = zero_shm\<lparr>is_nr_secondary_ctrs := 1, is_needs_rebalance := 1,
     is_secondary_ctrs := \<lparr>ct_parent_pid = 0, ct_nr_pids = 128, ct_pidList = map int [0..<128]\<rparr>
       # replicate 63 zero_ctr,
     is_num_affinity := 3, is_affinity_list := [4, 5, 6, 7] @ replicate 60 0,
     is_num_secondary_cores := 3, is_secondary_cores_list := [0, 1, 2] @ replicate 61 0\<rparr>"

lemma crowded_runs_off: "twopa sample_sched crowded_kernel crowded_shm = None"
  by code_simp

text \<open>
  The hypothesis of \<open>twopa\<close>'s safety about the entry behind the granted cores is needed: in a
  state that satisfies every other one, with three granted cores and tasks still running on the
  core that was granted last before, the cursor skips the wrap-around test and walks along the
  stale entries until it reads outside \<open>affinity_list\<close>.
\<close>

lemma cursor_leaves_grant:
  "shm_shape crowded_shm \<and> cores_clear crowded_kernel crowded_shm \<and> sched_ok sample_sched \<and>
   list_all cache_ok (is_secondary_ctrs crowded_shm) \<and>
   tasks_ok {} (kn_task crowded_kernel) \<and>
   0 < is_num_affinity crowded_shm \<and> is_num_affinity crowded_shm < 64 \<and>
   twopa sample_sched crowded_kernel crowded_shm = None"
proof (intro conjI)
  show "shm_shape crowded_shm"
    by (simp add: crowded_shm_def shm_shape_def zero_shm_def ctr_shape_def primary_shape_def
        zero_ctr_def zero_primary_def)
  have "entitled crowded_shm = {0, 1, 2, 4, 5, 6}"
    by (auto simp: entitled_def crowded_shm_def eval_nat_numeral)
  then show "cores_clear crowded_kernel crowded_shm"
    by (simp add: cores_clear_def core_ok_def crowded_kernel_def crowded_shm_def)
  show "list_all cache_ok (is_secondary_ctrs crowded_shm)"
    by (simp add: crowded_shm_def cache_ok_def ctr_shape_def zero_ctr_def list_all_iff)
  show "tasks_ok {} (kn_task crowded_kernel)"
    by (auto simp: tasks_ok_def crowded_kernel_def core_ok_def split: if_splits)
  show "0 < is_num_affinity crowded_shm" "is_num_affinity crowded_shm < 64"
    by (simp_all add: crowded_shm_def)
qed (rule sample_sched_ok crowded_runs_off)+

end
