(* ===== verification/MonitorLoop.thy ===== *)
theory MonitorLoop imports Twopa begin

section \<open>The Monitor's loop over time (check_idle_cpus, monitor.c)\<close>

text \<open>
  One turn of the polling thread keeps the module's invariant, its event log included; and what
  the interrupt-affinity request of \<open>set_irq_affinity\<close> sends.
\<close>

subsection \<open>The log of masks\<close>

text \<open>The entries written so far fill the log from the start; at level 1 no two neighbours agree.\<close>

definition log_ok :: "monitor \<Rightarrow> bool" where
  "log_ok mo \<longleftrightarrow> 0 \<le> mo_numentries mo \<and> mo_numentries mo \<le> LOGSIZE \<and>
     dom (mo_events mo) = {..<nat (mo_numentries mo)} \<and>
     (0 < mo_numentries mo \<longrightarrow>
        map_option ml_mask (mo_events mo (nat (mo_numentries mo) - 1)) = Some (mo_lastMask mo))"

definition no_repeats :: "monitor \<Rightarrow> bool" where
  "no_repeats mo \<longleftrightarrow> (\<forall>i e e'. mo_events mo i = Some e \<longrightarrow> mo_events mo (Suc i) = Some e' \<longrightarrow>
     ml_mask e \<noteq> ml_mask e')"

definition log_entry :: "timespec \<Rightarrow> monitor \<Rightarrow> monitor_logentry" where
  "log_entry now mo = \<lparr>ml_sec = word_of_int (tv_sec now), ml_nsec = word_of_int (tv_nsec now),
     ml_mask = mo_currMask mo\<rparr>"

definition logs_now :: "monitor \<Rightarrow> bool" where
  "logs_now mo \<longleftrightarrow> 0 < mo_LOG_LEVEL mo \<and> mo_numentries mo < LOGSIZE \<and>
     (mo_LOG_LEVEL mo = 1 \<longrightarrow> mo_currMask mo \<noteq> mo_lastMask mo)"

lemma log_sample_eq:
  assumes "log_ok mo"
  shows "log_sample now mo = Some (if logs_now mo
     then mo\<lparr>mo_events := (mo_events mo)(nat (mo_numentries mo) \<mapsto> log_entry now mo),
             mo_lastMask := mo_currMask mo, mo_numentries := mo_numentries mo + 1\<rparr>
     else mo)"
proof -
  have "in_int (mo_numentries mo + 1)" "\<not> mo_numentries mo < 0" if "mo_numentries mo < LOGSIZE"
    using assms that by (auto simp: log_ok_def LOGSIZE_def in_int_def)
  then show ?thesis by (auto simp: log_sample_def logs_now_def log_entry_def c_add_bind)
qed

lemma log_ok_entry:
  assumes "log_ok mo" "mo_numentries mo < LOGSIZE"
  shows "log_ok (mo\<lparr>mo_events := (mo_events mo)(nat (mo_numentries mo) \<mapsto> log_entry now mo),
    mo_lastMask := mo_currMask mo, mo_numentries := mo_numentries mo + 1\<rparr>)"
proof -
  have n: "nat (mo_numentries mo + 1) = Suc (nat (mo_numentries mo))" "0 \<le> mo_numentries mo"
    using assms(1) by (auto simp: log_ok_def)
  show ?thesis using assms unfolding log_ok_def by (auto simp: n(1) log_entry_def lessThan_Suc)
qed

text \<open>
  The mask log never leaves its buffer: \<open>log_sample\<close> is defined, writes the current mask and
  time behind the last entry exactly when logging is on, there is room and (at level 1) the mask
  has changed, and keeps the entries a gapless prefix of the buffer; at level 1 no two
  consecutive entries carry the same mask.
\<close>

lemma mask_log_bounded:
  assumes "log_ok mo"
  shows "\<exists>mo'. log_sample now mo = Some mo' \<and> log_ok mo' \<and>
    (if logs_now mo
     then mo_numentries mo' = mo_numentries mo + 1 \<and>
          mo_events mo' (nat (mo_numentries mo)) = Some (log_entry now mo)
     else mo' = mo) \<and>
    (\<forall>i < nat (mo_numentries mo). mo_events mo' i = mo_events mo i) \<and>
    (mo_LOG_LEVEL mo = 1 \<longrightarrow> no_repeats mo \<longrightarrow> no_repeats mo')"
proof (cases "logs_now mo")
  case False
  then show ?thesis using assms by (intro exI[of _ mo]) (simp add: log_sample_eq)
next
  case True
  let ?n = "nat (mo_numentries mo)"
  let ?mo = "mo\<lparr>mo_events := (mo_events mo)(?n \<mapsto> log_entry now mo),
    mo_lastMask := mo_currMask mo, mo_numentries := mo_numentries mo + 1\<rparr>"
  have room: "mo_numentries mo < LOGSIZE" using True by (simp add: logs_now_def)
  have none: "mo_events mo i = None" if "?n \<le> i" for i
  proof -
    have "i \<notin> dom (mo_events mo)" using assms that by (simp add: log_ok_def del: domIff)
    then show ?thesis by (simp add: domIff)
  qed
  have "no_repeats ?mo" if l: "mo_LOG_LEVEL mo = 1" and nr: "no_repeats mo"
    unfolding no_repeats_def
  proof (intro allI impI)
    fix i e e'
    assume e: "mo_events ?mo i = Some e" "mo_events ?mo (Suc i) = Some e'"
    show "ml_mask e \<noteq> ml_mask e'"
    proof (cases "Suc i = ?n")
      case True
      then have "map_option ml_mask (mo_events mo i) = Some (mo_lastMask mo)"
        using assms unfolding log_ok_def by (metis diff_Suc_1 nat_0_iff not_less zero_less_Suc less_irrefl)
      then show ?thesis using e True l \<open>logs_now mo\<close> by (auto simp: log_entry_def logs_now_def)
    next
      case False
      have "i \<noteq> ?n" using e none[of "Suc ?n"] by auto
      then show ?thesis using e False nr by (simp add: no_repeats_def)
    qed
  qed
  then show ?thesis
    using assms True log_ok_entry[OF assms room] by (intro exI[of _ ?mo]) (simp add: log_sample_eq)
qed

lemma sample_log_ok: "log_ok sample_monitor"
  by (simp add: log_ok_def sample_monitor_def LOGSIZE_def)

lemma mask_log_bounded_witness:
  "\<exists>mo'. log_sample \<lparr>tv_sec = 5, tv_nsec = 9\<rparr> sample_monitor = Some mo' \<and> mo_numentries mo' = 1 \<and> log_ok mo'"
proof -
  have "logs_now sample_monitor" "mo_numentries sample_monitor = 0"
    by (simp_all add: logs_now_def sample_monitor_def LOGSIZE_def)
  then show ?thesis using mask_log_bounded[OF sample_log_ok, of "\<lparr>tv_sec = 5, tv_nsec = 9\<rparr>"] by auto
qed

subsection \<open>One turn of the loop\<close>

lemma shm_shape_counts [simp]:
  "shm_shape (shm\<lparr>is_numIdle := n, is_mask := m\<rparr>) = shm_shape shm"
  "shm_shape (shm\<lparr>is_update_irq := u\<rparr>) = shm_shape shm"
  "shm_shape (shm\<lparr>is_needs_rebalance := r\<rparr>) = shm_shape shm"
  by (simp_all add: shm_shape_def)

lemma twopa_ok_frame:
  fixes curr hist :: "u64 list"
  assumes "twopa_ok k shm" "length curr = 64" "length hist = 64"
  shows "twopa_ok k (shm\<lparr>is_numIdle := n, is_mask := m\<rparr>)"
    "twopa_ok k (shm\<lparr>is_curr_irq_times := curr, is_hist_irq_times := hist, is_update_irq := u\<rparr>)"
  using assms by (simp_all add: twopa_ok_def shm_shape_def cores_clear_def entitled_def cursor_ok_def
      stale_core_def)

lemma mo_ok_frame [simp]:
  "mo_ok (mo\<lparr>mo_currMask := m\<rparr>) = mo_ok mo" "mo_cpus (mo\<lparr>mo_currMask := m\<rparr>) = mo_cpus mo"
  "mo_ok (mo\<lparr>mo_samples := n\<rparr>) = mo_ok mo" "log_ok (mo\<lparr>mo_currMask := m\<rparr>) = log_ok mo"
  "log_ok (mo\<lparr>mo_samples := n\<rparr>) = log_ok mo"
  by (simp_all add: mo_ok_def mo_cpus_def log_ok_def)

text \<open>The fields of the segment that the Monitor's thread never writes.\<close>

definition monitor_frame :: "idleStats \<Rightarrow> idleStats \<Rightarrow> bool" where
  "monitor_frame s t \<longleftrightarrow> is_prev_irq_times t = is_prev_irq_times s \<and> is_samples t = is_samples s \<and>
     is_balancerControl t = is_balancerControl s \<and> is_updatingPids t = is_updatingPids s \<and>
     is_secondary_pid_list t = is_secondary_pid_list s \<and> is_nr_secondary_ctrs t = is_nr_secondary_ctrs s \<and>
     is_affinity_list t = is_affinity_list s \<and> is_num_affinity t = is_num_affinity s \<and>
     is_num_secondary_cores t = is_num_secondary_cores s \<and>
     is_secondary_cores_list t = is_secondary_cores_list s \<and> is_primary_ctrs t = is_primary_ctrs s \<and>
     is_nr_primary_ctrs t = is_nr_primary_ctrs s"

lemma monitor_frame_trans: "monitor_frame s t \<Longrightarrow> monitor_frame t u \<Longrightarrow> monitor_frame s u"
  by (simp add: monitor_frame_def)

lemma entitled_frame: "monitor_frame s t \<Longrightarrow> entitled t = entitled s"
  by (simp add: monitor_frame_def entitled_def)

text \<open>Every cached process of a Secondary may run on the cores the Secondary is entitled to, and nowhere
  else.\<close>

definition secondary_placed :: "kernel \<Rightarrow> idleStats \<Rightarrow> bool" where
  "secondary_placed k shm \<longleftrightarrow> (entitled shm \<noteq> {} \<longrightarrow>
     (\<forall>i < nat (is_nr_secondary_ctrs shm). \<forall>pid \<in> ctr_pids (is_secondary_ctrs shm ! i). \<forall>t.
        kn_task k pid = Some t \<longrightarrow> placed (entitled shm) t))"

lemma secondary_placed_frame:
  "monitor_frame s t \<Longrightarrow> is_secondary_ctrs t = is_secondary_ctrs s \<Longrightarrow>
   secondary_placed k s \<Longrightarrow> secondary_placed k t"
  unfolding secondary_placed_def entitled_frame by (simp add: entitled_frame) (simp add: monitor_frame_def)

lemma answer_irq_request_ok:
  assumes "mo_ok mo" "shm_shape shm"
  shows "\<exists>curr hist. length curr = 64 \<and> length hist = 64 \<and>
    answer_irq_request cputime_irq mo shm =
      Some (if 0 < is_update_irq shm
        then shm\<lparr>is_curr_irq_times := curr, is_hist_irq_times := hist, is_update_irq := 0\<rparr> else shm)"
proof -
  obtain curr hist where g: "get_irq_times cputime_irq mo shm =
      Some (shm\<lparr>is_curr_irq_times := curr, is_hist_irq_times := hist\<rparr>)" "length curr = 64" "length hist = 64"
    using get_irq_times_spec[OF assms, of cputime_irq] by blast
  then show ?thesis by (intro exI[of _ curr] exI[of _ hist]) (simp add: answer_irq_request_def)
qed

lemma answer_rebalance_ok:
  assumes "sched_ok f" "mo_rebalancing mo = 0" "shm_shape shm"
    "0 < is_needs_rebalance shm \<Longrightarrow> twopa_ok k shm"
  shows "\<exists>k' l. answer_rebalance f mo (k, shm) =
      Some (k', if 0 < is_needs_rebalance shm
        then shm\<lparr>is_secondary_ctrs := l, is_needs_rebalance := 0\<rparr> else shm) \<and>
    (0 < is_needs_rebalance shm \<longrightarrow> shm_shape (shm\<lparr>is_secondary_ctrs := l\<rparr>) \<and>
       (\<forall>ctr \<in> set l. cache_ok ctr) \<and> secondary_placed k' (shm\<lparr>is_secondary_ctrs := l\<rparr>)) \<and>
    (is_needs_rebalance shm \<le> 0 \<longrightarrow> k' = k)"
proof (cases "0 < is_needs_rebalance shm")
  case True
  obtain k' shm' l where t: "twopa f k shm = Some (k', shm')" "shm' = shm\<lparr>is_secondary_ctrs := l\<rparr>"
    "shm_shape shm'" "\<forall>ctr \<in> set l. cache_ok ctr"
    and p: "\<forall>i < nat (is_nr_secondary_ctrs shm). \<forall>pid \<in> ctr_pids (is_secondary_ctrs shm' ! i). \<forall>t.
       entitled shm \<noteq> {} \<longrightarrow> kn_task k' pid = Some t \<longrightarrow> placed (entitled shm) t"
    using twopa_outcome[OF assms(4)[OF True] assms(1)] by (elim exE conjE) (rule that)
  have "secondary_placed k' (shm\<lparr>is_secondary_ctrs := l\<rparr>)"
    using p unfolding t(2) by (simp add: secondary_placed_def entitled_def)
  then show ?thesis using t True assms(2) by (intro exI[of _ k'] exI[of _ l]) (simp add: answer_rebalance_def)
next
  case False
  then show ?thesis by (simp add: answer_rebalance_def)
qed

lemma count_sample_ok:
  assumes "mo_ok mo" "shm_shape shm" "0 \<le> mo_samples mo" "mo_samples mo \<le> 100001"
    "0 \<le> is_irq_samples shm" "is_irq_samples shm < 2147483647"
  shows "\<exists>curr hist. length curr = 64 \<and> length hist = 64 \<and> count_sample cputime_irq mo shm =
    Some (if mo_samples mo \<le> 100000 then (mo\<lparr>mo_samples := mo_samples mo + 1\<rparr>, shm)
      else (mo, shm\<lparr>is_curr_irq_times := curr, is_hist_irq_times := hist,
                    is_irq_samples := is_irq_samples shm + 1\<rparr>))"
proof -
  have i: "in_int (mo_samples mo + 1)" "in_int (is_irq_samples shm + 1)"
    using assms by (auto simp: in_int_def)
  obtain curr hist where g: "get_irq_times cputime_irq mo shm =
      Some (shm\<lparr>is_curr_irq_times := curr, is_hist_irq_times := hist\<rparr>)" "length curr = 64" "length hist = 64"
    using get_irq_times_spec[OF assms(1,2), of cputime_irq] by blast
  show ?thesis
    using i g(2,3) by (intro exI[of _ curr] exI[of _ hist]) (simp add: count_sample_def g(1) c_add_bind)
qed

lemma log_sample_keeps:
  assumes "log_ok mo" "mo_ok mo"
  shows "\<exists>mo'. log_sample now mo = Some mo' \<and> log_ok mo' \<and> mo_ok mo' \<and>
    mo_rebalancing mo' = mo_rebalancing mo \<and> mo_samples mo' = mo_samples mo"
proof (cases "logs_now mo")
  case True
  then show ?thesis using log_ok_entry[OF assms(1)] assms(2)
    by (simp add: log_sample_eq[OF assms(1)] logs_now_def) (simp add: mo_ok_def mo_cpus_def)
qed (use assms in \<open>simp add: log_sample_eq\<close>)

definition turn_ok :: "monitor \<Rightarrow> bool" where
  "turn_ok mo \<longleftrightarrow> mo_ok mo \<and> log_ok mo \<and> mo_rebalancing mo = 0 \<and> 0 \<le> mo_samples mo \<and> mo_samples mo \<le> 100001"

text \<open>The first half of a turn: the sample and the answer to a request for interrupt times.\<close>

lemma turn_samples:
  assumes "mo_ok mo" "shm_shape shm" "0 < is_needs_rebalance shm \<Longrightarrow> twopa_ok k shm"
  shows "\<exists>m shm1 shm2. sample_cores idle_cpu mo shm = Some (mo\<lparr>mo_currMask := m\<rparr>, shm1) \<and>
    answer_irq_request cputime_irq (mo\<lparr>mo_currMask := m\<rparr>) shm1 = Some shm2 \<and>
    mask_shows idle_cpu (mo_cpus mo) (mo_currMask mo) m \<and> is_mask shm2 = m \<and>
    is_numIdle shm2 = int (length (filter idle_cpu (mo_cpus mo))) \<and> is_update_irq shm2 \<le> 0 \<and>
    shm_shape shm2 \<and> is_irq_samples shm2 = is_irq_samples shm \<and>
    is_needs_rebalance shm2 = is_needs_rebalance shm \<and>
    monitor_frame shm shm2 \<and> is_secondary_ctrs shm2 = is_secondary_ctrs shm \<and>
    (0 < is_needs_rebalance shm2 \<longrightarrow> twopa_ok k shm2)"
proof -
  obtain m where s1: "sample_cores idle_cpu mo shm = Some (mo\<lparr>mo_currMask := m\<rparr>,
      shm\<lparr>is_numIdle := int (length (filter idle_cpu (mo_cpus mo))), is_mask := m\<rparr>)"
    and m: "mask_shows idle_cpu (mo_cpus mo) (mo_currMask mo) m"
    using sample_cores_spec[OF assms(1)] by blast
  define shm1 where "shm1 = shm\<lparr>is_numIdle := int (length (filter idle_cpu (mo_cpus mo))), is_mask := m\<rparr>"
  have shm1: "shm_shape shm1" "is_needs_rebalance shm1 = is_needs_rebalance shm"
    using assms(2) by (simp_all add: shm1_def)
  obtain curr hist where l: "length curr = 64" "length hist = 64" and
    s2: "answer_irq_request cputime_irq (mo\<lparr>mo_currMask := m\<rparr>) shm1 = Some (if 0 < is_update_irq shm1
      then shm1\<lparr>is_curr_irq_times := curr, is_hist_irq_times := hist, is_update_irq := 0\<rparr> else shm1)"
    using answer_irq_request_ok[OF _ shm1(1), of "mo\<lparr>mo_currMask := m\<rparr>" cputime_irq] assms(1) by auto
  define shm2 where "shm2 = (if 0 < is_update_irq shm1
      then shm1\<lparr>is_curr_irq_times := curr, is_hist_irq_times := hist, is_update_irq := 0\<rparr> else shm1)"
  have tw1: "twopa_ok k shm1" if "0 < is_needs_rebalance shm"
    unfolding shm1_def by (rule twopa_ok_frame(1)[OF assms(3) _ _])
      (use that shm_shapeD[OF assms(2)] in simp_all)
  then have tw2: "twopa_ok k shm2" if "0 < is_needs_rebalance shm"
    using that twopa_ok_frame(2)[OF _ l, of k shm1 0] by (simp add: shm2_def)
  have "shm_shape shm2" using shm1(1) l by (simp add: shm2_def shm_shape_def)
  moreover have "is_mask shm2 = m" "is_numIdle shm2 = int (length (filter idle_cpu (mo_cpus mo)))"
    "is_update_irq shm2 \<le> 0" "is_irq_samples shm2 = is_irq_samples shm"
    "is_needs_rebalance shm2 = is_needs_rebalance shm" "monitor_frame shm shm2"
    "is_secondary_ctrs shm2 = is_secondary_ctrs shm"
    by (simp_all add: shm2_def shm1_def monitor_frame_def)
  ultimately show ?thesis
    using s1[folded shm1_def] s2[folded shm2_def] m tw2
    by (intro exI[of _ m] exI[of _ shm1] exI[of _ shm2]) simp
qed

text \<open>The second half: the count of samples and the log.\<close>

lemma turn_counts:
  assumes "mo_ok mo" "log_ok mo" "mo_rebalancing mo = 0" "0 \<le> mo_samples mo" "mo_samples mo \<le> 100001"
    "shm_shape shm" "0 \<le> is_irq_samples shm" "is_irq_samples shm < 2147483647"
  shows "\<exists>mo1 mo2 shm'. count_sample cputime_irq mo shm = Some (mo1, shm') \<and> log_sample now mo1 = Some mo2 \<and>
    turn_ok mo2 \<and> is_update_irq shm' = is_update_irq shm \<and> is_needs_rebalance shm' = is_needs_rebalance shm \<and>
    is_mask shm' = is_mask shm \<and> is_numIdle shm' = is_numIdle shm \<and> shm_shape shm' \<and>
    monitor_frame shm shm' \<and> is_secondary_ctrs shm' = is_secondary_ctrs shm \<and>
    (if mo_samples mo \<le> 100000
     then mo_samples mo2 = mo_samples mo + 1 \<and> is_irq_samples shm' = is_irq_samples shm
     else mo_samples mo2 = mo_samples mo \<and> is_irq_samples shm' = is_irq_samples shm + 1)"
proof -
  define mo1 where "mo1 = (if mo_samples mo \<le> 100000 then mo\<lparr>mo_samples := mo_samples mo + 1\<rparr> else mo)"
  have "\<exists>curr hist. length curr = 64 \<and> length hist = 64 \<and> count_sample cputime_irq mo shm =
    Some (mo1, if mo_samples mo \<le> 100000 then shm
      else shm\<lparr>is_curr_irq_times := curr, is_hist_irq_times := hist, is_irq_samples := is_irq_samples shm + 1\<rparr>)"
    using count_sample_ok[OF assms(1,6,4,5,7,8), of cputime_irq]
    by (cases "mo_samples mo \<le> 100000") (simp_all add: mo1_def)
  then obtain curr hist where len: "length curr = 64" "length hist = 64" and c: "count_sample cputime_irq mo shm =
    Some (mo1, if mo_samples mo \<le> 100000 then shm
      else shm\<lparr>is_curr_irq_times := curr, is_hist_irq_times := hist, is_irq_samples := is_irq_samples shm + 1\<rparr>)"
    by blast
  have mo1: "mo_ok mo1" "log_ok mo1" "mo_rebalancing mo1 = 0" using assms by (simp_all add: mo1_def)
  obtain mo2 where l: "log_sample now mo1 = Some mo2" "log_ok mo2" "mo_ok mo2" "mo_rebalancing mo2 = 0"
    "mo_samples mo2 = mo_samples mo1"
    using log_sample_keeps[OF mo1(2,1), of now] mo1(3) by auto
  have "turn_ok mo2" using l assms(4,5) by (simp add: turn_ok_def mo1_def)
  then show ?thesis
    using c l(1,5) len assms(6)
    by (cases "mo_samples mo \<le> 100000"; intro exI[of _ mo1] exI[of _ mo2])
      (simp_all add: mo1_def monitor_frame_def shm_shape_def)
qed

lemma monitor_turn_spec:
  assumes "turn_ok mo" "shm_shape shm" "sched_ok f" "0 < is_needs_rebalance shm \<longrightarrow> twopa_ok k shm"
    and "0 \<le> is_irq_samples shm" "is_irq_samples shm < 2147483647"
  shows "\<exists>mo' k' shm'. monitor_turn f idle_cpu cputime_irq now (mo, k, shm) = Some (mo', k', shm') \<and>
    turn_ok mo' \<and> is_update_irq shm' \<le> 0 \<and> is_needs_rebalance shm' \<le> 0 \<and>
    mask_shows idle_cpu (mo_cpus mo) (mo_currMask mo) (is_mask shm') \<and>
    is_numIdle shm' = int (length (filter idle_cpu (mo_cpus mo))) \<and>
    (if mo_samples mo \<le> 100000
     then mo_samples mo' = mo_samples mo + 1 \<and> is_irq_samples shm' = is_irq_samples shm
     else mo_samples mo' = mo_samples mo \<and> is_irq_samples shm' = is_irq_samples shm + 1) \<and>
    (is_needs_rebalance shm \<le> 0 \<longrightarrow> k' = k) \<and>
    shm_shape shm' \<and> monitor_frame shm shm' \<and>
    ((\<forall>ctr \<in> set (is_secondary_ctrs shm). cache_ok ctr) \<longrightarrow> (\<forall>ctr \<in> set (is_secondary_ctrs shm'). cache_ok ctr)) \<and>
    (0 < is_needs_rebalance shm \<longrightarrow> secondary_placed k' shm')"
proof -
  have mo: "mo_ok mo" "log_ok mo" "mo_rebalancing mo = 0" "0 \<le> mo_samples mo" "mo_samples mo \<le> 100001"
    using assms(1) by (simp_all add: turn_ok_def)
  obtain m shm1 shm2 where s: "sample_cores idle_cpu mo shm = Some (mo\<lparr>mo_currMask := m\<rparr>, shm1)"
    "answer_irq_request cputime_irq (mo\<lparr>mo_currMask := m\<rparr>) shm1 = Some shm2"
    and m: "mask_shows idle_cpu (mo_cpus mo) (mo_currMask mo) m" "is_mask shm2 = m"
      "is_numIdle shm2 = int (length (filter idle_cpu (mo_cpus mo)))" "is_update_irq shm2 \<le> 0"
    and shm2: "shm_shape shm2" "is_irq_samples shm2 = is_irq_samples shm"
      "is_needs_rebalance shm2 = is_needs_rebalance shm" "0 < is_needs_rebalance shm2 \<Longrightarrow> twopa_ok k shm2"
      "monitor_frame shm shm2" "is_secondary_ctrs shm2 = is_secondary_ctrs shm"
    using turn_samples[OF mo(1) assms(2) assms(4)[rule_format]] by blast
  obtain k' l where r: "answer_rebalance f (mo\<lparr>mo_currMask := m\<rparr>) (k, shm2) = Some (k', if 0 < is_needs_rebalance shm2
        then shm2\<lparr>is_secondary_ctrs := l, is_needs_rebalance := 0\<rparr> else shm2)"
    and l: "0 < is_needs_rebalance shm2 \<longrightarrow> shm_shape (shm2\<lparr>is_secondary_ctrs := l\<rparr>) \<and>
       (\<forall>ctr \<in> set l. cache_ok ctr) \<and> secondary_placed k' (shm2\<lparr>is_secondary_ctrs := l\<rparr>)"
    and k': "is_needs_rebalance shm2 \<le> 0 \<longrightarrow> k' = k"
    using answer_rebalance_ok[OF assms(3) _ shm2(1,4), of "mo\<lparr>mo_currMask := m\<rparr>"] mo(3) by auto
  define shm3 where "shm3 = (if 0 < is_needs_rebalance shm2
        then shm2\<lparr>is_secondary_ctrs := l, is_needs_rebalance := 0\<rparr> else shm2)"
  have shm3: "shm_shape shm3" "0 \<le> is_irq_samples shm3" "is_irq_samples shm3 < 2147483647"
    and same: "is_irq_samples shm3 = is_irq_samples shm" "is_needs_rebalance shm3 \<le> 0" "is_mask shm3 = m"
      "is_update_irq shm3 \<le> 0" "is_numIdle shm3 = int (length (filter idle_cpu (mo_cpus mo)))"
      "is_secondary_ctrs shm3 = (if 0 < is_needs_rebalance shm then l else is_secondary_ctrs shm)"
    using shm2 m l assms(5,6) by (simp_all add: shm3_def shm_shape_def)
  have frame: "monitor_frame shm shm3" using shm2(5) by (simp add: shm3_def monitor_frame_def)
  have placed: "secondary_placed k' shm3" if "0 < is_needs_rebalance shm"
    using l that shm2(3) by (simp add: shm3_def secondary_placed_def entitled_def)
  obtain mo1 mo2 shm4 where c: "count_sample cputime_irq (mo\<lparr>mo_currMask := m\<rparr>) shm3 = Some (mo1, shm4)"
    "log_sample now mo1 = Some mo2" "turn_ok mo2"
    and shm4: "is_update_irq shm4 = is_update_irq shm3" "is_needs_rebalance shm4 = is_needs_rebalance shm3"
      "is_mask shm4 = is_mask shm3" "is_numIdle shm4 = is_numIdle shm3" "shm_shape shm4"
      "monitor_frame shm3 shm4" "is_secondary_ctrs shm4 = is_secondary_ctrs shm3"
    and n: "if mo_samples mo \<le> 100000
     then mo_samples mo2 = mo_samples mo + 1 \<and> is_irq_samples shm4 = is_irq_samples shm3
     else mo_samples mo2 = mo_samples mo \<and> is_irq_samples shm4 = is_irq_samples shm3 + 1"
    using turn_counts[of "mo\<lparr>mo_currMask := m\<rparr>" shm3 cputime_irq now] mo shm3 by auto
  have "monitor_turn f idle_cpu cputime_irq now (mo, k, shm) = Some (mo2, k', shm4)"
    unfolding monitor_turn_def prod.case s bind.simps r shm3_def[symmetric] c(1,2) ..
  moreover have "monitor_frame shm shm4" using frame shm4(6) by (rule monitor_frame_trans)
  moreover have "secondary_placed k' shm4" if "0 < is_needs_rebalance shm"
    using secondary_placed_frame[OF shm4(6,7)] placed[OF that] by blast
  ultimately show ?thesis
    using c(3) m same shm4 n k' l shm2(3)
    by (intro exI[of _ mo2] exI[of _ k'] exI[of _ shm4]) simp
qed



subsection \<open>Interrupt affinity\<close>

text \<open>
  \<open>set_irq_affinity\<close> sends every listed interrupt to one and the same mask: the first
  \<open>num_cpus\<close> cores of the module's own affinity list together with the cores granted to the
  Secondary.
\<close>

lemma irq_affinity_mask:
  assumes "length (mo_irqAffinity mo) = 32" "0 \<le> n" "n \<le> 32"
    and "length (mo_irqList mo) = 64" "0 \<le> mo_NUM_INTERRUPTS mo" "mo_NUM_INTERRUPTS mo \<le> 64"
    and "shm_shape shm" "0 \<le> is_num_affinity shm" "is_num_affinity shm \<le> 64"
    and "m = set (take (nat n) (mo_irqAffinity mo)) \<union>
      set (take (nat (is_num_affinity shm)) (is_affinity_list shm))"
    and "\<forall>c \<in> m. 0 \<le> c \<and> c < nr_cpus"
  shows "set_irq_affinity nr_cpus n shm mo =
    Some (0, map (\<lambda>irq. (irq, m)) (take (nat (mo_NUM_INTERRUPTS mo)) (mo_irqList mo)))"
proof -
  let ?A = "set (take (nat n) (mo_irqAffinity mo))" and ?N = "nat (mo_NUM_INTERRUPTS mo)"
  have a: "add_cpus nr_cpus (mo_irqAffinity mo) n {} = Some ({} \<union> ?A)"
    by (rule add_cpus_eq) (use assms in \<open>simp_all\<close>)
  have b: "add_cpus nr_cpus (is_affinity_list shm) (is_num_affinity shm) ?A = Some m"
    unfolding assms(10) by (rule add_cpus_eq) (use assms in \<open>simp_all add: shm_shapeD\<close>)
  let ?body = "\<lambda>i calls. do { irq \<leftarrow> arr_get (mo_irqList mo) (int i); Some (calls @ [(irq, m)]) }"
  have "\<exists>t. for_loop 0 ?N ?body [] = Some t \<and> t = map (\<lambda>irq. (irq, m)) (take (0 + ?N) (mo_irqList mo))"
  proof (rule for_loop_total[where P = "\<lambda>i t. t = map (\<lambda>irq. (irq, m)) (take i (mo_irqList mo))"])
    fix i t
    assume "i < 0 + ?N" "t = map (\<lambda>irq. (irq, m)) (take i (mo_irqList mo))"
    then show "\<exists>y. ?body i t = Some y \<and> y = map (\<lambda>irq. (irq, m)) (take (Suc i) (mo_irqList mo))"
      using assms(4-6) by (simp add: take_Suc_conv_app_nth)
  qed simp
  then show ?thesis unfolding set_irq_affinity_def a by (simp add: b)
qed

lemma irq_affinity_mask_witness:
  "set_irq_affinity 64 1 sample_twopa sample_monitor = Some (0, [(30, {0, 4, 5}), (31, {0, 4, 5})])"
proof -
  have "shm_shape sample_twopa" using sample_twopa_ok by (simp add: twopa_ok_def)
  moreover have "is_num_affinity sample_twopa = 2" "take 2 (is_affinity_list sample_twopa) = [4, 5]"
    "take 1 (mo_irqAffinity sample_monitor) = [0]" "take 2 (mo_irqList sample_monitor) = [30, 31]"
    "mo_NUM_INTERRUPTS sample_monitor = 2" "length (mo_irqAffinity sample_monitor) = 32"
    "length (mo_irqList sample_monitor) = 64"
    by (simp_all add: sample_twopa_def sample_monitor_def numeral_2_eq_2)
  ultimately show ?thesis
    using irq_affinity_mask[of sample_monitor 1 sample_twopa _ 64] by (simp add: insert_commute)
qed

end
