(* ===== verification/ProcfsFacts.thy ===== *)
theory ProcfsFacts imports Procfs MonitorLoop begin

section \<open>What the files of the Monitor do (procfs.h)\<close>

text \<open>
  The list writers are sinks for integers, so what was printed is parsed back; the readers append
  behind the bytes of the previous read; the log is drained entry by entry; a write that fails
  changes nothing.
\<close>

subsection \<open>The list writers\<close>

interpretation mon_cpus: int_sink cpulist_token mo_cpuList
proof
  fix n :: int and s :: monitor and tok v
  assume "0 \<le> n" "n < int (length (mo_cpuList s))" "length (mo_cpuList s) \<le> 128" "sscanf_d tok = Some (Some v)"
  then show "\<exists>s'. cpulist_token tok (n, s) = Some (n + 1, s') \<and> mo_cpuList s' = (mo_cpuList s)[nat n := v]"
    by (simp add: cpulist_token_def scan_into_conv c_add_bind in_int_def)
qed

interpretation mon_irqs: int_sink irqlist_token mo_irqList
proof
  fix n :: int and s :: monitor and tok v
  assume "0 \<le> n" "n < int (length (mo_irqList s))" "length (mo_irqList s) \<le> 128" "sscanf_d tok = Some (Some v)"
  then show "\<exists>s'. irqlist_token tok (n, s) = Some (n + 1, s') \<and> mo_irqList s' = (mo_irqList s)[nat n := v]"
    by (simp add: irqlist_token_def scan_into_conv c_add_bind in_int_def)
qed

interpretation mon_irq_cpus: int_sink irqaffinity_token mo_irqAffinity
proof
  fix n :: int and s :: monitor and tok v
  assume "0 \<le> n" "n < int (length (mo_irqAffinity s))" "length (mo_irqAffinity s) \<le> 128"
    "sscanf_d tok = Some (Some v)"
  then show "\<exists>s'. irqaffinity_token tok (n, s) = Some (n + 1, s') \<and>
      mo_irqAffinity s' = (mo_irqAffinity s)[nat n := v]"
    by (simp add: irqaffinity_token_def scan_into_conv c_add_bind in_int_def)
qed

lemma digit_not_nul: "c_isdigit c \<Longrightarrow> c \<noteq> CHR 0x00"
  by (auto simp: c_isdigit_def)

lemma show_int_no_nul: "CHR 0x00 \<notin> set (show_int v)"
  using show_nat_digits digit_not_nul by (auto simp: show_int_def)

lemma c_string_id: "CHR 0x00 \<notin> set s \<Longrightarrow> c_string s = s"
  by (auto simp: c_string_def takeWhile_eq_all_conv)

lemma set_join: "c \<in> set (join d ts) \<Longrightarrow> c = d \<or> (\<exists>t \<in> set ts. c \<in> set t)"
  by (induction d ts rule: join.induct) auto

lemma render_no_nul: "CHR 0x00 \<notin> set (render_list vs)"
  unfolding render_list_def using set_join[of "CHR 0x00" "CHR '',''" "map show_int vs"] show_int_no_nul by auto

definition good_write :: "string \<Rightarrow> write_request" where
  "good_write s = \<lparr>wr_alloc = True, wr_copied = True, wr_data = s\<rparr>"

lemma user_copy_good: "CHR 0x00 \<notin> set s \<Longrightarrow> user_copy e (good_write s) = Inr s"
  by (simp add: user_copy_def good_write_def c_string_id)

text \<open>
  Writing a comma-separated list of at most 64 numbers to \<open>cpulist\<close> (\<open>irqlist\<close>) installs
  exactly these numbers and their count; the buffer of the request is never freed, because
  \<open>strsep\<close> has made the pointer null.
\<close>

lemma written_list_installed:
  assumes "vs \<noteq> []" "\<forall>v \<in> set vs. in_int v" "length vs \<le> 64"
    and "length (mo_cpuList mo) = 64" "length (mo_irqList mo) = 64"
  shows "\<exists>mo' mo'' rp. cpulist_writer (good_write (render_list vs)) mo = Some (rp, mo') \<and>
    irqlist_writer (good_write (render_list vs)) mo = Some (rp, mo'') \<and>
    mo_cpus mo' = vs \<and> mo_NUMCPUS mo' = int (length vs) \<and> length (mo_cpuList mo') = 64 \<and>
    take (length vs) (mo_irqList mo'') = vs \<and> mo_NUM_INTERRUPTS mo'' = int (length vs) \<and>
    length (mo_irqList mo'') = 64 \<and> wp_leaked rp"
proof -
  obtain m where m: "while_strsep CHR '','' cpulist_token (Some (render_list vs)) (0, mo) = Some (int (length vs), m)"
    "length (mo_cpuList m) = 64" "take (length vs) (mo_cpuList m) = vs"
    using mon_cpus.parse_render[of vs mo] assms by auto
  obtain i where i: "while_strsep CHR '','' irqlist_token (Some (render_list vs)) (0, mo) = Some (int (length vs), i)"
    "length (mo_irqList i) = 64" "take (length vs) (mo_irqList i) = vs"
    using mon_irqs.parse_render[of vs mo] assms by auto
  show ?thesis
    using m i by (simp add: cpulist_writer_def irqlist_writer_def user_copy_good render_no_nul mo_cpus_def)
qed

lemma written_list_installed_witness:
  "\<exists>mo' rp. cpulist_writer (good_write (render_list [4, 5, 63])) sample_monitor = Some (rp, mo') \<and>
     mo_cpus mo' = [4, 5, 63] \<and> wp_leaked rp"
proof -
  have "length (mo_cpuList sample_monitor) = 64" "length (mo_irqList sample_monitor) = 64"
    by (simp_all add: sample_monitor_def)
  then show ?thesis
    using written_list_installed[of "[4, 5, 63]" sample_monitor] by (auto simp: in_int_def)
qed

subsection \<open>Failing writes\<close>

text \<open>
  C30. A write that fails leaves the module as it was and makes no kernel call, for every file; but
  when the copy from the user fails, every writer except the one of \<open>logcontrol\<close> returns plus 14,
  which the caller takes for 14 bytes written.
\<close>

theorem failing_writes:
  assumes "proc_write f nr_cpus shm rq mo = Inr (Some (rp, mo'))"
    and "wp_ret rp < 0 \<or> \<not> wr_alloc rq \<or> \<not> wr_copied rq"
  shows "mo' = mo \<and> wp_calls rp = [] \<and>
    (wr_alloc rq \<longrightarrow> \<not> wr_copied rq \<longrightarrow> wp_ret rp = (if f = Logcontrol_file then -14 else 14))"
proof -
  have w: "0 \<le> written rq" by (simp add: written_def PROCFS_MAX_SIZE_def)
  note fs = control_writer_def logcontrol_writer_def irqcontrol_writer_def bindcpu_writer_def
    cpulist_writer_def irqlist_writer_def irqaffinity_writer_def
  show ?thesis
  proof (cases "wr_alloc rq \<and> wr_copied rq")
    case True
    then have neg: "wp_ret rp < 0" and c: "user_copy e rq = Inr (c_string (wr_data rq))" for e
      using assms(2) by (auto simp: user_copy_def)
    show ?thesis
      using assms(1) True neg w
      by (cases f) (auto simp: proc_write_def fs c failed_def bind_eq_Some_conv Let_def
          split: option.splits if_splits)
  next
    case False
    then have c: "user_copy e rq = Inl (if wr_alloc rq then e else - ENOMEM)" for e
      by (auto simp: user_copy_def)
    show ?thesis
      using assms(1) by (cases f) (auto simp: proc_write_def fs c failed_def EFAULT_def)
  qed
qed

theorem failing_writes_witness:
  "\<exists>rp. proc_write Control_file 8 None \<lparr>wr_alloc = True, wr_copied = False, wr_data = ''1''\<rparr> sample_monitor
      = Inr (Some (rp, sample_monitor)) \<and> wp_ret rp = 14"
proof -
  let ?rq = "\<lparr>wr_alloc = True, wr_copied = False, wr_data = ''1''\<rparr>"
  have r: "proc_write Control_file 8 None ?rq sample_monitor = Inr (Some (failed EFAULT False, sample_monitor))"
    by (simp add: proc_write_def control_writer_def user_copy_def)
  show ?thesis using failing_writes[OF r] r by auto
qed

text \<open>
  The log level is always 0, 1 or 2: every write to any of the files keeps it in this range.
\<close>

lemma log_level_in_range:
  assumes "0 \<le> mo_LOG_LEVEL mo" "mo_LOG_LEVEL mo \<le> 2"
    and "proc_write f nr_cpus shm rq mo = Inr (Some (rp, mo'))"
  shows "0 \<le> mo_LOG_LEVEL mo' \<and> mo_LOG_LEVEL mo' \<le> 2"
proof -
  have c: "mo_LOG_LEVEL (snd y) = mo_LOG_LEVEL (snd x)"
    if "cpulist_token t x = Some y \<or> irqlist_token t x = Some y \<or> irqaffinity_token t x = Some y" for t x y
    using that by (cases x) (auto simp: cpulist_token_def irqlist_token_def irqaffinity_token_def bind_eq_Some_conv)
  have keep: "mo_LOG_LEVEL (snd y) = mo_LOG_LEVEL (snd x)"
    if "run_all b ts x = Some y" "b = cpulist_token \<or> b = irqlist_token \<or> b = irqaffinity_token" for b ts x y
    using that(1)
  proof (induction ts arbitrary: x)
    case (Cons t ts)
    then obtain z where z: "b t x = Some z" "run_all b ts z = Some y" by (auto simp: bind_eq_Some_conv)
    then show ?case using Cons.IH[OF z(2)] c[of t x z] that(2) by auto
  qed simp
  have wh: "mo_LOG_LEVEL m = mo_LOG_LEVEL mo"
    if "while_strsep d b (Some s) (0, mo) = Some (n, m)"
      "b = cpulist_token \<or> b = irqlist_token \<or> b = irqaffinity_token" for d b s n m
    using keep[OF that(1)[unfolded while_strsep_tokens] that(2)] by simp
  show ?thesis
    using assms
    by (cases f)
      (auto simp: proc_write_def control_writer_def logcontrol_writer_def irqcontrol_writer_def
        bindcpu_writer_def cpulist_writer_def irqlist_writer_def irqaffinity_writer_def
        bind_eq_Some_conv Let_def wh split: option.splits if_splits sum.splits)
qed

lemma log_level_in_range_witness:
  "\<exists>rp mo'. proc_write Logcontrol_file 8 None (good_write ''7'') sample_monitor = Inr (Some (rp, mo')) \<and>
     0 \<le> mo_LOG_LEVEL mo' \<and> mo_LOG_LEVEL mo' \<le> 2"
proof -
  have "\<exists>rp mo'. proc_write Logcontrol_file 8 None (good_write ''7'') sample_monitor = Inr (Some (rp, mo'))"
    by (simp add: proc_write_def logcontrol_writer_def good_write_def user_copy_def c_string_def
        sscanf_d_def read_signed_def read_unsigned_def c_isspace_def c_isdigit_def digit_val_def in_int_def)
  moreover have "0 \<le> mo_LOG_LEVEL sample_monitor" "mo_LOG_LEVEL sample_monitor \<le> 2"
    by (simp_all add: sample_monitor_def)
  ultimately show ?thesis using log_level_in_range by blast
qed

subsection \<open>Reading the lists back\<close>

lemma length_show_nat: "n < 10 ^ k \<Longrightarrow> 0 < k \<Longrightarrow> length (show_nat n) \<le> k"
proof (induction n arbitrary: k rule: show_nat.induct)
  case (1 n)
  show ?case
  proof (cases "n < 10")
    case True
    then show ?thesis using 1(3) by (subst show_nat.simps) simp
  next
    case False
    obtain k' where k: "k = Suc k'" using 1(3) by (cases k) simp_all
    have k0: "0 < k'" using 1(2) False k by (cases k') simp_all
    have "n div 10 < 10 ^ k'" using 1(2) k by (simp add: less_mult_imp_div_less mult.commute)
    then have "length (show_nat (n div 10)) \<le> k'" using 1(1) False k0 by blast
    then show ?thesis using False k by (subst show_nat.simps) simp
  qed
qed

lemma length_show_int: "in_int v \<Longrightarrow> length (show_int v) \<le> 11"
  using length_show_nat[of "nat (- v)" 10] length_show_nat[of "nat v" 10]
  by (force simp: show_int_def in_int_def)

lemma take_append_text:
  assumes "sprintf_at buf pos s = Some b"
  shows "length b = length buf" "take (unat pos + length s) b = take (unat pos) buf @ map Some s"
proof -
  have l: "unat pos + length s + 1 \<le> length buf"
    and b: "b = take (unat pos) buf @ map Some s @ Some CHR 0x00 # drop (unat pos + length s + 1) buf"
    using assms by (auto simp: sprintf_at_def split: if_splits)
  have t: "length (take (unat pos) buf) = unat pos" using l by simp
  show "length b = length buf" using l by (simp add: b)
  show "take (unat pos + length s) b = take (unat pos) buf @ map Some s"
    unfolding b using t by simp
qed

lemma unat_small: "n \<le> 10000000 \<Longrightarrow> unat (of_nat n :: u64) = n"
  by (simp add: unsigned_of_nat take_bit_nat_eq_self)

lemma append_text_ok:
  assumes "unat (mo_procfs_buffer_size mo) = p" "p + length s + 1 \<le> length buf" "length buf \<le> 1000000"
  shows "\<exists>b. append_text (buf, mo) s =
      Some (b, mo\<lparr>mo_procfs_buffer_size := of_nat (p + length s)\<rparr>) \<and> length b = length buf \<and>
    take (p + length s) b = take p buf @ map Some s \<and>
    unat (of_nat (p + length s) :: u64) = p + length s"
proof -
  obtain b where b: "sprintf_at buf (mo_procfs_buffer_size mo) s = Some b"
    using assms by (auto simp: sprintf_at_def)
  have "mo_procfs_buffer_size mo = of_nat p" by (simp flip: assms(1))
  moreover have "unat (of_nat (p + length s) :: u64) = p + length s"
    using assms by (intro unat_small) simp
  ultimately show ?thesis using take_append_text[OF b] b assms(1) by (auto simp: append_text_def)
qed

lemma print_entries_ok:
  assumes "\<And>i. i < n \<Longrightarrow> entry i = Some (ts ! i)" "length ts = n"
    and "unat (mo_procfs_buffer_size mo) = p" "p + length (concat ts) + 1 \<le> length buf"
      "length buf \<le> 1000000"
  shows "\<exists>b. print_entries entry n (buf, mo) =
      Some (b, mo\<lparr>mo_procfs_buffer_size := of_nat (p + length (concat ts))\<rparr>) \<and> length b = length buf \<and>
    take (p + length (concat ts)) b = take p buf @ map Some (concat ts)"
proof -
  let ?len = "\<lambda>i. length (concat (take i ts))"
  let ?P = "\<lambda>i (b, m). length b = length buf \<and> m = mo\<lparr>mo_procfs_buffer_size := of_nat (p + ?len i)\<rparr> \<and>
    take (p + ?len i) b = take p buf @ map Some (concat (take i ts))"
  have "\<exists>t. for_loop 0 n (\<lambda>pos s. entry pos \<bind> append_text s) (buf, mo) = Some t \<and> ?P (0 + n) t"
  proof (rule for_loop_total)
    have "mo = mo\<lparr>mo_procfs_buffer_size := of_nat p\<rparr>" using assms(3) by (simp flip: assms(3))
    then show "?P 0 (buf, mo)" by simp
    fix i x
    assume i: "i < 0 + n" and P: "?P i x"
    obtain b m where x: "x = (b, m)" by (cases x)
    have s: "take (Suc i) ts = take i ts @ [ts ! i]" using i assms(2) by (simp add: take_Suc_conv_app_nth)
    have "concat ts = concat (take (Suc i) ts) @ concat (drop (Suc i) ts)"
      by (metis append_take_drop_id concat_append)
    then have fits: "p + ?len i + length (ts ! i) + 1 \<le> length b"
      using assms(4) P x by (auto simp: s)
    have u: "unat (mo_procfs_buffer_size m) = p + ?len i"
      using P x fits assms(5) unat_small[of "p + ?len i"] by simp
    obtain b' where "append_text (b, m) (ts ! i) =
        Some (b', m\<lparr>mo_procfs_buffer_size := of_nat (p + ?len i + length (ts ! i))\<rparr>)"
      "length b' = length b" "take (p + ?len i + length (ts ! i)) b' = take (p + ?len i) b @ map Some (ts ! i)"
      using append_text_ok[OF u fits] P x assms(5) by auto
    then show "\<exists>y. entry i \<bind> append_text x = Some y \<and> ?P (Suc i) y"
      using assms(1)[of i] i P x by (simp add: s add.assoc)
  qed
  then show ?thesis using assms(2) by (auto simp: print_entries_def)
qed

text \<open>What one read of \<open>cpulist\<close> appends.\<close>

definition list_text :: "int list \<Rightarrow> string" where
  "list_text vs = concat (map (\<lambda>v. show_int v @ '','') vs) @ list_end"

lemma length_list_text:
  assumes "\<forall>v \<in> set vs. in_int v"
  shows "length (list_text vs) \<le> 12 * length vs + 4"
  using assms
proof (induction vs)
  case (Cons v vs)
  then show ?case using length_show_int[of v] by (simp add: list_text_def)
qed (simp add: list_text_def list_end_def)

lemma vmalloc_page: "0 < n \<Longrightarrow> n \<le> 4096 \<Longrightarrow> vmalloc n = replicate 4096 None"
proof -
  assume "0 < n" "n \<le> 4096"
  then have "(n + 4095) div 4096 = 1" by (intro div_nat_eqI) simp_all
  then show ?thesis by (simp add: vmalloc_def)
qed

definition good_read :: read_request where
  "good_read = \<lparr>rr_offset = 0, rr_count = 1024, rr_copied = True\<rparr>"

lemma mo_ok_entry: "mo_ok mo \<Longrightarrow> i < nat (mo_NUMCPUS mo) \<Longrightarrow> arr_get (mo_cpuList mo) (int i) = Some (mo_cpus mo ! i)"
  by (rule mo_ok_nth(1))

lemma cpulist_reader_ok:
  assumes "mo_ok mo" "0 < mo_NUMCPUS mo" "unat (mo_procfs_buffer_size mo) = p" "p \<le> 3000"
  shows "cpulist_reader good_read mo = Some
    (\<lparr>rp_ret = int (p + length (list_text (mo_cpus mo))),
      rp_data = replicate p None @ map Some (list_text (mo_cpus mo)),
      rp_offset = int (p + length (list_text (mo_cpus mo))), rp_leaked = False\<rparr>,
     mo\<lparr>mo_procfs_buffer_size := of_nat (p + length (list_text (mo_cpus mo)))\<rparr>)"
proof -
  let ?N = "nat (mo_NUMCPUS mo)" and ?ts = "map (\<lambda>v. show_int v @ '','') (mo_cpus mo)"
  have N: "0 < ?N" "?N \<le> 64" "length (mo_cpus mo) = ?N"
    using assms(1,2) mo_ok_length[OF assms(1)] by (auto simp: mo_ok_def)
  have ints: "\<forall>v \<in> set (mo_cpus mo). in_int v" using assms(1) by (auto simp: mo_ok_def core_ok_def in_int_def)
  have len: "length (concat ?ts) + 4 \<le> 12 * 64 + 4"
    using length_list_text[OF ints] N by (simp add: list_text_def list_end_def)
  have page: "vmalloc ?N = replicate 4096 None" using N by (intro vmalloc_page) simp_all
  let ?e = "\<lambda>pos. do { c \<leftarrow> arr_get (mo_cpuList mo) (int pos); Some (show_int c @ '','') }"
  obtain b where b: "print_entries ?e ?N (replicate 4096 None, mo) =
      Some (b, mo\<lparr>mo_procfs_buffer_size := of_nat (p + length (concat ?ts))\<rparr>)" "length b = 4096"
    "take (p + length (concat ?ts)) b = replicate p None @ map Some (concat ?ts)"
    using print_entries_ok[of ?N ?e ?ts mo p "replicate 4096 None"] mo_ok_entry[OF assms(1)] N assms(3,4) len
    by auto
  let ?q = "p + length (concat ?ts)" and ?m = "mo\<lparr>mo_procfs_buffer_size := of_nat (p + length (concat ?ts))\<rparr>"
  have q: "unat (mo_procfs_buffer_size ?m) = ?q" using len assms(4) unat_small[of ?q] by simp
  have le: "length list_end = 4" by (simp add: list_end_def)
  have pre: "?q + length list_end + 1 \<le> length b" "length b \<le> 1000000" using b(2) len assms(4) le by simp_all
  obtain b' where b': "append_text (b, ?m) list_end =
      Some (b', mo\<lparr>mo_procfs_buffer_size := of_nat (?q + 4)\<rparr>)" "length b' = 4096"
    "take (?q + 4) b' = replicate p None @ map Some (concat ?ts @ list_end)" "unat (of_nat (?q + 4) :: u64) = ?q + 4"
    using append_text_ok[OF q pre] unfolding le b(2,3) by (auto simp del: of_nat_add)
  have lt: "p + length (list_text (mo_cpus mo)) = ?q + 4" by (simp add: list_text_def list_end_def)
  have "\<not> skips_read good_read" by (simp add: skips_read_def good_read_def PROCFS_MAX_SIZE_def)
  moreover have "copy_out good_read b' (mo\<lparr>mo_procfs_buffer_size := of_nat (?q + 4)\<rparr>) = Some
      (\<lparr>rp_ret = int (?q + 4), rp_data = take (?q + 4) b', rp_offset = int (?q + 4), rp_leaked = False\<rparr>,
       mo\<lparr>mo_procfs_buffer_size := of_nat (?q + 4)\<rparr>)"
    using b'(2,4) len assms(4) by (simp add: copy_out_def good_read_def)
  ultimately show ?thesis
    unfolding cpulist_reader_def page b(1) bind.simps prod.case b'(1) lt
    by (simp add: b'(3)) (simp add: list_text_def)
qed

text \<open>
  Every read of \<open>cpulist\<close> appends behind the bytes of the reads before it: the first read
  returns the list, a later one starts with as many bytes as were returned before, never
  written in the new buffer (\<open>None\<close>: the contents of a recycled kernel page), and then the list.
\<close>

lemma second_read_leaks:
  assumes "mo_ok mo" "0 < mo_NUMCPUS mo" "mo_procfs_buffer_size mo = 0"
  shows "\<exists>rp1 mo1 rp2 mo2. cpulist_reader good_read mo = Some (rp1, mo1) \<and>
    rp_data rp1 = map Some (list_text (mo_cpus mo)) \<and>
    cpulist_reader good_read mo1 = Some (rp2, mo2) \<and>
    rp_data rp2 = replicate (length (rp_data rp1)) None @ map Some (list_text (mo_cpus mo))"
proof -
  let ?n = "length (list_text (mo_cpus mo))"
  have ints: "\<forall>v \<in> set (mo_cpus mo). in_int v" using assms(1) by (auto simp: mo_ok_def core_ok_def in_int_def)
  have n: "?n \<le> 3000"
    using length_list_text[OF ints] mo_ok_length[OF assms(1)] assms(1) by (auto simp: mo_ok_def)
  let ?m = "mo\<lparr>mo_procfs_buffer_size := of_nat ?n\<rparr>"
  have r1: "cpulist_reader good_read mo = Some
    (\<lparr>rp_ret = int ?n, rp_data = map Some (list_text (mo_cpus mo)), rp_offset = int ?n, rp_leaked = False\<rparr>, ?m)"
    using cpulist_reader_ok[OF assms(1,2), of 0] assms(3) by simp
  have m: "mo_ok ?m" "0 < mo_NUMCPUS ?m" "mo_cpus ?m = mo_cpus mo" "unat (mo_procfs_buffer_size ?m) = ?n"
    using assms(1,2) n unat_small[of ?n] by (simp_all add: mo_ok_def mo_cpus_def)
  show ?thesis
    unfolding r1 using cpulist_reader_ok[OF m(1,2,4) n] unfolding m(3) by simp
qed

lemma second_read_leaks_witness:
  "\<exists>rp1 mo1 rp2 mo2. cpulist_reader good_read sample_monitor = Some (rp1, mo1) \<and>
    rp_data rp1 = map Some (list_text [0, 1, 2]) \<and> cpulist_reader good_read mo1 = Some (rp2, mo2) \<and>
    hd (rp_data rp2) = None"
proof -
  have "0 < mo_NUMCPUS sample_monitor" "mo_procfs_buffer_size sample_monitor = 0"
    by (simp_all add: sample_monitor_def)
  then obtain rp1 mo1 rp2 mo2 where r: "cpulist_reader good_read sample_monitor = Some (rp1, mo1)"
    "rp_data rp1 = map Some (list_text [0, 1, 2])" "cpulist_reader good_read mo1 = Some (rp2, mo2)"
    "rp_data rp2 = replicate (length (rp_data rp1)) None @ map Some (list_text [0, 1, 2])"
    using second_read_leaks[OF sample_mo_ok(1)] unfolding sample_mo_ok(2) by blast
  have "length (rp_data rp1) \<noteq> 0" using r(2) by (simp add: list_text_def list_end_def)
  then have "hd (rp_data rp2) = None" using r(4) by (cases "length (rp_data rp1)") simp_all
  then show ?thesis using r(1-3) by blast
qed

subsection \<open>Writing back what was read\<close>

lemma join_snoc: "join d (ts @ [e]) = concat (map (\<lambda>t. t @ [d]) ts) @ e"
proof (induction ts)
  case (Cons t ts)
  then show ?case by (cases ts) simp_all
qed simp

lemma tokens_list_text: "tokens CHR '','' (list_text vs) = map show_int vs @ [list_end]"
proof -
  have "list_text vs = join CHR '','' (map show_int vs @ [list_end])"
    unfolding join_snoc list_text_def by (simp add: comp_def)
  then show ?thesis
    using show_int_no_comma by (simp add: tokens_join) (subst tokens_join, auto simp: list_end_def)
qed

lemma list_end_no_number: "sscanf_d list_end = Some None"
  by (simp add: sscanf_d_def read_signed_def read_unsigned_def list_end_def c_isspace_def c_isdigit_def)

lemma list_text_no_nul: "CHR 0x00 \<notin> set (list_text vs)"
  using show_int_no_nul by (auto simp: list_text_def list_end_def)

lemma for_loop_65_None:
  assumes "\<And>x. body 64 x = None"
  shows "for_loop 0 65 body s = None"
  using for_loop_snoc[of 0 64 body s] assms by (cases "for_loop 0 64 body s") simp_all

text \<open>
  Writing to \<open>cpulist\<close> what a read of it returned adds one monitored core, whatever is left in
  the array behind the list: the text after the last comma is counted as an entry but converts to
  no number.  From a full list of 64 cores the next sample then reads outside the array.
\<close>

lemma read_then_write_grows:
  assumes "mo_ok mo" "0 < mo_NUMCPUS mo"
  shows "\<exists>rp mo'. cpulist_writer (good_write (list_text (mo_cpus mo))) mo = Some (rp, mo') \<and>
    mo_NUMCPUS mo' = mo_NUMCPUS mo + 1 \<and> take (nat (mo_NUMCPUS mo)) (mo_cpuList mo') = mo_cpus mo \<and>
    (mo_NUMCPUS mo = 64 \<longrightarrow> sample_cores idle_cpu mo' shm = None)"
proof -
  let ?vs = "mo_cpus mo" and ?N = "nat (mo_NUMCPUS mo)"
  have N: "length ?vs = ?N" "?N \<le> 64" "length (mo_cpuList mo) = 64" "0 < ?N"
    using mo_ok_length[OF assms(1)] assms by (auto simp: mo_ok_def)
  have ints: "\<forall>v \<in> set ?vs. in_int v" using assms(1) by (auto simp: mo_ok_def core_ok_def in_int_def)
  then have "list_all2 (\<lambda>t v. sscanf_d t = Some (Some v)) (map show_int ?vs) ?vs"
    by (simp add: list_all2_conv_all_nth sscanf_show)
  from mon_cpus.run_tokens[OF this, of 0 mo] obtain m where
    m: "run_all cpulist_token (map show_int ?vs) (0, mo) = Some (int ?N, m)"
    "length (mo_cpuList m) = 64" "take ?N (mo_cpuList m) = ?vs"
    using N by auto
  have last: "cpulist_token list_end (int ?N, m) = Some (int ?N + 1, m)"
    using N m(2) by (simp add: cpulist_token_def scan_into_def list_end_no_number c_add_bind in_int_def)
  have w: "while_strsep CHR '','' cpulist_token (Some (list_text ?vs)) (0, mo) = Some (int ?N + 1, m)"
    by (simp only: while_strsep_tokens tokens_list_text run_all_append m(1) bind.simps run_all.simps last)
  let ?m = "m\<lparr>mo_NUMCPUS := int ?N + 1\<rparr>"
  have "sample_cores idle_cpu ?m shm = None" if "mo_NUMCPUS mo = 64"
  proof -
    have "sample_core idle_cpu ?m 64 x = None" for x
      using m(2) by (cases x) (simp add: sample_core_def arr_get_def)
    then have "for_loop 0 65 (sample_core idle_cpu ?m) (0, mo_currMask ?m) = None"
      by (rule for_loop_65_None)
    then show ?thesis using that by (simp add: sample_cores_def)
  qed
  then show ?thesis
    using w m(3) assms(2) by (simp add: cpulist_writer_def user_copy_good list_text_no_nul)
qed

lemma read_then_write_grows_witness:
  "\<exists>rp mo'. cpulist_writer (good_write (list_text [0, 1, 2])) sample_monitor = Some (rp, mo') \<and>
     mo_NUMCPUS mo' = 4"
proof -
  have "mo_NUMCPUS sample_monitor = 3" by (simp add: sample_monitor_def)
  then show ?thesis
    using read_then_write_grows[OF sample_mo_ok(1), of undefined undefined] unfolding sample_mo_ok(2) by auto
qed

subsection \<open>Draining the log\<close>

definition log_line :: "int \<Rightarrow> monitor_logentry \<Rightarrow> string" where
  "log_line last_cpu e = show_nat (unat (ml_sec e)) @ '','' @ show_nat (unat (ml_nsec e)) @ '','' @
     map (\<lambda>i. if bit (ml_mask e) i then CHR ''1'' else CHR ''0'') [0..<nat (last_cpu + 1)] @ [CHR 0x0A]"

lemma log_mask_eq:
  assumes "core_ok c"
  shows "log_mask m c = Some (map (\<lambda>i. if bit m i then CHR ''1'' else CHR ''0'') [0..<nat (c + 1)])"
proof -
  let ?f = "\<lambda>i. if bit m i then CHR ''1'' else CHR ''0''"
  have "\<exists>t. for_loop 0 (nat (c + 1))
      (\<lambda>i t. do { b \<leftarrow> shl1 (int i); Some (t @ (if m AND b \<noteq> 0 then ''1'' else ''0'')) }) [] = Some t \<and>
      t = map ?f [0..<0 + nat (c + 1)]"
  proof (rule for_loop_total[where P = "\<lambda>i t. t = map ?f [0..<i]"])
    fix i t
    assume i: "i < 0 + nat (c + 1)" and t: "t = map ?f [0..<i]"
    have "core_ok (int i)" "i < 64" using i assms by (auto simp: core_ok_def)
    then show "\<exists>y. (do { b \<leftarrow> shl1 (int i); Some (t @ (if m AND b \<noteq> 0 then ''1'' else ''0'')) }) = Some y \<and>
        y = map ?f [0..<Suc i]"
      using t and_shl1_nonzero[of m i] by simp
  qed simp
  then show ?thesis by (simp add: log_mask_def)
qed

lemma length_log_line: "core_ok c \<Longrightarrow> length (log_line c e) \<le> 110"
proof -
  have "unat w < 10 ^ 20" for w :: u64
  proof -
    have "unat w < 2 ^ 64" using unsigned_less[of w] by simp
    then show ?thesis by simp
  qed
  then have "length (show_nat (unat w)) \<le> 20" for w :: u64 by (intro length_show_nat) simp_all
  moreover have "nat (c + 1) \<le> 64" if "core_ok c" using that by (auto simp: core_ok_def)
  ultimately show "core_ok c \<Longrightarrow> length (log_line c e) \<le> 110"
    using add_mono[of "length (show_nat (unat (ml_sec e)))" 20 "length (show_nat (unat (ml_nsec e)))" 20]
    by (force simp: log_line_def)
qed

text \<open>The reads of a client until nothing is left.\<close>

fun drain_log :: "nat \<Rightarrow> monitor \<Rightarrow> (char option list list \<times> monitor) option" where
  "drain_log 0 mo = Some ([], mo)"
| "drain_log (Suc n) mo = do {
     (rp, mo) \<leftarrow> log_reader good_read mo;
     (rest, mo) \<leftarrow> drain_log n mo;
     Some (rp_data rp # rest, mo) }"

lemma log_reader_ok:
  assumes "mo_ok mo" "0 < mo_NUMCPUS mo" "0 \<le> mo_entrypos mo" "mo_entrypos mo < mo_numentries mo"
    "mo_numentries mo \<le> LOGSIZE" "mo_events mo (nat (mo_entrypos mo)) = Some e"
  shows "\<exists>rp. log_reader good_read mo = Some (rp, mo\<lparr>mo_entrypos := mo_entrypos mo + 1,
      mo_procfs_buffer_size := of_nat (length (log_line (last (mo_cpus mo)) e))\<rparr>) \<and>
    rp_data rp = map Some (log_line (last (mo_cpus mo)) e)"
proof -
  let ?N = "nat (mo_NUMCPUS mo)" and ?c = "last (mo_cpus mo)"
  have N: "length (mo_cpus mo) = ?N" "0 < ?N" using mo_ok_length[OF assms(1)] assms(2) by simp_all
  have "mo_NUMCPUS mo - 1 = int (?N - 1)" using N(2) by simp
  moreover have "?c = mo_cpus mo ! (?N - 1)" using N by (subst last_conv_nth) auto
  ultimately have c: "arr_get (mo_cpuList mo) (mo_NUMCPUS mo - 1) = Some ?c" "core_ok ?c"
    using mo_ok_nth(1,3)[OF assms(1), of "?N - 1"] N(2) by simp_all
  let ?line = "log_line ?c e"
  have len: "length ?line \<le> 110" using length_log_line c(2) by blast
  have page: "vmalloc 24 = replicate 4096 None" by (intro vmalloc_page) simp_all
  obtain b where b: "sprintf_at (vmalloc 24) 0 ?line = Some b"
    using len by (simp add: sprintf_at_def page)
  have tb: "length b = 4096" "take (length ?line) b = map Some ?line"
    using take_append_text[OF b] page by simp_all
  let ?mo = "mo\<lparr>mo_procfs_buffer_size := of_nat (length ?line)\<rparr>"
  have u: "unat (of_nat (length ?line) :: u64) = length ?line" using len by (intro unat_small) simp
  have co: "copy_out good_read b ?mo = Some (\<lparr>rp_ret = int (length ?line), rp_data = map Some ?line,
      rp_offset = int (length ?line), rp_leaked = False\<rparr>, ?mo)"
    using tb len by (simp add: copy_out_def u good_read_def Let_def)
  have i: "in_int (mo_entrypos mo + 1)" using assms(3-5) by (simp add: in_int_def LOGSIZE_def)
  have line: "show_nat (unat (ml_sec e)) @ '','' @ show_nat (unat (ml_nsec e)) @ '','' @
      map (\<lambda>i. if bit (ml_mask e) i then CHR ''1'' else CHR ''0'') [0..<nat (?c + 1)] @ [CHR 0x0A] = ?line"
    by (simp add: log_line_def)
  show ?thesis
    using assms(3,4) c(2) i
    unfolding log_reader_def assms(6) bind.simps c(1) log_mask_eq[OF c(2)] Let_def line b co prod.case
    by (simp add: good_read_def core_ok_def c_add_bind)
qed

text \<open>
  Reading \<open>log\<close> returns the recorded masks one line per read, in the order they were logged,
  each entry once; when all have been read a read returns nothing.
\<close>

lemma log_drained:
  assumes "mo_ok mo" "0 < mo_NUMCPUS mo" "log_ok mo" "0 \<le> mo_entrypos mo"
    and "mo_entrypos mo + int n = mo_numentries mo"
  shows "\<exists>mo'. drain_log n mo = Some (map (\<lambda>k. map Some (log_line (last (mo_cpus mo)) (the (mo_events mo k))))
      [nat (mo_entrypos mo)..<nat (mo_numentries mo)], mo') \<and>
    log_reader good_read mo' = Some (no_data 0 False good_read, mo')"
  using assms
proof (induction n arbitrary: mo)
  case 0
  then show ?case by (simp add: log_reader_def)
next
  case (Suc n)
  let ?k = "nat (mo_entrypos mo)" and ?n = "nat (mo_numentries mo)"
  have k: "?k < ?n" "mo_numentries mo \<le> LOGSIZE" using Suc.prems by (auto simp: log_ok_def)
  have "?k \<in> dom (mo_events mo)" using Suc.prems(3) k(1) by (simp add: log_ok_def del: domIff)
  then obtain e where e: "mo_events mo ?k = Some e" by blast
  obtain rp where r: "log_reader good_read mo = Some (rp, mo\<lparr>mo_entrypos := mo_entrypos mo + 1,
      mo_procfs_buffer_size := of_nat (length (log_line (last (mo_cpus mo)) e))\<rparr>)"
    "rp_data rp = map Some (log_line (last (mo_cpus mo)) e)"
    using log_reader_ok[OF Suc.prems(1,2,4) _ k(2) e] Suc.prems(5) by auto
  let ?mo = "mo\<lparr>mo_entrypos := mo_entrypos mo + 1,
      mo_procfs_buffer_size := of_nat (length (log_line (last (mo_cpus mo)) e))\<rparr>"
  have ok: "mo_ok ?mo" "log_ok ?mo" "mo_cpus ?mo = mo_cpus mo"
    using Suc.prems(1,3) by (simp_all add: mo_ok_def log_ok_def mo_cpus_def)
  have "\<exists>mo'. drain_log n ?mo = Some (map (\<lambda>k. map Some (log_line (last (mo_cpus ?mo)) (the (mo_events ?mo k))))
      [nat (mo_entrypos ?mo)..<nat (mo_numentries ?mo)], mo') \<and>
    log_reader good_read mo' = Some (no_data 0 False good_read, mo')"
    by (rule Suc.IH) (use ok Suc.prems in simp_all)
  moreover have "nat (mo_entrypos mo + 1) = Suc ?k" using Suc.prems(4) by simp
  moreover have "[?k..<?n] = ?k # [Suc ?k..<?n]" using k(1) by (simp add: upt_conv_Cons)
  ultimately show ?case using r e ok(3) by auto
qed

definition logged_monitor :: monitor where
  "logged_monitor = sample_monitor\<lparr>mo_numentries := 1, mo_lastMask := 5,
     mo_events := [0 \<mapsto> \<lparr>ml_sec = 7, ml_nsec = 8, ml_mask = 5\<rparr>]\<rparr>"

lemma log_drained_witness:
  "\<exists>mo'. drain_log 1 logged_monitor = Some ([map Some ''7,8,101\<newline>''], mo') \<and>
     log_reader good_read mo' = Some (no_data 0 False good_read, mo')"
proof -
  have "mo_ok logged_monitor" "mo_cpus logged_monitor = [0, 1, 2]"
    using sample_mo_ok by (simp_all add: logged_monitor_def mo_ok_def mo_cpus_def)
  moreover have "log_ok logged_monitor" by (simp add: log_ok_def logged_monitor_def LOGSIZE_def lessThan_Suc)
  moreover have "0 < mo_NUMCPUS logged_monitor" "mo_entrypos logged_monitor = 0"
    "mo_numentries logged_monitor = 1"
    "the (mo_events logged_monitor 0) = \<lparr>ml_sec = 7, ml_nsec = 8, ml_mask = 5\<rparr>"
    by (simp_all add: logged_monitor_def sample_monitor_def)
  moreover have "log_line 2 \<lparr>ml_sec = 7, ml_nsec = 8, ml_mask = 5\<rparr> = ''7,8,101\<newline>''"
    by code_simp
  ultimately show ?thesis using log_drained[of logged_monitor 1] by simp
qed

end
