(* ===== verification/Module.thy ===== *)
theory Module imports ProcfsFacts begin

section \<open>Loading, unloading and mapping the Monitor (monitor.c, Monitor/shmem.h)\<close>

text \<open>
  The resources that the module registers while it is loaded, and the system calls on its device
  \<open>/dev/qidlecpu\<close>.  Whether a registration succeeds, and the error code it fails with, are
  arguments.
\<close>

subsection \<open>Loading and unloading\<close>

datatype resource = Proc_dir | Proc_entry string | Thread | Chrdev | Class | Device | Event_log
  | Segment | Mutex

definition proc_entries :: "string list" where
  "proc_entries = [''mask'', ''control'', ''cpulist'', ''bindcpu'', ''irqtime'', ''log'',
     ''logcontrol'', ''irqlist'', ''irqaffinity'', ''irqcontrol'']"

text \<open>The chain of \<open>proc_create\<close> calls, which stops at the first that fails.\<close>

fun create_entries :: "(resource \<Rightarrow> bool) \<Rightarrow> string list \<Rightarrow> resource set \<Rightarrow> int \<times> resource set" where
  "create_entries ok [] held = (0, held)"
| "create_entries ok (n # ns) held =
     (if ok (Proc_entry n) then create_entries ok ns (insert (Proc_entry n) held) else (-1, held))"

definition logger_proc_init :: "(resource \<Rightarrow> bool) \<Rightarrow> int \<times> resource set" where
  "logger_proc_init ok = create_entries ok proc_entries (if ok Proc_dir then {Proc_dir} else {})"

definition logger_proc_cleanup :: "resource set \<Rightarrow> resource set" where
  "logger_proc_cleanup held = held - Proc_entry ` set proc_entries - {Proc_dir}"

text \<open>\<open>kthread_create\<close> is not tested: the result of a failure is dereferenced at once.\<close>

definition idlecpu_init ::
  "(resource \<Rightarrow> bool) \<Rightarrow> (resource \<Rightarrow> int) \<Rightarrow> monitor \<Rightarrow> (int \<times> resource set \<times> monitor) option" where
  "idlecpu_init ok err mo = (let (ret, held) = logger_proc_init ok in
     (if ret = -1 then Some (ret, held, mo)
      else do {
        l \<leftarrow> arr_set (mo_cpuList mo) 0 0;
        let mo = mo\<lparr>mo_NUMCPUS := 1, mo_cpuList := l\<rparr>;
        (if \<not> ok Thread then None
         else let held = insert Thread held in
         if \<not> ok Chrdev then Some (err Chrdev, held, mo)
         else if \<not> ok Class then Some (err Class, held, mo)
         else if \<not> ok Device then Some (err Device, held, mo)
         else let held = held \<union> {Chrdev, Class, Device} in
         if \<not> ok Event_log then Some (-1, held, mo)
         else if \<not> ok Segment then Some (- ENOMEM, insert Event_log held, mo)
         else Some (0, held \<union> {Event_log, Segment, Mutex}, mo)) }))"

definition idlecpu_exit :: "resource set \<Rightarrow> resource set" where
  "idlecpu_exit held =
     logger_proc_cleanup (held - {Thread, Event_log, Segment}) - {Mutex, Device, Class, Chrdev}"

lemma create_entries_all:
  "fst (create_entries ok ns held) = 0 \<Longrightarrow>
   snd (create_entries ok ns held) = held \<union> Proc_entry ` set ns \<and> (\<forall>n \<in> set ns. ok (Proc_entry n))"
  by (induction ns arbitrary: held) (auto split: if_splits)

lemma create_entries_cases: "fst (create_entries ok ns held) \<in> {0, -1}"
  by (induction ns arbitrary: held) auto

lemma proc_init_cases:
  obtains (created) "logger_proc_init ok = (0, (if ok Proc_dir then {Proc_dir} else {}) \<union> Proc_entry ` set proc_entries)"
  | (stopped) held where "logger_proc_init ok = (-1, held)"
proof -
  let ?r = "logger_proc_init ok"
  have "fst ?r = 0 \<or> fst ?r = -1"
    unfolding logger_proc_init_def using create_entries_cases[of ok proc_entries] by blast
  then show thesis
  proof
    assume "fst ?r = 0"
    then have "?r = (0, (if ok Proc_dir then {Proc_dir} else {}) \<union> Proc_entry ` set proc_entries)"
      using create_entries_all unfolding logger_proc_init_def by (metis prod.collapse)
    then show thesis by (rule that(1))
  next
    assume "fst ?r = -1"
    then show thesis using that(2)[of "snd ?r"] by (metis prod.collapse)
  qed
qed

text \<open>
  Loading the module either succeeds with everything registered, and then unloading gives all of
  it back; or it fails after the thread was created, and then the thread and every file under
  \<open>/proc/idlecpu\<close> stay registered, with handlers in a module that is not loaded; or it stopped
  while the files were created.
\<close>

lemma load_and_unload:
  assumes "length (mo_cpuList mo) = 64" "ok Thread" "ok Proc_dir" "\<forall>r. err r < 0"
  shows "\<exists>ret held mo'. idlecpu_init ok err mo = Some (ret, held, mo') \<and>
    (ret = 0 \<longrightarrow> idlecpu_exit held = {} \<and> {Segment, Event_log, Device} \<subseteq> held \<and>
       mo_NUMCPUS mo' = 1 \<and> mo_cpuList mo' ! 0 = 0) \<and>
    (ret \<noteq> 0 \<longrightarrow> (\<exists>n \<in> set proc_entries. \<not> ok (Proc_entry n)) \<or>
       {Thread, Proc_dir} \<union> Proc_entry ` set proc_entries \<subseteq> held)"
proof (cases ok rule: proc_init_cases)
  case created
  have e: "err r \<noteq> 0" for r using assms(4) by (metis less_irrefl)
  have "arr_set (mo_cpuList mo) 0 0 = Some ((mo_cpuList mo)[0 := 0])"
    using assms(1) by (simp add: arr_set_def)
  then show ?thesis
    using assms(1-3) e
    by (auto simp: idlecpu_init_def created Let_def idlecpu_exit_def logger_proc_cleanup_def ENOMEM_def)
next
  case (stopped held)
  have "\<exists>n \<in> set proc_entries. \<not> ok (Proc_entry n)"
  proof (rule ccontr)
    assume "\<not> ?thesis"
    then have "fst (create_entries ok ns h) = 0" if "set ns \<subseteq> set proc_entries" for ns h
      using that by (induction ns arbitrary: h) auto
    then show False using stopped by (metis fst_conv logger_proc_init_def order_refl zero_neq_neg_one)
  qed
  then show ?thesis using stopped by (simp add: idlecpu_init_def)
qed

lemma load_and_unload_witness:
  "\<exists>ret held mo'. idlecpu_init (\<lambda>r. r \<noteq> Segment) (\<lambda>r. -1) sample_monitor
      = Some (ret, held, mo') \<and> (ret = 0 \<or> Thread \<in> held)"
  using load_and_unload[of sample_monitor "\<lambda>r. r \<noteq> Segment" "\<lambda>r. -1"] by (auto simp: sample_monitor_def)

subsection \<open>The device\<close>

definition EINVAL_K :: int where
  "EINVAL_K = 22"

definition qidlecpu_open :: int where
  "qidlecpu_open = 0"

definition qidlecpu_release :: int where
  "qidlecpu_release = 0"

definition qidlecpu_read :: int where
  "qidlecpu_read = 0"

definition qidlecpu_write :: int where
  "qidlecpu_write = 0"

text \<open>\<open>mmap\<close>: the return value, and the range handed to \<open>remap_pfn_range\<close> as its distance from the
  segment's first byte and its length; \<open>remap\<close> is that function's result.\<close>

definition qidlecpu_mmap :: "(u64 \<Rightarrow> u64 \<Rightarrow> int) \<Rightarrow> u64 \<Rightarrow> u64 \<Rightarrow> u64 \<Rightarrow> int \<times> (u64 \<times> u64) option" where
  "qidlecpu_mmap remap vm_start vm_end vm_pgoff =
     (let size = vm_end - vm_start in
      if of_nat SHMEM_SIZE < size then (- EINVAL_K, None)
      else let start = push_bit 12 vm_pgoff; ret = remap start size
      in (ret, if ret = 0 then Some (start, size) else None))"

text \<open>
  The size test keeps a mapping at page offset 0 inside the segment, and only such: with any
  page offset from 32 on, up to \<open>2^51\<close>, a request of the same size is accepted too, and maps
  kernel memory that lies wholly behind the segment.
\<close>

lemma mmap_bounds_only_at_offset_0:
  assumes "vm_start \<le> vm_end" "unat (vm_end - vm_start) \<le> SHMEM_SIZE" "\<And>a b. remap a b = 0"
  shows "\<exists>size. qidlecpu_mmap remap vm_start vm_end 0 = (0, Some (0, size)) \<and> unat size \<le> SHMEM_SIZE \<and>
    (\<forall>p. 32 \<le> p \<longrightarrow> p < 2 ^ 51 \<longrightarrow>
       (\<exists>start. qidlecpu_mmap remap vm_start vm_end p = (0, Some (start, size)) \<and> SHMEM_SIZE \<le> unat start))"
proof -
  let ?size = "vm_end - vm_start"
  have fits: "\<not> of_nat SHMEM_SIZE < ?size"
    using assms(2) by (simp add: word_less_nat_alt SHMEM_SIZE_def)
  have r: "qidlecpu_mmap remap vm_start vm_end p = (0, Some (push_bit 12 p, ?size))" for p
    using fits assms(3) by (simp add: qidlecpu_mmap_def Let_def)
  have "SHMEM_SIZE \<le> unat (push_bit 12 p)" if "32 \<le> p" "p < 2 ^ 51" for p :: u64
  proof -
    have p: "32 \<le> unat p" "unat p < 2 ^ 51"
      using that by (simp_all add: word_le_nat_alt word_less_nat_alt)
    have "unat (push_bit 12 p) = unat p * 2 ^ 12 mod 2 ^ 64"
      by (simp add: push_bit_eq_mult unat_word_ariths mult.commute)
    also have "\<dots> = unat p * 2 ^ 12" using p(2) by (intro mod_less) simp
    finally show ?thesis using p(1) by (simp add: SHMEM_SIZE_def)
  qed
  then show ?thesis using r[of 0] r assms(2) by auto
qed

lemma mmap_bounds_only_at_offset_0_witness:
  "\<exists>start. qidlecpu_mmap (\<lambda>a b. 0) 0x7f0000000000 0x7f0000020000 64 = (0, Some (start, 0x20000)) \<and>
     SHMEM_SIZE \<le> unat start"
proof -
  have "unat ((0x7f0000020000 :: u64) - 0x7f0000000000) \<le> SHMEM_SIZE" by (simp add: SHMEM_SIZE_def)
  then show ?thesis
    using mmap_bounds_only_at_offset_0[of "0x7f0000000000" "0x7f0000020000" "\<lambda>a b. 0"]
    by (force simp: qidlecpu_mmap_def SHMEM_SIZE_def Let_def)
qed

end
