(* ===== verification/Allocate.thy ===== *)
theory Allocate imports Controller begin

section \<open>Giving cores to the Secondary (balancer.c)\<close>

text \<open>
  \<open>ComputeSecondaryAffinityMask\<close> and \<open>AllocateCoresToSecondary\<close>: which cores of every Primary's
  pool go to the Secondary, the affinity list and mask that publish them, and the kind of
  rebalance.  \<open>SchedAllSecondary\<close>, which spins on shared memory, is modelled as steps of the
  interleaving of the processes; here \<open>AllocateCoresToSecondary\<close> returns whether it is called.
\<close>

subsection \<open>Definitions\<close>

definition GetMinSecondaryCores :: "balancer \<Rightarrow> int" where
  "GetMinSecondaryCores g = (if g_allowSuspendSecondary g \<noteq> 0 then 0 else 1)"

text \<open>The \<open>else\<close> branch of the loop: one more core for the Secondary.\<close>

definition grant_core :: "int \<Rightarrow> idleStats \<times> balancer \<Rightarrow> (idleStats \<times> balancer) option" where
  "grant_core cpu = (\<lambda>(shm, g). do {
     b \<leftarrow> shl1 cpu;
     l \<leftarrow> arr_set (is_affinity_list shm) (g_affinityListPos g) cpu;
     pos \<leftarrow> c_add (g_affinityListPos g) 1;
     cnt \<leftarrow> c_add (g_currSecondaryCoreCount g) 1;
     Some (shm\<lparr>is_affinity_list := l\<rparr>,
           g\<lparr>g_secondary_mask := insert cpu (g_secondary_mask g),
             g_setAffinityMask := g_setAffinityMask g OR b,
             g_affinityListPos := pos, g_currSecondaryCoreCount := cnt\<rparr>) })"

text \<open>The loop itself, on the value of \<open>c\<close>; \<open>i\<close> and \<open>actualCoresAllocated\<close> are its counters.\<close>

fun assign_cores ::
  "primary_ctr_info \<Rightarrow> int \<Rightarrow> nat \<Rightarrow> int \<Rightarrow> int \<Rightarrow> idleStats \<times> balancer \<Rightarrow>
   (int \<times> idleStats \<times> balancer) option" where
  "assign_cores ci spare 0 i actualCoresAllocated sg = Some (actualCoresAllocated, sg)"
| "assign_cores ci spare (Suc c) i actualCoresAllocated sg = do {
     cpu \<leftarrow> arr_get (ci_cpuList ci) (int c);
     was \<leftarrow> CoreIsActive cpu (g_lastAffinityMask (snd sg));
     busy \<leftarrow> (if was = 0 then CoreIsActive cpu (g_currIdleMask (snd sg)) else Some 0);
     if busy \<noteq> 0 then assign_cores ci spare c i actualCoresAllocated sg
     else do {
       sg' \<leftarrow> grant_core cpu sg;
       i' \<leftarrow> c_add i 1;
       n' \<leftarrow> c_add actualCoresAllocated 1;
       if i' = spare then Some (n', sg') else assign_cores ci spare c i' n' sg' } }"

definition ComputeSecondaryAffinityMask ::
  "primary_ctr_info \<Rightarrow> balancer_info \<Rightarrow> idleStats \<times> balancer \<Rightarrow>
   (balancer_info \<times> idleStats \<times> balancer) option" where
  "ComputeSecondaryAffinityMask ci bi sg =
     (if bi_SpareCoresToAllocate bi \<le> 0
      then Some (bi\<lparr>bi_CoresAllocatedToSecondary := 0\<rparr>, sg)
      else do {
        (n, sg') \<leftarrow> assign_cores ci (bi_SpareCoresToAllocate bi)
                      (nat (ci_totalEligibleCores ci)) 0 0 sg;
        Some (bi\<lparr>bi_CoresAllocatedToSecondary := n\<rparr>, sg') })"

definition compute_one :: "nat \<Rightarrow> idleStats \<times> balancer \<Rightarrow> (idleStats \<times> balancer) option" where
  "compute_one i sg = do {
     ci \<leftarrow> arr_get (is_primary_ctrs (fst sg)) (int i);
     bi \<leftarrow> arr_get (g_stats (snd sg)) (int i);
     (bi', shm, g) \<leftarrow> ComputeSecondaryAffinityMask ci bi sg;
     stats \<leftarrow> arr_set (g_stats g) (int i) bi';
     Some (shm, g\<lparr>g_stats := stats\<rparr>) }"

definition reset_allocation :: "balancer \<Rightarrow> balancer" where
  "reset_allocation g =
     g\<lparr>g_secondary_mask := {}, g_lastSecondaryCoreCount := g_currSecondaryCoreCount g,
       g_currSecondaryCoreCount := 0, g_setAffinityMask := 0, g_affinityListPos := 0\<rparr>"

text \<open>The result holds whether \<open>SchedAllSecondary\<close> is called, the return value, and the state at
  the call (or at the return).\<close>

definition AllocateCoresToSecondary ::
  "idleStats \<Rightarrow> balancer \<Rightarrow> (bool \<times> int \<times> idleStats \<times> balancer) option" where
  "AllocateCoresToSecondary shm g = do {
     (shm, g) \<leftarrow> for_loop 0 (nat (is_nr_primary_ctrs shm)) compute_one (shm, reset_allocation g);
     (if g_currSecondaryCoreCount g = 0 then
        Some (True, 1, shm\<lparr>is_num_affinity := g_currSecondaryCoreCount g\<rparr>,
              g\<lparr>g_rebalanceAction := 3\<rparr>)
      else let
        action = (if g_lastSecondaryCoreCount g < g_currSecondaryCoreCount g then 1
                  else if g_currSecondaryCoreCount g < g_lastSecondaryCoreCount g then 2 else 1);
        g = g\<lparr>g_rebalanceAction := action\<rparr>
      in if g_setAffinityMask g \<noteq> g_lastAffinityMask g
         then Some (True, 1, shm\<lparr>is_num_affinity := g_currSecondaryCoreCount g\<rparr>, g)
         else Some (False, 0, shm, g)) }"

subsection \<open>What is granted\<close>

text \<open>A core may be granted unless a Primary occupies it: it is active now and was not the
  Secondary's.  The loop grants from the end of the list, at most \<open>spare\<close> cores.\<close>

definition available :: "balancer \<Rightarrow> int \<Rightarrow> bool" where
  "available g c \<longleftrightarrow> bit (g_lastAffinityMask g) (nat c) \<or> \<not> bit (g_currIdleMask g) (nat c)"

definition grantable :: "balancer \<Rightarrow> int list \<Rightarrow> int list" where
  "grantable g cs = filter (available g) (rev cs)"

lemma grant_core_masks:
  assumes "grant_core cpu sg = Some sg'"
  shows "g_lastAffinityMask (snd sg') = g_lastAffinityMask (snd sg)"
    "g_currIdleMask (snd sg') = g_currIdleMask (snd sg)" "g_stats (snd sg') = g_stats (snd sg)"
    "is_primary_ctrs (fst sg') = is_primary_ctrs (fst sg)"
    "is_nr_primary_ctrs (fst sg') = is_nr_primary_ctrs (fst sg)"
  using assms by (auto simp: grant_core_def bind_eq_Some_conv split: prod.splits)

lemma grant_core_available:
  "grant_core cpu sg = Some sg' \<Longrightarrow> available (snd sg') = available (snd sg)"
  by (simp add: grant_core_masks available_def fun_eq_iff)

lemma grantable_cong: "available g = available h \<Longrightarrow> grantable g = grantable h"
  by (rule ext) (simp add: grantable_def)

text \<open>The loop is the sequence of grants of the first grantable cores.\<close>

lemma assign_cores_eq:
  assumes "c \<le> length (ci_cpuList ci)" "\<forall>x \<in> set (take c (ci_cpuList ci)). core_ok x"
    "0 \<le> i" "i < spare" "i + int c \<le> 100000" "0 \<le> n" "n + int c \<le> 100000"
  shows "assign_cores ci spare c i n sg =
    map_option (\<lambda>sg'. (n + int (length (take (nat (spare - i))
        (grantable (snd sg) (take c (ci_cpuList ci))))), sg'))
      (run_all grant_core (take (nat (spare - i)) (grantable (snd sg) (take c (ci_cpuList ci)))) sg)"
  using assms
proof (induction c arbitrary: i n sg)
  case 0
  then show ?case by (simp add: grantable_def)
next
  case (Suc c)
  let ?cpu = "ci_cpuList ci ! c"
  have cpu: "arr_get (ci_cpuList ci) (int c) = Some ?cpu" "core_ok ?cpu"
    "take (Suc c) (ci_cpuList ci) = take c (ci_cpuList ci) @ [?cpu]"
    using Suc.prems(1,2) by (auto simp: take_Suc_conv_app_nth)
  have ok: "\<forall>x \<in> set (take c (ci_cpuList ci)). core_ok x" using Suc.prems(2) cpu(3) by simp
  show ?case
  proof (cases "available (snd sg) ?cpu")
    case False
    then show ?thesis
      using Suc.IH[of i n sg] Suc.prems ok cpu
      by (simp add: CoreIsActive_ok grantable_def available_def)
  next
    case True
    then have g: "grantable (snd sg) (take (Suc c) (ci_cpuList ci)) =
        ?cpu # grantable (snd sg) (take c (ci_cpuList ci))"
      by (simp add: grantable_def cpu(3))
    have step: "assign_cores ci spare (Suc c) i n sg = do {
       sg' \<leftarrow> grant_core ?cpu sg;
       if i + 1 = spare then Some (n + 1, sg') else assign_cores ci spare c (i + 1) (n + 1) sg' }"
      using True cpu Suc.prems
      by (auto simp: CoreIsActive_ok available_def c_add_bind in_int_def split: Option.bind_splits)
    show ?thesis
    proof (cases "grant_core ?cpu sg")
      case None
      have "nat (spare - i) = Suc (nat (spare - i - 1))" using Suc.prems by simp
      then show ?thesis using None unfolding step g by simp
    next
      case (Some sg')
      have n: "nat (spare - i) = Suc (nat (spare - (i + 1)))" using Suc.prems by simp
      have gg: "grantable (snd sg') = grantable (snd sg)"
        by (rule grantable_cong) (rule grant_core_available[OF Some])
      show ?thesis
      proof (cases "i + 1 = spare")
        case True
        then show ?thesis using Some unfolding step g n by simp
      next
        case False
        then show ?thesis
          using Some Suc.IH[of "i + 1" "n + 1" sg'] Suc.prems ok unfolding step g n gg
          by (simp add: option.map_comp o_def algebra_simps)
      qed
    qed
  qed
qed

subsection \<open>The effect of a sequence of grants\<close>

definition mask_of :: "int list \<Rightarrow> u64 \<Rightarrow> u64" where
  "mask_of cs m = fold (\<lambda>c w. w OR push_bit (nat c) 1) cs m"

definition write_at :: "nat \<Rightarrow> 'a list \<Rightarrow> 'a list \<Rightarrow> 'a list" where
  "write_at k xs l = take k l @ xs @ drop (k + length xs) l"

lemma bit_mask_of:
  "\<forall>c \<in> set cs. core_ok c \<Longrightarrow> bit (mask_of cs m) k \<longleftrightarrow> bit m k \<or> int k \<in> set cs"
proof (induction cs arbitrary: m)
  case Nil
  then show ?case by (simp add: mask_of_def)
next
  case (Cons c cs)
  have "bit (m OR push_bit (nat c) 1) k \<longleftrightarrow> bit m k \<or> int k = c"
    unfolding bit_or_shl1 using Cons.prems by (auto simp: core_ok_def)
  moreover have "mask_of (c # cs) m = mask_of cs (m OR push_bit (nat c) 1)"
    by (simp add: mask_of_def)
  moreover have "\<forall>c \<in> set cs. core_ok c" using Cons.prems by simp
  ultimately show ?case by (simp only: Cons.IH list.set insert_iff) blast
qed

lemma write_at_Nil [simp]: "k \<le> length l \<Longrightarrow> write_at k [] l = l"
  by (simp add: write_at_def)

lemma length_write_at [simp]:
  "k + length xs \<le> length l \<Longrightarrow> length (write_at k xs l) = length l"
  by (simp add: write_at_def)

lemma take_write_at:
  "k + length xs \<le> length l \<Longrightarrow> take (k + length xs) (write_at k xs l) = take k l @ xs"
  by (simp add: write_at_def)

lemma write_at_Cons:
  "k + Suc (length xs) \<le> length l \<Longrightarrow> write_at (Suc k) xs (l[k := x]) = write_at k (x # xs) l"
  by (simp add: write_at_def take_Suc_update drop_update_cancel)

definition grants :: "int list \<Rightarrow> idleStats \<times> balancer \<Rightarrow> idleStats \<times> balancer" where
  "grants cs = (\<lambda>(shm, g).
     (shm\<lparr>is_affinity_list := write_at (nat (g_affinityListPos g)) cs (is_affinity_list shm)\<rparr>,
      g\<lparr>g_secondary_mask := set cs \<union> g_secondary_mask g,
        g_setAffinityMask := mask_of cs (g_setAffinityMask g),
        g_affinityListPos := g_affinityListPos g + int (length cs),
        g_currSecondaryCoreCount := g_currSecondaryCoreCount g + int (length cs)\<rparr>))"

definition grant_room :: "nat \<Rightarrow> idleStats \<times> balancer \<Rightarrow> bool" where
  "grant_room k = (\<lambda>(shm, g). 0 \<le> g_affinityListPos g \<and>
     g_affinityListPos g + int k \<le> int (length (is_affinity_list shm)) \<and>
     length (is_affinity_list shm) = 64 \<and> 0 \<le> g_currSecondaryCoreCount g \<and>
     g_currSecondaryCoreCount g + int k \<le> 64)"

lemma grant_core_eq:
  assumes "core_ok c" "grant_room (Suc k) sg"
  shows "grant_core c sg = Some (grants [c] sg)" "grant_room k (grants [c] sg)"
proof -
  obtain shm g where sg: "sg = (shm, g)" by (cases sg)
  have pos: "0 \<le> g_affinityListPos g" "g_affinityListPos g < int (length (is_affinity_list shm))"
    "in_int (g_affinityListPos g + 1)" "in_int (g_currSecondaryCoreCount g + 1)"
    using assms(2) sg by (auto simp: grant_room_def in_int_def)
  have l: "nat (g_affinityListPos g) < length (is_affinity_list shm)" using pos by simp
  have w: "write_at (nat (g_affinityListPos g)) [c] (is_affinity_list shm)
      = (is_affinity_list shm)[nat (g_affinityListPos g) := c]"
    using l by (simp add: write_at_def upd_conv_take_nth_drop)
  have m: "mask_of [c] m = m OR push_bit (nat c) 1" for m
    by (simp add: mask_of_def)
  show "grant_core c sg = Some (grants [c] sg)"
    using assms(1) pos
    by (simp add: sg grant_core_def grants_def w m arr_set_def c_add_bind)
  show "grant_room k (grants [c] sg)"
    using assms(2) l by (simp add: sg grant_room_def grants_def w)
qed

lemma grants_Cons:
  assumes "grant_room (Suc (length cs)) sg"
  shows "grants cs (grants [c] sg) = grants (c # cs) sg"
proof -
  obtain shm g where sg: "sg = (shm, g)" by (cases sg)
  let ?p = "nat (g_affinityListPos g)"
  have p: "?p + Suc (length cs) \<le> length (is_affinity_list shm)" "0 \<le> g_affinityListPos g"
    using assms sg by (auto simp: grant_room_def)
  then have n: "nat (g_affinityListPos g + 1) = Suc ?p" by simp
  have l1: "write_at ?p [c] (is_affinity_list shm) = (is_affinity_list shm)[?p := c]"
    using p by (simp add: write_at_def upd_conv_take_nth_drop)
  have l2: "write_at (Suc ?p) cs ((is_affinity_list shm)[?p := c])
      = write_at ?p (c # cs) (is_affinity_list shm)"
    using p by (intro write_at_Cons) simp
  show ?thesis
    by (simp add: sg grants_def n l1 l2 mask_of_def insert_commute Un_assoc)
qed

lemma run_all_grants:
  assumes "\<forall>c \<in> set cs. core_ok c" "grant_room (length cs) sg"
  shows "run_all grant_core cs sg = Some (grants cs sg)"
  using assms
proof (induction cs arbitrary: sg)
  case Nil
  then show ?case by (auto simp: grants_def mask_of_def grant_room_def write_at_def)
next
  case (Cons c cs)
  have "grant_core c sg = Some (grants [c] sg)" "grant_room (length cs) (grants [c] sg)"
    using Cons.prems by (auto intro: grant_core_eq)
  then show ?case using Cons grants_Cons[of cs sg c] by simp
qed

subsection \<open>Refinement: the allotment\<close>

text \<open>
  The specification: container \<open>i\<close> gives the first \<open>SpareCoresToAllocate\<close> grantable cores of
  its pool, read from the end; the allotment is what all containers give, in order.
\<close>

definition granted :: "idleStats \<Rightarrow> balancer \<Rightarrow> nat \<Rightarrow> int list" where
  "granted shm g i = take (nat (bi_SpareCoresToAllocate (g_stats g ! i)))
     (grantable g (pool (is_primary_ctrs shm ! i)))"

definition allotment :: "idleStats \<Rightarrow> balancer \<Rightarrow> nat \<Rightarrow> int list" where
  "allotment shm g n = concat (map (granted shm g) [0..<n])"

definition pools :: "idleStats \<Rightarrow> int list" where
  "pools shm = concat (map (\<lambda>i. pool (is_primary_ctrs shm ! i)) [0..<nat (is_nr_primary_ctrs shm)])"

lemma allotment_Suc: "allotment shm g (Suc n) = allotment shm g n @ granted shm g n"
  by (simp add: allotment_def)

lemma granted_subset: "set (granted shm g i) \<subseteq> set (pool (is_primary_ctrs shm ! i))"
  by (auto simp: granted_def grantable_def dest: in_set_takeD)

lemma granted_available: "c \<in> set (granted shm g i) \<Longrightarrow> available g c"
  by (auto simp: granted_def grantable_def dest: in_set_takeD)

lemma granted_length: "length (granted shm g i) \<le> length (pool (is_primary_ctrs shm ! i))"
proof -
  have "length (granted shm g i) \<le> length (grantable g (pool (is_primary_ctrs shm ! i)))"
    by (simp add: granted_def)
  also have "\<dots> \<le> length (pool (is_primary_ctrs shm ! i))"
    by (metis grantable_def length_filter_le length_rev)
  finally show ?thesis .
qed

text \<open>When no two Primaries share a core, at most 64 cores can be given away.\<close>

lemma distinct_cores_le:
  assumes "distinct cs" "\<forall>c \<in> set cs. core_ok c"
  shows "length cs \<le> 64"
proof -
  have "set cs \<subseteq> {0..<64}" using assms(2) by (auto simp: core_ok_def)
  then have "card (set cs) \<le> card {0..<64 :: int}" by (intro card_mono) auto
  then show ?thesis using distinct_card[OF assms(1)] by simp
qed

lemma allotment_length_le:
  "length (allotment shm g n) \<le>
   length (concat (map (\<lambda>i. pool (is_primary_ctrs shm ! i)) [0..<n]))"
proof (induction n)
  case (Suc n)
  then show ?case using granted_length[of shm g n] by (simp add: allotment_Suc)
qed (simp add: allotment_def)

lemma allotment_cores:
  assumes "\<forall>i < n. ctr_ok (is_primary_ctrs shm ! i)"
  shows "\<forall>c \<in> set (allotment shm g n). core_ok c"
proof
  fix c assume "c \<in> set (allotment shm g n)"
  then obtain i where "i < n" "c \<in> set (granted shm g i)" by (auto simp: allotment_def)
  then show "core_ok c" using granted_subset[of shm g i] assms by (auto simp: ctr_ok_def)
qed

lemma distinct_allotment:
  "distinct (concat (map (\<lambda>i. pool (is_primary_ctrs shm ! i)) [0..<n])) \<Longrightarrow> distinct (allotment shm g n)"
proof (induction n)
  case (Suc n)
  have "set (allotment shm g n) \<subseteq> set (concat (map (\<lambda>i. pool (is_primary_ctrs shm ! i)) [0..<n]))"
    using granted_subset by (fastforce simp: allotment_def)
  moreover have "distinct (granted shm g n)"
    using Suc.prems by (simp add: granted_def grantable_def distinct_take)
  ultimately show ?case using Suc granted_subset[of shm g n] by (auto simp: allotment_Suc)
qed (simp add: allotment_def)

lemma pools_le_64:
  assumes "system_ok shm g" "distinct (pools shm)"
  shows "length (pools shm) \<le> 64"
proof (rule distinct_cores_le[OF assms(2)])
  show "\<forall>c \<in> set (pools shm). core_ok c"
    using assms(1) by (auto simp: pools_def system_ok_def ctr_ok_def)
qed

lemma compute_mask_eq:
  assumes c: "ctr_ok ci" and r: "grant_room (length (take (nat (bi_SpareCoresToAllocate bi))
      (grantable (snd sg) (pool ci)))) sg"
  shows "ComputeSecondaryAffinityMask ci bi sg =
    (let L = take (nat (bi_SpareCoresToAllocate bi)) (grantable (snd sg) (pool ci))
     in Some (bi\<lparr>bi_CoresAllocatedToSecondary := int (length L)\<rparr>, grants L sg))"
proof (cases "bi_SpareCoresToAllocate bi \<le> 0")
  case True
  moreover have "grants [] sg = sg"
    using r True by (auto simp: grants_def mask_of_def grant_room_def write_at_def split: prod.splits)
  ultimately show ?thesis by (simp add: ComputeSecondaryAffinityMask_def)
next
  case False
  let ?L = "take (nat (bi_SpareCoresToAllocate bi)) (grantable (snd sg) (pool ci))"
  let ?c = "nat (ci_totalEligibleCores ci)"
  have p: "take ?c (ci_cpuList ci) = pool ci" "?c \<le> length (ci_cpuList ci)" "?c \<le> 64"
    using c by (auto simp: ctr_ok_def pool_def primary_shape_def)
  have ok: "\<forall>x \<in> set (pool ci). core_ok x" using c by (simp add: ctr_ok_def)
  have "\<forall>x \<in> set ?L. core_ok x" using ok by (auto simp: grantable_def dest!: in_set_takeD)
  then have run: "run_all grant_core ?L sg = Some (grants ?L sg)" using r by (rule run_all_grants)
  have "assign_cores ci (bi_SpareCoresToAllocate bi) ?c 0 0 sg =
      map_option (\<lambda>sg'. (int (length ?L), sg')) (run_all grant_core ?L sg)"
    using assign_cores_eq[of ?c ci 0 "bi_SpareCoresToAllocate bi" 0 sg] p ok False c
    by (simp add: ctr_ok_def)
  then show ?thesis using False run by (simp add: ComputeSecondaryAffinityMask_def Let_def)
qed

text \<open>One container: its allotment is appended, and nothing else of the state changes.\<close>

lemma grants_simps [simp]:
  "is_primary_ctrs (fst (grants cs sg)) = is_primary_ctrs (fst sg)"
  "is_nr_primary_ctrs (fst (grants cs sg)) = is_nr_primary_ctrs (fst sg)"
  "g_stats (snd (grants cs sg)) = g_stats (snd sg)"
  "available (snd (grants cs sg)) = available (snd sg)"
  "g_lastAffinityMask (snd (grants cs sg)) = g_lastAffinityMask (snd sg)"
  "g_lastSecondaryCoreCount (snd (grants cs sg)) = g_lastSecondaryCoreCount (snd sg)"
  "g_secondary_mask (snd (grants cs sg)) = set cs \<union> g_secondary_mask (snd sg)"
  "g_setAffinityMask (snd (grants cs sg)) = mask_of cs (g_setAffinityMask (snd sg))"
  "g_affinityListPos (snd (grants cs sg)) = g_affinityListPos (snd sg) + int (length cs)"
  "g_currSecondaryCoreCount (snd (grants cs sg)) =
     g_currSecondaryCoreCount (snd sg) + int (length cs)"
  "is_affinity_list (fst (grants cs sg)) =
     write_at (nat (g_affinityListPos (snd sg))) cs (is_affinity_list (fst sg))"
  by (simp_all add: grants_def available_def fun_eq_iff split: prod.splits)

lemma grantable_grants [simp]: "grantable (snd (grants cs sg)) = grantable (snd sg)"
  by (rule grantable_cong) simp

lemma grant_room_append:
  "grant_room (m + length cs) sg \<Longrightarrow> grant_room m (grants cs sg)"
  by (auto simp: grant_room_def grants_def split: prod.splits)

lemma compute_one_eq:
  assumes "ctr_ok (is_primary_ctrs (fst sg) ! i)" "i < length (is_primary_ctrs (fst sg))"
    "i < length (g_stats (snd sg))" "grant_room (length (granted (fst sg) (snd sg) i)) sg"
  shows "compute_one i sg = (let L = granted (fst sg) (snd sg) i; (s, h) = grants L sg
    in Some (s, h\<lparr>g_stats := (g_stats h)[i := (g_stats h ! i)
                     \<lparr>bi_CoresAllocatedToSecondary := int (length L)\<rparr>]\<rparr>))"
proof -
  let ?L = "granted (fst sg) (snd sg) i"
  have "ComputeSecondaryAffinityMask (is_primary_ctrs (fst sg) ! i) (g_stats (snd sg) ! i) sg =
    Some ((g_stats (snd sg) ! i)\<lparr>bi_CoresAllocatedToSecondary := int (length ?L)\<rparr>, grants ?L sg)"
    using compute_mask_eq[OF assms(1), of "g_stats (snd sg) ! i" sg] assms(4)
    by (simp add: granted_def Let_def)
  moreover obtain s h where gr: "grants ?L sg = (s, h)" by (cases "grants ?L sg")
  moreover have "g_stats h = g_stats (snd sg)" using grants_simps(3)[of ?L sg] gr by simp
  ultimately show ?thesis
    using assms(2,3) by (simp add: compute_one_def)
qed

text \<open>The state after the first \<open>i\<close> containers.\<close>

definition allotted :: "idleStats \<Rightarrow> balancer \<Rightarrow> nat \<Rightarrow> balancer_info list" where
  "allotted shm g i = map (\<lambda>j. if j < i
     then (g_stats g ! j)\<lparr>bi_CoresAllocatedToSecondary := int (length (granted shm g j))\<rparr>
     else g_stats g ! j) [0..<length (g_stats g)]"

definition allocating :: "idleStats \<Rightarrow> balancer \<Rightarrow> nat \<Rightarrow> idleStats \<times> balancer" where
  "allocating shm g i = (let A = allotment shm g i in
     (shm\<lparr>is_affinity_list := write_at 0 A (is_affinity_list shm)\<rparr>,
      (reset_allocation g)\<lparr>g_secondary_mask := set A, g_setAffinityMask := mask_of A 0,
        g_affinityListPos := int (length A), g_currSecondaryCoreCount := int (length A),
        g_stats := allotted shm g i\<rparr>))"

lemma allotted_Suc:
  "i < length (g_stats g) \<Longrightarrow> allotted shm g (Suc i) = (allotted shm g i)
     [i := (allotted shm g i ! i)\<lparr>bi_CoresAllocatedToSecondary := int (length (granted shm g i))\<rparr>]"
  by (rule nth_equalityI) (auto simp: allotted_def nth_list_update less_Suc_eq)

lemma write_at_append:
  "length A + length L \<le> length l \<Longrightarrow> write_at (length A) L (write_at 0 A l) = write_at 0 (A @ L) l"
  by (simp add: write_at_def add.commute)

lemma granted_allocating: "granted (fst (allocating shm g i)) (snd (allocating shm g i)) i = granted shm g i"
  if "i < length (g_stats g)"
proof -
  have "available (snd (allocating shm g i)) = available g"
    by (rule ext) (simp add: available_def allocating_def Let_def reset_allocation_def)
  then have "grantable (snd (allocating shm g i)) = grantable g" by (rule grantable_cong)
  then show ?thesis using that by (simp add: granted_def) (simp add: allocating_def Let_def allotted_def)
qed

lemma allocating_step:
  assumes ok: "system_ok shm g" and i: "i < nat (is_nr_primary_ctrs shm)"
    and fit: "length (allotment shm g (Suc i)) \<le> 64"
  shows "compute_one i (allocating shm g i) = Some (allocating shm g (Suc i))"
proof -
  let ?A = "allotment shm g i" and ?L = "granted shm g i"
  have i64: "i < 64" and len: "length (g_stats g) = 64" "length (is_primary_ctrs shm) = 64"
    "length (is_affinity_list shm) = 64" and c: "ctr_ok (is_primary_ctrs shm ! i)"
    using ok i by (auto simp: system_ok_def bal_shape_def MAX_CONTAINERS_def dest: shm_shapeD)
  have fit': "length ?A + length ?L \<le> 64" using fit by (simp add: allotment_Suc)
  then have room: "grant_room (length ?L) (allocating shm g i)"
    using len by (simp add: grant_room_def allocating_def Let_def)
  have g: "granted (fst (allocating shm g i)) (snd (allocating shm g i)) i = ?L"
    using i64 len by (intro granted_allocating) simp
  have "grants ?L (allocating shm g i) =
    (shm\<lparr>is_affinity_list := write_at 0 (?A @ ?L) (is_affinity_list shm)\<rparr>,
     (reset_allocation g)\<lparr>g_secondary_mask := set (?A @ ?L), g_setAffinityMask := mask_of (?A @ ?L) 0,
        g_affinityListPos := int (length (?A @ ?L)),
        g_currSecondaryCoreCount := int (length (?A @ ?L)), g_stats := allotted shm g i\<rparr>)"
    using fit' len
    by (simp add: grants_def allocating_def Let_def write_at_append mask_of_def Un_commute)
  then show ?thesis
    using compute_one_eq[of "allocating shm g i" i] c room g i64 len
    by (simp add: allocating_def Let_def allotted_Suc allotment_Suc) (simp add: allotted_def)
qed

lemma allocating_0: "system_ok shm g \<Longrightarrow> (shm, reset_allocation g) = allocating shm g 0"
  by (simp add: allocating_def Let_def allotment_def mask_of_def allotted_def reset_allocation_def
      map_nth write_at_def)

lemma allocating_all:
  assumes ok: "system_ok shm g" and fit: "length (allotment shm g (nat (is_nr_primary_ctrs shm))) \<le> 64"
  shows "for_loop 0 (nat (is_nr_primary_ctrs shm)) compute_one (shm, reset_allocation g)
    = Some (allocating shm g (nat (is_nr_primary_ctrs shm)))"
proof -
  let ?N = "nat (is_nr_primary_ctrs shm)"
  have mono: "length (allotment shm g (Suc i)) \<le> 64" if "i < ?N" for i
  proof -
    have "allotment shm g ?N = allotment shm g (Suc i) @ concat (map (granted shm g) [Suc i..<?N])"
      using upt_add_eq_append[of 0 "Suc i" "?N - Suc i"] that
      by (simp add: allotment_def flip: concat_append map_append del: upt_Suc)
    then show ?thesis using fit by simp
  qed
  have "\<exists>t. for_loop 0 ?N compute_one (shm, reset_allocation g) = Some t
      \<and> t = allocating shm g (0 + ?N)"
    by (rule for_loop_total)
      (use ok mono allocating_0 allocating_step in auto)
  then show ?thesis by auto
qed

text \<open>The kind of rebalance: 3 suspend, 2 shrink, 1 grow or move.\<close>

definition action_of :: "int list \<Rightarrow> balancer \<Rightarrow> int" where
  "action_of A g = (if A = [] then 3 else if int (length A) < g_currSecondaryCoreCount g then 2 else 1)"

definition must_schedule :: "int list \<Rightarrow> balancer \<Rightarrow> bool" where
  "must_schedule A g \<longleftrightarrow> A = [] \<or> mask_of A 0 \<noteq> g_lastAffinityMask g"

definition full_allotment :: "idleStats \<Rightarrow> balancer \<Rightarrow> int list" where
  "full_allotment shm g = allotment shm g (nat (is_nr_primary_ctrs shm))"

lemma full_allotment_fits:
  assumes "system_ok shm g" "distinct (pools shm)"
  shows "length (full_allotment shm g) \<le> 64"
  using allotment_length_le[of shm g "nat (is_nr_primary_ctrs shm)"] pools_le_64[OF assms]
  by (simp add: full_allotment_def pools_def)

lemma full_allotment_pools:
  "set (full_allotment shm g) \<subseteq> set (pools shm)"
  "distinct (pools shm) \<Longrightarrow> distinct (full_allotment shm g)"
  using granted_subset by (fastforce simp: full_allotment_def allotment_def pools_def,
      simp add: full_allotment_def pools_def distinct_allotment)

lemma full_allotment_cores: "system_ok shm g \<Longrightarrow> \<forall>c \<in> set (full_allotment shm g). core_ok c"
  unfolding full_allotment_def by (rule allotment_cores) (simp add: system_ok_def)

lemma AllocateCores_eq:
  assumes ok: "system_ok shm g" and fit: "length (full_allotment shm g) \<le> 64"
  defines "A \<equiv> full_allotment shm g"
  shows "AllocateCoresToSecondary shm g =
    (let (s, h) = allocating shm g (nat (is_nr_primary_ctrs shm)); sched = must_schedule A g
     in Some (sched, if sched then 1 else 0,
         if sched then s\<lparr>is_num_affinity := int (length A)\<rparr> else s,
         h\<lparr>g_rebalanceAction := action_of A g\<rparr>))"
proof -
  obtain s h where sh: "allocating shm g (nat (is_nr_primary_ctrs shm)) = (s, h)"
    by (cases "allocating shm g (nat (is_nr_primary_ctrs shm))")
  have h: "g_currSecondaryCoreCount h = int (length A)" "g_setAffinityMask h = mask_of A 0"
    "g_lastSecondaryCoreCount h = g_currSecondaryCoreCount g"
    "g_lastAffinityMask h = g_lastAffinityMask g"
    using sh by (auto simp: allocating_def Let_def A_def full_allotment_def reset_allocation_def)
  have loop: "for_loop 0 (nat (is_nr_primary_ctrs shm)) compute_one (shm, reset_allocation g) =
      Some (s, h)"
    using allocating_all[OF ok] fit sh by (simp add: full_allotment_def)
  show ?thesis
    by (simp add: AllocateCoresToSecondary_def loop sh h action_of_def must_schedule_def Let_def)
qed

lemma allocating_simps [simp]:
  "is_primary_ctrs (fst (allocating shm g i)) = is_primary_ctrs shm"
  "is_nr_primary_ctrs (fst (allocating shm g i)) = is_nr_primary_ctrs shm"
  "g_secondary_mask (snd (allocating shm g i)) = set (allotment shm g i)"
  "g_setAffinityMask (snd (allocating shm g i)) = mask_of (allotment shm g i) 0"
  "g_affinityListPos (snd (allocating shm g i)) = int (length (allotment shm g i))"
  "g_currSecondaryCoreCount (snd (allocating shm g i)) = int (length (allotment shm g i))"
  "g_stats (snd (allocating shm g i)) = allotted shm g i"
  "g_logs (snd (allocating shm g i)) = g_logs g"
  "g_cpuList (snd (allocating shm g i)) = g_cpuList g"
  "g_LOW_TIC (snd (allocating shm g i)) = g_LOW_TIC g"
  by (simp_all add: allocating_def Let_def reset_allocation_def)

lemma allocating_system_ok:
  assumes ok: "system_ok shm g" and fit: "length (allotment shm g i) \<le> 64"
  shows "system_ok (fst (allocating shm g i)) (snd (allocating shm g i))"
proof -
  have "info_ok ((g_stats g ! j)\<lparr>bi_CoresAllocatedToSecondary := int (length (granted shm g j))\<rparr>)"
    if "j < nat (is_nr_primary_ctrs shm)" for j
  proof -
    have c: "ctr_ok (is_primary_ctrs shm ! j)" "info_ok (g_stats g ! j)"
      using ok that by (auto simp: system_ok_def)
    then have "length (granted shm g j) \<le> 64"
      using granted_length[of shm g j] distinct_cores_le[of "pool (is_primary_ctrs shm ! j)"]
      by (simp add: ctr_ok_def)
    then show ?thesis using c(2) by (simp add: info_ok_def)
  qed
  moreover have "shm_shape (fst (allocating shm g i))"
    using ok fit by (simp add: allocating_def Let_def system_ok_def shm_shape_def)
  moreover have "length (g_stats g) = 64"
    using ok by (simp add: system_ok_def bal_shape_def MAX_CONTAINERS_def)
  ultimately show ?thesis
    using ok by (auto simp: system_ok_def bal_shape_def allotted_def MAX_CONTAINERS_def)
qed

text \<open>
  C7. \<open>AllocateCoresToSecondary\<close> refines the specification: it is free of undefined behaviour,
  the first \<open>n\<close> entries of \<open>affinity_list\<close> are exactly the allotment, the two masks hold the
  same cores, the counters are its length, and the Secondary is rescheduled exactly when the
  allotment is empty or differs from the last one applied.
\<close>

theorem allocate_refines:
  assumes "system_ok shm g" "distinct (pools shm)"
  shows "let sched = must_schedule (full_allotment shm g) g in \<exists>shm' g'.
    AllocateCoresToSecondary shm g = Some (sched, if sched then 1 else 0, shm', g') \<and>
    take (length (full_allotment shm g)) (is_affinity_list shm') = full_allotment shm g \<and>
    g_secondary_mask g' = set (full_allotment shm g) \<and>
    (\<forall>k. bit (g_setAffinityMask g') k \<longleftrightarrow> int k \<in> set (full_allotment shm g)) \<and>
    g_currSecondaryCoreCount g' = int (length (full_allotment shm g)) \<and>
    g_affinityListPos g' = g_currSecondaryCoreCount g' \<and>
    is_num_affinity shm' = (if sched then g_currSecondaryCoreCount g' else is_num_affinity shm) \<and>
    g_rebalanceAction g' = action_of (full_allotment shm g) g \<and> system_ok shm' g'"
proof -
  let ?N = "nat (is_nr_primary_ctrs shm)" and ?A = "full_allotment shm g"
  let ?sched = "must_schedule ?A g"
  have fit: "length ?A \<le> 64" using assms by (rule full_allotment_fits)
  obtain s h where sh: "allocating shm g ?N = (s, h)" by (cases "allocating shm g ?N")
  have eq: "AllocateCoresToSecondary shm g = Some (?sched, if ?sched then 1 else 0,
      if ?sched then s\<lparr>is_num_affinity := int (length ?A)\<rparr> else s,
      h\<lparr>g_rebalanceAction := action_of ?A g\<rparr>)"
    using AllocateCores_eq[OF assms(1) fit] sh by (simp add: Let_def)
  have facts: "g_secondary_mask h = set ?A" "g_setAffinityMask h = mask_of ?A 0"
    "g_currSecondaryCoreCount h = int (length ?A)" "g_affinityListPos h = int (length ?A)"
    "is_affinity_list s = write_at 0 ?A (is_affinity_list shm)"
    "is_num_affinity s = is_num_affinity shm"
    using sh by (auto simp: allocating_def Let_def full_allotment_def reset_allocation_def)
  have len: "length (is_affinity_list shm) = 64"
    using assms(1) by (auto simp: system_ok_def dest: shm_shapeD)
  have bits: "bit (mask_of ?A 0) k \<longleftrightarrow> int k \<in> set ?A" for k
    using bit_mask_of[OF full_allotment_cores[OF assms(1)], of 0 k] by simp
  have ok: "system_ok s h"
    using allocating_system_ok[OF assms(1), of ?N] fit sh by (simp add: full_allotment_def)
  have ok': "system_ok (s\<lparr>is_num_affinity := n\<rparr>) (h\<lparr>g_rebalanceAction := a\<rparr>)"
    "system_ok s (h\<lparr>g_rebalanceAction := a\<rparr>)" for n a
    using ok by (simp_all add: system_ok_def bal_shape_def shm_shape_def)
  show ?thesis
    unfolding eq using facts len fit bits ok'
    by (cases ?sched) (simp_all add: write_at_def)
qed

definition sample_spare :: balancer where
  "sample_spare = sample_globals\<lparr>g_stats :=
     replicate 64 ((init_info (at_time 0) (at_time 0))\<lparr>bi_SpareCoresToAllocate := 2\<rparr>)\<rparr>"

lemma sample_spare_ok: "system_ok sample_shm sample_spare"
  using sample_system_ok
  by (simp add: system_ok_def sample_spare_def bal_shape_def MAX_CONTAINERS_def less_two info_ok_def
      init_info_def)

lemma sample_pools: "pools sample_shm = [0, 1, 2, 3, 4, 5, 6, 7]"
  by (simp add: pools_def numeral_2_eq_2 pool_def) (simp add: sample_ctr_def)

lemma sample_allotment: "full_allotment sample_shm sample_spare = [3, 2, 7, 6]"
proof -
  have "available sample_spare = (\<lambda>c. \<not> bit (0x23 :: u64) (nat c))"
    by (rule ext) (simp add: available_def sample_spare_def sample_globals_def zero_globals_def)
  then have g: "grantable sample_spare cs = filter (\<lambda>c. \<not> bit (0x23 :: u64) (nat c)) (rev cs)" for cs
    by (simp add: grantable_def)
  have p: "pool (sample_ctr [0, 1, 2, 3]) = [0, 1, 2, 3]" "pool (sample_ctr [4, 5, 6, 7]) = [4, 5, 6, 7]"
    by (simp_all add: pool_def sample_ctr_def)
  have "g_stats sample_spare ! i = (init_info (at_time 0) (at_time 0))\<lparr>bi_SpareCoresToAllocate := 2\<rparr>"
    if "i < 64" for i using that by (simp add: sample_spare_def)
  then show ?thesis
    by (simp add: full_allotment_def allotment_def granted_def g p numeral_2_eq_2)
qed

theorem allocate_refines_witness:
  "\<exists>shm' g'. AllocateCoresToSecondary sample_shm sample_spare = Some (True, 1, shm', g') \<and>
     take 4 (is_affinity_list shm') = [3, 2, 7, 6] \<and> g_secondary_mask g' = {2, 3, 6, 7} \<and>
     g_rebalanceAction g' = 1 \<and> is_num_affinity shm' = 4"
proof -
  have bits: "\<forall>c \<in> set [3, 2, 7, 6 :: int]. core_ok c" by (simp add: core_ok_def)
  have "bit (mask_of [3, 2, 7, 6] 0) 2" using bit_mask_of[OF bits, of 0 2] by simp
  then have "mask_of [3, 2, 7, 6] 0 \<noteq> 0" by auto
  then have sched: "must_schedule [3, 2, 7, 6] sample_spare"
    by (simp add: must_schedule_def sample_spare_def sample_globals_def zero_globals_def)
  have act: "action_of [3, 2, 7, 6] sample_spare = 1"
    by (simp add: action_of_def sample_spare_def sample_globals_def zero_globals_def)
  have d: "distinct (pools sample_shm)" by (simp add: sample_pools)
  obtain shm' g' where
    "AllocateCoresToSecondary sample_shm sample_spare = Some (must_schedule [3, 2, 7, 6] sample_spare,
       if must_schedule [3, 2, 7, 6] sample_spare then 1 else 0, shm', g')"
    "take (length [3, 2, 7, 6 :: int]) (is_affinity_list shm') = [3, 2, 7, 6]"
    "g_secondary_mask g' = set [3, 2, 7, 6]"
    "g_currSecondaryCoreCount g' = int (length [3, 2, 7, 6 :: int])"
    "is_num_affinity shm' = (if must_schedule [3, 2, 7, 6] sample_spare
       then g_currSecondaryCoreCount g' else is_num_affinity sample_shm)"
    "g_rebalanceAction g' = action_of [3, 2, 7, 6] sample_spare"
    using allocate_refines[OF sample_spare_ok d, unfolded sample_allotment Let_def] by blast
  then show ?thesis
    by (intro exI[of _ shm'] exI[of _ g']) (use sched act in \<open>auto simp: eval_nat_numeral\<close>)
qed

text \<open>
  C8. Safety of the allocation: every core given to the Secondary is in the pool of a Primary
  that still has spare cores, no Primary occupies it (it was the Secondary's already, or is
  idle now), and no container gives more than its \<open>SpareCoresToAllocate\<close>.
\<close>

theorem allocate_safe:
  assumes "system_ok shm g" "distinct (pools shm)"
    "AllocateCoresToSecondary shm g = Some (sched, r, shm', g')" "c \<in> g_secondary_mask g'"
  shows "\<exists>i < nat (is_nr_primary_ctrs shm). c \<in> set (pool (is_primary_ctrs shm ! i)) \<and>
    0 < bi_SpareCoresToAllocate (g_stats g ! i) \<and>
    bi_CoresAllocatedToSecondary (g_stats g' ! i) \<le> bi_SpareCoresToAllocate (g_stats g ! i) \<and>
    (bit (g_lastAffinityMask g) (nat c) \<or> \<not> bit (g_currIdleMask g) (nat c))"
proof -
  let ?N = "nat (is_nr_primary_ctrs shm)"
  have fit: "length (full_allotment shm g) \<le> 64" using assms(1,2) by (rule full_allotment_fits)
  have st: "g_secondary_mask g' = set (full_allotment shm g)" "g_stats g' = allotted shm g ?N"
    using assms(3) unfolding AllocateCores_eq[OF assms(1) fit]
    by (auto simp: full_allotment_def Let_def split: prod.splits) (metis allocating_simps(3,7) snd_conv)+
  then obtain i where i: "i < ?N" "c \<in> set (granted shm g i)"
    using assms(4) by (auto simp: full_allotment_def allotment_def)
  have "i < length (g_stats g)"
    using i(1) assms(1) by (auto simp: system_ok_def bal_shape_def MAX_CONTAINERS_def)
  then have "bi_CoresAllocatedToSecondary (g_stats g' ! i) = int (length (granted shm g i))"
    using i(1) by (simp add: st allotted_def)
  moreover have "0 < bi_SpareCoresToAllocate (g_stats g ! i)"
    using i(2) by (cases "0 < bi_SpareCoresToAllocate (g_stats g ! i)") (auto simp: granted_def)
  moreover from this have "int (length (granted shm g i)) \<le> bi_SpareCoresToAllocate (g_stats g ! i)"
    by (simp add: granted_def)
  moreover have "c \<in> set (pool (is_primary_ctrs shm ! i))" using granted_subset i(2) by blast
  moreover have "available g c" using i(2) by (rule granted_available)
  ultimately show ?thesis using i(1) unfolding available_def by auto
qed

theorem allocate_safe_witness:
  "\<exists>i < 2. 6 \<in> set (pool (is_primary_ctrs sample_shm ! i)) \<and>
     0 < bi_SpareCoresToAllocate (g_stats sample_spare ! i) \<and> \<not> bit (0x23 :: u64) 6"
proof -
  have d: "distinct (pools sample_shm)" by (simp add: sample_pools)
  have fit: "length (full_allotment sample_shm sample_spare) \<le> 64" by (simp add: sample_allotment)
  obtain s h where sh: "allocating sample_shm sample_spare (nat (is_nr_primary_ctrs sample_shm)) = (s, h)"
    by (cases "allocating sample_shm sample_spare (nat (is_nr_primary_ctrs sample_shm))")
  then obtain b r s' where a: "AllocateCoresToSecondary sample_shm sample_spare =
      Some (b, r, s', h\<lparr>g_rebalanceAction := action_of [3, 2, 7, 6] sample_spare\<rparr>)"
    using AllocateCores_eq[OF sample_spare_ok fit] by (simp add: Let_def sample_allotment)
  have "g_secondary_mask h = set (full_allotment sample_shm sample_spare)"
    using allocating_simps(3)[of sample_shm sample_spare "nat (is_nr_primary_ctrs sample_shm)"]
    unfolding sh full_allotment_def snd_conv .
  then have "g_secondary_mask h = set [3, 2, 7, 6]" unfolding sample_allotment .
  then have m: "6 \<in> g_secondary_mask (h\<lparr>g_rebalanceAction := action_of [3, 2, 7, 6] sample_spare\<rparr>)"
    by simp
  have "g_lastAffinityMask sample_spare = 0" "g_currIdleMask sample_spare = 0x23"
    by (simp_all add: sample_spare_def sample_globals_def zero_globals_def)
  then show ?thesis using allocate_safe[OF sample_spare_ok d a m] by auto
qed

end
