(* ===== verification/BalancerMain.thy ===== *)
theory BalancerMain imports Allocate CString begin

section \<open>The Balancer process (main.c)\<close>

text \<open>
  Start-up from the command line and the environment, the two parsers of CPU lists, the polling
  loop and the clean-up.  The environment variables, the results of \<open>malloc\<close>, \<open>open\<close> and \<open>mmap\<close>
  and the clock readings are arguments.  One iteration of \<open>pollIdleCPU\<close> reads one snapshot of the
  shared segment; it stops at the call of \<open>SchedAllSecondary\<close>, whose waiting is a separate step of
  the interleaved system, and \<open>finish_event\<close> is what follows that call.
\<close>

subsection \<open>CPU lists\<close>

definition parse_cpu :: "string \<Rightarrow> int \<times> balancer \<Rightarrow> (int \<times> balancer) option" where
  "parse_cpu token = (\<lambda>(curr_cpu, g). do {
     l \<leftarrow> scan_into (g_cpuList g) curr_cpu token;
     n \<leftarrow> c_add curr_cpu 1;
     Some (n, g\<lparr>g_cpuList := l\<rparr>) })"

definition parseCpuList :: "string option \<Rightarrow> balancer \<Rightarrow> (int \<times> balancer) option" where
  "parseCpuList cpuListString g = do {
     (curr_cpu, g) \<leftarrow> while_strsep CHR '','' parse_cpu cpuListString (0, g);
     Some (0, g\<lparr>g_NUMCPUS := curr_cpu\<rparr>) }"

text \<open>The local \<open>curr_cpuid\<close> is uninitialised (\<open>None\<close>) until a token converts; it keeps its value
  when a token does not.\<close>

definition parse_secondary_cpu ::
  "string \<Rightarrow> int \<times> int option \<times> idleStats \<Rightarrow> (int \<times> int option \<times> idleStats) option" where
  "parse_secondary_cpu token = (\<lambda>(curr_cpu, curr_cpuid, shm). do {
     v \<leftarrow> sscanf_d token;
     cpuid \<leftarrow> (case v of Some x \<Rightarrow> Some x | None \<Rightarrow> curr_cpuid);
     l \<leftarrow> arr_set (is_secondary_cores_list shm) curr_cpu cpuid;
     n \<leftarrow> c_add curr_cpu 1;
     Some (n, Some cpuid, shm\<lparr>is_secondary_cores_list := l\<rparr>) })"

definition parseSecondaryCpuList :: "string option \<Rightarrow> idleStats \<Rightarrow> (int \<times> idleStats) option" where
  "parseSecondaryCpuList cpuListString shm = do {
     (curr_cpu, curr_cpuid, shm) \<leftarrow>
       while_strsep CHR '','' parse_secondary_cpu cpuListString (0, None, shm);
     Some (0, shm\<lparr>is_num_secondary_cores := curr_cpu\<rparr>) }"

interpretation bal_cpus: int_sink parse_cpu g_cpuList
proof
  fix n :: int and s :: balancer and tok v
  assume "0 \<le> n" "n < int (length (g_cpuList s))" "length (g_cpuList s) \<le> 128"
    "sscanf_d tok = Some (Some v)"
  then show "\<exists>s'. parse_cpu tok (n, s) = Some (n + 1, s') \<and> g_cpuList s' = (g_cpuList s)[nat n := v]"
    by (simp add: parse_cpu_def scan_into_conv c_add_bind in_int_def)
qed

interpretation sec_cpus: int_sink parse_secondary_cpu "\<lambda>(c, shm). is_secondary_cores_list shm"
proof
  fix n :: int and s :: "int option \<times> idleStats" and tok v
  assume "0 \<le> n" "n < int (length (case s of (c, shm) \<Rightarrow> is_secondary_cores_list shm))"
    "length (case s of (c, shm) \<Rightarrow> is_secondary_cores_list shm) \<le> 128" "sscanf_d tok = Some (Some v)"
  then show "\<exists>s'. parse_secondary_cpu tok (n, s) = Some (n + 1, s') \<and>
      (case s' of (c, shm) \<Rightarrow> is_secondary_cores_list shm) =
      (case s of (c, shm) \<Rightarrow> is_secondary_cores_list shm)[nat n := v]"
    by (cases s) (simp add: parse_secondary_cpu_def arr_set_def c_add_bind in_int_def)
qed

subsection \<open>Start-up\<close>

definition atof :: "string \<Rightarrow> fp" where
  "atof s = (case strtod s of None \<Rightarrow> Fin 0
     | Some (Number q, _) \<Rightarrow> r64 q | Some (Infinity neg, _) \<Rightarrow> if neg then NInf else PInf
     | Some (Not_a_number, _) \<Rightarrow> NaN)"

text \<open>\<open>env != NULL ? atoi(env) : d\<close>.\<close>

definition env_int :: "string option \<Rightarrow> int \<Rightarrow> int option" where
  "env_int e d = (case e of None \<Rightarrow> Some d | Some s \<Rightarrow> atoi s)"

record machine =
  m_getenv :: "string \<Rightarrow> string option"
  m_stats_memory :: "balancer_info list option"
  m_device_opens :: bool
  m_mmap_succeeds :: bool
  m_events_memory :: bool
  m_changes_memory :: bool
  m_dynamic_memory :: bool

text \<open>The blocks of the three logs, and whether logging stays on.\<close>

definition open_logs :: "machine \<Rightarrow> logs \<Rightarrow> logs" where
  "open_logs mc l =
     (let l = (if m_events_memory mc
               then l\<lparr>lg_events := Some Map.empty, lg_loggingEnabled := 1, lg_eventCount := 0\<rparr>
               else l\<lparr>lg_events := None, lg_loggingEnabled := 0\<rparr>);
          l = (if m_changes_memory mc then l\<lparr>lg_idleMaskChanges := Some Map.empty\<rparr>
               else l\<lparr>lg_idleMaskChanges := None, lg_loggingEnabled := 0\<rparr>)
      in if m_dynamic_memory mc then l\<lparr>lg_dynamicEvents := Some Map.empty, lg_dynamicEventCount := 0\<rparr>
         else l\<lparr>lg_dynamicEvents := None, lg_loggingEnabled := 0\<rparr>)"

definition copy_harvest_core :: "nat \<Rightarrow> balancer \<Rightarrow> balancer option" where
  "copy_harvest_core i g = do {
     c \<leftarrow> arr_get (g_cpuList g) (int i);
     h \<leftarrow> arr_set (ir_harvestCores (g_irq g)) (int i) c;
     Some (g\<lparr>g_irq := (g_irq g)\<lparr>ir_harvestCores := h\<rparr>\<rparr>) }"

text \<open>The assignments of \<open>main\<close> between the parsing of the list and the opening of the device.\<close>

definition configure :: "machine \<Rightarrow> string list \<Rightarrow> balancer \<Rightarrow> balancer option" where
  "configure mc argv g = do {
     target \<leftarrow> atoi (argv ! 2);
     maxs \<leftarrow> c_sub (g_NUMCPUS g) target;
     mins \<leftarrow> atoi (argv ! 3);
     sbsr \<leftarrow> env_int (m_getenv mc ''SURPLUS_BUFFER_SAMPLE_RATE'') 1000;
     lbsr \<leftarrow> env_int (m_getenv mc ''DEFICIT_BUFFER_SAMPLE_RATE'') 1000000;
     low_tic \<leftarrow> env_int (m_getenv mc ''LOW_TIC'') 2;
     Some (g\<lparr>g_setAffinityMask := 0, g_allowSuspendSecondary := 0,
             g_totalEligibleCores := g_NUMCPUS g, g_static_targetIdleCores := target,
             g_targetIdleCores := target, g_currSecondaryCoreCount := 0,
             g_maxSecondaryCores := maxs, g_minSecondaryCores := mins,
             g_CoresAllocatedToSecondary := mins,
             g_LOWIDLEFREQ_THRESHOLD := fp_convert r32
               (case m_getenv mc ''LOWIDLEFREQ_THRESHOLD'' of None \<Rightarrow> r64 (35 / 1000) | Some s \<Rightarrow> atof s),
             g_LOW_TIC := low_tic, g_IDLEACTIVE_SAMPLE_RATE := 1000 * 1000 * 1000\<rparr>) }"

datatype start_result = Usage | NoDevice | Started idleStats balancer

text \<open>\<open>main\<close> up to the call of \<open>pollIdleCPU\<close>.  The result of \<open>mmap\<close> is not tested by the code: the
  first access through a failed mapping is undefined.\<close>

definition main_start :: "machine \<Rightarrow> string list \<Rightarrow> idleStats \<Rightarrow> balancer \<Rightarrow> start_result option" where
  "main_start mc argv shm g =
     (if length argv < 5 then Some Usage
      else do {
        (r, g) \<leftarrow> parseCpuList (Some (argv ! 4)) g;
        let g = g\<lparr>g_stats := (case snd (initializeBalancerInfo (m_stats_memory mc)) of
                               None \<Rightarrow> [] | Some infos \<Rightarrow> infos)\<rparr>;
        g \<leftarrow> for_loop 0 (nat (g_NUMCPUS g)) copy_harvest_core g;
        g \<leftarrow> configure mc argv g;
        (if \<not> m_device_opens mc then Some NoDevice
         else if \<not> m_mmap_succeeds mc then None
         else do {
           (r, shm) \<leftarrow> parseSecondaryCpuList (if 5 < length argv then Some (argv ! 5) else None) shm;
           pid \<leftarrow> atoi (argv ! 1);
           Some (Started shm (g\<lparr>g_logs := open_logs mc (g_logs g), g_secondary_pid := pid,
                                g_secondary_mask := {}\<rparr>)) }) })"

subsection \<open>The polling loop\<close>

text \<open>Before the loop: the resets, and the first allocation (up to \<open>SchedAllSecondary\<close>).\<close>

definition poll_begin :: "idleStats \<Rightarrow> balancer \<Rightarrow> (bool \<times> int \<times> idleStats \<times> balancer) option" where
  "poll_begin shm g = AllocateCoresToSecondary shm
     (g\<lparr>g_lastIdleMask := 0, g_lastAffinityMask := 0,
        g_logs := (g_logs g)\<lparr>lg_idleMaskChangeCount := 0\<rparr>\<rparr>)"

definition stamp_all :: "(nat \<Rightarrow> timespec) \<Rightarrow> balancer \<Rightarrow> balancer option" where
  "stamp_all clk g = for_loop 0 MAX_CONTAINERS
     (\<lambda>i g. do {
        b \<leftarrow> arr_get (g_stats g) (int i);
        s \<leftarrow> arr_set (g_stats g) (int i) (b\<lparr>bi_prev_sample_timestamp := clk i\<rparr>);
        Some (g\<lparr>g_stats := s\<rparr>) }) g"

text \<open>The clock readings of an iteration: at the mask change, before and after the allocation, and
  the two readings for each container.\<close>

record poll_clock =
  pc_change :: timespec
  pc_start :: timespec
  pc_samples :: "nat \<Rightarrow> timespec \<times> timespec"

datatype poll_outcome =
    Return_poll
  | Loop idleStats balancer
  | Wait_sched timespec idleStats balancer

text \<open>The end of an iteration: the accumulators start over.\<close>

definition end_iteration :: "balancer \<Rightarrow> balancer" where
  "end_iteration g = g\<lparr>g_lastAffinityMask := g_setAffinityMask g, g_coreDifference := 0,
     g_idleCoresCount := 0\<rparr>"

text \<open>What follows the allocation, once \<open>SchedAllSecondary\<close> has returned or was not called.\<close>

definition finish_event :: "timespec \<Rightarrow> timespec \<Rightarrow> int \<Rightarrow> balancer \<Rightarrow> balancer option" where
  "finish_event eventStart eventEnd setAffinityStatus g = do {
     l \<leftarrow> addLogEvent eventStart eventEnd (g_coreDifference g) setAffinityStatus (g_currIdleMask g)
            (g_idleCoresCount g) (g_setAffinityMask g) (g_currSecondaryCoreCount g) (g_logs g);
     Some (end_iteration (g\<lparr>g_logs := l\<rparr>)) }"

definition rebalance :: "poll_clock \<Rightarrow> timespec \<Rightarrow> idleStats \<Rightarrow> balancer \<Rightarrow> poll_outcome option" where
  "rebalance pc eventEnd shm g = do {
     (sched, status, shm, g) \<leftarrow> AllocateCoresToSecondary shm g;
     (if sched then Some (Wait_sched (pc_start pc) shm g)
      else do {
        g \<leftarrow> finish_event (pc_start pc) eventEnd status g;
        Some (Loop shm g) }) }"

definition sample_mask :: "poll_clock \<Rightarrow> idleStats \<Rightarrow> balancer \<Rightarrow> balancer option" where
  "sample_mask pc shm g = do {
     l \<leftarrow> recordMaskChange (pc_change pc) (g_lastIdleMask g) (is_mask shm) (g_logs g);
     Some (g\<lparr>g_currIdleMask := is_mask shm, g_lastIdleMask := is_mask shm, g_logs := l\<rparr>) }"

definition poll_iteration ::
  "poll_clock \<Rightarrow> timespec \<Rightarrow> idleStats \<Rightarrow> balancer \<Rightarrow> poll_outcome option" where
  "poll_iteration pc eventEnd shm g =
     (if is_balancerControl shm = 0 then Some (Loop shm g)
      else if is_balancerControl shm = -1 then Some Return_poll
      else let g = g\<lparr>g_logs := (g_logs g)\<lparr>lg_iterationsCount := lg_iterationsCount (g_logs g) + 1\<rparr>\<rparr>
      in if is_mask shm = g_lastIdleMask g then Some (Loop shm (g\<lparr>g_currIdleMask := is_mask shm\<rparr>))
      else do {
        g \<leftarrow> sample_mask pc shm g;
        (needs_rebalance, shm, g) \<leftarrow> evaluateContainers (pc_samples pc) shm g;
        (if g_coreDifference g \<noteq> 0 \<or> needs_rebalance \<noteq> 0
         then rebalance pc eventEnd shm g
         else Some (Loop shm (end_iteration g))) })"

subsection \<open>Signals and clean-up\<close>

definition trigger_cleanup :: "int \<Rightarrow> idleStats \<Rightarrow> idleStats" where
  "trigger_cleanup signum shm = (if signum = SIGUSR1 then shm\<lparr>is_balancerControl := -1\<rparr> else shm)"

definition getIdleMask :: "idleStats \<Rightarrow> u64" where
  "getIdleMask shm = is_mask shm"

definition cleanup :: "(string \<Rightarrow> bool) \<Rightarrow> balancer \<Rightarrow> (log_output \<times> balancer) option" where
  "cleanup fopen g = do {
     out \<leftarrow> writeLog fopen g;
     Some (out, g\<lparr>g_logs := (g_logs g)\<lparr>lg_events := None, lg_idleMaskChanges := None,
                                        lg_dynamicEvents := None\<rparr>\<rparr>) }"

subsection \<open>What evaluation leaves alone\<close>

text \<open>The fields that \<open>evaluateContainers\<close> does not write: the pools, the event and mask-change
  logs, the masks and counters of the allocation.\<close>

definition kept :: "balancer \<Rightarrow> balancer \<Rightarrow> bool" where
  "kept g h \<longleftrightarrow> lg_loggingEnabled (g_logs h) = lg_loggingEnabled (g_logs g) \<and>
     lg_events (g_logs h) = lg_events (g_logs g) \<and>
     lg_eventCount (g_logs h) = lg_eventCount (g_logs g) \<and>
     lg_idleMaskChanges (g_logs h) = lg_idleMaskChanges (g_logs g) \<and>
     lg_idleMaskChangeCount (g_logs h) = lg_idleMaskChangeCount (g_logs g) \<and>
     g_lastAffinityMask h = g_lastAffinityMask g \<and> g_currIdleMask h = g_currIdleMask g \<and>
     g_lastIdleMask h = g_lastIdleMask g \<and>
     g_currSecondaryCoreCount h = g_currSecondaryCoreCount g \<and>
     g_setAffinityMask h = g_setAffinityMask g \<and> g_secondary_mask h = g_secondary_mask g \<and>
     g_rebalanceAction h = g_rebalanceAction g"

lemma kept_refl [simp]: "kept g g"
  by (simp add: kept_def)

lemma kept_trans: "kept g h \<Longrightarrow> kept h i \<Longrightarrow> kept g i"
  by (simp add: kept_def)

lemma logDynamicEvent_kept:
  "logDynamicEvent t e i p q s d sw dw n a f (g_logs g) = Some l \<Longrightarrow> kept g (g\<lparr>g_logs := l\<rparr>)"
  by (auto simp: logDynamicEvent_def kept_def bind_eq_Some_conv split: if_splits)

lemma doAdjust_kept:
  assumes "doAdjust L ci bi (g_logs g) = Some (ci', bi', l)"
  shows "kept g (g\<lparr>g_logs := l\<rparr>)"
  using assms by (auto simp: doAdjust_def bind_eq_Some_conv dest!: logDynamicEvent_kept)

lemma evaluate_kept:
  assumes "evaluatePrimaryContainer clk ci bi g = Some (r, ci', bi', g')"
  shows "kept g g'" "same_config ci ci'"
proof -
  obtain bi1 bi2 g2 where p: "sampling_period ci bi1 g = Some (ci', bi2, g2)"
    and h: "doHarvest ci' bi2 g2 = Some (r, bi', g')"
    using assms by (rule evaluate_Some)
  have "kept g g2 \<and> same_config ci ci'"
    using p
  proof (cases rule: sampling_period_Some)
    case within
    then show ?thesis by simp
  next
    case (period b1 b2 l)
    show ?thesis
      unfolding period(5) using doAdjust_kept[OF period(3)] doAdjust_target(3)[OF period(3)] by simp
  qed
  moreover have "kept g2 g'"
    using h by (rule doHarvest_Some) (auto simp: kept_def harvest_accounted_def)
  ultimately show "kept g g'" "same_config ci ci'" using kept_trans by auto
qed

definition same_pools :: "idleStats \<Rightarrow> idleStats \<Rightarrow> bool" where
  "same_pools s t \<longleftrightarrow>
     (\<exists>c. t = s\<lparr>is_primary_ctrs := c\<rparr> \<and> map pool c = map pool (is_primary_ctrs s))"

lemma same_pools_refl: "same_pools s s"
  unfolding same_pools_def by (rule exI[of _ "is_primary_ctrs s"]) simp

lemma same_pools_trans: "same_pools s t \<Longrightarrow> same_pools t u \<Longrightarrow> same_pools s u"
proof -
  assume "same_pools s t" "same_pools t u"
  then obtain c d where "t = s\<lparr>is_primary_ctrs := c\<rparr>" "map pool c = map pool (is_primary_ctrs s)"
    "u = t\<lparr>is_primary_ctrs := d\<rparr>" "map pool d = map pool (is_primary_ctrs t)"
    unfolding same_pools_def by blast
  then have "u = s\<lparr>is_primary_ctrs := d\<rparr>" "map pool d = map pool (is_primary_ctrs s)" by simp_all
  then show "same_pools s u" unfolding same_pools_def by blast
qed

lemma same_pools_update:
  assumes "i < length (is_primary_ctrs s)" "pool ci = pool (is_primary_ctrs s ! i)"
  shows "same_pools s (s\<lparr>is_primary_ctrs := (is_primary_ctrs s)[i := ci]\<rparr>)"
proof -
  have "map pool ((is_primary_ctrs s)[i := ci]) = map pool (is_primary_ctrs s)"
    unfolding map_update using assms by (metis list_update_id nth_map)
  then show ?thesis unfolding same_pools_def by blast
qed

lemma evaluate_one_kept:
  assumes "evaluate_one clk i (n, shm, g) = Some (n', shm', g')"
  shows "kept g g'" "same_pools shm shm'"
proof -
  obtain ci bi r ci' bi' g1 stats ctrs where
    ci: "arr_get (is_primary_ctrs shm) (int i) = Some ci" and
    e: "evaluatePrimaryContainer (clk i) ci bi g = Some (r, ci', bi', g1)"
    and ctrs: "arr_set (is_primary_ctrs shm) (int i) ci' = Some ctrs"
    and g': "g' = g1\<lparr>g_stats := stats\<rparr>" and s': "shm' = shm\<lparr>is_primary_ctrs := ctrs\<rparr>"
    using assms by (auto simp: evaluate_one_def bind_eq_Some_conv)
  show "kept g g'" using evaluate_kept(1)[OF e] g' by (simp add: kept_def)
  have i: "i < length (is_primary_ctrs shm)" "ci = is_primary_ctrs shm ! i"
    "ctrs = (is_primary_ctrs shm)[i := ci']"
    using ci ctrs by (simp_all add: arr_get_Some arr_set_Some)
  have "pool ci' = pool (is_primary_ctrs shm ! i)"
    using evaluate_kept(2)[OF e] i(2) by (simp add: pool_def same_config_def)
  then show "same_pools shm shm'" unfolding s' i(3) by (rule same_pools_update[OF i(1)])
qed

lemma evaluateContainers_kept:
  assumes "evaluateContainers clk shm g = Some (n, shm', g')"
  shows "kept g g'" "same_pools shm shm'"
proof -
  let ?P = "\<lambda>i :: nat. \<lambda>(n :: int, s :: idleStats, h). kept g h \<and> same_pools shm s"
  have "?P (0 + nat (is_nr_primary_ctrs shm)) (n, shm', g')"
  proof (rule for_loop_inv[OF assms[unfolded evaluateContainers_def], where P = ?P])
    show "?P 0 (0, shm, g)" by (simp add: same_pools_refl)
    fix i x y
    assume P: "?P i x" and st: "evaluate_one clk i x = Some y"
    obtain n s h n1 s1 h1 where xy: "x = (n, s, h)" "y = (n1, s1, h1)" by (cases x; cases y)
    show "?P (Suc i) y"
      using evaluate_one_kept[OF st[unfolded xy]] P xy kept_trans same_pools_trans by fastforce
  qed
  then show "kept g g'" "same_pools shm shm'" by auto
qed

lemma pools_cong:
  assumes "same_pools shm shm'" "length (is_primary_ctrs shm) = 64" "is_nr_primary_ctrs shm \<le> 64"
  shows "pools shm' = pools shm" "is_nr_primary_ctrs shm' = is_nr_primary_ctrs shm"
    "is_mask shm' = is_mask shm" "is_balancerControl shm' = is_balancerControl shm"
proof -
  obtain c where c: "shm' = shm\<lparr>is_primary_ctrs := c\<rparr>" "map pool c = map pool (is_primary_ctrs shm)"
    using assms(1) unfolding same_pools_def by blast
  then show "is_nr_primary_ctrs shm' = is_nr_primary_ctrs shm"
    "is_mask shm' = is_mask shm" "is_balancerControl shm' = is_balancerControl shm" by simp_all
  have "length c = 64" using c(2) assms(2) by (metis length_map)
  then have "pool (c ! i) = pool (is_primary_ctrs shm ! i)" if "i < 64" for i
    using that c(2) assms(2) by (metis nth_map)
  then show "pools shm' = pools shm"
    using assms(3) c(1) by (auto simp: pools_def intro!: arg_cong[of _ _ concat])
qed

subsection \<open>The invariant of the loop\<close>

text \<open>Room for \<open>k\<close> more iterations in the logs, and the accumulators at zero.\<close>

definition event_room :: "nat \<Rightarrow> logs \<Rightarrow> bool" where
  "event_room k l \<longleftrightarrow> lg_loggingEnabled l = 0 \<or>
     block_full (lg_events l) (unat (lg_eventCount l)) \<and> unat (lg_eventCount l) + k \<le> MAX_EVENTS"

definition change_room :: "nat \<Rightarrow> logs \<Rightarrow> bool" where
  "change_room k l \<longleftrightarrow> block_full (lg_idleMaskChanges l) (unat (lg_idleMaskChangeCount l)) \<and>
     unat (lg_idleMaskChangeCount l) + k \<le> MAX_EVENTS"

definition poll_ok :: "nat \<Rightarrow> idleStats \<Rightarrow> balancer \<Rightarrow> bool" where
  "poll_ok k shm g \<longleftrightarrow> system_ok shm g \<and> distinct (pools shm) \<and>
     g_coreDifference g = 0 \<and> g_idleCoresCount g = 0 \<and>
     dyn_room (nat (is_nr_primary_ctrs shm) * k) (g_logs g) \<and> event_room k (g_logs g) \<and>
     change_room k (g_logs g)"

lemma event_room_kept: "kept g h \<Longrightarrow> event_room k (g_logs g) = event_room k (g_logs h)"
  by (simp add: event_room_def kept_def)

lemma change_room_kept: "kept g h \<Longrightarrow> change_room k (g_logs g) = change_room k (g_logs h)"
  by (simp add: change_room_def kept_def)

lemma change_room_le: "change_room (Suc k) l \<Longrightarrow> change_room k l"
  by (simp add: change_room_def)

lemma event_room_le: "event_room (Suc k) l \<Longrightarrow> event_room k l"
  by (auto simp: event_room_def)

lemma dyn_room_le: "dyn_room m l \<Longrightarrow> k \<le> m \<Longrightarrow> dyn_room k l"
  by (auto simp: dyn_room_def)

lemma recordMaskChange_room:
  assumes "change_room (Suc k) l"
  shows "\<exists>l'. recordMaskChange t m n l = Some l' \<and> change_room k l' \<and>
    (\<forall>j. event_room j l' = event_room j l) \<and> (\<forall>j. dyn_room j l' = dyn_room j l)"
proof -
  have c: "block_full (lg_idleMaskChanges l) (unat (lg_idleMaskChangeCount l))"
    "unat (lg_idleMaskChangeCount l) < MAX_EVENTS"
    using assms by (auto simp: change_room_def)
  obtain b' where b: "block_set MAX_EVENTS (lg_idleMaskChanges l) (unat (lg_idleMaskChangeCount l))
      \<lparr>mc_ts_sec = word_of_int (tv_sec t), mc_ts_nsec = word_of_int (tv_nsec t), mc_oldMask = m,
       mc_newMask = n\<rparr> = Some b'" "block_full b' (Suc (unat (lg_idleMaskChangeCount l)))"
    using block_set_append[OF c] by blast
  then show ?thesis
    using assms c(2)
    by (simp add: recordMaskChange_def change_room_def event_room_def dyn_room_def
        unat_Suc_below_cap)
qed

lemma addLogEvent_room:
  assumes "event_room (Suc k) l"
  shows "\<exists>l'. addLogEvent t0 t1 d a m n s c l = Some l' \<and> event_room k l' \<and>
    (\<forall>j. change_room j l' = change_room j l) \<and> (\<forall>j. dyn_room j l' = dyn_room j l)"
proof (cases "lg_loggingEnabled l = 0")
  case True
  then show ?thesis by (simp add: addLogEvent_def event_room_def)
next
  case False
  then have c: "block_full (lg_events l) (unat (lg_eventCount l))" "unat (lg_eventCount l) < MAX_EVENTS"
    using assms by (auto simp: event_room_def)
  obtain b' where "block_set MAX_EVENTS (lg_events l) (unat (lg_eventCount l))
      \<lparr>le_startSec = word_of_int (tv_sec t0), le_startNSec = word_of_int (tv_nsec t0),
       le_endSec = word_of_int (tv_sec t1), le_endNSec = word_of_int (tv_nsec t1),
       le_coreDifference = d, le_setAffinity = word_of_int a, le_currIdleMask = m,
       le_setAffinityMask = s, le_idleCoresCount = n, le_CoresAllocatedToSecondary = c\<rparr> = Some b'"
    "block_full b' (Suc (unat (lg_eventCount l)))"
    using block_set_append[OF c] by blast
  then show ?thesis
    using False assms c(2)
    by (simp add: addLogEvent_def change_room_def event_room_def dyn_room_def unat_Suc_below_cap)
qed

lemma finish_event_room:
  assumes "system_ok shm g" "distinct (pools shm)" "event_room (Suc k) (g_logs g)"
    "change_room k (g_logs g)" "dyn_room (nat (is_nr_primary_ctrs shm) * k) (g_logs g)"
  shows "\<exists>g'. finish_event t0 t1 a g = Some g' \<and> poll_ok k shm g' \<and>
    g_lastAffinityMask g' = g_setAffinityMask g"
proof -
  obtain l' where l: "addLogEvent t0 t1 (g_coreDifference g) a (g_currIdleMask g) (g_idleCoresCount g)
      (g_setAffinityMask g) (g_currSecondaryCoreCount g) (g_logs g) = Some l'" "event_room k l'"
    "\<And>j. change_room j l' = change_room j (g_logs g)" "\<And>j. dyn_room j l' = dyn_room j (g_logs g)"
    using addLogEvent_room[OF assms(3)] by blast
  then show ?thesis
    using assms by (simp add: finish_event_def end_iteration_def poll_ok_def system_ok_def bal_shape_def)
qed

lemma AllocateCores_keeps:
  assumes ok: "system_ok shm g" and d: "distinct (pools shm)"
  shows "\<exists>sched shm' g'. AllocateCoresToSecondary shm g = Some (sched, if sched then 1 else 0, shm', g') \<and>
    system_ok shm' g' \<and> g_logs g' = g_logs g \<and> pools shm' = pools shm \<and>
    is_nr_primary_ctrs shm' = is_nr_primary_ctrs shm"
proof -
  let ?N = "nat (is_nr_primary_ctrs shm)" and ?A = "full_allotment shm g"
  have fit: "length ?A \<le> 64" using assms by (rule full_allotment_fits)
  obtain s h where sh: "allocating shm g ?N = (s, h)" by (cases "allocating shm g ?N")
  note simps = allocating_simps[of shm g ?N, unfolded sh fst_conv snd_conv]
  have sok: "system_ok s h"
    using allocating_system_ok[OF ok, of ?N] fit sh by (simp add: full_allotment_def)
  let ?s = "if must_schedule ?A g then s\<lparr>is_num_affinity := int (length ?A)\<rparr> else s"
  let ?h = "h\<lparr>g_rebalanceAction := action_of ?A g\<rparr>"
  have "AllocateCoresToSecondary shm g =
      Some (must_schedule ?A g, if must_schedule ?A g then 1 else 0, ?s, ?h)"
    using AllocateCores_eq[OF ok fit] sh by (simp add: Let_def)
  moreover have "system_ok ?s ?h" using sok by (simp add: system_ok_def bal_shape_def shm_shape_def)
  moreover have "pools ?s = pools shm" "is_nr_primary_ctrs ?s = is_nr_primary_ctrs shm"
    by (simp_all add: pools_def simps)
  moreover have "g_logs ?h = g_logs g" by (simp add: simps)
  ultimately show ?thesis by blast
qed

text \<open>The state after a rebalance, once the Secondary has been rescheduled if that is needed.\<close>

definition settled :: "nat \<Rightarrow> poll_outcome \<Rightarrow> bool" where
  "settled k r \<longleftrightarrow> (case r of Return_poll \<Rightarrow> False
     | Loop shm g \<Rightarrow> poll_ok k shm g
     | Wait_sched t0 shm g \<Rightarrow> \<forall>t1. \<exists>g'. finish_event t0 t1 1 g = Some g' \<and> poll_ok k shm g')"

lemma rebalance_settled:
  assumes "system_ok shm g" "distinct (pools shm)" "event_room (Suc k) (g_logs g)"
    "change_room k (g_logs g)" "dyn_room (nat (is_nr_primary_ctrs shm) * k) (g_logs g)"
  shows "\<exists>r. rebalance pc te shm g = Some r \<and> settled k r"
proof -
  obtain sched shm' g' where a: "AllocateCoresToSecondary shm g = Some (sched, if sched then 1 else 0, shm', g')"
    "system_ok shm' g'" "g_logs g' = g_logs g" "pools shm' = pools shm"
    "is_nr_primary_ctrs shm' = is_nr_primary_ctrs shm"
    using AllocateCores_keeps[OF assms(1,2)] by blast
  have fin: "\<exists>g2. finish_event t0 t1 n g' = Some g2 \<and> poll_ok k shm' g2" for t0 t1 n
    using finish_event_room[OF a(2), of k t0 t1 n] assms a(3-5) by auto
  show ?thesis
  proof (cases sched)
    case True
    then show ?thesis using a(1) fin by (simp add: rebalance_def settled_def)
  next
    case False
    obtain g2 where "finish_event (pc_start pc) te 0 g' = Some g2" "poll_ok k shm' g2" using fin by blast
    then show ?thesis using False a(1) by (simp add: rebalance_def settled_def)
  qed
qed

lemma sample_mask_ok:
  assumes "poll_ok (Suc k) shm g"
  shows "\<exists>g'. sample_mask pc shm g = Some g' \<and> system_ok shm g' \<and> g_stats g' = g_stats g \<and>
    g_coreDifference g' = 0 \<and> g_idleCoresCount g' = 0 \<and> change_room k (g_logs g') \<and>
    (\<forall>j. event_room j (g_logs g') = event_room j (g_logs g)) \<and>
    (\<forall>j. dyn_room j (g_logs g') = dyn_room j (g_logs g)) \<and> g_currIdleMask g' = is_mask shm"
proof -
  obtain l' where l: "recordMaskChange (pc_change pc) (g_lastIdleMask g) (is_mask shm) (g_logs g) = Some l'"
    "change_room k l'" "\<And>j. event_room j l' = event_room j (g_logs g)"
    "\<And>j. dyn_room j l' = dyn_room j (g_logs g)"
    using recordMaskChange_room[of k "g_logs g"] assms unfolding poll_ok_def by blast
  then show ?thesis using assms by (simp add: sample_mask_def poll_ok_def system_ok_def bal_shape_def)
qed

lemma changed_mask_settled:
  assumes ok: "poll_ok (Suc k) shm g"
    and f: "\<forall>i < nat (is_nr_primary_ctrs shm). sample_fits (pc_samples pc i) (g_stats g ! i)"
  shows "\<exists>r. do { g \<leftarrow> sample_mask pc shm g;
        (needs_rebalance, shm, g) \<leftarrow> evaluateContainers (pc_samples pc) shm g;
        (if g_coreDifference g \<noteq> 0 \<or> needs_rebalance \<noteq> 0
         then rebalance pc te shm g
         else Some (Loop shm (end_iteration g))) } = Some r \<and> settled k r"
proof -
  let ?N = "nat (is_nr_primary_ctrs shm)"
  obtain g1 where g1: "sample_mask pc shm g = Some g1" "system_ok shm g1" "g_stats g1 = g_stats g"
    "g_coreDifference g1 = 0" "g_idleCoresCount g1 = 0" "change_room k (g_logs g1)"
    "event_room (Suc k) (g_logs g1)" "dyn_room (?N + ?N * k) (g_logs g1)"
    using sample_mask_ok[OF ok, of pc] ok by (auto simp: poll_ok_def)
  obtain n shm2 g2 where e: "evaluateContainers (pc_samples pc) shm g1 = Some (n, shm2, g2)"
    "system_ok shm2 g2" "dyn_room (?N * k) (g_logs g2)"
    using evaluateContainers_ok[OF g1(2,8), of "pc_samples pc"] f g1(3-5) by auto
  have len: "length (is_primary_ctrs shm) = 64" "is_nr_primary_ctrs shm \<le> 64"
    using ok by (auto simp: poll_ok_def system_ok_def dest: shm_shapeD)
  note same = pools_cong[OF evaluateContainers_kept(2)[OF e(1)] len]
  have room: "distinct (pools shm2)" "event_room (Suc k) (g_logs g2)" "change_room k (g_logs g2)"
    "dyn_room (nat (is_nr_primary_ctrs shm2) * k) (g_logs g2)"
    using ok same e(3) g1(6,7) event_room_kept[OF evaluateContainers_kept(1)[OF e(1)]]
      change_room_kept[OF evaluateContainers_kept(1)[OF e(1)]]
    by (simp_all add: poll_ok_def)
  have "\<exists>r. (if g_coreDifference g2 \<noteq> 0 \<or> n \<noteq> 0 then rebalance pc te shm2 g2
         else Some (Loop shm2 (end_iteration g2))) = Some r \<and> settled k r"
  proof (cases "g_coreDifference g2 \<noteq> 0 \<or> n \<noteq> 0")
    case True
    then show ?thesis using rebalance_settled[OF e(2) room] by simp
  next
    case False
    have "poll_ok k shm2 (end_iteration g2)"
      using e(2) room event_room_le[OF room(2)]
      by (simp add: poll_ok_def end_iteration_def system_ok_def bal_shape_def)
    then show ?thesis using False by (simp add: settled_def)
  qed
  then show ?thesis using g1(1) e(1) by simp
qed


definition sample_active :: idleStats where
  "sample_active = sample_shm\<lparr>is_balancerControl := 1, is_mask := 0x23\<rparr>"

definition sample_polling :: balancer where
  "sample_polling = sample_globals\<lparr>g_logs := open_logs \<lparr>m_getenv = (\<lambda>_. None), m_stats_memory = None,
     m_device_opens = True, m_mmap_succeeds = True, m_events_memory = True, m_changes_memory = True,
     m_dynamic_memory = True\<rparr> zero_logs\<rparr>"

lemma sample_poll_ok: "poll_ok 5 sample_active sample_polling"
proof -
  have "system_ok sample_active sample_polling"
    using sample_system_ok by (simp add: system_ok_def sample_active_def sample_polling_def
        shm_shape_def bal_shape_def)
  moreover have "pools sample_active = pools sample_shm"
    by (simp add: pools_def sample_active_def)
  moreover have "g_coreDifference sample_polling = 0" "g_idleCoresCount sample_polling = 0"
    by (simp_all add: sample_polling_def sample_globals_def zero_globals_def)
  moreover have "dyn_room (nat (is_nr_primary_ctrs sample_active) * 5) (g_logs sample_polling)"
    "event_room 5 (g_logs sample_polling)" "change_room 5 (g_logs sample_polling)"
    by (simp_all add: sample_polling_def sample_active_def open_logs_def zero_logs_def dyn_room_def
        event_room_def change_room_def block_full_def MAX_EVENTS_def)
  ultimately show ?thesis by (simp add: poll_ok_def sample_pools)
qed


subsection \<open>Start-up from a command line\<close>

text \<open>
  The Balancer's two parsers read back what was printed: the comma-separated decimal
  rendering of a list of at most 64 numbers ends up, in order, at the front of the array,
  and the count is its length.
\<close>

lemma balancer_lists_roundtrip:
  assumes "vs \<noteq> []" "\<forall>v \<in> set vs. in_int v" "length vs \<le> 64"
    and "length (g_cpuList g) = 64" "length (is_secondary_cores_list shm) = 64"
  shows "(\<exists>g'. parseCpuList (Some (render_list vs)) g = Some (0, g') \<and>
      g_NUMCPUS g' = int (length vs) \<and> take (length vs) (g_cpuList g') = vs) \<and>
    (\<exists>shm'. parseSecondaryCpuList (Some (render_list vs)) shm = Some (0, shm') \<and>
      is_num_secondary_cores shm' = int (length vs) \<and>
      take (length vs) (is_secondary_cores_list shm') = vs)"
proof -
  obtain g1 where "while_strsep CHR '','' parse_cpu (Some (render_list vs)) (0, g) = Some (int (length vs), g1)"
    "take (length vs) (g_cpuList g1) = vs"
    using bal_cpus.parse_render[of vs g] assms by auto
  moreover obtain c s1 where "while_strsep CHR '','' parse_secondary_cpu (Some (render_list vs)) (0, None, shm) =
      Some (int (length vs), c, s1)" "take (length vs) (is_secondary_cores_list s1) = vs"
    using sec_cpus.parse_render[of vs "(None, shm)"] assms by auto
  ultimately show ?thesis by (simp add: parseCpuList_def parseSecondaryCpuList_def)
qed

lemma balancer_lists_roundtrip_witness:
  "\<exists>g'. parseCpuList (Some (render_list [3, 1, 12])) zero_globals = Some (0, g') \<and>
     take 3 (g_cpuList g') = [3, 1, 12]"
  using balancer_lists_roundtrip[of "[3, 1, 12]" zero_globals zero_shm]
  by (auto simp: in_int_def zero_globals_def zero_shm_def eval_nat_numeral)

lemma parse_cpu_step: "parse_cpu t (n, g) = Some (m, g1) \<Longrightarrow> \<exists>l. g1 = g\<lparr>g_cpuList := l\<rparr>"
  by (auto simp: parse_cpu_def bind_eq_Some_conv)

lemma parse_cpu_frame:
  "run_all parse_cpu ts (n, g) = Some (n', g') \<Longrightarrow> \<exists>l. g' = g\<lparr>g_cpuList := l\<rparr>"
proof (induction ts arbitrary: n g)
  case Nil
  then show ?case by (auto intro: exI[of _ "g_cpuList g"])
next
  case (Cons t ts)
  then obtain m g1 where st: "parse_cpu t (n, g) = Some (m, g1)" "run_all parse_cpu ts (m, g1) = Some (n', g')"
    by (auto simp: bind_eq_Some_conv)
  then show ?case using parse_cpu_step[OF st(1)] Cons.IH[OF st(2)] by auto
qed

lemma parse_cpus_exact:
  assumes "cpus \<noteq> []" "\<forall>c \<in> set cpus. core_ok c" "length cpus \<le> 64" "length (g_cpuList g) = 64"
  shows "\<exists>l. parseCpuList (Some (render_list cpus)) g =
      Some (0, g\<lparr>g_cpuList := l, g_NUMCPUS := int (length cpus)\<rparr>) \<and>
    length l = 64 \<and> take (length cpus) l = cpus"
proof -
  have "\<forall>c \<in> set cpus. in_int c" using assms(2) by (auto simp: core_ok_def in_int_def)
  then obtain g1 where g1: "while_strsep CHR '','' parse_cpu (Some (render_list cpus)) (0, g) =
      Some (int (length cpus), g1)" "length (g_cpuList g1) = 64" "take (length cpus) (g_cpuList g1) = cpus"
    using bal_cpus.parse_render[of cpus g] assms by auto
  then obtain l where "g1 = g\<lparr>g_cpuList := l\<rparr>"
    unfolding while_strsep_tokens using parse_cpu_frame by blast
  then show ?thesis using g1 by (auto simp: parseCpuList_def)
qed

lemma copy_harvest_cores:
  assumes "n \<le> length (g_cpuList g)" "length (g_cpuList g) = 64" "length (ir_harvestCores (g_irq g)) = 64"
  shows "\<exists>h. for_loop 0 n copy_harvest_core g = Some (g\<lparr>g_irq := (g_irq g)\<lparr>ir_harvestCores := h\<rparr>\<rparr>) \<and>
    length h = 64 \<and> take n h = take n (g_cpuList g)"
proof -
  let ?P = "\<lambda>i x. \<exists>h. x = g\<lparr>g_irq := (g_irq g)\<lparr>ir_harvestCores := h\<rparr>\<rparr> \<and> length h = 64 \<and>
    take i h = take i (g_cpuList g)"
  have "\<exists>t. for_loop 0 n copy_harvest_core g = Some t \<and> ?P (0 + n) t"
  proof (rule for_loop_total)
    show "?P 0 g" using assms(3) by (auto intro!: exI[of _ "ir_harvestCores (g_irq g)"])
    fix i x
    assume i: "i < 0 + n" and "?P i x"
    then obtain h where h: "x = g\<lparr>g_irq := (g_irq g)\<lparr>ir_harvestCores := h\<rparr>\<rparr>" "length h = 64"
      "take i h = take i (g_cpuList g)" by blast
    have "take (Suc i) (h[i := g_cpuList g ! i]) = take (Suc i) (g_cpuList g)"
      using i assms h by (simp add: take_Suc_update take_Suc_conv_app_nth)
    then show "\<exists>y. copy_harvest_core i x = Some y \<and> ?P (Suc i) y"
      using i assms h by (auto simp: copy_harvest_core_def intro!: exI[of _ "h[i := g_cpuList g ! i]"])
  qed
  then show ?thesis by auto
qed

lemma parse_secondary_frame:
  "run_all parse_secondary_cpu ts (n, c, shm) = Some (n', c', shm') \<Longrightarrow>
   \<exists>l. shm' = shm\<lparr>is_secondary_cores_list := l\<rparr> \<and> length l = length (is_secondary_cores_list shm)"
proof (induction ts arbitrary: n c shm)
  case Nil
  then show ?case by (auto intro: exI[of _ "is_secondary_cores_list shm"])
next
  case (Cons t ts)
  then obtain m d s1 where st: "parse_secondary_cpu t (n, c, shm) = Some (m, d, s1)"
    "run_all parse_secondary_cpu ts (m, d, s1) = Some (n', c', shm')"
    by (auto simp: bind_eq_Some_conv)
  then obtain l where "s1 = shm\<lparr>is_secondary_cores_list := l\<rparr>" "length l = length (is_secondary_cores_list shm)"
    by (auto simp: parse_secondary_cpu_def bind_eq_Some_conv arr_set_def split: if_splits)
  then show ?case using Cons.IH[OF st(2)] by auto
qed

lemma parse_secondary_exact:
  assumes "sec \<noteq> []" "\<forall>v \<in> set sec. in_int v" "length sec \<le> 64" "length (is_secondary_cores_list shm) = 64"
  shows "\<exists>l. parseSecondaryCpuList (Some (render_list sec)) shm =
      Some (0, shm\<lparr>is_secondary_cores_list := l, is_num_secondary_cores := int (length sec)\<rparr>) \<and>
    length l = 64 \<and> take (length sec) l = sec"
proof -
  obtain c s1 where s1: "while_strsep CHR '','' parse_secondary_cpu (Some (render_list sec)) (0, None, shm) =
      Some (int (length sec), c, s1)" "take (length sec) (is_secondary_cores_list s1) = sec"
    using sec_cpus.parse_render[of sec "(None, shm)"] assms by auto
  then obtain l where "s1 = shm\<lparr>is_secondary_cores_list := l\<rparr>" "length l = length (is_secondary_cores_list shm)"
    unfolding while_strsep_tokens using parse_secondary_frame by blast
  then show ?thesis using s1 assms(4) by (auto simp: parseSecondaryCpuList_def)
qed

text \<open>What start-up leaves: the globals of the command line, everything else as it was.\<close>

lemma main_start_spec:
  assumes "cpus \<noteq> []" "distinct cpus" "\<forall>c \<in> set cpus. core_ok c"
    and "sec \<noteq> []" "\<forall>v \<in> set sec. in_int v" "length sec \<le> 64"
    and "in_int pid" "0 \<le> target" "target \<le> int (length cpus)" "in_int mins"
    and "m_device_opens mc" "m_mmap_succeeds mc" "m_getenv mc = (\<lambda>_. None)"
    and "m_stats_memory mc = Some infos" "length infos = 64" "shm_shape shm"
  shows "\<exists>l g. main_start mc [name, show_int pid, show_int target, show_int mins, render_list cpus,
      render_list sec] shm zero_globals =
      Some (Started (shm\<lparr>is_secondary_cores_list := l, is_num_secondary_cores := int (length sec)\<rparr>) g) \<and>
    length l = 64 \<and> take (length sec) l = sec \<and>
    cpus_ok g \<and> monitored g = cpus \<and> take (length cpus) (ir_harvestCores (g_irq g)) = cpus \<and>
    g_totalEligibleCores g = int (length cpus) \<and> g_targetIdleCores g = target \<and>
    g_maxSecondaryCores g = int (length cpus) - target \<and> g_LOW_TIC g = 2 \<and>
    g_coreDifference g = 0 \<and> g_idleCoresCount g = 0 \<and> g_logs g = open_logs mc zero_logs \<and>
    (\<forall>i < 64. info_ok (g_stats g ! i) \<and> bi_currentState (g_stats g ! i) = OBSERVE \<and>
       bi_SpareCoresToAllocate (g_stats g ! i) = 0)"
proof -
  have len: "length cpus \<le> 64" using assms(2,3) by (rule distinct_cores_le)
  obtain l where l: "parseCpuList (Some (render_list cpus)) zero_globals =
      Some (0, zero_globals\<lparr>g_cpuList := l, g_NUMCPUS := int (length cpus)\<rparr>)"
    "length l = 64" "take (length cpus) l = cpus"
    using parse_cpus_exact[OF assms(1,3) len, of zero_globals] by (auto simp: zero_globals_def)
  let ?infos = "map (\<lambda>b. init_info (bi_prev_sample_timestamp b) (bi_irq_sample_time b)) infos"
  let ?g1 = "zero_globals\<lparr>g_cpuList := l, g_NUMCPUS := int (length cpus), g_stats := ?infos\<rparr>"
  have init: "snd (initializeBalancerInfo (Some infos)) = Some ?infos"
    by (simp add: initializeBalancerInfo_def)
  obtain h where h: "for_loop 0 (length cpus) copy_harvest_core ?g1 =
      Some (?g1\<lparr>g_irq := (g_irq ?g1)\<lparr>ir_harvestCores := h\<rparr>\<rparr>)" "take (length cpus) h = cpus"
    using copy_harvest_cores[of "length cpus" ?g1] l len by (auto simp: zero_globals_def)
  have ints: "in_int target" "in_int (int (length cpus) - target)"
    using assms(8,9) len by (auto simp: in_int_def)
  have env: "env_int None d = Some d" for d by (simp add: env_int_def)
  obtain s where s: "parseSecondaryCpuList (Some (render_list sec)) shm =
      Some (0, shm\<lparr>is_secondary_cores_list := s, is_num_secondary_cores := int (length sec)\<rparr>)"
    "length s = 64" "take (length sec) s = sec"
    using parse_secondary_exact[OF assms(4-6), of shm] assms(16) by (auto simp: shm_shapeD)
  have info: "info_ok (?infos ! i) \<and> bi_currentState (?infos ! i) = OBSERVE \<and>
      bi_SpareCoresToAllocate (?infos ! i) = 0" if "i < 64" for i
    using that assms(15) by (simp add: init_info_ok) (simp add: init_info_def)
  have zero: "g_coreDifference zero_globals = 0" "g_idleCoresCount zero_globals = 0" "g_logs zero_globals = zero_logs"
    by (simp_all add: zero_globals_def)
  show ?thesis
    using l h s info len assms ints zero
    by (intro exI[of _ s]) (simp add: main_start_def init configure_def atoi_show c_sub_bind env
        cpus_ok_def bal_shape_def monitored_def MAX_CONTAINERS_def Suc_le_eq)
qed

text \<open>
  C20. Start-up: on a sane command line and with no environment overrides, \<open>main\<close> reaches the
  polling loop with exactly the cores of the command line monitored, the target and the limits
  derived from it, statistics for all containers in their initial state, and the dedicated
  Secondary cores published in the shared segment.
\<close>

theorem main_starts:
  assumes "cpus \<noteq> []" "distinct cpus" "\<forall>c \<in> set cpus. core_ok c"
    and "sec \<noteq> []" "\<forall>v \<in> set sec. in_int v" "length sec \<le> 64"
    and "in_int pid" "0 \<le> target" "target \<le> int (length cpus)" "in_int mins"
    and "m_device_opens mc" "m_mmap_succeeds mc" "m_getenv mc = (\<lambda>_. None)"
    and "m_stats_memory mc = Some infos" "length infos = 64" "shm_shape shm"
  shows "\<exists>shm' g. main_start mc [name, show_int pid, show_int target, show_int mins, render_list cpus,
      render_list sec] shm zero_globals = Some (Started shm' g) \<and>
    cpus_ok g \<and> monitored g = cpus \<and> take (length cpus) (ir_harvestCores (g_irq g)) = cpus \<and>
    g_totalEligibleCores g = int (length cpus) \<and> g_targetIdleCores g = target \<and>
    g_maxSecondaryCores g = int (length cpus) - target \<and> g_LOW_TIC g = 2 \<and>
    (\<forall>i < 64. info_ok (g_stats g ! i) \<and> bi_currentState (g_stats g ! i) = OBSERVE) \<and>
    is_num_secondary_cores shm' = int (length sec) \<and>
    take (length sec) (is_secondary_cores_list shm') = sec"
  using main_start_spec[OF assms] by fastforce

theorem main_starts_witness:
  "\<exists>shm' g. main_start \<lparr>m_getenv = (\<lambda>_. None),
       m_stats_memory = Some (replicate 64 (init_info (at_time 0) (at_time 0))), m_device_opens = True,
       m_mmap_succeeds = True, m_events_memory = True, m_changes_memory = True, m_dynamic_memory = True\<rparr>
     [''balancer'', show_int 42, show_int 2, show_int 0, render_list [1, 2, 3, 4], render_list [0]]
     zero_shm zero_globals = Some (Started shm' g) \<and> monitored g = [1, 2, 3, 4] \<and>
     g_maxSecondaryCores g = 2"
  using main_starts[of "[1, 2, 3, 4]" "[0]" 42 2 0 "\<lparr>m_getenv = (\<lambda>_. None),
       m_stats_memory = Some (replicate 64 (init_info (at_time 0) (at_time 0))), m_device_opens = True,
       m_mmap_succeeds = True, m_events_memory = True, m_changes_memory = True, m_dynamic_memory = True\<rparr>"
      "replicate 64 (init_info (at_time 0) (at_time 0))" zero_shm "''balancer''"]
  by (auto simp: in_int_def core_ok_def zero_shm_shape)

end
