(* ===== verification/Json.thy ===== *)
theory Json imports CString Floats "HOL-Library.Char_ord" "HOL-Library.List_Lexorder" begin

section \<open>JSON values\<close>

text \<open>
  The values of \<open>Listener/external/json.hpp\<close> that the Listener handles, the exceptions they can
  raise, and the operations on values that \<open>listener.cpp\<close> calls.  An object is a
  \<open>std::map<std::string, json>\<close>: the list of its members in ascending order of the keys, which
  \<open>std::string\<close> compares byte by byte as unsigned characters.  Binary values and the
  \<open>discarded\<close> marker are left out: no JSON text denotes them.  Of an exception only its class and
  its number are kept, not its text.
\<close>

datatype json =
    Null
  | Boolean bool
  | Number_integer int
  | Number_unsigned u64
  | Number_float fp
  | String string
  | Array "json list"
  | Object "(string \<times> json) list"

datatype json_exception =
    Parse_error_101
  | Type_error_302
  | Type_error_305
  | Type_error_316
  | Out_of_range_406

subsection \<open>Members of an object\<close>

text \<open>\<open>m[k] = v\<close> on a \<open>std::map\<close>.\<close>

fun obj_put :: "string \<Rightarrow> 'a \<Rightarrow> (string \<times> 'a) list \<Rightarrow> (string \<times> 'a) list" where
  "obj_put k v [] = [(k, v)]"
| "obj_put k v ((k', v') # m) =
     (if k = k' then (k, v) # m
      else if k < k' then (k, v) # (k', v') # m
      else (k', v') # obj_put k v m)"

lemma map_of_obj_put [simp]: "map_of (obj_put k v m) = (map_of m)(k \<mapsto> v)"
  by (induction k v m rule: obj_put.induct) auto

lemma keys_obj_put [simp]: "fst ` set (obj_put k v m) = insert k (fst ` set m)"
  by (induction k v m rule: obj_put.induct) auto

lemma values_obj_put: "snd ` set (obj_put k v m) \<subseteq> insert v (snd ` set m)"
  by (induction k v m rule: obj_put.induct) auto

definition ordered :: "(string \<times> 'a) list \<Rightarrow> bool" where
  "ordered m \<longleftrightarrow> sorted_wrt (<) (map fst m)"

lemma ordered_obj_put: "ordered m \<Longrightarrow> ordered (obj_put k v m)"
  unfolding ordered_def
proof (induction k v m rule: obj_put.induct)
  case (2 k v k' v' m)
  have keys: "set (map fst (obj_put k v m)) = insert k (set (map fst m))" by simp
  show ?case
  proof (cases "k = k' \<or> k < k'")
    case True
    then show ?thesis using "2.prems" by auto
  next
    case False
    then have less: "k' < k" by auto
    have "\<forall>x \<in> set (map fst (obj_put k v m)). k' < x"
      using "2.prems" less by (simp only: keys) simp
    then show ?thesis using "2.IH" "2.prems" False by simp
  qed
qed simp

text \<open>Adding a key greater than every key of the object appends it.\<close>

lemma obj_put_greatest: "\<forall>x \<in> fst ` set m. x < k \<Longrightarrow> obj_put k v m = m @ [(k, v)]"
  by (induction k v m rule: obj_put.induct) auto

lemma ordered_snoc: "ordered (m @ [(k, v)]) \<longleftrightarrow> ordered m \<and> (\<forall>x \<in> fst ` set m. x < k)"
  by (auto simp: ordered_def sorted_wrt_append)

text \<open>Overwriting the member that was put last.\<close>

lemma obj_put_twice [simp]: "obj_put k w (obj_put k v m) = obj_put k w m"
  by (induction k v m rule: obj_put.induct) auto

subsection \<open>Access\<close>

text \<open>
  \<open>operator[](key)\<close> on a value that is not \<open>const\<close>: a null value becomes an empty object, a missing
  member is added as null.  The result is the member and the changed value.
\<close>

definition json_index :: "string \<Rightarrow> json \<Rightarrow> json_exception + json \<times> json" where
  "json_index key j =
     (case (if j = Null then Object [] else j) of
        Object m \<Rightarrow> (case map_of m key of
            Some v \<Rightarrow> Inr (v, Object m)
          | None \<Rightarrow> Inr (Null, Object (obj_put key Null m)))
      | _ \<Rightarrow> Inl Type_error_305)"

text \<open>The implicit conversion to \<open>std::string\<close>.\<close>

definition from_json_string :: "json \<Rightarrow> json_exception + string" where
  "from_json_string j = (case j of String s \<Rightarrow> Inr s | _ \<Rightarrow> Inl Type_error_302)"

text \<open>\<open>std::string s = json[key];\<close>\<close>

definition get_field :: "string \<Rightarrow> json \<Rightarrow> json_exception + string \<times> json" where
  "get_field key j = (case json_index key j of
       Inl e \<Rightarrow> Inl e
     | Inr (v, j') \<Rightarrow> (case from_json_string v of Inl e \<Rightarrow> Inl e | Inr s \<Rightarrow> Inr (s, j')))"

lemma get_field_present:
  "map_of m key = Some (String s) \<Longrightarrow> get_field key (Object m) = Inr (s, Object m)"
  by (simp add: get_field_def json_index_def from_json_string_def)

lemma get_field_Inr:
  "get_field key j = Inr (s, j') \<longleftrightarrow>
     j' = j \<and> (\<exists>m. j = Object m \<and> map_of m key = Some (String s))"
  by (cases j) (auto simp: get_field_def json_index_def from_json_string_def
      split: option.splits json.splits)

lemma get_field_Inl:
  assumes "get_field key j = Inl e"
  shows "e = Type_error_302 \<or> e = Type_error_305"
  using assms by (cases j) (auto simp: get_field_def json_index_def from_json_string_def
      split: option.splits json.splits)

end
