(* ===== verification/JsonLex.thy ===== *)
theory JsonLex imports Json begin

section \<open>The JSON lexer\<close>

text \<open>
  \<open>class lexer\<close> of \<open>Listener/external/json.hpp\<close>.  The input is the list of the bytes still to be
  read: \<open>get()\<close> takes its head (end of file when it is empty), \<open>unget()\<close> leaves the head where it
  is.  Every scan function returns the token, with the value that the lexer's getters return for
  it or the text of \<open>error_message\<close>, and the bytes that follow.  After a \<open>parse_error\<close> nothing
  reads on, so the bytes returned with one have no meaning.  The locale is C's, whose decimal
  point is the one of JSON.
\<close>

datatype token =
    Literal_true
  | Literal_false
  | Literal_null
  | Value_string string
  | Value_unsigned u64
  | Value_integer int
  | Value_float fp
  | Begin_array
  | Begin_object
  | End_array
  | End_object
  | Name_separator
  | Value_separator
  | Parse_error string
  | End_of_input

definition byte :: "char \<Rightarrow> nat" where
  "byte c = of_char c"

definition byte_in :: "nat \<Rightarrow> nat \<Rightarrow> char \<Rightarrow> bool" where
  "byte_in lo hi c \<longleftrightarrow> lo \<le> byte c \<and> byte c \<le> hi"

definition quoted :: "string \<Rightarrow> string" where
  "quoted s = CHR 0x27 # s @ [CHR 0x27]"

subsection \<open>Escapes\<close>

definition hex_digit :: "char \<Rightarrow> nat option" where
  "hex_digit c =
     (if byte_in 0x30 0x39 c then Some (byte c - 0x30)
      else if byte_in 0x41 0x46 c then Some (byte c - 0x37)
      else if byte_in 0x61 0x66 c then Some (byte c - 0x57)
      else None)"

fun codepoint_digits :: "nat list \<Rightarrow> nat \<Rightarrow> string \<Rightarrow> (nat \<times> string) option" where
  "codepoint_digits [] cp s = Some (cp, s)"
| "codepoint_digits (f # fs) cp s = (case s of [] \<Rightarrow> None
     | c # r \<Rightarrow> (case hex_digit c of None \<Rightarrow> None
         | Some d \<Rightarrow> codepoint_digits fs (cp + push_bit f d) r))"

definition get_codepoint :: "string \<Rightarrow> (nat \<times> string) option" where
  "get_codepoint s = codepoint_digits [12, 8, 4, 0] 0 s"

text \<open>The bytes of a code point.\<close>

definition encode_utf8 :: "nat \<Rightarrow> string" where
  "encode_utf8 cp = map char_of
     (if cp < 0x80 then [cp]
      else if cp \<le> 0x7FF then [0xC0 OR drop_bit 6 cp, 0x80 OR (cp AND 0x3F)]
      else if cp \<le> 0xFFFF then
        [0xE0 OR drop_bit 12 cp, 0x80 OR (drop_bit 6 cp AND 0x3F), 0x80 OR (cp AND 0x3F)]
      else [0xF0 OR drop_bit 18 cp, 0x80 OR (drop_bit 12 cp AND 0x3F),
            0x80 OR (drop_bit 6 cp AND 0x3F), 0x80 OR (cp AND 0x3F)])"

definition bad_hex :: string where
  "bad_hex = ''invalid string: '' @ quoted (CHR 0x5C # ''u'') @ '' must be followed by 4 hex digits''"

definition bad_pair :: string where
  "bad_pair = ''invalid string: surrogate U+D800..U+DBFF must be followed by U+DC00..U+DFFF''"

definition low_first :: string where
  "low_first = ''invalid string: surrogate U+DC00..U+DFFF must follow U+D800..U+DBFF''"

text \<open>After \<open>u\<close>: one code point, or two surrogates that make one.\<close>

definition second_surrogate :: "nat \<Rightarrow> string \<Rightarrow> string + (nat \<times> string)" where
  "second_surrogate cp1 s = (case s of
       a # b # r \<Rightarrow>
         if a = CHR 0x5C \<and> b = CHR ''u'' then
           (case get_codepoint r of
              None \<Rightarrow> Inl bad_hex
            | Some (cp2, t) \<Rightarrow>
                if 0xDC00 \<le> cp2 \<and> cp2 \<le> 0xDFFF
                then Inr (push_bit 10 cp1 + cp2 - 0x35FDC00, t) else Inl bad_pair)
         else Inl bad_pair
     | _ \<Rightarrow> Inl bad_pair)"

definition unicode_escape :: "string \<Rightarrow> string + (string \<times> string)" where
  "unicode_escape s = (case get_codepoint s of
       None \<Rightarrow> Inl bad_hex
     | Some (cp1, r) \<Rightarrow>
         if 0xD800 \<le> cp1 \<and> cp1 \<le> 0xDBFF then
           (case second_surrogate cp1 r of Inl e \<Rightarrow> Inl e | Inr (cp, t) \<Rightarrow> Inr (encode_utf8 cp, t))
         else if 0xDC00 \<le> cp1 \<and> cp1 \<le> 0xDFFF then Inl low_first
         else Inr (encode_utf8 cp1, r))"

definition simple_escape :: "char \<Rightarrow> char option" where
  "simple_escape c =
     (if c = CHR 0x22 then Some (CHR 0x22)
      else if c = CHR 0x5C then Some (CHR 0x5C)
      else if c = CHR ''/'' then Some (CHR ''/'')
      else if c = CHR ''b'' then Some (CHR 0x08)
      else if c = CHR ''f'' then Some (CHR 0x0C)
      else if c = CHR ''n'' then Some (CHR 0x0A)
      else if c = CHR ''r'' then Some (CHR 0x0D)
      else if c = CHR ''t'' then Some (CHR 0x09)
      else None)"

definition scan_escape :: "string \<Rightarrow> string + (string \<times> string)" where
  "scan_escape s = (case s of
       [] \<Rightarrow> Inl ''invalid string: forbidden character after backslash''
     | c # r \<Rightarrow>
         (case simple_escape c of
            Some b \<Rightarrow> Inr ([b], r)
          | None \<Rightarrow> if c = CHR ''u'' then unicode_escape r
              else Inl ''invalid string: forbidden character after backslash''))"

subsection \<open>Bytes that stand for themselves\<close>

text \<open>The name of a control character and, where there is one, its short escape.\<close>

definition control_names_low :: "(string \<times> string) list" where
  "control_names_low =
     [(''NUL'', ''''), (''SOH'', ''''), (''STX'', ''''), (''ETX'', ''''),
      (''EOT'', ''''), (''ENQ'', ''''), (''ACK'', ''''), (''BEL'', ''''),
      (''BS'', ''b''), (''HT'', ''t''), (''LF'', ''n''), (''VT'', ''''),
      (''FF'', ''f''), (''CR'', ''r''), (''SO'', ''''), (''SI'', '''')]"

definition control_names_high :: "(string \<times> string) list" where
  "control_names_high =
     [(''DLE'', ''''), (''DC1'', ''''), (''DC2'', ''''), (''DC3'', ''''),
      (''DC4'', ''''), (''NAK'', ''''), (''SYN'', ''''), (''ETB'', ''''),
      (''CAN'', ''''), (''EM'', ''''), (''SUB'', ''''), (''ESC'', ''''),
      (''FS'', ''''), (''GS'', ''''), (''RS'', ''''), (''US'', '''')]"

definition control_names :: "(string \<times> string) list" where
  "control_names = control_names_low @ control_names_high"

definition nibble_to_hex :: "nat \<Rightarrow> char" where
  "nibble_to_hex n = ''0123456789ABCDEF'' ! n"

definition control_message :: "nat \<Rightarrow> string" where
  "control_message n = (let (name, short) = control_names ! n;
       hex = ''00'' @ [nibble_to_hex (n div 16), nibble_to_hex (n mod 16)]
     in ''invalid string: control character U+'' @ hex @ '' ('' @ name @ '') must be escaped to '' @
        [CHR 0x5C, CHR ''u''] @ hex @ (if short = [] then [] else '' or '' @ CHR 0x5C # short))"

fun next_bytes :: "(nat \<times> nat) list \<Rightarrow> string \<Rightarrow> (string \<times> string) option" where
  "next_bytes [] s = Some ([], s)"
| "next_bytes ((lo, hi) # ranges) s = (case s of [] \<Rightarrow> None
     | c # r \<Rightarrow> if byte_in lo hi c
         then (case next_bytes ranges r of None \<Rightarrow> None | Some (bs, t) \<Rightarrow> Some (c # bs, t))
         else None)"

definition next_byte_in_range ::
  "char \<Rightarrow> (nat \<times> nat) list \<Rightarrow> string \<Rightarrow> (string \<times> string) option" where
  "next_byte_in_range c ranges s =
     (case next_bytes ranges s of None \<Rightarrow> None | Some (bs, t) \<Rightarrow> Some (c # bs, t))"

text \<open>What must follow the first byte of a character; \<open>None\<close> when no character starts with it.\<close>

definition continuation :: "nat \<Rightarrow> (nat \<times> nat) list option" where
  "continuation b =
     (if 0xC2 \<le> b \<and> b \<le> 0xDF then Some [(0x80, 0xBF)]
      else if b = 0xE0 then Some [(0xA0, 0xBF), (0x80, 0xBF)]
      else if (0xE1 \<le> b \<and> b \<le> 0xEC) \<or> b = 0xEE \<or> b = 0xEF then Some [(0x80, 0xBF), (0x80, 0xBF)]
      else if b = 0xED then Some [(0x80, 0x9F), (0x80, 0xBF)]
      else if b = 0xF0 then Some [(0x90, 0xBF), (0x80, 0xBF), (0x80, 0xBF)]
      else if 0xF1 \<le> b \<and> b \<le> 0xF3 then Some [(0x80, 0xBF), (0x80, 0xBF), (0x80, 0xBF)]
      else if b = 0xF4 then Some [(0x80, 0x8F), (0x80, 0xBF), (0x80, 0xBF)]
      else None)"

definition ill_formed :: string where
  "ill_formed = ''invalid string: ill-formed UTF-8 byte''"

definition scan_character :: "char \<Rightarrow> string \<Rightarrow> string + (string \<times> string)" where
  "scan_character c s =
     (if byte c \<le> 0x1F then Inl (control_message (byte c))
      else if byte c \<le> 0x7F then Inr ([c], s)
      else (case continuation (byte c) of
          None \<Rightarrow> Inl ill_formed
        | Some ranges \<Rightarrow> (case next_byte_in_range c ranges s of
            None \<Rightarrow> Inl ill_formed
          | Some (bs, t) \<Rightarrow> Inr (bs, t))))"

lemma codepoint_digits_length: "codepoint_digits fs cp s = Some (v, t) \<Longrightarrow> length t + length fs = length s"
  by (induction fs cp s rule: codepoint_digits.induct) (auto split: list.splits option.splits)

lemma get_codepoint_length: "get_codepoint s = Some (cp, t) \<Longrightarrow> length t < length s"
  unfolding get_codepoint_def by (drule codepoint_digits_length) simp

lemma second_surrogate_length: "second_surrogate cp s = Inr (cp', t) \<Longrightarrow> length t < length s"
  by (auto simp: second_surrogate_def split: list.splits option.splits if_splits
      dest!: get_codepoint_length)

lemma scan_escape_length: "scan_escape s = Inr (bs, t) \<Longrightarrow> length t < length s"
  by (auto simp: scan_escape_def unicode_escape_def split: list.splits option.splits if_splits sum.splits
      dest!: get_codepoint_length second_surrogate_length)

lemma next_bytes_length: "next_bytes rs s = Some (bs, t) \<Longrightarrow> length t + length rs = length s"
  by (induction rs s arbitrary: bs rule: next_bytes.induct) (auto split: list.splits option.splits if_splits)

lemma scan_character_length: "scan_character c s = Inr (bs, t) \<Longrightarrow> length t \<le> length s"
  by (auto simp: scan_character_def next_byte_in_range_def split: option.splits if_splits
      dest!: next_bytes_length)

subsection \<open>Strings\<close>

text \<open>One turn of the loop on a character that is not the closing quote: the bytes added.\<close>

definition scan_unit :: "char \<Rightarrow> string \<Rightarrow> string + (string \<times> string)" where
  "scan_unit c s = (if c = CHR 0x5C then scan_escape s else scan_character c s)"

lemma scan_unit_length: "scan_unit c s = Inr (bs, t) \<Longrightarrow> length t \<le> length s"
  by (auto simp: scan_unit_def split: if_splits dest!: scan_escape_length scan_character_length)

text \<open>After the opening quote; \<open>buf\<close> is \<open>token_buffer\<close>.\<close>

function scan_string :: "string \<Rightarrow> string \<Rightarrow> token \<times> string" where
  "scan_string buf s = (case s of
       [] \<Rightarrow> (Parse_error ''invalid string: missing closing quote'', [])
     | c # r \<Rightarrow>
         if c = CHR 0x22 then (Value_string buf, r)
         else (case scan_unit c r of
             Inl e \<Rightarrow> (Parse_error e, r)
           | Inr (bs, t) \<Rightarrow> scan_string (buf @ bs) t))"
  by pat_completeness auto

termination
  by (relation "measure (\<lambda>(buf, s). length s)")
    (auto dest!: scan_unit_length)

declare scan_string.simps [simp del]

subsection \<open>Numbers\<close>

datatype number_type = Unsigned | Integer | Float

text \<open>\<open>strtoull\<close> on decimal digits: the value and whether it is out of range.\<close>

definition strtoull :: "string \<Rightarrow> int \<times> bool" where
  "strtoull s = (let v = fst (read_digits 0 s) in if 2 ^ 64 \<le> v then (2 ^ 64 - 1, True) else (v, False))"

definition strtod_double :: "string \<Rightarrow> fp" where
  "strtod_double s = (case strtod s of
       None \<Rightarrow> Fin 0
     | Some (Number q, _) \<Rightarrow> r64 q
     | Some (Infinity neg, _) \<Rightarrow> fp_signed_inf neg
     | Some (Not_a_number, _) \<Rightarrow> NaN)"

definition scan_number_done :: "number_type \<Rightarrow> string \<Rightarrow> token" where
  "scan_number_done ty buf =
     (case ty of
        Unsigned \<Rightarrow> (case strtoull buf of (x, erange) \<Rightarrow>
          if \<not> erange then Value_unsigned (word_of_int x) else Value_float (strtod_double buf))
      | Integer \<Rightarrow> (case strtol buf of (x, erange, _) \<Rightarrow>
          if \<not> erange then Value_integer x else Value_float (strtod_double buf))
      | Float \<Rightarrow> Value_float (strtod_double buf))"

fun scan_number_any2 :: "string \<Rightarrow> string \<Rightarrow> token \<times> string" where
  "scan_number_any2 buf [] = (scan_number_done Float buf, [])"
| "scan_number_any2 buf (c # s) =
     (if c_isdigit c then scan_number_any2 (buf @ [c]) s else (scan_number_done Float buf, c # s))"

definition scan_number_sign :: "string \<Rightarrow> string \<Rightarrow> token \<times> string" where
  "scan_number_sign buf s = (case s of
       c # r \<Rightarrow> if c_isdigit c then scan_number_any2 (buf @ [c]) r
         else (Parse_error ''invalid number; expected digit after exponent sign'', r)
     | [] \<Rightarrow> (Parse_error ''invalid number; expected digit after exponent sign'', []))"

definition scan_number_exponent :: "string \<Rightarrow> string \<Rightarrow> token \<times> string" where
  "scan_number_exponent buf s = (case s of
       c # r \<Rightarrow>
         if c = CHR ''+'' \<or> c = CHR ''-'' then scan_number_sign (buf @ [c]) r
         else if c_isdigit c then scan_number_any2 (buf @ [c]) r
         else (Parse_error (''invalid number; expected '' @ quoted ''+'' @ '', '' @ quoted ''-'' @ '', or digit after exponent''), r)
     | [] \<Rightarrow> (Parse_error (''invalid number; expected '' @ quoted ''+'' @ '', '' @ quoted ''-'' @ '', or digit after exponent''), []))"

fun scan_number_decimal2 :: "string \<Rightarrow> string \<Rightarrow> token \<times> string" where
  "scan_number_decimal2 buf [] = (scan_number_done Float buf, [])"
| "scan_number_decimal2 buf (c # s) =
     (if c_isdigit c then scan_number_decimal2 (buf @ [c]) s
      else if c = CHR ''e'' \<or> c = CHR ''E'' then scan_number_exponent (buf @ [c]) s
      else (scan_number_done Float buf, c # s))"

definition scan_number_decimal1 :: "string \<Rightarrow> string \<Rightarrow> token \<times> string" where
  "scan_number_decimal1 buf s = (case s of
       c # r \<Rightarrow> if c_isdigit c then scan_number_decimal2 (buf @ [c]) r
         else (Parse_error (''invalid number; expected digit after '' @ quoted ''.''), r)
     | [] \<Rightarrow> (Parse_error (''invalid number; expected digit after '' @ quoted ''.''), []))"

fun scan_number_any1 :: "number_type \<Rightarrow> string \<Rightarrow> string \<Rightarrow> token \<times> string" where
  "scan_number_any1 ty buf [] = (scan_number_done ty buf, [])"
| "scan_number_any1 ty buf (c # s) =
     (if c_isdigit c then scan_number_any1 ty (buf @ [c]) s
      else if c = CHR ''.'' then scan_number_decimal1 (buf @ [c]) s
      else if c = CHR ''e'' \<or> c = CHR ''E'' then scan_number_exponent (buf @ [c]) s
      else (scan_number_done ty buf, c # s))"

definition scan_number_zero :: "number_type \<Rightarrow> string \<Rightarrow> string \<Rightarrow> token \<times> string" where
  "scan_number_zero ty buf s = (case s of
       c # r \<Rightarrow>
         if c = CHR ''.'' then scan_number_decimal1 (buf @ [c]) r
         else if c = CHR ''e'' \<or> c = CHR ''E'' then scan_number_exponent (buf @ [c]) r
         else (scan_number_done ty buf, c # r)
     | [] \<Rightarrow> (scan_number_done ty buf, []))"

definition scan_number_minus :: "string \<Rightarrow> string \<Rightarrow> token \<times> string" where
  "scan_number_minus buf s = (case s of
       c # r \<Rightarrow>
         if c = CHR ''0'' then scan_number_zero Integer (buf @ [c]) r
         else if c_isdigit c then scan_number_any1 Integer (buf @ [c]) r
         else (Parse_error (''invalid number; expected digit after '' @ quoted ''-''), r)
     | [] \<Rightarrow> (Parse_error (''invalid number; expected digit after '' @ quoted ''-''), []))"

definition scan_number :: "char \<Rightarrow> string \<Rightarrow> token \<times> string" where
  "scan_number c s =
     (if c = CHR ''-'' then scan_number_minus [c] s
      else if c = CHR ''0'' then scan_number_zero Unsigned [c] s
      else scan_number_any1 Unsigned [c] s)"

subsection \<open>Tokens\<close>

text \<open>The characters after the first one of \<open>true\<close>, \<open>false\<close> and \<open>null\<close>.\<close>

fun scan_literal :: "string \<Rightarrow> token \<Rightarrow> string \<Rightarrow> token \<times> string" where
  "scan_literal [] t s = (t, s)"
| "scan_literal (x # xs) t s = (case s of
     c # r \<Rightarrow> if c = x then scan_literal xs t r else (Parse_error ''invalid literal'', r)
   | [] \<Rightarrow> (Parse_error ''invalid literal'', []))"

definition json_space :: "char \<Rightarrow> bool" where
  "json_space c \<longleftrightarrow> c = CHR '' '' \<or> c = CHR 0x09 \<or> c = CHR 0x0A \<or> c = CHR 0x0D"

definition skip_whitespace :: "string \<Rightarrow> string" where
  "skip_whitespace s = dropWhile json_space s"

definition skip_bom :: "string \<Rightarrow> string option" where
  "skip_bom s = (case s of
       c # r \<Rightarrow> if c = CHR 0xEF
         then (case r of a # b # t \<Rightarrow> if a = CHR 0xBB \<and> b = CHR 0xBF then Some t else None | _ \<Rightarrow> None)
         else Some s
     | [] \<Rightarrow> Some [])"

definition scan_token :: "char \<Rightarrow> string \<Rightarrow> token \<times> string" where
  "scan_token c s =
     (if c = CHR ''['' then (Begin_array, s)
      else if c = CHR '']'' then (End_array, s)
      else if c = CHR 0x7B then (Begin_object, s)
      else if c = CHR 0x7D then (End_object, s)
      else if c = CHR '':'' then (Name_separator, s)
      else if c = CHR '','' then (Value_separator, s)
      else if c = CHR ''t'' then scan_literal ''rue'' Literal_true s
      else if c = CHR ''f'' then scan_literal ''alse'' Literal_false s
      else if c = CHR ''n'' then scan_literal ''ull'' Literal_null s
      else if c = CHR 0x22 then scan_string [] s
      else if c = CHR ''-'' \<or> c_isdigit c then scan_number c s
      else if c = CHR 0x00 then (End_of_input, s)
      else (Parse_error ''invalid literal'', s))"

text \<open>\<open>first\<close> says that nothing has been read yet.\<close>

definition scan :: "bool \<Rightarrow> string \<Rightarrow> token \<times> string" where
  "scan first s = (case (if first then skip_bom s else Some s) of
       None \<Rightarrow> (Parse_error ''invalid BOM; must be 0xEF 0xBB 0xBF if given'', s)
     | Some t \<Rightarrow> (case skip_whitespace t of [] \<Rightarrow> (End_of_input, []) | c # r \<Rightarrow> scan_token c r))"

subsection \<open>Progress\<close>

text \<open>Every token but the end of the input and an error takes at least one byte.\<close>

definition ends :: "token \<Rightarrow> bool" where
  "ends t \<longleftrightarrow> t = End_of_input \<or> (\<exists>e. t = Parse_error e)"

lemma scan_string_length: "length (snd (scan_string buf s)) \<le> length s"
proof (induction buf s rule: scan_string.induct)
  case (1 buf s)
  show ?case
  proof (cases s)
    case Nil
    then show ?thesis by (subst scan_string.simps) simp
  next
    case (Cons c r)
    show ?thesis
    proof (cases "c = CHR 0x22")
      case True
      then show ?thesis using Cons by (subst scan_string.simps) simp
    next
      case False
      show ?thesis
      proof (cases "scan_unit c r")
        case (Inl e)
        then show ?thesis using Cons False by (subst scan_string.simps) simp
      next
        case (Inr p)
        obtain bs t where p: "p = (bs, t)" by (cases p)
        have "length (snd (scan_string (buf @ bs) t)) \<le> length t"
          by (rule "1"[OF Cons False]) (use Inr p in simp_all)
        then show ?thesis
          using Cons False Inr p scan_unit_length[of c r bs t] by (subst scan_string.simps) simp
      qed
    qed
  qed
qed

lemma any2_length: "scan_number_any2 buf s = (t, r) \<Longrightarrow> length r \<le> length s"
  by (induction buf s rule: scan_number_any2.induct) (auto split: if_splits)

lemma exponent_length: "scan_number_exponent buf s = (t, r) \<Longrightarrow> length r \<le> length s"
  by (auto simp: scan_number_exponent_def scan_number_sign_def split: list.splits if_splits dest!: any2_length)

lemma decimal2_length: "scan_number_decimal2 buf s = (t, r) \<Longrightarrow> length r \<le> length s"
  by (induction buf s rule: scan_number_decimal2.induct) (auto split: if_splits dest!: exponent_length)

lemma decimal1_length: "scan_number_decimal1 buf s = (t, r) \<Longrightarrow> length r \<le> length s"
  by (auto simp: scan_number_decimal1_def split: list.splits if_splits dest!: decimal2_length)

lemma any1_length: "scan_number_any1 ty buf s = (t, r) \<Longrightarrow> length r \<le> length s"
  by (induction ty buf s rule: scan_number_any1.induct)
    (auto split: if_splits dest!: exponent_length decimal1_length)

lemma zero_length: "scan_number_zero ty buf s = (t, r) \<Longrightarrow> length r \<le> length s"
  by (auto simp: scan_number_zero_def split: list.splits if_splits dest!: exponent_length decimal1_length)

lemma scan_number_length: "scan_number c s = (t, r) \<Longrightarrow> length r \<le> length s"
  by (auto simp: scan_number_def scan_number_minus_def split: list.splits if_splits
      dest!: zero_length any1_length)

lemma scan_literal_length: "scan_literal xs t s = (u, r) \<Longrightarrow> length r \<le> length s"
  by (induction xs t s rule: scan_literal.induct) (auto split: list.splits if_splits)

lemma scan_token_length: "scan_token c s = (t, r) \<Longrightarrow> length r \<le> length s"
  using scan_string_length[of "[]" s]
  by (auto simp: scan_token_def simp del: scan_literal.simps split: if_splits
      dest!: scan_literal_length scan_number_length)

lemma scan_length:
  assumes "scan False s = (t, r)"
  shows "length r \<le> length s" "\<not> ends t \<Longrightarrow> length r < length s"
proof -
  have skip: "length (skip_whitespace s) \<le> length s"
    unfolding skip_whitespace_def by (rule length_dropWhile_le)
  show "length r \<le> length s"
    using assms skip by (auto simp: scan_def split: list.splits dest!: scan_token_length)
  show "length r < length s" if "\<not> ends t"
    using assms skip that by (auto simp: scan_def ends_def split: list.splits dest!: scan_token_length)
qed

end
