(* ===== verification/JsonParse.thy ===== *)
theory JsonParse imports JsonLex begin

section \<open>The JSON parser\<close>

text \<open>
  \<open>class parser\<close> and \<open>class json_sax_dom_parser\<close> of \<open>Listener/external/json.hpp\<close>, without
  callback, with exceptions and in strict mode, as \<open>nlohmann::json::parse(json_data)\<close> uses them.
  The DOM handler of the source writes every value through a pointer into its parent; here
  \<open>ref_stack\<close> holds the containers that are still open, innermost first, each with what it contains
  so far, and a container enters its parent when it closes.  Nothing reads a container before.
\<close>

subsection \<open>The DOM handler\<close>

text \<open>An open object knows the key of the member that \<open>object_element\<close> points at.\<close>

datatype frame = In_array "json list" | In_object "(string \<times> json) list" "string option"

record dom =
  root :: json
  ref_stack :: "frame list"

definition new_dom :: dom where
  "new_dom = \<lparr>root = Null, ref_stack = []\<rparr>"

definition handle_value :: "json \<Rightarrow> dom \<Rightarrow> dom" where
  "handle_value v d = (case ref_stack d of
       [] \<Rightarrow> d\<lparr>root := v\<rparr>
     | In_array xs # fs \<Rightarrow> d\<lparr>ref_stack := In_array (xs @ [v]) # fs\<rparr>
     | In_object m (Some k) # fs \<Rightarrow> d\<lparr>ref_stack := In_object (obj_put k v m) (Some k) # fs\<rparr>
     | In_object m None # fs \<Rightarrow> d)"

definition start_object :: "dom \<Rightarrow> dom" where
  "start_object d = d\<lparr>ref_stack := In_object [] None # ref_stack d\<rparr>"

definition start_array :: "dom \<Rightarrow> dom" where
  "start_array d = d\<lparr>ref_stack := In_array [] # ref_stack d\<rparr>"

text \<open>\<open>operator[](key)\<close>: a member that is not there yet is added as null.\<close>

definition add_key :: "string \<Rightarrow> dom \<Rightarrow> dom" where
  "add_key k d = (case ref_stack d of
       In_object m k' # fs \<Rightarrow>
         d\<lparr>ref_stack := In_object (case map_of m k of None \<Rightarrow> obj_put k Null m | Some _ \<Rightarrow> m) (Some k) # fs\<rparr>
     | _ \<Rightarrow> d)"

definition end_container :: "dom \<Rightarrow> dom" where
  "end_container d = (case ref_stack d of
       [] \<Rightarrow> d
     | In_array xs # fs \<Rightarrow> handle_value (Array xs) (d\<lparr>ref_stack := fs\<rparr>)
     | In_object m k # fs \<Rightarrow> handle_value (Object m) (d\<lparr>ref_stack := fs\<rparr>))"

subsection \<open>One token\<close>

text \<open>
  Reading a value throws, reads all of it, or enters a container (true for an array) whose first
  value starts with the given token.  After a value inside a container the parser throws, goes on
  with the token of the next value, or has closed the container.
\<close>

datatype value_step =
    Value_failed json_exception
  | Value_read dom string
  | Entered bool dom token string

datatype next_step =
    Next_failed json_exception
  | More dom token string
  | Closed dom string

text \<open>A key, the colon and the first token of the member's value; \<open>None\<close> is a parse error.\<close>

definition parse_member :: "dom \<Rightarrow> token \<Rightarrow> string \<Rightarrow> (dom \<times> token \<times> string) option" where
  "parse_member d tok s = (case tok of
       Value_string k \<Rightarrow> (case scan False s of (sep, t) \<Rightarrow>
         if sep \<noteq> Name_separator then None
         else (case scan False t of (v, u) \<Rightarrow> Some (add_key k d, v, u)))
     | _ \<Rightarrow> None)"

definition parse_object :: "dom \<Rightarrow> string \<Rightarrow> value_step" where
  "parse_object d s = (case scan False s of (tok, t) \<Rightarrow>
       if tok = End_object then Value_read (end_container (start_object d)) t
       else (case parse_member (start_object d) tok t of
           None \<Rightarrow> Value_failed Parse_error_101
         | Some (d', v, u) \<Rightarrow> Entered False d' v u))"

definition parse_array :: "dom \<Rightarrow> string \<Rightarrow> value_step" where
  "parse_array d s = (case scan False s of (tok, t) \<Rightarrow>
       if tok = End_array then Value_read (end_container (start_array d)) t
       else Entered True (start_array d) tok t)"

fun is_finite :: "fp \<Rightarrow> bool" where
  "is_finite (Fin q) = True"
| "is_finite _ = False"

definition parse_token :: "dom \<Rightarrow> token \<Rightarrow> string \<Rightarrow> value_step" where
  "parse_token d tok s = (case tok of
       Begin_object \<Rightarrow> parse_object d s
     | Begin_array \<Rightarrow> parse_array d s
     | Value_float x \<Rightarrow>
         if is_finite x then Value_read (handle_value (Number_float x) d) s else Value_failed Out_of_range_406
     | Literal_false \<Rightarrow> Value_read (handle_value (Boolean False) d) s
     | Literal_null \<Rightarrow> Value_read (handle_value Null d) s
     | Literal_true \<Rightarrow> Value_read (handle_value (Boolean True) d) s
     | Value_integer x \<Rightarrow> Value_read (handle_value (Number_integer x) d) s
     | Value_string x \<Rightarrow> Value_read (handle_value (String x) d) s
     | Value_unsigned x \<Rightarrow> Value_read (handle_value (Number_unsigned x) d) s
     | _ \<Rightarrow> Value_failed Parse_error_101)"

text \<open>After a value in an array, and after a value in an object.\<close>

definition after_element :: "dom \<Rightarrow> string \<Rightarrow> next_step" where
  "after_element d s = (case scan False s of (tok, t) \<Rightarrow>
       if tok = Value_separator then (case scan False t of (v, u) \<Rightarrow> More d v u)
       else if tok = End_array then Closed (end_container d) t
       else Next_failed Parse_error_101)"

definition after_member :: "dom \<Rightarrow> string \<Rightarrow> next_step" where
  "after_member d s = (case scan False s of (tok, t) \<Rightarrow>
       if tok = Value_separator then (case scan False t of (k, u) \<Rightarrow>
           (case parse_member d k u of None \<Rightarrow> Next_failed Parse_error_101 | Some (d', v, w) \<Rightarrow> More d' v w))
       else if tok = End_object then Closed (end_container d) t
       else Next_failed Parse_error_101)"

subsection \<open>The loop\<close>

text \<open>A bound on the turns that are left: two for each byte, one more while the token is not the last.\<close>

definition work :: "token \<Rightarrow> string \<Rightarrow> nat" where
  "work tok s = 2 * length s + (if ends tok then 0 else 1)"

lemma scan_work: "scan False s = (t, r) \<Longrightarrow> work t r \<le> 2 * length s \<and> length r \<le> length s"
  using scan_length[of s t r] by (auto simp: work_def)

lemma not_ends [simp]:
  "\<not> ends Begin_array" "\<not> ends Begin_object" "\<not> ends End_array" "\<not> ends End_object"
  "\<not> ends Name_separator" "\<not> ends Value_separator" "\<not> ends (Value_string x)"
  "\<not> ends Literal_true" "\<not> ends Literal_false" "\<not> ends Literal_null"
  "\<not> ends (Value_unsigned u)" "\<not> ends (Value_integer i)" "\<not> ends (Value_float f)"
  by (simp_all add: ends_def)

lemma parse_member_work: "parse_member d tok s = Some (d', t, r) \<Longrightarrow> work t r \<le> 2 * length s"
  by (auto simp: parse_member_def split: token.splits prod.splits if_splits
      dest!: scan_work)

lemma parse_token_entered:
  assumes "parse_token d tok s = Entered a d' t r"
  shows "work t r < work tok s"
proof -
  from assms have tok: "tok = Begin_object \<or> tok = Begin_array"
    by (auto simp: parse_token_def split: token.splits if_splits)
  then have "work tok s = 2 * length s + 1" by (auto simp: work_def)
  moreover have "work t r \<le> 2 * length s"
    using assms tok by (auto simp: parse_token_def parse_object_def parse_array_def
        split: prod.splits if_splits option.splits dest!: parse_member_work scan_work)
  ultimately show ?thesis by simp
qed

lemma parse_token_value:
  assumes "parse_token d tok s = Value_read d' r"
  shows "2 * length r < work tok s"
  using assms by (auto simp: parse_token_def parse_object_def parse_array_def work_def
      split: token.splits prod.splits if_splits option.splits
      dest!: scan_length(1))

definition after_value :: "bool \<Rightarrow> dom \<Rightarrow> string \<Rightarrow> next_step" where
  "after_value is_array d s = (if is_array then after_element d s else after_member d s)"

lemma after_value_more:
  assumes "after_value a d s = More d' t r"
  shows "work t r \<le> 2 * length s"
proof -
  obtain sep u where sep: "scan False s = (sep, u)" by (cases "scan False s")
  obtain k v where k: "scan False u = (k, v)" by (cases "scan False u")
  have "length u \<le> length s" using scan_length(1)[OF sep] .
  moreover have "work t r \<le> 2 * length u"
    using assms sep k scan_length(1)[OF k] scan_work[OF k]
    by (auto simp: after_value_def after_element_def after_member_def
        split: if_splits option.splits dest: parse_member_work)
  ultimately show ?thesis by simp
qed

lemma after_value_closed: "after_value a d s = Closed d' r \<Longrightarrow> length r < length s"
  by (auto simp: after_value_def after_element_def after_member_def
      split: prod.splits if_splits option.splits dest: scan_length(2))

text \<open>The bound at the top of the loop, and after a value.\<close>

definition loop_bound :: "bool \<Rightarrow> token \<Rightarrow> string \<Rightarrow> nat" where
  "loop_bound skip tok s = (if skip then 2 * length s + 1 else work tok s)"

lemma value_read_bound:
  assumes "(if skip then Value_read d s else parse_token d tok s) = Value_read d' r"
  shows "2 * length r < loop_bound skip tok s"
  using assms parse_token_value[of d tok s d' r] by (auto simp: loop_bound_def split: if_splits)

text \<open>
  \<open>states\<close> remembers the containers around the current value, true for an array; \<open>skip\<close> is
  \<open>skip_to_state_evaluation\<close>, set after a container was closed.
\<close>

function sax_parse_internal ::
  "bool \<Rightarrow> bool list \<Rightarrow> dom \<Rightarrow> token \<Rightarrow> string \<Rightarrow> json_exception + dom \<times> string" where
  "sax_parse_internal skip states d tok s =
     (case (if skip then Value_read d s else parse_token d tok s) of
        Value_failed e \<Rightarrow> Inl e
      | Entered is_array d' tok' r \<Rightarrow> sax_parse_internal False (is_array # states) d' tok' r
      | Value_read d' r \<Rightarrow>
          (case states of
             [] \<Rightarrow> Inr (d', r)
           | is_array # outer \<Rightarrow>
               (case after_value is_array d' r of
                  Next_failed e \<Rightarrow> Inl e
                | More d'' tok' u \<Rightarrow> sax_parse_internal False states d'' tok' u
                | Closed d'' u \<Rightarrow> sax_parse_internal True outer d'' (if is_array then End_array else End_object) u)))"
  by pat_completeness auto

text \<open>The loop ends on every input.\<close>

termination
proof (relation "measure (\<lambda>(skip, states, d, tok, s). loop_bound skip tok s)")
  fix skip states d tok s d' r a outer d'' tok' u
  assume read: "(if skip then Value_read d s else parse_token d tok s) = Value_read d' r"
  show "((False, states, d'', tok', u), skip, states, d, tok, s)
      \<in> measure (\<lambda>(skip, states, d, tok, s). loop_bound skip tok s)"
    if "after_value a d' r = More d'' tok' u"
    using after_value_more[OF that] value_read_bound[OF read] by (simp add: loop_bound_def)
  show "((True, outer, d'', if a then End_array else End_object, u), skip, states, d, tok, s)
      \<in> measure (\<lambda>(skip, states, d, tok, s). loop_bound skip tok s)"
    if "after_value a d' r = Closed d'' u"
    using after_value_closed[OF that] value_read_bound[OF read] by (simp add: loop_bound_def)
qed (auto simp: loop_bound_def split: if_splits dest: parse_token_entered)

declare sax_parse_internal.simps [simp del]

text \<open>\<open>json::parse\<close>: the constructor of the parser reads the first token.\<close>

definition json_parse :: "string \<Rightarrow> json_exception + json" where
  "json_parse s = (case scan True s of (tok, r) \<Rightarrow>
       (case sax_parse_internal False [] new_dom tok r of
          Inl e \<Rightarrow> Inl e
        | Inr (d, t) \<Rightarrow>
            if fst (scan False t) = End_of_input then Inr (root d) else Inl Parse_error_101))"

end
