(* ===== verification/JsonUtf8.thy ===== *)
theory JsonUtf8 imports JsonLex begin

section \<open>UTF-8: the lexer's ranges and the serializer's automaton\<close>

text \<open>
  The lexer of \<open>json.hpp\<close> checks the bytes of a string against ranges, the serializer runs them
  through the table of an automaton (\<open>decode\<close>).  Both accept the same byte strings: what the lexer
  puts into a string value, code points written as escapes included, is accepted by the automaton,
  and a string that the automaton accepts passes the lexer unchanged, quote, backslash and control
  characters aside.
\<close>

definition utf8d :: "nat list" where
  "utf8d = [
      0, 0, 0, 0, 0, 0, 0, 0, 0, 0, 0, 0, 0, 0, 0, 0, 0, 0, 0, 0, 0, 0, 0, 0, 0, 0, 0, 0, 0, 0, 0, 0,
      0, 0, 0, 0, 0, 0, 0, 0, 0, 0, 0, 0, 0, 0, 0, 0, 0, 0, 0, 0, 0, 0, 0, 0, 0, 0, 0, 0, 0, 0, 0, 0,
      0, 0, 0, 0, 0, 0, 0, 0, 0, 0, 0, 0, 0, 0, 0, 0, 0, 0, 0, 0, 0, 0, 0, 0, 0, 0, 0, 0, 0, 0, 0, 0,
      0, 0, 0, 0, 0, 0, 0, 0, 0, 0, 0, 0, 0, 0, 0, 0, 0, 0, 0, 0, 0, 0, 0, 0, 0, 0, 0, 0, 0, 0, 0, 0,
      1, 1, 1, 1, 1, 1, 1, 1, 1, 1, 1, 1, 1, 1, 1, 1, 9, 9, 9, 9, 9, 9, 9, 9, 9, 9, 9, 9, 9, 9, 9, 9,
      7, 7, 7, 7, 7, 7, 7, 7, 7, 7, 7, 7, 7, 7, 7, 7, 7, 7, 7, 7, 7, 7, 7, 7, 7, 7, 7, 7, 7, 7, 7, 7,
      8, 8, 2, 2, 2, 2, 2, 2, 2, 2, 2, 2, 2, 2, 2, 2, 2, 2, 2, 2, 2, 2, 2, 2, 2, 2, 2, 2, 2, 2, 2, 2,
      10, 3, 3, 3, 3, 3, 3, 3, 3, 3, 3, 3, 3, 4, 3, 3, 11, 6, 6, 6, 5, 8, 8, 8, 8, 8, 8, 8, 8, 8, 8, 8,
      0, 1, 2, 3, 5, 8, 7, 1, 1, 1, 4, 6, 1, 1, 1, 1, 1, 1, 1, 1, 1, 1, 1, 1, 1, 1, 1, 1, 1, 1, 1, 1,
      1, 0, 1, 1, 1, 1, 1, 0, 1, 0, 1, 1, 1, 1, 1, 1, 1, 2, 1, 1, 1, 1, 1, 2, 1, 2, 1, 1, 1, 1, 1, 1,
      1, 1, 1, 1, 1, 1, 1, 2, 1, 1, 1, 1, 1, 1, 1, 1, 1, 2, 1, 1, 1, 1, 1, 1, 1, 2, 1, 1, 1, 1, 1, 1,
      1, 1, 1, 1, 1, 1, 1, 3, 1, 3, 1, 1, 1, 1, 1, 1, 1, 3, 1, 1, 1, 1, 1, 3, 1, 3, 1, 1, 1, 1, 1, 1,
      1, 3, 1, 1, 1, 1, 1, 1, 1, 1, 1, 1, 1, 1, 1, 1]"

definition utf8_type :: "nat \<Rightarrow> nat" where
  "utf8_type b = utf8d ! b"

definition utf8_next :: "nat \<Rightarrow> nat \<Rightarrow> nat" where
  "utf8_next state b = utf8d ! (256 + state * 16 + utf8_type b)"

definition UTF8_ACCEPT :: nat where "UTF8_ACCEPT = 0"

definition UTF8_REJECT :: nat where "UTF8_REJECT = 1"

text \<open>The new state and the code point so far.\<close>

definition decode :: "nat \<Rightarrow> nat \<Rightarrow> char \<Rightarrow> nat \<times> nat" where
  "decode state codep c =
     (utf8_next state (byte c),
      if state \<noteq> UTF8_ACCEPT then (byte c AND 0x3F) OR push_bit 6 codep
      else drop_bit (utf8_type (byte c)) 0xFF AND byte c)"

fun utf8_run :: "nat \<Rightarrow> string \<Rightarrow> nat" where
  "utf8_run state [] = state"
| "utf8_run state (c # s) =
     (if state = UTF8_REJECT then UTF8_REJECT else utf8_run (utf8_next state (byte c)) s)"

definition valid_utf8 :: "string \<Rightarrow> bool" where
  "valid_utf8 s \<longleftrightarrow> utf8_run UTF8_ACCEPT s = UTF8_ACCEPT"

lemma utf8_run_reject [simp]: "utf8_run UTF8_REJECT s = UTF8_REJECT"
  by (cases s) simp_all

lemma utf8_run_append: "utf8_run st (s @ t) = utf8_run (utf8_run st s) t"
  by (induction s arbitrary: st) auto

lemma byte_lt [simp]: "byte c < 256"
  by (simp add: byte_def)

subsection \<open>The table\<close>

text \<open>What the automaton expects in a state, as the lexer's ranges.\<close>

definition state_ranges :: "nat \<Rightarrow> (nat \<times> nat) list" where
  "state_ranges st =
     (if st = 2 then [(0x80, 0xBF)]
      else if st = 3 then [(0x80, 0xBF), (0x80, 0xBF)]
      else if st = 4 then [(0xA0, 0xBF), (0x80, 0xBF)]
      else if st = 5 then [(0x80, 0x9F), (0x80, 0xBF)]
      else if st = 6 then [(0x90, 0xBF), (0x80, 0xBF), (0x80, 0xBF)]
      else if st = 7 then [(0x80, 0xBF), (0x80, 0xBF), (0x80, 0xBF)]
      else if st = 8 then [(0x80, 0x8F), (0x80, 0xBF), (0x80, 0xBF)]
      else [])"

definition class_of :: "nat \<Rightarrow> nat" where
  "class_of b =
     (if b < 0x80 then 0 else if b < 0x90 then 1 else if b < 0xA0 then 9 else if b < 0xC0 then 7
      else if b < 0xC2 then 8 else if b < 0xE0 then 2 else if b = 0xE0 then 10
      else if b < 0xED then 3 else if b = 0xED then 4 else if b < 0xF0 then 3 else if b = 0xF0 then 11
      else if b < 0xF4 then 6 else if b = 0xF4 then 5 else 8)"

definition step_of :: "nat \<Rightarrow> nat \<Rightarrow> nat" where
  "step_of st k =
     (if st = 0 then (if k = 0 then 0 else if k = 2 then 2 else if k = 3 then 3 else if k = 4 then 5
         else if k = 5 then 8 else if k = 6 then 7 else if k = 10 then 4 else if k = 11 then 6 else 1)
      else if st = 2 then (if k = 1 \<or> k = 7 \<or> k = 9 then 0 else 1)
      else if st = 3 then (if k = 1 \<or> k = 7 \<or> k = 9 then 2 else 1)
      else if st = 4 then (if k = 7 then 2 else 1)
      else if st = 5 then (if k = 1 \<or> k = 9 then 2 else 1)
      else if st = 6 then (if k = 7 \<or> k = 9 then 3 else 1)
      else if st = 7 then (if k = 1 \<or> k = 7 \<or> k = 9 then 3 else 1)
      else if st = 8 then (if k = 1 then 3 else 1)
      else 1)"

lemma map_constant: "\<forall>b. lo \<le> b \<and> b < hi \<longrightarrow> f b = k \<Longrightarrow> map f [lo..<hi] = replicate (hi - lo) k"
  by (rule replicate_eqI) auto

lemma upt_join: "i \<le> j \<Longrightarrow> j \<le> k \<Longrightarrow> [i..<j] @ [j..<k] = [i..<k]"
  by (metis le_add_diff_inverse upt_add_eq_append)

lemma utf8d_types: "take 256 utf8d = map class_of [0..<256]"
proof -
  have "[0..<256] = [0..<128] @ [128..<256]" by (simp only: upt_join le0 le_numeral_simps semiring_norm)
  moreover have "map class_of [0..<128] = replicate 128 0"
    using map_constant[of 0 128 class_of 0] by (simp add: class_of_def)
  moreover have "take 128 utf8d = replicate 128 0"
    by (rule replicate_eqI) (simp_all add: utf8d_def)
  moreover have "take 256 utf8d = take 128 utf8d @ take 128 (drop 128 utf8d)"
    using take_add[of 128 128 utf8d] by simp
  moreover have "take 128 (drop 128 utf8d) = map class_of [128..<256]"
    by (simp add: utf8d_def class_of_def)
  ultimately show ?thesis by (simp only: map_append)
qed

lemma utf8d_steps: "drop 256 utf8d = map (\<lambda>n. step_of (n div 16) (n mod 16)) [0..<144]"
proof -
  have "[0..<144] = 0 # 1 # [2..<144]" by (simp add: upt_conv_Cons)
  then show ?thesis by (simp add: utf8d_def step_of_def)
qed

lemma utf8d_table:
  "utf8d = map class_of [0..<256] @ map (\<lambda>n. step_of (n div 16) (n mod 16)) [0..<144]"
  unfolding utf8d_types[symmetric] utf8d_steps[symmetric] by simp

lemma utf8_type_eq: "b < 256 \<Longrightarrow> utf8_type b = class_of b"
  unfolding utf8_type_def utf8d_table by (simp add: nth_append)

lemma class_le: "class_of b \<le> 11"
  by (simp add: class_of_def)

lemma utf8_next_eq:
  assumes "st \<le> 8" "b < 256"
  shows "utf8_next st b = step_of st (class_of b)"
proof -
  have "class_of b < 16" using class_le[of b] by simp
  then have "st * 16 + class_of b < 144" "(st * 16 + class_of b) div 16 = st" "(st * 16 + class_of b) mod 16 = class_of b"
    using assms(1) by simp_all
  then show ?thesis
    unfolding utf8_next_def utf8d_table utf8_type_eq[OF assms(2)] by (simp add: nth_append)
qed

lemma first_byte:
  assumes "b < 256"
  shows "b < 0x80 \<Longrightarrow> utf8_next 0 b = 0"
    and "0x80 \<le> b \<Longrightarrow> continuation b = None \<Longrightarrow> utf8_next 0 b = 1"
    and "0x80 \<le> b \<Longrightarrow> continuation b = Some rs \<Longrightarrow>
      state_ranges (utf8_next 0 b) = rs \<and> utf8_next 0 b \<in> {2..8}"
proof -
  have n: "utf8_next 0 b = step_of 0 (class_of b)" by (rule utf8_next_eq) (use assms in simp_all)
  show "b < 0x80 \<Longrightarrow> utf8_next 0 b = 0" by (simp add: n class_of_def step_of_def)
  consider "b < 0xC2" | "0xC2 \<le> b" "b < 0xE0" | "b = 0xE0" | "0xE0 < b" "b < 0xED" | "b = 0xED"
    | "b = 0xEE" | "b = 0xEF" | "b = 0xF0" | "0xF0 < b" "b < 0xF4" | "b = 0xF4" | "0xF4 < b" by linarith
  note cases = this
  show "0x80 \<le> b \<Longrightarrow> continuation b = None \<Longrightarrow> utf8_next 0 b = 1"
    unfolding n by (cases rule: cases) (simp_all add: class_of_def step_of_def continuation_def)
  show "0x80 \<le> b \<Longrightarrow> continuation b = Some rs \<Longrightarrow>
      state_ranges (utf8_next 0 b) = rs \<and> utf8_next 0 b \<in> {2..8}"
    unfolding n by (cases rule: cases) (auto simp: class_of_def step_of_def continuation_def state_ranges_def)
qed

lemma later_byte:
  assumes "b < 256" "st \<in> {2..8}" "state_ranges st = (lo, hi) # rs"
  shows "lo \<le> b \<and> b \<le> hi \<Longrightarrow> state_ranges (utf8_next st b) = rs \<and>
      (if rs = [] then utf8_next st b = 0 else utf8_next st b \<in> {2..8})"
    and "\<not> (lo \<le> b \<and> b \<le> hi) \<Longrightarrow> utf8_next st b = 1"
proof -
  have st: "st = 2 \<or> st = 3 \<or> st = 4 \<or> st = 5 \<or> st = 6 \<or> st = 7 \<or> st = 8"
    using assms(2) by auto
  have le: "st \<le> 8" using assms(2) by simp
  show "lo \<le> b \<and> b \<le> hi \<Longrightarrow> state_ranges (utf8_next st b) = rs \<and>
      (if rs = [] then utf8_next st b = 0 else utf8_next st b \<in> {2..8})"
    using st assms(3) unfolding utf8_next_eq[OF le assms(1)]
    by (elim disjE) (auto simp: class_of_def step_of_def state_ranges_def)
  show "\<not> (lo \<le> b \<and> b \<le> hi) \<Longrightarrow> utf8_next st b = 1"
    using st assms(1,3) unfolding utf8_next_eq[OF le assms(1)]
    by (elim disjE) (auto simp: class_of_def step_of_def state_ranges_def)
qed

subsection \<open>The lexer and the automaton agree\<close>

lemma state_ranges_ne: "st \<in> {2..8} \<Longrightarrow> state_ranges st \<noteq> []"
  by (auto simp: state_ranges_def)

lemma next_bytes_split: "next_bytes rs s = Some (bs, t) \<Longrightarrow> s = bs @ t"
  by (induction rs s arbitrary: bs rule: next_bytes.induct) (auto split: list.splits option.splits if_splits)

lemma next_bytes_run:
  assumes "st \<in> {2..8}" "next_bytes (state_ranges st) s = Some (bs, t)"
  shows "utf8_run st bs = 0"
  using assms
proof (induction s arbitrary: st bs)
  case Nil
  then show ?case using state_ranges_ne[of st] by (cases "state_ranges st") auto
next
  case (Cons c s)
  obtain lo hi rs where rs: "state_ranges st = (lo, hi) # rs"
    using state_ranges_ne[OF Cons.prems(1)] by (cases "state_ranges st") auto
  have inr: "lo \<le> byte c \<and> byte c \<le> hi" and "\<exists>bs'. next_bytes rs s = Some (bs', t) \<and> bs = c # bs'"
    using Cons.prems(2) rs by (auto simp: byte_in_def split: if_splits option.splits)
  then obtain bs' where bs': "next_bytes rs s = Some (bs', t)" "bs = c # bs'" by blast
  have nxt: "state_ranges (utf8_next st (byte c)) = rs"
    "if rs = [] then utf8_next st (byte c) = 0 else utf8_next st (byte c) \<in> {2..8}"
    using later_byte(1)[OF byte_lt Cons.prems(1) rs inr] by auto
  have "utf8_run (utf8_next st (byte c)) bs' = 0"
  proof (cases "rs = []")
    case True
    then show ?thesis using bs' nxt(2) by simp
  next
    case False
    then show ?thesis using Cons.IH[of "utf8_next st (byte c)" bs'] nxt bs' by simp
  qed
  then show ?case using bs' Cons.prems(1) by (simp add: UTF8_REJECT_def)
qed

lemma run_next_bytes:
  assumes "st \<in> {2..8}" "utf8_run st s = 0"
  shows "\<exists>bs t. s = bs @ t \<and> utf8_run 0 t = 0 \<and> (\<forall>u. next_bytes (state_ranges st) (s @ u) = Some (bs, t @ u))"
  using assms
proof (induction s arbitrary: st)
  case Nil
  then show ?case by simp
next
  case (Cons c s)
  obtain lo hi rs where rs: "state_ranges st = (lo, hi) # rs"
    using state_ranges_ne[OF Cons.prems(1)] by (cases "state_ranges st") auto
  have run: "utf8_run (utf8_next st (byte c)) s = 0"
    using Cons.prems by (simp add: UTF8_REJECT_def split: if_splits)
  then have "utf8_next st (byte c) \<noteq> 1"
    using utf8_run_reject[of s] by (auto simp: UTF8_REJECT_def)
  then have inr: "lo \<le> byte c \<and> byte c \<le> hi"
    using later_byte(2)[OF byte_lt Cons.prems(1) rs] by blast
  note nxt = later_byte(1)[OF byte_lt Cons.prems(1) rs inr]
  show ?case
  proof (cases "rs = []")
    case True
    then show ?thesis using nxt run rs inr
      by (intro exI[of _ "[c]"] exI[of _ s]) (simp add: byte_in_def)
  next
    case False
    then obtain bs t where "s = bs @ t" "utf8_run 0 t = 0"
      "\<forall>u. next_bytes rs (s @ u) = Some (bs, t @ u)"
      using Cons.IH[of "utf8_next st (byte c)"] nxt run by auto
    then show ?thesis using rs inr
      by (intro exI[of _ "c # bs"] exI[of _ t]) (simp add: byte_in_def)
  qed
qed

lemma valid_utf8_Nil [simp]: "valid_utf8 []"
  by (simp add: valid_utf8_def)

lemma valid_utf8_append: "valid_utf8 s \<Longrightarrow> valid_utf8 t \<Longrightarrow> valid_utf8 (s @ t)"
  by (simp add: valid_utf8_def utf8_run_append)

lemma valid_utf8_ascii: "byte c < 0x80 \<Longrightarrow> valid_utf8 (c # s) = valid_utf8 s"
  using first_byte(1)[OF byte_lt, of c] by (simp add: valid_utf8_def UTF8_ACCEPT_def UTF8_REJECT_def)

lemma valid_multibyte:
  assumes "0x80 \<le> byte c" "continuation (byte c) = Some rs" "next_bytes rs s = Some (bs, t)"
  shows "valid_utf8 (c # bs)"
proof -
  have "state_ranges (utf8_next 0 (byte c)) = rs" "utf8_next 0 (byte c) \<in> {2..8}"
    using first_byte(3)[OF byte_lt assms(1,2)] by auto
  then show ?thesis
    using next_bytes_run[of "utf8_next 0 (byte c)" s bs t] assms(3)
    by (simp add: valid_utf8_def UTF8_ACCEPT_def UTF8_REJECT_def)
qed

text \<open>What the lexer copies is valid.\<close>

lemma scan_character_valid:
  assumes "scan_character c s = Inr (bs, t)"
  shows "valid_utf8 bs" "c # s = bs @ t"
proof -
  show "valid_utf8 bs"
  proof (cases "byte c \<le> 0x7F")
    case True
    then show ?thesis using assms
      by (auto simp: scan_character_def valid_utf8_ascii split: if_splits)
  next
    case False
    then show ?thesis using assms
      by (auto simp: scan_character_def next_byte_in_range_def intro: valid_multibyte
          split: if_splits option.splits)
  qed
  show "c # s = bs @ t"
    using assms by (auto simp: scan_character_def next_byte_in_range_def
        split: if_splits option.splits dest: next_bytes_split)
qed

text \<open>The first character of a valid string passes the lexer, control characters aside.\<close>

lemma valid_scan_character:
  assumes "valid_utf8 (c # s)" "0x1F < byte c"
  shows "\<exists>bs t. s = bs @ t \<and> valid_utf8 t \<and> (\<forall>u. scan_character c (s @ u) = Inr (c # bs, t @ u))"
proof (cases "byte c < 0x80")
  case True
  then show ?thesis using assms
    by (intro exI[of _ "[]"] exI[of _ s]) (simp add: valid_utf8_ascii scan_character_def)
next
  case False
  have run: "utf8_run (utf8_next 0 (byte c)) s = 0"
    using assms(1) by (simp add: valid_utf8_def UTF8_ACCEPT_def UTF8_REJECT_def)
  then have "utf8_next 0 (byte c) \<noteq> 1" using utf8_run_reject[of s] by (auto simp: UTF8_REJECT_def)
  then obtain rs where rs: "continuation (byte c) = Some rs"
    using first_byte(2)[OF byte_lt, of c] False by fastforce
  have "state_ranges (utf8_next 0 (byte c)) = rs" "utf8_next 0 (byte c) \<in> {2..8}"
    using first_byte(3)[OF byte_lt _ rs] False by auto
  then obtain bs t where "s = bs @ t" "utf8_run 0 t = 0" "\<forall>u. next_bytes rs (s @ u) = Some (bs, t @ u)"
    using run_next_bytes[of "utf8_next 0 (byte c)" s] run by auto
  then show ?thesis using False assms(2) rs
    by (intro exI[of _ bs] exI[of _ t])
      (simp add: scan_character_def next_byte_in_range_def valid_utf8_def UTF8_ACCEPT_def)
qed

text \<open>The bytes of a code point.\<close>

lemma or_disjoint_nat: 
  assumes "x < 2 ^ n" shows "push_bit n b OR x = push_bit n b + (x :: nat)"
proof (rule disjunctive_add[symmetric])
  fix k
  have "take_bit n x = x" using assms by (simp add: take_bit_nat_eq_self)
  then have "\<not> (n \<le> k \<and> bit x k)" by (metis bit_take_bit_iff linorder_not_le)
  then show "\<not> bit (push_bit n b) k \<or> \<not> bit x k" by (auto simp: bit_push_bit_iff)
qed

lemma utf8_lead:
  "x < 32 \<Longrightarrow> (0xC0 :: nat) OR x = 0xC0 + x" "x < 16 \<Longrightarrow> (0xE0 :: nat) OR x = 0xE0 + x"
  "x < 8 \<Longrightarrow> (0xF0 :: nat) OR x = 0xF0 + x"
  using or_disjoint_nat[of x 5 6] or_disjoint_nat[of x 4 14] or_disjoint_nat[of x 3 30]
  by (simp_all add: push_bit_eq_mult)

lemma low_six: "(x :: nat) AND 0x3F = x mod 64"
  using take_bit_eq_mask[of 6 x] by (simp add: take_bit_eq_mod mask_eq_exp_minus_1)

lemma utf8_tail: "(0x80 :: nat) OR (x AND 0x3F) = 0x80 + x mod 64"
  using or_disjoint_nat[of "x mod 64" 6 2] by (simp add: low_six push_bit_eq_mult)

lemma byte_char_of: "n < 256 \<Longrightarrow> byte (char_of n) = n"
  by (simp add: byte_def)

lemma encode_utf8_eq:
  assumes "cp < 0x110000"
  shows "encode_utf8 cp = map char_of
     (if cp < 0x80 then [cp]
      else if cp \<le> 0x7FF then [0xC0 + cp div 64, 0x80 + cp mod 64]
      else if cp \<le> 0xFFFF then [0xE0 + cp div 4096, 0x80 + cp div 64 mod 64, 0x80 + cp mod 64]
      else [0xF0 + cp div 262144, 0x80 + cp div 4096 mod 64, 0x80 + cp div 64 mod 64, 0x80 + cp mod 64])"
proof -
  have "cp div 64 < 32" if "cp \<le> 0x7FF" using that by simp
  moreover have "cp div 4096 < 16" if "cp \<le> 0xFFFF" using that by simp
  moreover have "cp div 262144 < 8" using assms by simp
  ultimately show ?thesis
    by (simp add: encode_utf8_def utf8_tail utf8_lead drop_bit_eq_div)
qed
lemma split_codepoint:
  fixes cp :: nat
  obtains q m l where "cp = 4096 * q + 64 * m + l" "m < 64" "l < 64"
    "cp div 64 mod 64 = m" "cp mod 64 = l" "cp div 4096 = q" "cp div 64 = 64 * q + m"
proof
  have "cp div 64 div 64 = cp div 4096" by (simp flip: div_mult2_eq)
  then show d: "cp div 64 = 64 * (cp div 4096) + cp div 64 mod 64"
    using mult_div_mod_eq[of 64 "cp div 64"] by simp
  show "cp = 4096 * (cp div 4096) + 64 * (cp div 64 mod 64) + cp mod 64"
    using mult_div_mod_eq[of 64 cp] d by linarith
qed simp_all

lemma valid_encode_utf8:
  assumes "cp < 0x110000" "\<not> (0xD800 \<le> cp \<and> cp \<le> 0xDFFF)"
  shows "valid_utf8 (encode_utf8 cp)"
proof -
  obtain q m l where cp: "cp = 4096 * q + 64 * m + l" "m < 64" "l < 64"
    "cp div 64 mod 64 = m" "cp mod 64 = l" "cp div 4096 = q" "cp div 64 = 64 * q + m"
    using split_codepoint[of cp] by blast
  consider (one) "cp < 0x80" | (two) "0x80 \<le> cp" "cp \<le> 0x7FF"
    | (three) "0x7FF < cp" "cp \<le> 0xFFFF" | (four) "0xFFFF < cp" by linarith
  then show ?thesis
  proof cases
    case one
    then show ?thesis by (simp add: encode_utf8_eq[OF assms(1)] valid_utf8_ascii byte_char_of)
  next
    case two
    then have "q = 0" using cp(1) by linarith
    then have "2 \<le> m" "m \<le> 31" using two cp(1-3) by linarith+
    moreover from this have "valid_utf8 (char_of (192 + m) # [char_of (128 + l)])"
      by (intro valid_multibyte[where t = "[]" and rs = "[(128, 191)]" and s = "[char_of (128 + l)]"])
        (use cp(3) in \<open>simp_all add: byte_char_of continuation_def byte_in_def\<close>)
    ultimately show ?thesis using two cp(4-7) \<open>q = 0\<close> by (simp add: encode_utf8_eq[OF assms(1)])
  next
    case three
    have q: "q \<le> 15" "q = 0 \<Longrightarrow> 32 \<le> m" "q = 13 \<Longrightarrow> m \<le> 31" using three cp(1-3) assms(2) by linarith+
    have "valid_utf8 (char_of (224 + q) # [char_of (128 + m), char_of (128 + l)])"
      by (rule valid_multibyte[where t = "[]" and rs = "the (continuation (224 + q))" and s = "[char_of (128 + m), char_of (128 + l)]"])
        (use q cp(2,3) in \<open>auto simp: byte_char_of continuation_def byte_in_def\<close>)
    then show ?thesis using three cp(4-7) by (simp add: encode_utf8_eq[OF assms(1)])
  next
    case four
    define h where "h = q div 64"
    define k where "k = q mod 64"
    have q: "q = 64 * h + k" "k < 64" by (simp_all add: h_def k_def)
    have h: "h \<le> 4" "h = 0 \<Longrightarrow> 16 \<le> k" "h = 4 \<Longrightarrow> k \<le> 15"
      using four cp(1-3) assms(1) q by linarith+
    have "cp div 262144 = h" using cp(6) by (simp add: h_def flip: div_mult2_eq)
    moreover have "cp div 4096 mod 64 = k" using cp(6) by (simp add: k_def)
    moreover have "valid_utf8 (char_of (240 + h) # [char_of (128 + k), char_of (128 + m), char_of (128 + l)])"
      by (rule valid_multibyte[where t = "[]" and rs = "the (continuation (240 + h))"
            and s = "[char_of (128 + k), char_of (128 + m), char_of (128 + l)]"])
        (use h q cp(2,3) in \<open>auto simp: byte_char_of continuation_def byte_in_def\<close>)
    ultimately show ?thesis using four cp(4-7) by (simp add: encode_utf8_eq[OF assms(1)])
  qed
qed
subsection \<open>String values are valid\<close>

lemma hex_digit_lt: "hex_digit c = Some d \<Longrightarrow> d < 16"
  by (auto simp: hex_digit_def byte_in_def split: if_splits)

lemma get_codepoint_lt: "get_codepoint s = Some (cp, t) \<Longrightarrow> cp < 0x10000"
  by (auto simp: get_codepoint_def push_bit_eq_mult split: list.splits option.splits dest!: hex_digit_lt)

lemma second_surrogate_range:
  assumes "second_surrogate cp1 s = Inr (cp, t)" "0xD800 \<le> cp1" "cp1 \<le> 0xDBFF"
  shows "0x10000 \<le> cp \<and> cp < 0x110000"
  using assms by (auto simp: second_surrogate_def push_bit_eq_mult split: list.splits option.splits if_splits)

lemma scan_escape_valid:
  assumes "scan_escape s = Inr (bs, t)"
  shows "valid_utf8 bs"
proof -
  obtain c r where s: "s = c # r" using assms by (cases s) (auto simp: scan_escape_def)
  show ?thesis
  proof (cases "simple_escape c")
    case (Some b)
    then have "byte b < 0x80" by (auto simp: simple_escape_def byte_def split: if_splits)
    then show ?thesis using assms s Some valid_utf8_ascii[of b "[]"] by (auto simp: scan_escape_def)
  next
    case None
    then have u: "unicode_escape r = Inr (bs, t)"
      using assms s by (simp add: scan_escape_def split: if_splits)
    then show ?thesis
      by (auto simp: unicode_escape_def split: option.splits if_splits sum.splits
          intro!: valid_encode_utf8)
        (use get_codepoint_lt[of r] second_surrogate_range in fastforce)+
  qed
qed

lemma scan_unit_valid: "scan_unit c s = Inr (bs, t) \<Longrightarrow> valid_utf8 bs"
  by (auto simp: scan_unit_def split: if_splits dest: scan_escape_valid scan_character_valid)

lemma scan_string_valid:
  "scan_string buf s = (Value_string v, t) \<Longrightarrow> valid_utf8 buf \<Longrightarrow> valid_utf8 v"
proof (induction buf s rule: scan_string.induct)
  case (1 buf s)
  obtain c r where s: "s = c # r"
    using "1.prems"(1) by (cases s) (auto simp: scan_string.simps[of buf "[]"])
  show ?case
  proof (cases "c = CHR 0x22")
    case True
    then show ?thesis using "1.prems" s by (simp add: scan_string.simps[of buf "CHR 0x22 # r"])
  next
    case False
    then obtain bs u where p: "scan_unit c r = Inr (bs, u)" "scan_string (buf @ bs) u = (Value_string v, t)"
      using "1.prems"(1) s by (auto simp: scan_string.simps[of buf "c # r"] split: sum.splits)
    show ?thesis
      by (rule "1.IH"[OF s False p(1) refl p(2)])
        (use "1.prems"(2) scan_unit_valid[OF p(1)] in \<open>auto intro: valid_utf8_append\<close>)
  qed
qed

end
