(* ===== verification/JsonFacts.thy ===== *)
theory JsonFacts imports JsonParse JsonUtf8 begin

section \<open>What the JSON parser returns\<close>

text \<open>
  The invariant of the parser: every value it builds is well formed.  The keys of an object are
  distinct and in ascending order, signed integers fit 64 bits, floating-point numbers are finite
  doubles, and strings and keys are UTF-8.  The loop keeps it from token to token; the end result has it.
\<close>

fun is_double :: "fp \<Rightarrow> bool" where
  "is_double (Fin q) = exact64 q"
| "is_double _ = True"

fun wf_json :: "json \<Rightarrow> bool" where
  "wf_json (Number_integer i) \<longleftrightarrow> - (2 ^ 63) \<le> i \<and> i < 2 ^ 63"
| "wf_json (Number_float x) \<longleftrightarrow> is_finite x \<and> is_double x"
| "wf_json (String s) \<longleftrightarrow> valid_utf8 s"
| "wf_json (Array xs) \<longleftrightarrow> list_all wf_json xs"
| "wf_json (Object m) \<longleftrightarrow> ordered m \<and> list_all (\<lambda>p. valid_utf8 (fst p) \<and> wf_json (snd p)) m"
| "wf_json _ \<longleftrightarrow> True"

fun frame_ok :: "frame \<Rightarrow> bool" where
  "frame_ok (In_array xs) \<longleftrightarrow> list_all wf_json xs"
| "frame_ok (In_object m k) \<longleftrightarrow> wf_json (Object m) \<and> (case k of None \<Rightarrow> True | Some s \<Rightarrow> valid_utf8 s)"

definition dom_ok :: "dom \<Rightarrow> bool" where
  "dom_ok d \<longleftrightarrow> wf_json (root d) \<and> list_all frame_ok (ref_stack d)"

fun token_ok :: "token \<Rightarrow> bool" where
  "token_ok (Value_string s) \<longleftrightarrow> valid_utf8 s"
| "token_ok (Value_integer i) \<longleftrightarrow> - (2 ^ 63) \<le> i \<and> i < 2 ^ 63"
| "token_ok (Value_float x) \<longleftrightarrow> is_double x"
| "token_ok _ \<longleftrightarrow> True"

subsection \<open>Tokens\<close>

lemma r64_double: "is_double (r64 q)"
  by (cases "r64 q") (auto dest: dbl.rn_result)

lemma strtod_is_double: "is_double (strtod_double s)"
  using r64_double[of 0]
  by (auto simp: strtod_double_def r64_double dbl.rn_zero fp_signed_inf_def split: option.split real_text.split)

lemma number_done_ok: "token_ok (scan_number_done ty buf)"
  by (auto simp: scan_number_done_def strtol_def strtod_is_double split: number_type.splits prod.splits option.splits if_splits)

lemma any2_ok: "token_ok (fst (scan_number_any2 buf s))"
  by (induction buf s rule: scan_number_any2.induct) (simp_all add: number_done_ok)

lemma exponent_ok: "token_ok (fst (scan_number_exponent buf s))"
  by (simp add: scan_number_exponent_def scan_number_sign_def any2_ok split: list.split)

lemma decimal2_ok: "token_ok (fst (scan_number_decimal2 buf s))"
  by (induction buf s rule: scan_number_decimal2.induct) (simp_all add: number_done_ok exponent_ok)

lemma decimal1_ok: "token_ok (fst (scan_number_decimal1 buf s))"
  by (simp add: scan_number_decimal1_def decimal2_ok split: list.split)

lemma any1_ok: "token_ok (fst (scan_number_any1 ty buf s))"
  by (induction ty buf s rule: scan_number_any1.induct) (simp_all add: number_done_ok exponent_ok decimal1_ok)

lemma zero_ok: "token_ok (fst (scan_number_zero ty buf s))"
  by (simp add: scan_number_zero_def number_done_ok exponent_ok decimal1_ok split: list.split)

lemma scan_number_ok: "token_ok (fst (scan_number c s))"
  by (simp add: scan_number_def scan_number_minus_def zero_ok any1_ok split: list.split)

lemma scan_literal_ok: "token_ok t \<Longrightarrow> token_ok (fst (scan_literal xs t s))"
  by (induction xs t s rule: scan_literal.induct) (auto split: list.split)

lemma scan_string_token:
  "scan_string buf s = (t, r) \<Longrightarrow> (\<exists>v. t = Value_string v) \<or> (\<exists>e. t = Parse_error e)"
proof (induction buf s rule: scan_string.induct)
  case (1 buf s)
  then show ?case
    by (subst (asm) (2) scan_string.simps) (auto split: list.splits if_splits sum.splits)
qed

lemma scan_string_ok: "token_ok (fst (scan_string [] s))"
proof -
  obtain t r where tr: "scan_string [] s = (t, r)" by (cases "scan_string [] s")
  from scan_string_token[OF tr] tr show ?thesis by (auto dest: scan_string_valid)
qed

lemma scan_ok:
  assumes "scan first s = (t, r)"
  shows "token_ok t"
proof -
  have "token_ok (fst (scan_token c u))" for c u
    by (simp add: scan_token_def scan_string_ok scan_number_ok scan_literal_ok del: scan_literal.simps)
  then have "token_ok (fst (scan first s))"
    by (simp add: scan_def split: option.split list.split)
  then show ?thesis using assms by simp
qed

subsection \<open>The DOM handler\<close>

lemma list_all_obj_put:
  assumes "list_all P m" "P (k, v)"
  shows "list_all P (obj_put k v m)"
  using assms by (induction k v m rule: obj_put.induct) auto

lemma handle_value_ok:
  assumes "dom_ok d" "wf_json v"
  shows "dom_ok (handle_value v d)"
  using assms by (auto simp: dom_ok_def handle_value_def ordered_obj_put
      split: list.split frame.split option.split intro: list_all_obj_put)

lemma start_ok: "dom_ok d \<Longrightarrow> dom_ok (start_object d)" "dom_ok d \<Longrightarrow> dom_ok (start_array d)"
  by (simp_all add: dom_ok_def start_object_def start_array_def ordered_def)

lemma add_key_ok:
  assumes "dom_ok d" "valid_utf8 k"
  shows "dom_ok (add_key k d)"
  using assms by (auto simp: dom_ok_def add_key_def ordered_obj_put
      split: list.split frame.split option.split intro: list_all_obj_put)

lemma end_container_ok:
  assumes "dom_ok d"
  shows "dom_ok (end_container d)"
proof -
  have "dom_ok (d\<lparr>ref_stack := tl (ref_stack d)\<rparr>)"
    using assms by (cases "ref_stack d") (auto simp: dom_ok_def)
  then show ?thesis
    using assms by (auto simp: end_container_def dom_ok_def[of d] intro!: handle_value_ok
        split: list.split frame.split)
qed

subsection \<open>The loop\<close>

lemma parse_member_ok:
  "parse_member d tok s = Some (d', t, r) \<Longrightarrow> dom_ok d \<Longrightarrow> token_ok tok \<Longrightarrow> dom_ok d' \<and> token_ok t"
  by (auto simp: parse_member_def split: token.splits prod.splits if_splits intro: add_key_ok dest: scan_ok)

lemma parse_token_ok:
  assumes "dom_ok d" "token_ok tok"
  shows "parse_token d tok s = Value_read d' r \<Longrightarrow> dom_ok d'"
    and "parse_token d tok s = Entered a d' t r \<Longrightarrow> dom_ok d' \<and> token_ok t"
    and "parse_token d tok s = Value_failed e \<Longrightarrow> e = Parse_error_101 \<or> e = Out_of_range_406"
  using assms
  by (auto simp: parse_token_def parse_object_def parse_array_def
      split: token.splits prod.splits if_splits option.splits
      intro!: handle_value_ok start_ok end_container_ok dest!: parse_member_ok dest: scan_ok)

lemma after_value_ok:
  assumes "dom_ok d"
  shows "after_value a d s = More d' t r \<Longrightarrow> dom_ok d' \<and> token_ok t"
    and "after_value a d s = Closed d' r \<Longrightarrow> dom_ok d'"
    and "after_value a d s = Next_failed e \<Longrightarrow> e = Parse_error_101"
  using assms
  by (auto simp: after_value_def after_element_def after_member_def
      split: prod.splits if_splits option.splits
      intro!: end_container_ok dest!: parse_member_ok dest: scan_ok)

definition parsed_ok :: "json_exception + dom \<times> string \<Rightarrow> bool" where
  "parsed_ok r \<longleftrightarrow> (case r of
       Inl e \<Rightarrow> e = Parse_error_101 \<or> e = Out_of_range_406
     | Inr (d, t) \<Rightarrow> dom_ok d)"

lemma sax_parse_ok:
  "dom_ok d \<Longrightarrow> token_ok tok \<Longrightarrow> parsed_ok (sax_parse_internal skip states d tok s)"
proof (induction skip states d tok s rule: sax_parse_internal.induct)
  case (1 skip states d tok s)
  let ?read = "if skip then Value_read d s else parse_token d tok s"
  show ?case
  proof (cases ?read)
    case (Value_failed e)
    then show ?thesis using parse_token_ok(3)[OF "1.prems"]
      by (subst sax_parse_internal.simps) (auto simp: parsed_ok_def split: if_splits)
  next
    case (Entered a d' t r)
    then have "dom_ok d' \<and> token_ok t"
      using parse_token_ok(2)[OF "1.prems"] by (auto split: if_splits)
    then have "parsed_ok (sax_parse_internal False (a # states) d' t r)"
      using "1.IH"(3)[OF Entered] by simp
    then show ?thesis using Entered by (subst sax_parse_internal.simps) simp
  next
    case (Value_read d' r)
    then have d': "dom_ok d'" using parse_token_ok(1)[OF "1.prems"] "1.prems"(1) by (auto split: if_splits)
    show ?thesis
    proof (cases states)
      case Nil
      then show ?thesis using Value_read d' by (subst sax_parse_internal.simps) (simp add: parsed_ok_def)
    next
      case (Cons a outer)
      note step = after_value_ok[OF d', of a r]
      show ?thesis
      proof (cases "after_value a d' r")
        case (Next_failed e)
        then show ?thesis using Value_read Cons step(3)
          by (subst sax_parse_internal.simps) (auto simp: parsed_ok_def)
      next
        case (More d'' t u)
        then have "parsed_ok (sax_parse_internal False states d'' t u)"
          using "1.IH"(1)[OF Value_read Cons More] step(1) by simp
        then show ?thesis using Value_read Cons More by (subst sax_parse_internal.simps) simp
      next
        case (Closed d'' u)
        then have "parsed_ok (sax_parse_internal True outer d'' (if a then End_array else End_object) u)"
          using "1.IH"(2)[OF Value_read Cons Closed] step(2) by simp
        then show ?thesis using Value_read Cons Closed by (subst sax_parse_internal.simps) simp
      qed
    qed
  qed
qed

lemma json_parse_spec:
  "case json_parse s of Inl e \<Rightarrow> e = Parse_error_101 \<or> e = Out_of_range_406 | Inr j \<Rightarrow> wf_json j"
proof -
  obtain tok r where tok: "scan True s = (tok, r)" by (cases "scan True s")
  have "parsed_ok (sax_parse_internal False [] new_dom tok r)"
    by (rule sax_parse_ok) (use scan_ok[OF tok] in \<open>auto simp: dom_ok_def new_dom_def\<close>)
  then show ?thesis
    by (auto simp: json_parse_def tok parsed_ok_def dom_ok_def split: sum.splits prod.splits)
qed

text \<open>
  C25. Parsing ends on every input.  It returns a well-formed value, or throws a parse error or the
  range error of a number that is too large; no other exception comes out of it.
\<close>

theorem parse_result_typed:
  "case json_parse s of
     Inl e \<Rightarrow> e = Parse_error_101 \<or> e = Out_of_range_406
   | Inr j \<Rightarrow> wf_json j"
  by (rule json_parse_spec)

end
