(* ===== verification/Grisu.thy ===== *)
theory Grisu imports Floats CString begin

section \<open>The shortest-decimal printer of json.hpp (namespace dtoa_impl, to_chars)\<close>

text \<open>
  Grisu2: the number and the boundaries of what rounds to it as 64-bit significands with an exponent,
  scaled by a cached power of ten, from which digits are generated until they are within the
  boundaries.  \<open>None\<close> is a failed \<open>JSON_ASSERT\<close>, a shift by 64 or more, a write behind the buffer, or a
  loop that does not end.
\<close>

subsection \<open>Significand and exponent\<close>

record diyfp =
  df :: u64
  de :: int

definition diyfp_sub :: "diyfp \<Rightarrow> diyfp \<Rightarrow> diyfp option" where
  "diyfp_sub x y = (if de x = de y \<and> df y \<le> df x then Some \<lparr>df = df x - df y, de = de x\<rparr> else None)"

definition mul_high :: "u64 \<Rightarrow> u64 \<Rightarrow> u64" where
  "mul_high u v =
     (let u_lo = u AND 0xFFFFFFFF; u_hi = drop_bit 32 u; v_lo = v AND 0xFFFFFFFF; v_hi = drop_bit 32 v;
          p0 = u_lo * v_lo; p1 = u_lo * v_hi; p2 = u_hi * v_lo; p3 = u_hi * v_hi;
          p0_hi = drop_bit 32 p0; p1_lo = p1 AND 0xFFFFFFFF; p1_hi = drop_bit 32 p1;
          p2_lo = p2 AND 0xFFFFFFFF; p2_hi = drop_bit 32 p2;
          Q = p0_hi + p1_lo + p2_lo; Q = Q + push_bit (64 - 32 - 1) 1
      in p3 + p2_hi + p1_hi + drop_bit 32 Q)"

definition diyfp_mul :: "diyfp \<Rightarrow> diyfp \<Rightarrow> diyfp" where
  "diyfp_mul x y = \<lparr>df = mul_high (df x) (df y), de = de x + de y + 64\<rparr>"

lemma unat_push_bit_small: "unat f * 2 ^ s < 2 ^ 64 \<Longrightarrow> unat (push_bit s (f :: u64)) = unat f * 2 ^ s"
proof -
  assume "unat f * 2 ^ s < 2 ^ 64"
  then have "push_bit s (unat f) < 2 ^ LENGTH(64)" by (simp add: push_bit_eq_mult)
  then have "take_bit LENGTH(64) (push_bit s (unat f)) = push_bit s (unat f)" by (rule take_bit_nat_eq_self)
  then show ?thesis unfolding unsigned_push_bit_eq by (simp add: push_bit_eq_mult)
qed

lemma unat_drop_bit: "unat (drop_bit s (f :: u64)) = unat f div 2 ^ s"
proof -
  have "unat (drop_bit s f) = drop_bit s (take_bit LENGTH(64) (unat f))" by (rule unsigned_drop_bit_eq)
  also have "take_bit LENGTH(64) (unat f) = unat f" by (rule take_bit_nat_eq_self) (rule unsigned_less)
  finally show ?thesis by (simp add: drop_bit_eq_div)
qed

lemma drop_bit_63: "drop_bit 63 (f :: u64) = 0 \<longleftrightarrow> unat f < 2 ^ 63"
proof -
  have "drop_bit 63 f = 0 \<longleftrightarrow> unat (drop_bit 63 f) = 0" by (simp only: unat_eq_0)
  then show ?thesis unfolding unat_drop_bit by (simp add: div_eq_0_iff)
qed

function normalize :: "u64 \<Rightarrow> int \<Rightarrow> diyfp option" where
  "normalize f e = (if f = 0 then None
     else if drop_bit 63 f = 0 then normalize (push_bit 1 f) (e - 1) else Some \<lparr>df = f, de = e\<rparr>)"
  by pat_completeness auto

termination
proof (relation "measure (\<lambda>(f, e). 2 ^ 64 - unat f)", goal_cases)
  case (2 f e)
  then have "unat f < 2 ^ 63" using drop_bit_63[of f] by simp
  moreover have "unat f \<noteq> 0" using 2(1) by (simp add: unat_eq_0)
  ultimately have "unat (push_bit 1 f) = 2 * unat f" "0 < unat f" "2 * unat f < 2 ^ 64"
    using unat_push_bit_small[of f 1] by simp_all
  then show ?case by (simp add: diff_less_mono2)
qed simp

declare normalize.simps [simp del]

definition normalize_to :: "diyfp \<Rightarrow> int \<Rightarrow> diyfp option" where
  "normalize_to x target_exponent =
     (let delta = de x - target_exponent
      in if delta < 0 \<or> 64 \<le> delta then None
         else if drop_bit (nat delta) (push_bit (nat delta) (df x)) \<noteq> df x then None
         else Some \<lparr>df = push_bit (nat delta) (df x), de = target_exponent\<rparr>)"

text \<open>\<open>reinterpret_bits\<close>: the encoding of a positive finite \<open>double\<close>.\<close>

definition reinterpret_bits :: "rat \<Rightarrow> u64" where
  "reinterpret_bits x =
     (let e = max (ilog2 x) (- 1022); m = \<lfloor>x / 2 powi (e - 52)\<rfloor>
      in word_of_int (if m < 2 ^ 52 then m else (e + 1023) * 2 ^ 52 + (m - 2 ^ 52)))"

record boundaries =
  bd_w :: diyfp
  bd_minus :: diyfp
  bd_plus :: diyfp

definition kBias :: int where
  "kBias = 1024 - 1 + (53 - 1)"

definition kHiddenBit :: u64 where
  "kHiddenBit = push_bit (53 - 1) 1"

text \<open>\<open>v\<close> and whether its lower boundary is closer.\<close>

definition decode_bits :: "u64 \<Rightarrow> diyfp \<times> bool" where
  "decode_bits bits =
     (let E = drop_bit (53 - 1) bits; F = bits AND (kHiddenBit - 1)
      in (if E = 0 then \<lparr>df = F, de = 1 - kBias\<rparr> else \<lparr>df = F + kHiddenBit, de = uint E - kBias\<rparr>, F = 0 \<and> 1 < E))"

definition compute_boundaries :: "rat \<Rightarrow> boundaries option" where
  "compute_boundaries value =
     (if \<not> 0 < value then None
      else case decode_bits (reinterpret_bits value) of (v, lower_boundary_is_closer) \<Rightarrow> do {
        let m_plus = \<lparr>df = 2 * df v + 1, de = de v - 1\<rparr>;
        let m_minus = (if lower_boundary_is_closer then \<lparr>df = 4 * df v - 1, de = de v - 2\<rparr>
                       else \<lparr>df = 2 * df v - 1, de = de v - 1\<rparr>);
        w_plus \<leftarrow> normalize (df m_plus) (de m_plus);
        w_minus \<leftarrow> normalize_to m_minus (de w_plus);
        w \<leftarrow> normalize (df v) (de v);
        Some \<lparr>bd_w = w, bd_minus = w_minus, bd_plus = w_plus\<rparr> })"

subsection \<open>Cached powers of ten\<close>

definition kAlpha :: int where
  "kAlpha = - 60"

definition kGamma :: int where
  "kGamma = - 32"

definition kCachedPowers :: "(u64 \<times> int \<times> int) list" where
  "kCachedPowers = [
     (0xAB70FE17C79AC6CA, - 1060, - 300), (0xFF77B1FCBEBCDC4F, - 1034, - 292), (0xBE5691EF416BD60C, - 1007, - 284),
     (0x8DD01FAD907FFC3C, - 980, - 276), (0xD3515C2831559A83, - 954, - 268), (0x9D71AC8FADA6C9B5, - 927, - 260),
     (0xEA9C227723EE8BCB, - 901, - 252), (0xAECC49914078536D, - 874, - 244), (0x823C12795DB6CE57, - 847, - 236),
     (0xC21094364DFB5637, - 821, - 228), (0x9096EA6F3848984F, - 794, - 220), (0xD77485CB25823AC7, - 768, - 212),
     (0xA086CFCD97BF97F4, - 741, - 204), (0xEF340A98172AACE5, - 715, - 196), (0xB23867FB2A35B28E, - 688, - 188),
     (0x84C8D4DFD2C63F3B, - 661, - 180), (0xC5DD44271AD3CDBA, - 635, - 172), (0x936B9FCEBB25C996, - 608, - 164),
     (0xDBAC6C247D62A584, - 582, - 156), (0xA3AB66580D5FDAF6, - 555, - 148), (0xF3E2F893DEC3F126, - 529, - 140),
     (0xB5B5ADA8AAFF80B8, - 502, - 132), (0x87625F056C7C4A8B, - 475, - 124), (0xC9BCFF6034C13053, - 449, - 116),
     (0x964E858C91BA2655, - 422, - 108), (0xDFF9772470297EBD, - 396, - 100), (0xA6DFBD9FB8E5B88F, - 369, - 92),
     (0xF8A95FCF88747D94, - 343, - 84), (0xB94470938FA89BCF, - 316, - 76), (0x8A08F0F8BF0F156B, - 289, - 68),
     (0xCDB02555653131B6, - 263, - 60), (0x993FE2C6D07B7FAC, - 236, - 52), (0xE45C10C42A2B3B06, - 210, - 44),
     (0xAA242499697392D3, - 183, - 36), (0xFD87B5F28300CA0E, - 157, - 28), (0xBCE5086492111AEB, - 130, - 20),
     (0x8CBCCC096F5088CC, - 103, - 12), (0xD1B71758E219652C, - 77, - 4), (0x9C40000000000000, - 50, 4),
     (0xE8D4A51000000000, - 24, 12), (0xAD78EBC5AC620000, 3, 20), (0x813F3978F8940984, 30, 28),
     (0xC097CE7BC90715B3, 56, 36), (0x8F7E32CE7BEA5C70, 83, 44), (0xD5D238A4ABE98068, 109, 52),
     (0x9F4F2726179A2245, 136, 60), (0xED63A231D4C4FB27, 162, 68), (0xB0DE65388CC8ADA8, 189, 76),
     (0x83C7088E1AAB65DB, 216, 84), (0xC45D1DF942711D9A, 242, 92), (0x924D692CA61BE758, 269, 100),
     (0xDA01EE641A708DEA, 295, 108), (0xA26DA3999AEF774A, 322, 116), (0xF209787BB47D6B85, 348, 124),
     (0xB454E4A179DD1877, 375, 132), (0x865B86925B9BC5C2, 402, 140), (0xC83553C5C8965D3D, 428, 148),
     (0x952AB45CFA97A0B3, 455, 156), (0xDE469FBD99A05FE3, 481, 164), (0xA59BC234DB398C25, 508, 172),
     (0xF6C69A72A3989F5C, 534, 180), (0xB7DCBF5354E9BECE, 561, 188), (0x88FCF317F22241E2, 588, 196),
     (0xCC20CE9BD35C78A5, 614, 204), (0x98165AF37B2153DF, 641, 212), (0xE2A0B5DC971F303A, 667, 220),
     (0xA8D9D1535CE3B396, 694, 228), (0xFB9B7CD9A4A7443C, 720, 236), (0xBB764C4CA7A44410, 747, 244),
     (0x8BAB8EEFB6409C1A, 774, 252), (0xD01FEF10A657842C, 800, 260), (0x9B10A4E5E9913129, 827, 268),
     (0xE7109BFBA19C0C9D, 853, 276), (0xAC2820D9623BF429, 880, 284), (0x80444B5E7AA7CF85, 907, 292),
     (0xBF21E44003ACDD2D, 933, 300), (0x8E679C2F5E44FF8F, 960, 308), (0xD433179D9C8CB841, 986, 316),
     (0x9E19DB92B4E31BA9, 1013, 324)]"

text \<open>C's division rounds towards zero.\<close>

definition get_cached_power_for_binary_exponent :: "int \<Rightarrow> (u64 \<times> int \<times> int) option" where
  "get_cached_power_for_binary_exponent e =
     (if e < - 1500 \<or> 1500 < e then None
      else let f = kAlpha - e - 1;
               k = (if 0 \<le> f then f * 78913 div 2 ^ 18 else - (- (f * 78913) div 2 ^ 18)) + (if 0 < f then 1 else 0);
               i = 300 + k + (8 - 1); index = (if 0 \<le> i then i div 8 else - (- i div 8))
           in if index < 0 \<or> int (length kCachedPowers) \<le> index then None
              else let cached = kCachedPowers ! nat index
                   in if kAlpha \<le> fst (snd cached) + e + 64 \<and> fst (snd cached) + e + 64 \<le> kGamma then Some cached else None)"

definition find_largest_pow10 :: "u32 \<Rightarrow> nat \<times> u32" where
  "find_largest_pow10 n =
     (if 1000000000 \<le> n then (10, 1000000000) else if 100000000 \<le> n then (9, 100000000)
      else if 10000000 \<le> n then (8, 10000000) else if 1000000 \<le> n then (7, 1000000)
      else if 100000 \<le> n then (6, 100000) else if 10000 \<le> n then (5, 10000)
      else if 1000 \<le> n then (4, 1000) else if 100 \<le> n then (3, 100)
      else if 10 \<le> n then (2, 10) else (1, 1))"

subsection \<open>Digits\<close>

text \<open>The loop of \<open>grisu2_round\<close>, and the function with its assertions.\<close>

partial_function (option) round_loop :: "string \<Rightarrow> u64 \<Rightarrow> u64 \<Rightarrow> u64 \<Rightarrow> u64 \<Rightarrow> string option" where
  "round_loop buf distance delta rest ten_k =
     (if rest < distance \<and> ten_k \<le> delta - rest \<and> (rest + ten_k < distance \<or> rest + ten_k - distance < distance - rest)
      then (if last buf = CHR ''0'' then None
            else round_loop (butlast buf @ [char_of (of_char (last buf) - 1 :: nat)]) distance delta (rest + ten_k) ten_k)
      else Some buf)"

declare round_loop.simps [code]

definition grisu2_round :: "string \<Rightarrow> u64 \<Rightarrow> u64 \<Rightarrow> u64 \<Rightarrow> u64 \<Rightarrow> string option" where
  "grisu2_round buf distance delta rest ten_k =
     (if buf \<noteq> [] \<and> distance \<le> delta \<and> rest \<le> delta \<and> 0 < ten_k then round_loop buf distance delta rest ten_k else None)"

text \<open>\<open>buffer[length++] = '0' + d\<close>, in what \<open>number_buffer\<close> has left behind a sign.\<close>

definition put_digit :: "nat \<Rightarrow> string \<Rightarrow> string option" where
  "put_digit d buf = (if 9 < d \<or> 63 \<le> length buf then None else Some (buf @ [digit_char d]))"

text \<open>The integral part: the digits with the exponent when they suffice, or all of them.\<close>

fun integral_digits ::
  "nat \<Rightarrow> u32 \<Rightarrow> u32 \<Rightarrow> u64 \<Rightarrow> nat \<Rightarrow> u64 \<Rightarrow> u64 \<Rightarrow> string \<Rightarrow> (string \<times> nat + string) option" where
  "integral_digits 0 p1 pow10 p2 s delta distance buf = Some (Inr buf)"
| "integral_digits (Suc n) p1 pow10 p2 s delta distance buf = do {
     let d = p1 div pow10;
     let r = p1 mod pow10;
     buf \<leftarrow> put_digit (unat d) buf;
     let rest = push_bit s (ucast r) + p2;
     if rest \<le> delta
     then do {
       buf \<leftarrow> grisu2_round buf distance delta rest (push_bit s (ucast pow10));
       Some (Inl (buf, n)) }
     else integral_digits n r (pow10 div 10) p2 s delta distance buf }"

text \<open>The fractional part, with the number of its digits.\<close>

partial_function (option) fractional_digits ::
  "u64 \<Rightarrow> u64 \<Rightarrow> nat \<Rightarrow> u64 \<Rightarrow> u64 \<Rightarrow> nat \<Rightarrow> string \<Rightarrow> (string \<times> nat) option" where
  "fractional_digits p2 one s delta distance m buf =
     (if (- 1) div 10 < p2 then None
      else do {
        let p2 = p2 * 10;
        let d = drop_bit s p2;
        let r = p2 AND (one - 1);
        buf \<leftarrow> put_digit (unat d) buf;
        let delta = delta * 10;
        let distance = distance * 10;
        if r \<le> delta
        then do {
          buf \<leftarrow> grisu2_round buf distance delta r one;
          Some (buf, m + 1) }
        else fractional_digits r one s delta distance (m + 1) buf })"

declare fractional_digits.simps [code]

definition grisu2_digit_gen :: "int \<Rightarrow> diyfp \<Rightarrow> diyfp \<Rightarrow> diyfp \<Rightarrow> (string \<times> int) option" where
  "grisu2_digit_gen decimal_exponent M_minus w M_plus =
     (if de M_plus < kAlpha \<or> kGamma < de M_plus then None
      else do {
        delta \<leftarrow> map_option df (diyfp_sub M_plus M_minus);
        distance \<leftarrow> map_option df (diyfp_sub M_plus w);
        let s = nat (- de M_plus);
        let one = push_bit s 1;
        let p1 = ucast (drop_bit s (df M_plus));
        let p2 = df M_plus AND (one - 1);
        if p1 = 0 then None
        else do {
          let (k, pow10) = find_largest_pow10 p1;
          r \<leftarrow> integral_digits k p1 pow10 p2 s delta distance [];
          (case r of
             Inl (buf, n) \<Rightarrow> Some (buf, decimal_exponent + int n)
           | Inr buf \<Rightarrow> if \<not> delta < p2 then None
               else map_option (\<lambda>(buf, m). (buf, decimal_exponent - int m)) (fractional_digits p2 one s delta distance 0 buf)) } })"

definition grisu2 :: "diyfp \<Rightarrow> diyfp \<Rightarrow> diyfp \<Rightarrow> (string \<times> int) option" where
  "grisu2 m_minus v m_plus =
     (if de m_plus \<noteq> de m_minus \<or> de m_plus \<noteq> de v then None
      else case get_cached_power_for_binary_exponent (de m_plus) of None \<Rightarrow> None
       | Some (c, e, k) \<Rightarrow>
           (let c_minus_k = \<lparr>df = c, de = e\<rparr>; w = diyfp_mul v c_minus_k; w_minus = diyfp_mul m_minus c_minus_k;
                w_plus = diyfp_mul m_plus c_minus_k
            in grisu2_digit_gen (- k) (w_minus\<lparr>df := df w_minus + 1\<rparr>) w (w_plus\<lparr>df := df w_plus - 1\<rparr>)))"

subsection \<open>The text\<close>

definition append_exponent :: "int \<Rightarrow> string option" where
  "append_exponent e =
     (if e \<le> - 1000 \<or> 1000 \<le> e then None
      else let k = nat \<bar>e\<bar>
           in Some ((if e < 0 then ''-'' else ''+'') @
                (if k < 10 then [CHR ''0'', digit_char k]
                 else if k < 100 then [digit_char (k div 10), digit_char (k mod 10)]
                 else [digit_char (k div 100), digit_char (k mod 100 div 10), digit_char (k mod 100 mod 10)])))"

definition format_buffer :: "string \<Rightarrow> int \<Rightarrow> int \<Rightarrow> int \<Rightarrow> string option" where
  "format_buffer buf decimal_exponent min_exp max_exp =
     (if \<not> min_exp < 0 \<or> \<not> 0 < max_exp then None
      else let k = int (length buf); n = k + decimal_exponent
           in if k \<le> n \<and> n \<le> max_exp then Some (buf @ replicate (nat (n - k)) CHR ''0'' @ ''.0'')
              else if 0 < n \<and> n \<le> max_exp then Some (take (nat n) buf @ ''.'' @ drop (nat n) buf)
              else if min_exp < n \<and> n \<le> 0 then Some (''0.'' @ replicate (nat (- n)) CHR ''0'' @ buf)
              else if k = 1 then map_option (\<lambda>e. buf @ ''e'' @ e) (append_exponent (n - 1))
              else map_option (\<lambda>e. take 1 buf @ ''.'' @ drop 1 buf @ ''e'' @ e) (append_exponent (n - 1)))"

text \<open>
  \<open>to_chars\<close> for a positive number, and with a sign; the text must fit \<open>number_buffer\<close>.  The two zeros are
  one value here; the code prints a sign before a negative one.
\<close>

definition positive_to_chars :: "rat \<Rightarrow> string option" where
  "positive_to_chars value = do {
     w \<leftarrow> compute_boundaries value;
     (buf, decimal_exponent) \<leftarrow> grisu2 (bd_minus w) (bd_w w) (bd_plus w);
     if 17 < length buf then None else format_buffer buf decimal_exponent (- 4) 15 }"

definition to_chars :: "fp \<Rightarrow> string option" where
  "to_chars x = (case x of
       Fin q \<Rightarrow> do {
         out \<leftarrow> (if q = 0 then Some ''0.0''
                 else if q < 0 then map_option (\<lambda>t. CHR ''-'' # t) (positive_to_chars (- q))
                 else positive_to_chars q);
         if 64 < length out then None else Some out }
     | _ \<Rightarrow> None)"

end
