(* ===== verification/JsonDump.thy ===== *)
theory JsonDump imports JsonFacts Grisu begin

section \<open>The JSON serializer\<close>

text \<open>
  \<open>class serializer\<close> of \<open>Listener/external/json.hpp\<close> in its compact form, which \<open>operator<<\<close> uses
  on a stream without a width.  \<open>dump_escaped\<close> works on the 512 bytes of \<open>string_buffer\<close>:
  \<open>e_buf\<close> is the part that has been written since the last flush, and a write past the end is
  undefined behaviour (\<open>None\<close>).  The inner sum is the exception the serializer throws, or the text
  it has written.  A finite floating-point number is printed by \<open>to_chars\<close> of \<open>Grisu\<close>.  The code point is a number of at most 26 bits (four bytes
  give at most 8 and three times 6), so the \<open>uint32_t\<close> of the source never wraps around.
\<close>

subsection \<open>Escaping\<close>

datatype error_handler = Strict | Replace | Ignore_invalid

record escaper =
  e_out :: string
  e_buf :: string
  e_state :: nat
  e_codepoint :: nat
  e_accepted :: nat
  e_undumped :: nat

definition new_escaper :: escaper where
  "new_escaper = \<lparr>e_out = [], e_buf = [], e_state = UTF8_ACCEPT, e_codepoint = 0, e_accepted = 0, e_undumped = 0\<rparr>"

definition buffer_put :: "string \<Rightarrow> escaper \<Rightarrow> escaper option" where
  "buffer_put xs e = (if length (e_buf e) + length xs \<le> 512 then Some (e\<lparr>e_buf := e_buf e @ xs\<rparr>) else None)"

text \<open>\<open>snprintf\<close> also writes a terminator.\<close>

definition buffer_format :: "string \<Rightarrow> escaper \<Rightarrow> escaper option" where
  "buffer_format xs e = (if length (e_buf e) + length xs + 1 \<le> 512 then buffer_put xs e else None)"

definition hex_lower :: "nat \<Rightarrow> char" where
  "hex_lower n = ''0123456789abcdef'' ! n"

text \<open>\<open>\u%04x\<close> of a \<open>uint16_t\<close>.\<close>

definition u_escape :: "nat \<Rightarrow> string" where
  "u_escape n = [CHR 0x5C, CHR ''u''] @
     map (\<lambda>k. hex_lower (n div 16 ^ k mod 16)) [3, 2, 1, 0]"

definition escape_codepoint :: "bool \<Rightarrow> char \<Rightarrow> escaper \<Rightarrow> escaper option" where
  "escape_codepoint ensure_ascii c e = (let cp = e_codepoint e in
     if cp = 0x08 then buffer_put [CHR 0x5C, CHR ''b''] e
     else if cp = 0x09 then buffer_put [CHR 0x5C, CHR ''t''] e
     else if cp = 0x0A then buffer_put [CHR 0x5C, CHR ''n''] e
     else if cp = 0x0C then buffer_put [CHR 0x5C, CHR ''f''] e
     else if cp = 0x0D then buffer_put [CHR 0x5C, CHR ''r''] e
     else if cp = 0x22 then buffer_put [CHR 0x5C, CHR 0x22] e
     else if cp = 0x5C then buffer_put [CHR 0x5C, CHR 0x5C] e
     else if cp \<le> 0x1F \<or> (ensure_ascii \<and> 0x7F \<le> cp) then
       (if cp \<le> 0xFFFF then buffer_format (u_escape cp) e
        else buffer_format (u_escape (0xD7C0 + drop_bit 10 cp) @ u_escape (0xDC00 + (cp AND 0x3FF))) e)
     else buffer_put [c] e)"

definition flush_buffer :: "escaper \<Rightarrow> escaper" where
  "flush_buffer e =
     (if 512 - length (e_buf e) < 13 then e\<lparr>e_out := e_out e @ e_buf e, e_buf := []\<rparr> else e)"

definition remember_accept :: "escaper \<Rightarrow> escaper" where
  "remember_accept e = e\<lparr>e_accepted := length (e_buf e)\<rparr>"

definition replacement :: "bool \<Rightarrow> string" where
  "replacement ensure_ascii =
     (if ensure_ascii then CHR 0x5C # ''ufffd'' else [CHR 0xEF, CHR 0xBF, CHR 0xBD])"

text \<open>An invalid byte, when the handler does not throw: whether the byte is read again.\<close>

definition skip_invalid :: "error_handler \<Rightarrow> bool \<Rightarrow> escaper \<Rightarrow> (bool \<times> escaper) option" where
  "skip_invalid h ensure_ascii e = do {
     let back = e\<lparr>e_buf := take (e_accepted e) (e_buf e)\<rparr>;
     e' \<leftarrow> (if h = Replace
            then map_option (\<lambda>x. remember_accept (flush_buffer x)) (buffer_put (replacement ensure_ascii) back)
            else Some back);
     Some (0 < e_undumped e, e'\<lparr>e_undumped := 0, e_state := UTF8_ACCEPT\<rparr>) }"

text \<open>One byte: whether it is to be read again, and the new state.\<close>

definition dump_byte ::
  "error_handler \<Rightarrow> bool \<Rightarrow> char \<Rightarrow> escaper \<Rightarrow> (json_exception + bool \<times> escaper) option" where
  "dump_byte h ensure_ascii c e =
     (case decode (e_state e) (e_codepoint e) c of (state, cp) \<Rightarrow>
        let e = e\<lparr>e_state := state, e_codepoint := cp\<rparr> in
        if state = UTF8_ACCEPT then do {
          e \<leftarrow> escape_codepoint ensure_ascii c e;
          Some (Inr (False, (remember_accept (flush_buffer e))\<lparr>e_undumped := 0\<rparr>)) }
        else if state = UTF8_REJECT then
          (if h = Strict then Some (Inl Type_error_316) else map_option Inr (skip_invalid h ensure_ascii e))
        else do {
          e \<leftarrow> (if ensure_ascii then Some e else buffer_put [c] e);
          Some (Inr (False, e\<lparr>e_undumped := e_undumped e + 1\<rparr>)) })"

lemma dump_byte_again:
  "dump_byte h a c e = Some (Inr (True, e')) \<Longrightarrow> 0 < e_undumped e \<and> e_undumped e' = 0"
  by (auto simp: dump_byte_def skip_invalid_def Let_def bind_eq_Some_conv
      split: prod.splits if_splits option.splits)

function dump_loop ::
  "error_handler \<Rightarrow> bool \<Rightarrow> string \<Rightarrow> escaper \<Rightarrow> (json_exception + escaper) option" where
  "dump_loop h ensure_ascii [] e = Some (Inr e)"
| "dump_loop h ensure_ascii (c # s) e =
     (case dump_byte h ensure_ascii c e of
        None \<Rightarrow> None
      | Some (Inl x) \<Rightarrow> Some (Inl x)
      | Some (Inr (again, e')) \<Rightarrow>
          if again then dump_loop h ensure_ascii (c # s) e' else dump_loop h ensure_ascii s e')"
  by pat_completeness auto

termination
  by (relation "measure (\<lambda>(h, a, s, e). 2 * length s + (if 0 < e_undumped e then 1 else 0))")
    (auto dest: dump_byte_again)

declare dump_loop.simps(2) [simp del]

definition dump_finish :: "error_handler \<Rightarrow> bool \<Rightarrow> escaper \<Rightarrow> json_exception + string" where
  "dump_finish h ensure_ascii e =
     (if e_state e = UTF8_ACCEPT then Inr (e_out e @ e_buf e)
      else case h of
          Strict \<Rightarrow> Inl Type_error_316
        | Ignore_invalid \<Rightarrow> Inr (e_out e @ take (e_accepted e) (e_buf e))
        | Replace \<Rightarrow> Inr (e_out e @ take (e_accepted e) (e_buf e) @ replacement ensure_ascii))"

definition dump_escaped :: "error_handler \<Rightarrow> bool \<Rightarrow> string \<Rightarrow> (json_exception + string) option" where
  "dump_escaped h ensure_ascii s =
     (case dump_loop h ensure_ascii s new_escaper of
        None \<Rightarrow> None
      | Some (Inl x) \<Rightarrow> Some (Inl x)
      | Some (Inr e) \<Rightarrow> Some (dump_finish h ensure_ascii e))"

subsection \<open>Integers\<close>

function count_digits :: "nat \<Rightarrow> nat" where
  "count_digits x =
     (if x < 10 then 1 else if x < 100 then 2 else if x < 1000 then 3 else if x < 10000 then 4
      else 4 + count_digits (x div 10000))"
  by pat_completeness auto

termination
  by (relation "measure id") auto

declare count_digits.simps [simp del]

text \<open>Row \<open>n\<close> of \<open>digits_to_99\<close> holds the two digits of \<open>n\<close>.\<close>

definition digits_to_99 :: "(char \<times> char) list" where
  "digits_to_99 = concat (map (\<lambda>t. map (\<lambda>u. (t, u)) ''0123456789'') ''0123456789'')"

definition write_pair :: "string \<Rightarrow> int \<Rightarrow> nat \<Rightarrow> (string \<times> int) option" where
  "write_pair buf ptr index = do {
     (t, u) \<leftarrow> arr_get digits_to_99 (int index);
     buf \<leftarrow> arr_set buf (ptr - 1) u;
     buf \<leftarrow> arr_set buf (ptr - 2) t;
     Some (buf, ptr - 2) }"

function write_digits :: "string \<Rightarrow> int \<Rightarrow> nat \<Rightarrow> string option" where
  "write_digits buf ptr abs_value =
     (if 100 \<le> abs_value
      then (case write_pair buf ptr (abs_value mod 100) of
          None \<Rightarrow> None
        | Some (buf', ptr') \<Rightarrow> write_digits buf' ptr' (abs_value div 100))
      else if 10 \<le> abs_value then map_option fst (write_pair buf ptr abs_value)
      else arr_set buf (ptr - 1) (char_of (48 + abs_value)))"
  by pat_completeness auto

termination
  by (relation "measure (\<lambda>(buf, ptr, v). v)") auto

declare write_digits.simps [simp del]

definition remove_sign :: "int \<Rightarrow> nat" where
  "remove_sign x = nat (- (x + 1)) + 1"

text \<open>\<open>number_buffer\<close> holds what the last number left in it.\<close>

definition dump_integer :: "string \<Rightarrow> int \<Rightarrow> string option" where
  "dump_integer number_buffer x =
     (if x = 0 then Some ''0''
      else do {
        buf \<leftarrow> (if x < 0 then arr_set number_buffer 0 CHR ''-'' else Some number_buffer);
        let abs_value = (if x < 0 then remove_sign x else nat x);
        let n_chars = (if x < 0 then 1 else 0) + count_digits abs_value;
        buf \<leftarrow> write_digits buf (int n_chars) abs_value;
        Some (take n_chars buf) })"

subsection \<open>Values\<close>

type_synonym dumped = "(json_exception + string) option"

text \<open>One output after the other; an exception stops.\<close>

definition write_then :: "dumped \<Rightarrow> dumped \<Rightarrow> dumped" where
  "write_then a b = (case a of
       None \<Rightarrow> None
     | Some (Inl e) \<Rightarrow> Some (Inl e)
     | Some (Inr s) \<Rightarrow> (case b of
           None \<Rightarrow> None
         | Some (Inl e) \<Rightarrow> Some (Inl e)
         | Some (Inr t) \<Rightarrow> Some (Inr (s @ t))))"

definition write_characters :: "string \<Rightarrow> dumped" where
  "write_characters s = Some (Inr s)"

definition dump_string :: "string \<Rightarrow> dumped" where
  "dump_string s = write_then (write_characters [CHR 0x22])
     (write_then (dump_escaped Strict False s) (write_characters [CHR 0x22]))"

definition dump_number :: "int \<Rightarrow> dumped" where
  "dump_number x = map_option Inr (dump_integer (replicate 64 CHR 0x00) x)"

definition dump_float :: "fp \<Rightarrow> dumped" where
  "dump_float x = (if is_finite x then map_option Inr (to_chars x) else write_characters ''null'')"

text \<open>Elements and members, separated by commas.\<close>

fun dump_all :: "dumped list \<Rightarrow> dumped" where
  "dump_all [] = write_characters []"
| "dump_all [d] = d"
| "dump_all (d # ds) = write_then d (write_then (write_characters '','') (dump_all ds))"

fun dump :: "json \<Rightarrow> dumped" where
  "dump (Object m) =
     (if m = [] then write_characters [CHR 0x7B, CHR 0x7D]
      else write_then (write_characters [CHR 0x7B])
        (write_then
          (dump_all (map (\<lambda>(k, v). write_then (dump_string k) (write_then (write_characters '':'') (dump v))) m))
          (write_characters [CHR 0x7D])))"
| "dump (Array xs) =
     (if xs = [] then write_characters ''[]''
      else write_then (write_characters ''['')
        (write_then (dump_all (map dump xs)) (write_characters '']'')))"
| "dump (String s) = dump_string s"
| "dump (Boolean b) = write_characters (if b then ''true'' else ''false'')"
| "dump (Number_integer x) = dump_number x"
| "dump (Number_unsigned x) = dump_number (uint x)"
| "dump (Number_float x) = dump_float x"
| "dump Null = write_characters ''null''"

text \<open>\<open>std::cout << json\<close>.\<close>

definition print_json :: "json \<Rightarrow> dumped" where
  "print_json j = dump j"

end
