(* ===== verification/GrisuFacts.thy ===== *)
theory GrisuFacts imports Grisu begin

section \<open>The printer of numbers stays within the boundaries\<close>

text \<open>
  The text of a positive double is a decimal strictly between the midpoints to its neighbours, so that
  it is read back as the same number; no assertion of the printer fails and it needs at most 17 digits.
\<close>

subsection \<open>Words\<close>

lemma unat_mult_small: "unat x * unat y < 2 ^ 64 \<Longrightarrow> unat (x * y :: u64) = unat x * unat y"
  using unat_mult_lem[of x y] by simp

lemma unat_add_small: "unat x + unat y < 2 ^ 64 \<Longrightarrow> unat (x + y :: u64) = unat x + unat y"
  using unat_add_lem[of x y] by simp

lemma unat_sub_small: "unat y \<le> unat x \<Longrightarrow> unat (x - y :: u64) = unat x - unat y"
  by (simp add: unat_sub word_le_nat_alt)

lemma unat_low_bits: "unat (x AND mask s :: u64) = unat x mod 2 ^ s"
proof -
  have "unat (x AND mask s) = unat (take_bit s x)" by (simp add: take_bit_eq_mask)
  also have "\<dots> = take_bit s (unat x)" by (rule unsigned_take_bit_eq)
  finally show ?thesis by (simp add: take_bit_eq_mod)
qed

lemma unat_low32: "unat (x AND 0xFFFFFFFF :: u64) = unat x mod 2 ^ 32"
proof -
  have "(0xFFFFFFFF :: u64) = mask 32" by (simp add: mask_eq_exp_minus_1)
  then show ?thesis by (simp only: unat_low_bits)
qed

lemma high_product:
  fixes a b c d B :: nat
  assumes "0 < B" "B = 2 * H"
  shows "a * c + a * d div B + b * c div B + (b * d div B + b * c mod B + a * d mod B + H) div B =
    ((b + B * a) * (d + B * c) + B * H) div (B * B)"
proof -
  let ?Q = "b * d div B + b * c mod B + a * d mod B + H" and ?H = "a * c + a * d div B + b * c div B"
  have s: "b * d = b * d mod B + B * (b * d div B)" "b * c = b * c mod B + B * (b * c div B)"
    "a * d = a * d mod B + B * (a * d div B)"
    by simp_all
  have "(b + B * a) * (d + B * c) + B * H = b * d + B * (b * c) + B * (a * d) + B * (B * (a * c)) + B * H"
    by (simp add: algebra_simps)
  also have "\<dots> = (b * d mod B + B * (b * d div B)) + B * (b * c mod B + B * (b * c div B)) +
      B * (a * d mod B + B * (a * d div B)) + B * (B * (a * c)) + B * H"
    using s by simp
  also have "\<dots> = b * d mod B + B * ?Q + B * B * ?H"
    by (simp only: distrib_left distrib_right mult.assoc ac_simps)
  finally have "((b + B * a) * (d + B * c) + B * H) div (B * B) = (b * d mod B + B * ?Q) div (B * B) + ?H"
    using assms(1) by simp
  also have "(b * d mod B + B * ?Q) div (B * B) = ?Q div B"
    using assms(1) by (simp add: div_mult2_eq)
  finally show ?thesis by simp
qed

lemma unat_mul_high: "unat (mul_high u v) = (unat u * unat v + 2 ^ 63) div 2 ^ 64"
proof -
  define B :: nat where "B = 2 ^ 32"
  define a b c d where "a = unat u div B" and "b = unat u mod B" and "c = unat v div B" and "d = unat v mod B"
  have B: "0 < B" "B = 2 * 2 ^ 31" "B * B = 2 ^ 64" "B * 2 ^ 31 = 2 ^ 63" by (simp_all add: B_def)
  have ub: "unat u < 2 ^ 64" "unat v < 2 ^ 64" using unsigned_less[of u] unsigned_less[of v] by simp_all
  then have le: "a \<le> B - 1" "b \<le> B - 1" "c \<le> B - 1" "d \<le> B - 1"
    by (simp_all add: a_def b_def c_def d_def B_def less_Suc_eq_le[symmetric] div_less_iff_less_mult)
  have prod: "x * y \<le> (B - 1) * (B - 1)" if "x \<le> B - 1" "y \<le> B - 1" for x y using that by (rule mult_le_mono)
  have small: "(B - 1) * (B - 1) + B < 2 ^ 64" by (simp add: B_def)
  let ?u_lo = "u AND 0xFFFFFFFF" and ?u_hi = "drop_bit 32 u" and ?v_lo = "v AND 0xFFFFFFFF" and ?v_hi = "drop_bit 32 v"
  have parts: "unat ?u_lo = b" "unat ?u_hi = a" "unat ?v_lo = d" "unat ?v_hi = c"
    by (simp_all only: unat_low32 unat_drop_bit a_def b_def c_def d_def B_def)
  have fits: "x * y < 2 ^ 64" if "x \<le> B - 1" "y \<le> B - 1" for x y using prod[OF that] small by linarith
  have p: "unat (?u_lo * ?v_lo) = b * d" "unat (?u_lo * ?v_hi) = b * c" "unat (?u_hi * ?v_lo) = a * d" "unat (?u_hi * ?v_hi) = a * c"
    unfolding parts[symmetric] by (rule unat_mult_small, simp only: parts, rule fits, rule le, rule le)+
  define p0 p1 p2 p3 where "p0 = ?u_lo * ?v_lo" and "p1 = ?u_lo * ?v_hi" and "p2 = ?u_hi * ?v_lo" and "p3 = ?u_hi * ?v_hi"
  have q: "unat (drop_bit 32 p0) = b * d div B" "unat (p1 AND 0xFFFFFFFF) = b * c mod B" "unat (p2 AND 0xFFFFFFFF) = a * d mod B"
    "unat (drop_bit 32 p1) = b * c div B" "unat (drop_bit 32 p2) = a * d div B" "unat p3 = a * c"
    using p by (simp_all only: p0_def p1_def p2_def p3_def unat_low32 unat_drop_bit B_def)
  have quot: "x * y div B \<le> B - 1" if "x \<le> B - 1" "y \<le> B - 1" for x y
    using prod[OF that] B(1) by (metis div_le_mono div_mult_self_is_m le_trans mult.commute mult_le_mono2 diff_le_self)
  have rem: "x mod B \<le> B - 1" for x using mod_less_divisor[OF B(1), of x] by linarith
  have Bn: "B = 4294967296" by (simp add: B_def)
  let ?Q = "drop_bit 32 p0 + (p1 AND 0xFFFFFFFF) + (p2 AND 0xFFFFFFFF)"
  have Q1: "unat ?Q = b * d div B + b * c mod B + a * d mod B"
    using quot[OF le(2) le(4)] rem[of "b * c"] rem[of "a * d"] Bn
    by (subst unat_add_small; (subst unat_add_small)?; simp add: q)
  have half: "unat (push_bit 31 1 :: u64) = 2 ^ 31" by simp
  have Q: "unat (?Q + push_bit 31 1) = b * d div B + b * c mod B + a * d mod B + 2 ^ 31"
    using quot[OF le(2) le(4)] rem[of "b * c"] rem[of "a * d"] Bn
    by (subst unat_add_small) (simp_all only: Q1 half, simp)
  have UV: "b + B * a = unat u" "d + B * c = unat v" by (simp_all add: a_def b_def c_def d_def)
  let ?h = "(unat u * unat v + 2 ^ 63) div 2 ^ 64"
  have sum: "a * c + a * d div B + b * c div B + (b * d div B + b * c mod B + a * d mod B + 2 ^ 31) div B = ?h"
    using high_product[OF B(1,2), of a c d b] unfolding UV B(3,4) .
  have "unat u * unat v \<le> (2 ^ 64 - 1) * (2 ^ 64 - 1)" using ub by (intro mult_le_mono) simp_all
  then have "unat u * unat v + 2 ^ 63 < 2 ^ 64 * 2 ^ 64" by simp
  then have h: "?h < 2 ^ 64" by (rule less_mult_imp_div_less)
  have lt: "a * c + a * d div B < 2 ^ 64" "a * c + a * d div B + b * c div B < 2 ^ 64"
    "a * c + a * d div B + b * c div B + (b * d div B + b * c mod B + a * d mod B + 2 ^ 31) div B < 2 ^ 64"
    using sum h by linarith+
  have s1: "unat (p3 + drop_bit 32 p2) = a * c + a * d div B"
    using unat_add_small[of p3 "drop_bit 32 p2"] lt(1) by (simp only: q)
  have s2: "unat (p3 + drop_bit 32 p2 + drop_bit 32 p1) = a * c + a * d div B + b * c div B"
    using unat_add_small[of "p3 + drop_bit 32 p2" "drop_bit 32 p1"] lt(2) by (simp only: q s1)
  have s3: "unat (drop_bit 32 (?Q + push_bit 31 1)) = (b * d div B + b * c mod B + a * d mod B + 2 ^ 31) div B"
    by (simp only: unat_drop_bit Q B_def)
  have "unat (p3 + drop_bit 32 p2 + drop_bit 32 p1 + drop_bit 32 (?Q + push_bit 31 1)) = ?h"
    using unat_add_small[of "p3 + drop_bit 32 p2 + drop_bit 32 p1" "drop_bit 32 (?Q + push_bit 31 1)"] lt(3)
    by (simp only: s2 s3 sum)
  moreover have "mul_high u v = p3 + drop_bit 32 p2 + drop_bit 32 p1 + drop_bit 32 (?Q + push_bit 31 1)"
    by (simp add: mul_high_def Let_def p0_def p1_def p2_def p3_def)
  ultimately show ?thesis by simp
qed

lemma mul_high_close:
  "\<bar>of_nat (unat (mul_high u v)) - (of_nat (unat u) * of_nat (unat v) / 2 ^ 64 :: rat)\<bar> \<le> 1 / 2"
proof -
  let ?p = "unat u * unat v"
  have "(?p + 2 ^ 63) div 2 ^ 64 * 2 ^ 64 \<le> ?p + 2 ^ 63" "?p + 2 ^ 63 < ((?p + 2 ^ 63) div 2 ^ 64 + 1) * 2 ^ 64"
    by (simp_all add: div_times_less_eq_dividend dividend_less_div_times)
  then have "(of_nat ((?p + 2 ^ 63) div 2 ^ 64 * 2 ^ 64) :: rat) \<le> of_nat (?p + 2 ^ 63)"
    "(of_nat (?p + 2 ^ 63) :: rat) < of_nat (((?p + 2 ^ 63) div 2 ^ 64 + 1) * 2 ^ 64)"
    by (simp_all only: of_nat_le_iff of_nat_less_iff)
  then show ?thesis unfolding unat_mul_high by (simp add: field_simps abs_le_iff)
qed

subsection \<open>The cached powers\<close>

text \<open>An entry at its index suits the numbers that are scaled with it.\<close>

definition entry_ok :: "int \<Rightarrow> u64 \<times> int \<times> int \<Rightarrow> bool" where
  "entry_ok i x = (case x of (f, e, k) \<Rightarrow> k = 8 * i - 300 \<and> (8 * i - 300) * 2 ^ 18 < (e + 64) * 78913 \<and>
     (e + 34) * 78913 \<le> (8 * i - 308) * 2 ^ 18 \<and> 2 ^ 63 \<le> uint f)"

fun entries_ok :: "int \<Rightarrow> (u64 \<times> int \<times> int) list \<Rightarrow> bool" where
  "entries_ok i [] = True"
| "entries_ok i (x # xs) \<longleftrightarrow> entry_ok i x \<and> entries_ok (i + 1) xs"

lemma entries_ok_nth: "entries_ok i xs \<Longrightarrow> j < length xs \<Longrightarrow> entry_ok (i + int j) (xs ! j)"
proof (induction xs arbitrary: i j)
  case (Cons x xs)
  then show ?case using Cons.IH[of "i + 1" "j - 1"] by (cases j) (simp_all add: add.assoc)
qed simp

lemma cached_entries: "entries_ok 0 kCachedPowers"
  by code_simp

lemma length_kCachedPowers: "length kCachedPowers = 79"
  by (simp add: kCachedPowers_def)

text \<open>The exact power in units of the cached one, which is its rounding.  Powers of five are multiplied up
  along the table, downwards for the negative ones.\<close>

definition scaled_power :: "int \<Rightarrow> int \<Rightarrow> rat" where
  "scaled_power k e = 10 powi k / 2 powi e"

definition close_up :: "int \<Rightarrow> int \<Rightarrow> int \<Rightarrow> bool" where
  "close_up five f e = (if 0 \<le> e then \<bar>five - f * 2 ^ nat e\<bar> * 2 \<le> 2 ^ nat e else \<bar>five * 2 ^ nat (- e) - f\<bar> * 2 \<le> 1)"

definition close_down :: "int \<Rightarrow> int \<Rightarrow> int \<Rightarrow> bool" where
  "close_down five f e \<longleftrightarrow> e \<le> 0 \<and> \<bar>2 ^ nat (- e) - f * five\<bar> * 2 \<le> five"

fun powers_up :: "int \<Rightarrow> int \<Rightarrow> (u64 \<times> int \<times> int) list \<Rightarrow> bool" where
  "powers_up k five [] = True"
| "powers_up k five ((f, e, k') # xs) \<longleftrightarrow> k' = k \<and> close_up five (uint f) (e - k) \<and> powers_up (k + 8) (five * 390625) xs"

fun powers_down :: "int \<Rightarrow> int \<Rightarrow> (u64 \<times> int \<times> int) list \<Rightarrow> bool" where
  "powers_down k five [] = True"
| "powers_down k five ((f, e, k') # xs) \<longleftrightarrow> k' = - k \<and> close_down five (uint f) (e + k) \<and> powers_down (k + 8) (five * 390625) xs"

lemma cached_up: "powers_up 4 625 (drop 38 kCachedPowers)"
  by code_simp

lemma cached_down: "powers_down 4 625 (rev (take 38 kCachedPowers))"
  by code_simp

lemma scaled_power_five: "scaled_power k e = 5 powi k * 2 powi (k - e)"
proof -
  have "(10 :: rat) powi k = 5 powi k * 2 powi k" by (simp flip: power_int_mult_distrib)
  then show ?thesis by (simp add: scaled_power_def power_int_diff)
qed

lemma close_up_scaled:
  assumes "close_up (5 ^ nat k) (uint f) (e - k)" "0 \<le> k"
  shows "\<bar>scaled_power k e - of_nat (unat (f :: u64))\<bar> \<le> 1 / 2"
proof -
  have s: "scaled_power k e = of_int (5 ^ nat k) * 2 powi (k - e)" using assms(2) by (simp add: scaled_power_five power_int_def)
  have f: "(of_nat (unat f) :: rat) = of_int (uint f)" by simp
  show ?thesis
  proof (cases "0 \<le> e - k")
    case True
    define B :: rat where "B = 2 ^ nat (e - k)"
    have B: "0 < B" "(2 :: rat) powi (k - e) = 1 / B"
      using True by (cases "e = k"; simp add: B_def power_int_def power_one_over inverse_eq_divide)+
    have "(of_int (\<bar>5 ^ nat k - uint f * 2 ^ nat (e - k)\<bar> * 2) :: rat) \<le> of_int (2 ^ nat (e - k))"
      using assms(1) True by (simp only: close_up_def if_True of_int_le_iff)
    then have "\<bar>of_int (5 ^ nat k) - of_int (uint f) * B\<bar> * 2 \<le> B"
      by (simp only: B_def of_int_mult of_int_abs of_int_diff of_int_power of_int_numeral)
    then have "\<bar>of_int (5 ^ nat k) - of_int (uint f) * B\<bar> \<le> B / 2" by simp
    then show ?thesis using B(1) unfolding s f B(2) by (simp only: abs_le_iff) (simp add: field_simps)
  next
    case False
    then have "(of_int (\<bar>5 ^ nat k * 2 ^ nat (- (e - k)) - uint f\<bar> * 2) :: rat) \<le> of_int 1"
      using assms(1) by (simp only: close_up_def if_False of_int_le_iff)
    then show ?thesis using False unfolding s f by (simp add: power_int_def abs_le_iff field_simps)
  qed
qed

lemma close_down_scaled:
  assumes "close_down (5 ^ nat k) (uint f) (e + k)" "0 \<le> k"
  shows "\<bar>scaled_power (- k) e - of_nat (unat (f :: u64))\<bar> \<le> 1 / 2"
proof -
  have e: "e + k \<le> 0" using assms(1) by (simp add: close_down_def)
  have s: "scaled_power (- k) e = 2 ^ nat (- (e + k)) / of_int (5 ^ nat k)"
    using assms(2) e by (simp add: scaled_power_five power_int_minus divide_inverse ac_simps)
      (simp add: power_int_def)
  have f: "(of_nat (unat f) :: rat) = of_int (uint f)" by simp
  have "(of_int (\<bar>2 ^ nat (- (e + k)) - uint f * 5 ^ nat k\<bar> * 2) :: rat) \<le> of_int (5 ^ nat k)"
    using assms(1) by (simp only: close_down_def of_int_le_iff)
  then show ?thesis unfolding s f by (simp add: abs_le_iff field_simps)
qed

lemma five_step: "0 \<le> k \<Longrightarrow> 5 ^ nat k * (390625 :: int) = 5 ^ nat (k + 8)"
  by (simp add: nat_add_distrib power_add)

lemma powers_up_scaled:
  "powers_up k (5 ^ nat k) xs \<Longrightarrow> 0 \<le> k \<Longrightarrow> (f, e, k') \<in> set xs \<Longrightarrow> \<bar>scaled_power k' e - of_nat (unat f)\<bar> \<le> 1 / 2"
proof (induction xs arbitrary: k)
  case (Cons x xs)
  obtain f' e' k'' where x: "x = (f', e', k'')" by (cases x)
  show ?case
    using Cons.prems Cons.IH[of "k + 8"] close_up_scaled[of k f' e'] by (auto simp: x five_step)
qed simp

lemma powers_down_scaled:
  "powers_down k (5 ^ nat k) xs \<Longrightarrow> 0 \<le> k \<Longrightarrow> (f, e, k') \<in> set xs \<Longrightarrow> \<bar>scaled_power k' e - of_nat (unat f)\<bar> \<le> 1 / 2"
proof (induction xs arbitrary: k)
  case (Cons x xs)
  obtain f' e' k'' where x: "x = (f', e', k'')" by (cases x)
  show ?case
    using Cons.prems Cons.IH[of "k + 8"] close_down_scaled[of k f' e'] by (auto simp: x five_step)
qed simp

lemma entry_close:
  assumes "(f, e, k) \<in> set kCachedPowers"
  shows "\<bar>scaled_power k e - of_nat (unat f)\<bar> \<le> 1 / 2"
proof -
  have "(f, e, k) \<in> set (rev (take 38 kCachedPowers)) \<or> (f, e, k) \<in> set (drop 38 kCachedPowers)"
    using assms append_take_drop_id[of 38 kCachedPowers] by (metis Un_iff set_append set_rev)
  then show ?thesis
    using powers_up_scaled[of 4 "drop 38 kCachedPowers"] powers_down_scaled[of 4 "rev (take 38 kCachedPowers)"]
      cached_up cached_down by auto
qed

text \<open>The exponent of the power is found without floating-point numbers.\<close>

lemma cached_power_found:
  assumes "- 1137 \<le> e" "e \<le> 960"
  obtains c ce k where "get_cached_power_for_binary_exponent e = Some (c, ce, k)" "- 60 \<le> ce + e + 64" "ce + e + 64 \<le> - 32"
    "2 ^ 63 \<le> unat c" "\<bar>scaled_power k ce - of_nat (unat c)\<bar> \<le> 1 / 2" "- 300 \<le> k" "k \<le> 324"
proof -
  define f where "f = - 61 - e"
  define k where "k = (if 0 \<le> f then f * 78913 div 2 ^ 18 else - (- (f * 78913) div 2 ^ 18)) + (if 0 < f then 1 else 0)"
  have f: "- 1021 \<le> f" "f \<le> 1076" using assms by (simp_all add: f_def)
  have k: "(k - 1) * 2 ^ 18 < f * 78913" "f * 78913 \<le> k * 2 ^ 18"
  proof -
    define q r q' r' where "q = f * 78913 div 2 ^ 18" and "r = f * 78913 mod 2 ^ 18"
      and "q' = - (f * 78913) div 2 ^ 18" and "r' = - (f * 78913) mod 2 ^ 18"
    have e: "f * 78913 = 2 ^ 18 * q + r" "- (f * 78913) = 2 ^ 18 * q' + r'"
      unfolding q_def r_def q'_def r'_def by simp_all
    have r: "0 \<le> r" "r < 2 ^ 18" "0 \<le> r'" "r' < 2 ^ 18" by (simp_all add: r_def r'_def)
    have "r \<noteq> 0" if "0 < f"
    proof
      assume "r = 0"
      then have "2 ^ 18 dvd 78913 * f" by (simp add: r_def mod_eq_0_iff_dvd mult.commute)
      moreover have "coprime (2 ^ 18 :: int) 78913" by (simp only: coprime_power_left_iff coprime_left_2_iff_odd) simp
      ultimately have "2 ^ 18 dvd f" by (simp add: coprime_dvd_mult_right_iff)
      then show False using zdvd_imp_le[of "2 ^ 18" f] f that by simp
    qed
    moreover have "k = (if 0 \<le> f then q else - q') + (if 0 < f then 1 else 0)" by (simp add: k_def q_def q'_def)
    moreover have "f = 0 \<Longrightarrow> q = 0 \<and> r = 0" by (simp add: q_def r_def)
    ultimately show "(k - 1) * 2 ^ 18 < f * 78913" "f * 78913 \<le> k * 2 ^ 18"
      using e r by (auto split: if_splits)
  qed
  define i where "i = (307 + k) div 8"
  have i: "8 * i \<le> 307 + k" "307 + k \<le> 8 * i + 7" "0 \<le> i" "i < 79" "0 \<le> 307 + k"
    using k f by (simp_all add: i_def)
  let ?x = "kCachedPowers ! nat i"
  obtain c ce k' where x: "?x = (c, ce, k')" by (cases ?x)
  have "entry_ok i ?x" using entries_ok_nth[OF cached_entries, of "nat i"] i(3,4) by (simp add: length_kCachedPowers)
  then have c: "k' = 8 * i - 300" "(8 * i - 300) * 2 ^ 18 < (ce + 64) * 78913" "(ce + 34) * 78913 \<le> (8 * i - 308) * 2 ^ 18"
    "2 ^ 63 \<le> uint c"
    by (simp_all add: entry_ok_def x)
  have "f * 78913 < (ce + 64) * 78913" "(ce + 34) * 78913 < f * 78913" using k i(1,2) c(2,3) by simp_all
  then have ce: "- 60 \<le> ce + e + 64" "ce + e + 64 \<le> - 32" by (simp_all add: f_def)
  have "get_cached_power_for_binary_exponent e = Some ?x"
    using assms i ce x unfolding get_cached_power_for_binary_exponent_def
    by (simp add: kAlpha_def kGamma_def Let_def length_kCachedPowers f_def[symmetric] k_def[symmetric] i_def[symmetric])
  moreover have "(c, ce, k') \<in> set kCachedPowers" using nth_mem[of "nat i" kCachedPowers] i(3,4) x by (simp add: length_kCachedPowers)
  then have "\<bar>scaled_power k' ce - of_nat (unat c)\<bar> \<le> 1 / 2" by (rule entry_close)
  moreover have "2 ^ 63 \<le> unat c" using c(4) by (simp add: le_nat_iff[symmetric] flip: nat_uint_eq)
  ultimately show thesis using that[of c ce k'] ce x c(1) i(3,4) by simp
qed

text \<open>
  C99. The table of cached powers and the integer arithmetic that selects from it are right for the exponent
  of every double: no assertion fails, the product has an exponent in the window, and the entry is the
  power of ten rounded to 64 bits.
\<close>

theorem cached_power_rounded:
  assumes "- 1137 \<le> e" "e \<le> 960"
  shows "\<exists>c ce k. get_cached_power_for_binary_exponent e = Some (c, ce, k) \<and> kAlpha \<le> ce + e + 64 \<and> ce + e + 64 \<le> kGamma \<and>
    2 ^ 63 \<le> unat c \<and> \<bar>10 powi k - of_nat (unat c) * 2 powi ce\<bar> \<le> (2 powi ce / 2 :: rat)"
proof -
  obtain c ce k where c: "get_cached_power_for_binary_exponent e = Some (c, ce, k)" "- 60 \<le> ce + e + 64" "ce + e + 64 \<le> - 32"
    "2 ^ 63 \<le> unat c" "\<bar>scaled_power k ce - of_nat (unat c)\<bar> \<le> 1 / 2"
    by (rule cached_power_found[OF assms])
  have "\<bar>scaled_power k ce - of_nat (unat c)\<bar> * 2 powi ce \<le> 1 / 2 * 2 powi ce" using c(5) by (rule mult_right_mono) simp
  also have "\<bar>scaled_power k ce - of_nat (unat c)\<bar> * 2 powi ce = \<bar>(scaled_power k ce - of_nat (unat c)) * 2 powi ce\<bar>"
    by (simp add: abs_mult)
  also have "(scaled_power k ce - of_nat (unat c)) * 2 powi ce = 10 powi k - of_nat (unat c) * 2 powi ce"
    by (simp add: scaled_power_def left_diff_distrib)
  finally show ?thesis using c(1-4) by (auto simp: kAlpha_def kGamma_def)
qed

theorem cached_power_rounded_witness:
  "\<exists>c ce k. get_cached_power_for_binary_exponent (- 63) = Some (c, ce, k) \<and> kAlpha \<le> ce + - 63 + 64 \<and> ce + - 63 + 64 \<le> kGamma \<and>
    2 ^ 63 \<le> unat c \<and> \<bar>10 powi k - of_nat (unat c) * 2 powi ce\<bar> \<le> (2 powi ce / 2 :: rat)"
  by (rule cached_power_rounded) simp_all

end
