(* ===== verification/GrisuDigits.thy ===== *)
theory GrisuDigits imports GrisuFacts begin

section \<open>The digits of the printer\<close>

text \<open>
  What digit generation returns is a number within the boundaries; no assertion fails on the way, no
  word wraps around and there are at most 17 digits.
\<close>

lemma unat_less_64: "unat (x :: u64) < 2 ^ 64"
  using unsigned_less[of x] by simp

lemma unat_up: "unat (ucast (x :: u32) :: u64) = unat x"
proof -
  have "unat (ucast x :: u64) = take_bit LENGTH(64) (unat x)" by (rule unsigned_ucast_eq)
  also have "\<dots> = unat x" using unsigned_less[of x, where 'a = nat] by (intro take_bit_nat_eq_self) simp
  finally show ?thesis .
qed

lemma unat_down: "unat (x :: u64) < 2 ^ 32 \<Longrightarrow> unat (ucast x :: u32) = unat x"
proof -
  assume "unat x < 2 ^ 32"
  moreover have "unat (ucast x :: u32) = take_bit LENGTH(32) (unat x)" by (rule unsigned_ucast_eq)
  ultimately show ?thesis by (simp add: take_bit_nat_eq_self)
qed

subsection \<open>The buffer holds a number\<close>

lemma show_nat_snoc: "0 < D \<Longrightarrow> d < 10 \<Longrightarrow> show_nat D @ [digit_char d] = show_nat (10 * D + d)"
  by (subst (2) show_nat.simps) simp

lemma show_nat_length: "D < 10 ^ j \<Longrightarrow> 0 < j \<Longrightarrow> length (show_nat D) \<le> j"
proof (induction j arbitrary: D)
  case (Suc j)
  show ?case
  proof (cases "D < 10")
    case True
    then show ?thesis by (subst show_nat.simps) simp
  next
    case False
    then have "0 < j" using Suc.prems by (cases j) simp_all
    moreover have "D div 10 < 10 ^ j" using Suc.prems by (simp add: less_mult_imp_div_less)
    ultimately have "length (show_nat (D div 10)) \<le> j" by (intro Suc.IH)
    then show ?thesis using False by (subst show_nat.simps) simp
  qed
qed simp

lemma put_digit_first: "d < 10 \<Longrightarrow> put_digit d [] = Some (show_nat d)"
  by (subst show_nat.simps) (simp add: put_digit_def)

lemma put_digit_next:
  assumes "0 < D" "d < 10" "D < 10 ^ 17"
  shows "put_digit d (show_nat D) = Some (show_nat (10 * D + d))"
  using show_nat_length[OF assms(3)] assms(2) show_nat_snoc[OF assms(1,2)] by (simp add: put_digit_def)

lemma show_nat_last: "last (show_nat D) = digit_char (D mod 10)"
  by (subst show_nat.simps) simp

lemma show_nat_parts: "show_nat D = (if D < 10 then [] else show_nat (D div 10)) @ [digit_char (D mod 10)]"
  using show_nat.simps[of D] by (cases "D < 10") simp_all

lemma less_one_digits:
  assumes "D mod 10 \<noteq> 0"
  shows "(D - 1) mod 10 = D mod 10 - 1" "(D - 1) div 10 = D div (10 :: nat)"
proof -
  obtain r where r: "D mod 10 = Suc r" using assms by (cases "D mod 10") simp_all
  then have "r < 10" using mod_less_divisor[of 10 D] by linarith
  moreover have "D - 1 = r + 10 * (D div 10)" using mult_div_mod_eq[of 10 D] r by linarith
  ultimately show "(D - 1) mod 10 = D mod 10 - 1" "(D - 1) div 10 = D div (10 :: nat)"
    using r by simp_all
qed

lemma show_nat_less_one:
  assumes "D mod 10 \<noteq> 0"
  shows "butlast (show_nat D) @ [char_of (of_char (last (show_nat D)) - 1 :: nat)] = show_nat (D - 1)"
proof -
  note m = less_one_digits[OF assms]
  have "(of_char (digit_char (D mod 10)) - 1 :: nat) = 48 + (D mod 10 - 1)"
    using assms by (simp add: digit_char_def)
  then have c: "char_of (of_char (last (show_nat D)) - 1 :: nat) = digit_char ((D - 1) mod 10)"
    unfolding show_nat_last m by (simp only: digit_char_def)
  have "(E < 10) = (E div 10 = 0)" for E :: nat by (simp add: div_eq_0_iff)
  then have "D < 10 \<longleftrightarrow> D - 1 < 10" by (simp only: m)
  then have "show_nat (D - 1) = (if D < 10 then [] else show_nat (D div 10)) @ [digit_char ((D - 1) mod 10)]"
    using show_nat_parts[of "D - 1"] by (simp only: m)
  moreover have "butlast (show_nat D) = (if D < 10 then [] else show_nat (D div 10))"
    by (subst show_nat_parts) (rule butlast_snoc)
  ultimately show ?thesis by (simp only: c)
qed

lemma digit_char_zero: "d < 10 \<Longrightarrow> digit_char d = CHR ''0'' \<longleftrightarrow> d = 0"
proof -
  assume d: "d < 10"
  have "digit_char 0 = CHR ''0''" by code_simp
  moreover have "d = 0" if "digit_char d = CHR ''0''"
    using digit_char[OF d] that by (simp add: digit_val_def)
  ultimately show ?thesis by blast
qed

subsection \<open>The last digit\<close>

lemma round_loop_spec:
  assumes "unat rest \<le> unat delta" "unat delta < (D mod 10) * unat tk + unat rest" "0 < unat tk"
  shows "\<exists>i. round_loop (show_nat D) distance delta rest tk = Some (show_nat (D - i)) \<and> i < D \<and>
    unat rest + i * unat tk \<le> unat delta"
  using assms(1,2)
proof (induction D arbitrary: rest rule: less_induct)
  case (less D)
  have D: "D mod 10 \<noteq> 0" "0 < D" using less.prems by (auto intro!: gr0I)
  show ?case
  proof (cases "rest < distance \<and> tk \<le> delta - rest \<and> (rest + tk < distance \<or> rest + tk - distance < distance - rest)")
    case False
    then show ?thesis using less.prems D by (subst round_loop.simps) (auto intro!: exI[of _ 0])
  next
    case True
    then have "unat tk \<le> unat delta - unat rest"
      using less.prems(1) by (simp add: word_le_nat_alt unat_sub_small)
    then have le: "unat rest + unat tk \<le> unat delta" using less.prems(1) by linarith
    then have s: "unat (rest + tk) = unat rest + unat tk"
      using unat_less_64[of delta] by (intro unat_add_small) linarith
    note m = less_one_digits(1)[OF D(1)]
    have "(D mod 10 - 1) * unat tk + unat tk = D mod 10 * unat tk" using D(1) by (simp add: mult_eq_if)
    then have "unat delta < (D - 1) mod 10 * unat tk + unat (rest + tk)" using less.prems(2) unfolding m s by linarith
    then obtain i where i: "round_loop (show_nat (D - 1)) distance delta (rest + tk) tk = Some (show_nat (D - 1 - i))" "i < D - 1"
      "unat (rest + tk) + i * unat tk \<le> unat delta"
      using less.IH[of "D - 1" "rest + tk"] D(2) le s by auto
    have "last (show_nat D) \<noteq> CHR ''0''" unfolding show_nat_last using D(1) by (simp add: digit_char_zero)
    then have "round_loop (show_nat D) distance delta rest tk =
        round_loop (butlast (show_nat D) @ [char_of (of_char (last (show_nat D)) - 1 :: nat)]) distance delta (rest + tk) tk"
      using round_loop.simps[of "show_nat D" distance delta rest tk, unfolded if_P[OF True]] by (simp only: if_False)
    then have "round_loop (show_nat D) distance delta rest tk = Some (show_nat (D - 1 - i))"
      by (simp only: show_nat_less_one[OF D(1)] i(1))
    then show ?thesis using i(2,3) s by (intro exI[of _ "i + 1"]) simp
  qed
qed

lemma grisu2_round_spec:
  assumes "unat distance \<le> unat delta" "unat rest \<le> unat delta" "unat delta < (D mod 10) * unat tk + unat rest" "0 < unat tk"
    "D * unat tk + unat rest = X"
  obtains D' r where "grisu2_round (show_nat D) distance delta rest tk = Some (show_nat D')" "0 < D'" "D' \<le> D"
    "D' * unat tk + r = X" "r \<le> unat delta"
proof -
  obtain i where i: "round_loop (show_nat D) distance delta rest tk = Some (show_nat (D - i))" "i < D"
    "unat rest + i * unat tk \<le> unat delta"
    using round_loop_spec[OF assms(2-4)] by blast
  have "grisu2_round (show_nat D) distance delta rest tk = Some (show_nat (D - i))"
    using assms i(1) by (simp add: grisu2_round_def word_le_nat_alt word_less_nat_alt)
  moreover have "(D - i) * unat tk + (unat rest + i * unat tk) = X"
    using assms(5) i(2) by (simp add: diff_mult_distrib)
  ultimately show thesis using that[of "D - i" "unat rest + i * unat tk"] i(2,3) by simp
qed

subsection \<open>The integral part\<close>

lemma find_largest_pow10_spec:
  assumes "p1 \<noteq> 0"
  obtains n pow10 where "find_largest_pow10 p1 = (Suc n, pow10)" "unat pow10 = 10 ^ n" "10 ^ n \<le> unat p1" "unat p1 < 10 ^ Suc n" "n \<le> 9"
proof -
  have b: "unat p1 < 2 ^ 32" "0 < unat p1" using unsigned_less[of p1] assms by (simp_all add: unat_gt_0)
  show thesis
    by (rule that[of "if 1000000000 \<le> unat p1 then 9 else if 100000000 \<le> unat p1 then 8 else if 10000000 \<le> unat p1 then 7
        else if 1000000 \<le> unat p1 then 6 else if 100000 \<le> unat p1 then 5 else if 10000 \<le> unat p1 then 4
        else if 1000 \<le> unat p1 then 3 else if 100 \<le> unat p1 then 2 else if 10 \<le> unat p1 then 1 else 0"
        "snd (find_largest_pow10 p1)"])
      (use b in \<open>simp_all add: find_largest_pow10_def word_le_nat_alt\<close>)
qed

text \<open>The digits written, the ones to come and the fraction are the number.\<close>

lemma integral_digits_spec:
  assumes "unat distance \<le> unat delta" "0 < unat delta" "D * 10 ^ n * 2 ^ s + unat p1 * 2 ^ s + unat p2 = X" "X < 2 ^ 64" "32 \<le> s"
    "unat p1 < 10 ^ n" "unat delta < unat p1 * 2 ^ s + unat p2"
    "0 < n \<Longrightarrow> unat pow10 = 10 ^ (n - 1)" "D = 0 \<Longrightarrow> 0 < n \<and> 10 ^ (n - 1) \<le> unat p1"
  shows "(\<exists>D' m r. integral_digits n p1 pow10 p2 s delta distance (if D = 0 then [] else show_nat D) = Some (Inl (show_nat D', m)) \<and>
      0 < D' \<and> D' * 10 ^ m * 2 ^ s + r = X \<and> r \<le> unat delta) \<or>
    (\<exists>D'. integral_digits n p1 pow10 p2 s delta distance (if D = 0 then [] else show_nat D) = Some (Inr (show_nat D')) \<and>
      0 < D' \<and> D' * 2 ^ s + unat p2 = X \<and> unat delta < unat p2)"
  using assms(3-)
proof (induction n arbitrary: D p1 pow10)
  case 0
  then show ?case by (intro disjI2 exI[of _ D]) auto
next
  case (Suc n)
  let ?buf = "if D = 0 then [] else show_nat D"
  define d r where "d = unat (p1 div pow10)" and "r = p1 mod pow10"
  have pow: "unat pow10 = 10 ^ n" using Suc.prems(6) by simp
  have dr: "d = unat p1 div 10 ^ n" "unat r = unat p1 mod 10 ^ n" by (simp_all add: d_def r_def unat_div unat_mod pow)
  have p1: "unat p1 = d * 10 ^ n + unat r" unfolding dr by (rule div_mult_mod_eq[symmetric])
  have d: "d < 10" using Suc.prems(4) by (simp add: dr less_mult_imp_div_less)
  have r: "unat r < 10 ^ n" by (simp add: dr)
  define D' where "D' = 10 * D + d"
  have X: "D' * 10 ^ n * 2 ^ s + (unat r * 2 ^ s + unat p2) = X"
    using Suc.prems(1) unfolding p1 D'_def by (simp add: algebra_simps)
  have D': "0 < D'"
  proof (cases "D = 0")
    case True
    then have "1 \<le> d" using Suc.prems(7) div_le_mono[of "10 ^ n" "unat p1" "10 ^ n"] by (simp add: dr)
    then show ?thesis by (simp add: D'_def)
  qed (simp add: D'_def)
  have small: "D < 10 ^ 17"
  proof -
    have "D * 2 ^ s * 1 \<le> D * 2 ^ s * 10 ^ Suc n" by (intro mult_le_mono2) simp
    also have "\<dots> \<le> X" unfolding Suc.prems(1)[symmetric] by (simp add: ac_simps)
    finally have "D * 2 ^ s \<le> X" by simp
    then have "D * 2 ^ 32 \<le> X" using power_increasing[OF Suc.prems(3), of "2 :: nat"] mult_le_mono2[of "2 ^ 32" "2 ^ s" D] by linarith
    then show ?thesis using Suc.prems(2) by simp
  qed
  have put: "put_digit d ?buf = Some (show_nat D')"
    using put_digit_first[OF d] put_digit_next[OF _ d small] by (cases "D = 0") (simp_all add: D'_def)
  have le: "10 ^ n * 2 ^ s \<le> X" "unat r * 2 ^ s + unat p2 \<le> X"
    using X D' by (auto intro: trans_le_add1)
  define rest where "rest = push_bit s (ucast r :: u64) + p2"
  have ru: "unat (ucast r :: u64) = unat r" "unat (ucast pow10 :: u64) = unat pow10" by (rule unat_up)+
  have rest: "unat rest = unat r * 2 ^ s + unat p2"
    unfolding rest_def using le(2) Suc.prems(2) ru(1)
    by (subst unat_add_small; (subst unat_push_bit_small)?; simp)
  have tk: "unat (push_bit s (ucast pow10 :: u64)) = 10 ^ n * 2 ^ s"
    using le(1) Suc.prems(2) ru(2) pow by (subst unat_push_bit_small) simp_all
  have step: "integral_digits (Suc n) p1 pow10 p2 s delta distance ?buf =
      (if rest \<le> delta
       then do { buf \<leftarrow> grisu2_round (show_nat D') distance delta rest (push_bit s (ucast pow10)); Some (Inl (buf, n)) }
       else integral_digits n r (pow10 div 10) p2 s delta distance (show_nat D'))"
    using put by (simp add: d_def r_def rest_def del: push_bit_eq_mult)
  show ?case
  proof (cases "rest \<le> delta")
    case True
    obtain D'' r' where "grisu2_round (show_nat D') distance delta rest (push_bit s (ucast pow10)) = Some (show_nat D'')"
      "0 < D''" "D'' * (10 ^ n * 2 ^ s) + r' = X" "r' \<le> unat delta"
    proof (rule grisu2_round_spec[of distance delta rest D' "push_bit s (ucast pow10)" X])
      have "D' mod 10 = d" using d by (simp add: D'_def)
      then show "unat delta < D' mod 10 * unat (push_bit s (ucast pow10 :: u64)) + unat rest"
        using Suc.prems(5) unfolding tk rest p1 by (simp add: algebra_simps)
    qed (use True X tk rest assms(1) that in \<open>simp_all add: word_le_nat_alt mult.assoc\<close>)
    then show ?thesis unfolding step if_P[OF True] by (intro disjI1) (auto simp: mult.assoc)
  next
    case False
    have "(\<exists>E m q. integral_digits n r (pow10 div 10) p2 s delta distance (if D' = 0 then [] else show_nat D') = Some (Inl (show_nat E, m)) \<and>
        0 < E \<and> E * 10 ^ m * 2 ^ s + q = X \<and> q \<le> unat delta) \<or>
      (\<exists>E. integral_digits n r (pow10 div 10) p2 s delta distance (if D' = 0 then [] else show_nat D') = Some (Inr (show_nat E)) \<and>
        0 < E \<and> E * 2 ^ s + unat p2 = X \<and> unat delta < unat p2)"
    proof (rule Suc.IH)
      show "unat (pow10 div 10) = 10 ^ (n - 1)" if "0 < n" using that pow by (cases n) (simp_all add: unat_div)
    qed (use X Suc.prems(2,3) r D' False rest in \<open>simp_all add: word_le_nat_alt add.assoc\<close>)
    then show ?thesis unfolding step if_not_P[OF False] using D' by simp
  qed
qed

subsection \<open>The fraction\<close>

lemma tenth_max: "p < 2 ^ 60 \<Longrightarrow> unat (p2 :: u64) = p \<Longrightarrow> \<not> (- 1) div 10 < p2"
  by (simp add: word_less_nat_alt unat_div)

lemma unat_times_ten: "unat (x :: u64) < 2 ^ 60 \<Longrightarrow> unat (x * 10) = unat x * 10"
  by (subst unat_mult_small) simp_all

lemma fractional_digits_spec:
  assumes "unat distance \<le> unat delta" "0 < unat delta" "s \<le> 60" "one = push_bit s 1"
    "D * 2 ^ s + unat p2 = X" "X < unat delta * 10 ^ 16" "0 < D" "unat delta < unat p2" "unat p2 < 2 ^ s"
  shows "\<exists>D' j r. fractional_digits p2 one s delta distance m (show_nat D) = Some (show_nat D', m + j) \<and>
    0 < D' \<and> D' < 10 ^ 17 \<and> D' * 2 ^ s + r = X * 10 ^ j \<and> r \<le> unat delta * 10 ^ j"
  using assms(1,2,5-)
proof (induction "2 ^ s - unat delta" arbitrary: distance delta D p2 X m rule: less_induct)
  case less
  note distance = less.prems(1) and X = less.prems(3,4) and pos = less.prems(2,5) and p2 = less.prems(6,7)
  have one: "unat one = 2 ^ s" "one - 1 = mask s"
  proof -
    have "(2 :: nat) ^ s < 2 ^ 64" using assms(3) by (intro power_strict_increasing) simp_all
    then show "unat one = 2 ^ s" unfolding assms(4) by (subst unat_push_bit_small) simp_all
    show "one - 1 = mask s" unfolding assms(4) by (simp add: mask_eq_exp_minus_1 push_bit_eq_mult)
  qed
  have s60: "(2 :: nat) ^ s \<le> 2 ^ 60" using assms(3) by (intro power_increasing) simp_all
  have ten: "unat (p2 * 10) = unat p2 * 10" "unat (delta * 10) = unat delta * 10" "unat (distance * 10) = unat distance * 10"
    using p2 distance s60 by (auto intro!: unat_times_ten)
  define d r where "d = unat (drop_bit s (p2 * 10))" and "r = (p2 * 10) AND (one - 1)"
  have dr: "d = unat p2 * 10 div 2 ^ s" "unat r = unat p2 * 10 mod 2 ^ s"
    by (simp_all only: d_def r_def one(2) unat_drop_bit unat_low_bits ten)
  have sum: "unat p2 * 10 = d * 2 ^ s + unat r" unfolding dr by (rule div_mult_mod_eq[symmetric])
  have d: "d < 10" using p2(2) by (simp add: dr less_mult_imp_div_less)
  have r: "unat r < 2 ^ s" by (simp add: dr)
  define D' where "D' = 10 * D + d"
  have X': "D' * 2 ^ s + unat r = X * 10" using X(1) sum by (simp add: D'_def algebra_simps)
  have "D * 2 ^ s < 2 ^ s * 10 ^ 16"
  proof -
    have "unat delta * 10 ^ 16 \<le> 2 ^ s * 10 ^ 16" using p2 by (intro mult_le_mono1) simp
    then show ?thesis using X by linarith
  qed
  then have D: "D < 10 ^ 16" by (simp add: mult.commute)
  then have D': "0 < D'" "D' < 10 ^ 17" using pos d by (simp_all add: D'_def)
  have put: "put_digit d (show_nat D) = Some (show_nat D')"
    unfolding D'_def by (rule put_digit_next) (use pos d D in simp_all)
  have step: "fractional_digits p2 one s delta distance m (show_nat D) =
      (if r \<le> delta * 10
       then do { buf \<leftarrow> grisu2_round (show_nat D') (distance * 10) (delta * 10) r one; Some (buf, m + 1) }
       else fractional_digits r one s (delta * 10) (distance * 10) (m + 1) (show_nat D'))"
    using put tenth_max[of "unat p2" p2] p2(2) s60 by (subst fractional_digits.simps) (simp add: d_def r_def Let_def)
  show ?case
  proof (cases "r \<le> delta * 10")
    case True
    obtain E q where E: "grisu2_round (show_nat D') (distance * 10) (delta * 10) r one = Some (show_nat E)" "0 < E" "E \<le> D'"
      "E * 2 ^ s + q = X * 10" "q \<le> unat delta * 10"
    proof (rule grisu2_round_spec[of "distance * 10" "delta * 10" r D' one "X * 10"])
      have "D' mod 10 = d" using d by (simp add: D'_def)
      then show "unat (delta * 10) < D' mod 10 * unat one + unat r" using p2(1) sum unfolding one ten by simp
    qed (use True X' distance that in \<open>simp_all add: word_le_nat_alt one ten\<close>)
    then show ?thesis unfolding step if_P[OF True] using D'(2) by (intro exI[of _ E] exI[of _ 1] exI[of _ q]) simp
  next
    case False
    then have gt: "unat (delta * 10) < unat r" by (simp add: word_le_nat_alt)
    have "\<exists>E j q. fractional_digits r one s (delta * 10) (distance * 10) (m + 1) (show_nat D') = Some (show_nat E, m + 1 + j) \<and>
      0 < E \<and> E < 10 ^ 17 \<and> E * 2 ^ s + q = X * 10 * 10 ^ j \<and> q \<le> unat (delta * 10) * 10 ^ j"
    proof (rule less.hyps)
      show "2 ^ s - unat (delta * 10) < 2 ^ s - unat delta" using gt r pos(1) by (simp add: ten)
    qed (use gt r X' X(2) D' distance pos in \<open>simp_all add: ten\<close>)
    then obtain E j q where E: "fractional_digits r one s (delta * 10) (distance * 10) (m + 1) (show_nat D') = Some (show_nat E, m + 1 + j)"
      "0 < E" "E < 10 ^ 17" "E * 2 ^ s + q = X * 10 * 10 ^ j" "q \<le> unat (delta * 10) * 10 ^ j" by blast
    show ?thesis
      unfolding step if_not_P[OF False]
      by (intro exI[of _ E] exI[of _ "j + 1"] exI[of _ q]) (use E ten in \<open>simp add: algebra_simps\<close>)
  qed
qed

subsection \<open>All digits\<close>

lemma grisu2_digit_gen_spec:
  assumes "- 60 \<le> a" "a \<le> - 32" "unat lo \<le> unat w" "unat w \<le> unat hi" "0 < unat lo" "unat lo < unat hi"
    "unat hi < (unat hi - unat lo) * 10 ^ 16" "2 ^ nat (- a) \<le> unat hi"
  obtains D n where "grisu2_digit_gen k \<lparr>df = lo, de = a\<rparr> \<lparr>df = w, de = a\<rparr> \<lparr>df = hi, de = a\<rparr> = Some (show_nat D, k + n)"
    "0 < D" "D < 10 ^ 17" "of_nat (unat lo) \<le> (of_nat D * 10 powi n * 2 ^ nat (- a) :: rat)"
    "of_nat D * 10 powi n * 2 ^ nat (- a) \<le> (of_nat (unat hi) :: rat)"
proof -
  define s where "s = nat (- a)"
  have s: "32 \<le> s" "s \<le> 60" using assms(1,2) by (simp_all add: s_def)
  define one delta distance p1 p2 where "one = (push_bit s 1 :: u64)" and "delta = hi - lo" and "distance = hi - w"
    and "p1 = (ucast (drop_bit s hi) :: u32)" and "p2 = hi AND (one - 1)"
  have u: "unat delta = unat hi - unat lo" "unat distance = unat hi - unat w"
    using assms(3-6) by (simp_all add: delta_def distance_def unat_sub_small)
  have "one - 1 = mask s" by (simp add: one_def mask_eq_exp_minus_1 push_bit_eq_mult)
  then have p2: "unat p2 = unat hi mod 2 ^ s" by (simp only: p2_def unat_low_bits)
  have p1: "unat p1 = unat hi div 2 ^ s"
  proof -
    have "(2 :: nat) ^ 32 \<le> 2 ^ s" using s by (intro power_increasing) simp_all
    then have "unat hi < 2 ^ 32 * 2 ^ s" using unat_less_64[of hi] by simp
    then have "unat hi div 2 ^ s < 2 ^ 32" by (rule less_mult_imp_div_less)
    then show ?thesis unfolding p1_def by (subst unat_down) (simp_all only: unat_drop_bit)
  qed
  have X: "unat p1 * 2 ^ s + unat p2 = unat hi" by (simp only: p1 p2 div_mult_mod_eq)
  have "unat p1 \<noteq> 0" using assms(8) unfolding p1 s_def[symmetric] by (simp add: div_eq_0_iff not_less)
  then have p1_0: "p1 \<noteq> 0" by auto
  obtain j pow10 where j: "find_largest_pow10 p1 = (Suc j, pow10)" "unat pow10 = 10 ^ j" "10 ^ j \<le> unat p1" "unat p1 < 10 ^ Suc j"
    by (rule find_largest_pow10_spec[OF p1_0])
  have two: "2 powi a = (1 / 2 ^ s :: rat)" using s by (simp add: s_def power_int_def power_one_over inverse_eq_divide)
  have hi: "unat hi < 2 ^ 64" by (rule unat_less_64)
  have sub: "diyfp_sub \<lparr>df = hi, de = a\<rparr> \<lparr>df = lo, de = a\<rparr> = Some \<lparr>df = delta, de = a\<rparr>"
    "diyfp_sub \<lparr>df = hi, de = a\<rparr> \<lparr>df = w, de = a\<rparr> = Some \<lparr>df = distance, de = a\<rparr>"
    using assms(3-6) by (simp_all add: diyfp_sub_def delta_def distance_def word_le_nat_alt)
  have gen: "grisu2_digit_gen k \<lparr>df = lo, de = a\<rparr> \<lparr>df = w, de = a\<rparr> \<lparr>df = hi, de = a\<rparr> =
      (case integral_digits (Suc j) p1 pow10 p2 s delta distance [] of None \<Rightarrow> None
       | Some (Inl (buf, n)) \<Rightarrow> Some (buf, k + int n)
       | Some (Inr buf) \<Rightarrow> if \<not> delta < p2 then None
           else map_option (\<lambda>(buf, m). (buf, k - int m)) (fractional_digits p2 one s delta distance 0 buf))"
    using assms(1,2) p1_0 sub j(1) unfolding grisu2_digit_gen_def one_def p1_def p2_def s_def
    by (simp add: kAlpha_def kGamma_def Let_def del: integral_digits.simps split: option.split sum.split)
  have "(\<exists>D' m r. integral_digits (Suc j) p1 pow10 p2 s delta distance [] = Some (Inl (show_nat D', m)) \<and>
      0 < D' \<and> D' * 10 ^ m * 2 ^ s + r = unat hi \<and> r \<le> unat delta) \<or>
    (\<exists>D'. integral_digits (Suc j) p1 pow10 p2 s delta distance [] = Some (Inr (show_nat D')) \<and>
      0 < D' \<and> D' * 2 ^ s + unat p2 = unat hi \<and> unat delta < unat p2)"
    using integral_digits_spec[of distance delta 0 "Suc j" s p1 p2 "unat hi" pow10] assms(3-6) u X hi s j(2-) by simp
  then consider (inl) D m r where "integral_digits (Suc j) p1 pow10 p2 s delta distance [] = Some (Inl (show_nat D, m))"
      "0 < D" "D * 10 ^ m * 2 ^ s + r = unat hi" "r \<le> unat delta"
    | (inr) D where "integral_digits (Suc j) p1 pow10 p2 s delta distance [] = Some (Inr (show_nat D))"
      "0 < D" "D * 2 ^ s + unat p2 = unat hi" "unat delta < unat p2"
    by blast
  then show thesis
  proof cases
    case inl
    have le: "D * 10 ^ m * 2 ^ s \<le> unat hi" "unat lo \<le> D * 10 ^ m * 2 ^ s" using inl(3,4) u assms(6) by linarith+
    have "D * 2 ^ 32 \<le> D * 10 ^ m * 2 ^ s" using power_increasing[OF s(1), of "2 :: nat"] by (intro mult_le_mono) simp_all
    then have "D * 2 ^ 32 < 2 ^ 64" using le_less_trans[OF le_trans[OF _ le(1)] hi] by blast
    then have "D < 10 ^ 17" by simp
    moreover have "(of_nat (D * 10 ^ m * 2 ^ s) :: rat) \<le> of_nat (unat hi)" "(of_nat (unat lo) :: rat) \<le> of_nat (D * 10 ^ m * 2 ^ s)"
      using le by (simp_all only: of_nat_le_iff)
    ultimately show thesis
      using that[of D "int m"] inl(1,2) unfolding gen by (simp add: s_def[symmetric])
  next
    case inr
    have "\<exists>D' j r. fractional_digits p2 one s delta distance 0 (show_nat D) = Some (show_nat D', 0 + j) \<and>
      0 < D' \<and> D' < 10 ^ 17 \<and> D' * 2 ^ s + r = unat hi * 10 ^ j \<and> r \<le> unat delta * 10 ^ j"
      by (rule fractional_digits_spec) (use assms(3-7) u inr s p2 in \<open>simp_all add: one_def\<close>)
    then obtain E i q where E: "fractional_digits p2 one s delta distance 0 (show_nat D) = Some (show_nat E, i)"
      "0 < E" "E < 10 ^ 17" "E * 2 ^ s + q = unat hi * 10 ^ i" "q \<le> unat delta * 10 ^ i" by auto
    have "unat delta * 10 ^ i + unat lo * 10 ^ i = unat hi * 10 ^ i" using u(1) assms(6) by (simp flip: add_mult_distrib)
    then have le: "E * 2 ^ s \<le> unat hi * 10 ^ i" "unat lo * 10 ^ i \<le> E * 2 ^ s" using E(4,5) by linarith+
    have "(of_nat (E * 2 ^ s) :: rat) \<le> of_nat (unat hi * 10 ^ i)" "(of_nat (unat lo * 10 ^ i) :: rat) \<le> of_nat (E * 2 ^ s)"
      using le by (simp_all only: of_nat_le_iff)
    then have "(of_nat E * 10 powi - int i * 2 ^ s :: rat) \<le> of_nat (unat hi)" "of_nat (unat lo) \<le> (of_nat E * 10 powi - int i * 2 ^ s :: rat)"
      by (simp_all add: power_int_minus field_simps)
    then show thesis
      using that[of E "- int i"] E(1-3) inr(1,4) unfolding gen by (simp add: s_def[symmetric] word_less_nat_alt)
  qed
qed

end
