(* ===== verification/GrisuBounds.thy ===== *)
theory GrisuBounds imports GrisuDigits begin

section \<open>The boundaries of a number\<close>

text \<open>
  A positive double is an integer of at most 53 bits times a power of two; what lies strictly between
  the midpoints to its neighbours is rounded to it.  The printer computes these midpoints exactly and
  scales them with an error below one unit, so the decimal it finds lies between them.
\<close>

subsection \<open>Significand and exponent\<close>

definition significand_exponent :: "rat \<Rightarrow> int \<Rightarrow> int \<Rightarrow> bool" where
  "significand_exponent x f e \<longleftrightarrow>
     x = of_int f * 2 powi e \<and> 0 < f \<and> f < 2 ^ 53 \<and> - 1074 \<le> e \<and> e \<le> 971 \<and> (2 ^ 52 \<le> f \<or> e = - 1074)"

lemma ilog2_eq: "2 powi k \<le> x \<Longrightarrow> x < 2 powi (k + 1) \<Longrightarrow> ilog2 x = k"
proof -
  assume k: "2 powi k \<le> x" "x < 2 powi (k + 1)"
  then have "0 < x" using powi2_pos[of k] by linarith
  note b = ilog2_bounds[OF this]
  have "(2 :: rat) powi k < 2 powi (ilog2 x + 1)" "(2 :: rat) powi ilog2 x < 2 powi (k + 1)" using b k by linarith+
  then show ?thesis by (simp add: powi2_less_iff)
qed

lemma significand_found:
  assumes "0 < x" "exact64 x"
  defines "e \<equiv> max (ilog2 x) (- 1022) - 52"
  shows "significand_exponent x \<lfloor>x / 2 powi e\<rfloor> e"
proof -
  obtain m d where m: "x = of_int m * 2 powi d" "\<bar>m\<bar> < 2 ^ 53" "- 1074 \<le> d"
    using assms(2) by (auto simp: exact64_def representable_def)
  have x: "2 powi ilog2 x \<le> x" "x < 2 powi (ilog2 x + 1)" by (rule ilog2_bounds[OF assms(1)])+
  have "x < 2 powi 1024" using assms(1,2) by (simp add: exact64_def)
  then have top: "ilog2 x < 1024" by (rule ilog2_less[OF assms(1)])
  have le: "e \<le> d"
  proof (cases "ilog2 x \<le> - 1022")
    case False
    have "0 < m" using zero_less_mult_pos2[of "of_int m" "2 powi d :: rat"] assms(1) m(1) by simp
    then have "(of_int m :: rat) < of_int (2 ^ 53)" using m(2) by (simp only: of_int_less_iff)
    then have "x < 2 powi 53 * 2 powi d" unfolding m(1) by (intro mult_strict_right_mono) simp_all
    then have "(2 :: rat) powi ilog2 x < 2 powi (53 + d)" using x(1) by (simp add: power_int_add)
    then show ?thesis using False by (simp add: powi2_less_iff e_def)
  qed (use m(3) in \<open>simp add: e_def\<close>)
  define f where "f = m * 2 ^ nat (d - e)"
  have f: "x = of_int f * 2 powi e" unfolding f_def m(1) by (rule powi2_rescale[OF le])
  then have fl: "\<lfloor>x / 2 powi e\<rfloor> = f" by simp
  have "0 < f" using zero_less_mult_pos2[of "of_int f" "2 powi e :: rat"] assms(1) unfolding f by simp
  moreover have "(2 :: rat) powi (ilog2 x + 1) \<le> 2 powi (53 + e)" by (rule powi2_mono) (simp add: e_def)
  then have "x < 2 powi (53 + e)" using x(2) by linarith
  then have "of_int f * 2 powi e < 2 powi 53 * (2 :: rat) powi e" unfolding f by (simp add: power_int_add)
  then have "(of_int f :: rat) < of_int (2 ^ 53)" by simp
  then have "f < 2 ^ 53" by (simp only: of_int_less_iff)
  moreover have "2 ^ 52 \<le> f" if "e \<noteq> - 1074"
  proof -
    have "ilog2 x = 52 + e" using that by (simp add: e_def)
    then have "2 powi 52 * 2 powi e \<le> of_int f * (2 :: rat) powi e" using x(1) f by (simp add: power_int_add)
    then have "(of_int (2 ^ 52) :: rat) \<le> of_int f" by simp
    then show ?thesis by (simp only: of_int_le_iff)
  qed
  moreover have "- 1074 \<le> e" "e \<le> 971" using top by (simp_all add: e_def)
  ultimately show ?thesis unfolding significand_exponent_def fl using f by blast
qed

text \<open>The encoding of a double and what is taken out of it.\<close>

lemma unat_of_int: "0 \<le> n \<Longrightarrow> n < 2 ^ 64 \<Longrightarrow> unat (word_of_int n :: u64) = nat n"
  by (simp add: unsigned_of_int take_bit_int_eq_self)

definition closer :: "int \<Rightarrow> int \<Rightarrow> bool" where
  "closer f e \<longleftrightarrow> f = 2 ^ 52 \<and> - 1074 < e"

lemma decoded:
  assumes "0 < x" "exact64 x"
  obtains f e v where "significand_exponent x f e" "decode_bits (reinterpret_bits x) = (\<lparr>df = v, de = e\<rparr>, closer f e)" "uint v = f"
proof -
  define e where "e = max (ilog2 x) (- 1022) - 52"
  define f where "f = \<lfloor>x / 2 powi e\<rfloor>"
  have se: "significand_exponent x f e" unfolding f_def e_def by (rule significand_found[OF assms])
  then have f: "0 < f" "f < 2 ^ 53" "- 1074 \<le> e" "e \<le> 971" "2 ^ 52 \<le> f \<or> e = - 1074" by (simp_all add: significand_exponent_def)
  define b where "b = (if f < 2 ^ 52 then f else (e + 1075) * 2 ^ 52 + (f - 2 ^ 52))"
  have bits: "reinterpret_bits x = word_of_int b"
    by (simp add: reinterpret_bits_def Let_def b_def f_def e_def)
  have b: "0 \<le> b" "b < 2 ^ 64" using f by (simp_all add: b_def)
  define E F where "E = drop_bit 52 (word_of_int b :: u64)" and "F = (word_of_int b :: u64) AND mask 52"
  have E: "uint E = b div 2 ^ 52" "uint F = b mod 2 ^ 52"
    using b unat_drop_bit[of 52 "word_of_int b"] unat_low_bits[of "word_of_int b" 52]
    by (simp_all add: E_def F_def unat_of_int uint_nat nat_div_distrib nat_mod_distrib zmod_int zdiv_int)
  have dec: "decode_bits (reinterpret_bits x) =
      (if E = 0 then \<lparr>df = F, de = - 1074\<rparr> else \<lparr>df = F + 2 ^ 52, de = uint E - 1075\<rparr>, F = 0 \<and> 1 < E)"
    by (simp add: decode_bits_def bits kHiddenBit_def kBias_def Let_def E_def F_def mask_eq_exp_minus_1)
  show thesis
  proof (cases "f < 2 ^ 52")
    case True
    then have "b div 2 ^ 52 = 0" "b mod 2 ^ 52 = f" using f(1) by (simp_all add: b_def)
    then have "E = 0" "uint F = f" using E by (simp_all add: uint_0_iff)
    moreover have "e = - 1074" using True f(5) by linarith
    ultimately show thesis using that[OF se, of F] dec True by (simp add: closer_def)
  next
    case False
    then have "b = (f - 2 ^ 52) + (e + 1075) * 2 ^ 52" "0 \<le> f - 2 ^ 52" "f - 2 ^ 52 < 2 ^ 52" using f(2) by (simp_all add: b_def)
    then have "b div 2 ^ 52 = e + 1075" "b mod 2 ^ 52 = f - 2 ^ 52"
      by (simp_all only: div_mult_self1 mod_mult_self1 mod_pos_pos_trivial div_pos_pos_trivial)
    then have EF: "uint E = e + 1075" "uint F = f - 2 ^ 52" using E by simp_all
    have "uint (F + 2 ^ 52) = f"
    proof -
      have F: "unat F = nat (f - 2 ^ 52)" unfolding EF(2)[symmetric] by (rule nat_uint_eq[symmetric])
      moreover have "unat (2 ^ 52 :: u64) = 2 ^ 52" by simp
      ultimately have "unat (F + 2 ^ 52) = nat (f - 2 ^ 52) + 2 ^ 52"
        using f(2) unat_add_small[of F "2 ^ 52"] by simp
      then have "int (unat (F + 2 ^ 52)) = f" using False by simp
      then show ?thesis by (simp only: uint_nat)
    qed
    moreover have "E \<noteq> 0" using EF(1) f(3) by auto
    moreover have "F = 0 \<longleftrightarrow> f = 2 ^ 52" using EF(2) by (simp add: uint_0_iff[symmetric])
    moreover have "1 < E \<longleftrightarrow> 1 < e + 1075" using EF(1) by (simp only: word_less_def uint_1)
    then have "1 < E \<longleftrightarrow> - 1074 < e" by linarith
    ultimately show thesis using that[OF se, of "F + 2 ^ 52"] dec EF(1) by (simp add: closer_def)
  qed
qed

subsection \<open>What is rounded to a number\<close>

definition lower_bound :: "int \<Rightarrow> int \<Rightarrow> rat" where
  "lower_bound f e = (if closer f e then (4 * of_int f - 1) * 2 powi (e - 2) else (2 * of_int f - 1) * 2 powi (e - 1))"

definition upper_bound :: "int \<Rightarrow> int \<Rightarrow> rat" where
  "upper_bound f e = (2 * of_int f + 1) * 2 powi (e - 1)"

lemma round_half_even_near: "\<bar>y - of_int n\<bar> < 1 / 2 \<Longrightarrow> round_half_even y = n"
proof -
  assume y: "\<bar>y - of_int n\<bar> < 1 / 2"
  show ?thesis
  proof (cases "of_int n \<le> y")
    case True
    then have "\<lfloor>y\<rfloor> = n" using y by (intro floor_unique) linarith+
    then show ?thesis using y True by (simp add: round_half_even_def Let_def)
  next
    case False
    then have "\<lfloor>y\<rfloor> = n - 1" using y by (intro floor_unique; simp only: of_int_diff of_int_1; linarith)
    then show ?thesis using y False by (simp add: round_half_even_def Let_def)
  qed
qed

lemma rnd_near:
  assumes "0 < y" "quantum 53 (- 1022) y = q" "\<bar>y / 2 powi q - of_int n\<bar> < 1 / 2"
  shows "rnd 53 (- 1022) y = of_int n * 2 powi q"
  using assms(1) by (simp add: rnd_def Let_def assms(2) round_half_even_near[OF assms(3)])

lemma scaled_near: "\<bar>y - of_int n * 2 powi q\<bar> < 2 powi q / 2 \<Longrightarrow> \<bar>y / 2 powi q - of_int n\<bar> < (1 / 2 :: rat)"
proof -
  assume "\<bar>y - of_int n * 2 powi q\<bar> < 2 powi q / 2"
  then have "\<bar>(y - of_int n * 2 powi q) / 2 powi q\<bar> < (1 / 2 :: rat)" by (simp add: abs_divide pos_divide_less_eq)
  then show ?thesis by (simp add: diff_divide_distrib)
qed

lemma between_bounds_rounded:
  assumes se: "significand_exponent x f e" and y: "lower_bound f e < y" "y < upper_bound f e"
  shows "r64 y = Fin x"
proof -
  have f: "x = of_int f * 2 powi e" "0 < f" "f < 2 ^ 53" "- 1074 \<le> e" "e \<le> 971" "2 ^ 52 \<le> f \<or> e = - 1074"
    using se by (simp_all add: significand_exponent_def)
  have half: "(2 :: rat) powi (e - 1) = 2 powi e / 2" "(2 :: rat) powi (e - 2) = 2 powi e / 4" by (simp_all add: power_int_diff)
  have fr: "(1 :: rat) \<le> of_int f" "(of_int f + 1 :: rat) \<le> 2 ^ 53"
  proof -
    have "(of_int 1 :: rat) \<le> of_int f" "(of_int (f + 1) :: rat) \<le> of_int (2 ^ 53)" using f(2,3) by (simp_all only: of_int_le_iff)
    then show "(1 :: rat) \<le> of_int f" "(of_int f + 1 :: rat) \<le> 2 ^ 53" by simp_all
  qed
  have up: "y < of_int f * 2 powi e + 2 powi e / 2" using y(2) by (simp add: upper_bound_def half algebra_simps)
  have "y < (of_int f + 1) * 2 powi e" using up powi2_pos[of e] unfolding distrib_right mult_1 by linarith
  also have "\<dots> \<le> 2 ^ 53 * 2 powi e" using fr(2) by (intro mult_right_mono) simp_all
  finally have top: "y < 2 powi (53 + e)" by (simp add: power_int_add)
  have R: "rnd 53 (- 1022) y = x"
  proof (cases "closer f e \<and> y < x")
    case True
    then have c: "f = 2 ^ 52" "- 1074 < e" by (simp_all add: closer_def)
    have x: "x = 2 powi (52 + e)" by (simp add: f(1) c(1) power_int_add)
    have lo: "x - 2 powi e / 4 < y" using y(1) True by (simp add: lower_bound_def half f(1) algebra_simps)
    have "(2 :: rat) powi (52 + e) = 4503599627370496 * 2 powi e" by (simp add: power_int_add)
    then have pos: "0 < y" using lo powi2_pos[of e] unfolding x by linarith
    have q: "quantum 53 (- 1022) y = e - 1"
    proof -
      have "2 powi (51 + e) = (2251799813685248 * 2 powi e :: rat)" "(2 :: rat) powi (52 + e) = 4503599627370496 * 2 powi e" by (simp_all add: power_int_add)
      then have "2 powi (51 + e) \<le> y" using lo powi2_pos[of e] unfolding x by linarith
      moreover have "y < 2 powi (51 + e + 1)" using True x by (simp add: add.commute)
      ultimately have "ilog2 y = 51 + e" by (rule ilog2_eq)
      moreover have "0 < y" by (rule pos)
      ultimately show ?thesis using c(2) by (simp add: quantum_def)
    qed
    have x': "x = of_int (2 ^ 53) * 2 powi (e - 1)" by (simp add: x half power_int_add)
    show ?thesis unfolding x'
    proof (rule rnd_near[OF pos q])
      show "\<bar>y / 2 powi (e - 1) - of_int (2 ^ 53)\<bar> < 1 / 2"
        using lo True unfolding x' by (intro scaled_near) (simp add: half abs_less_iff)
    qed
  next
    case False
    have lo: "of_int f * 2 powi e - 2 powi e / 2 < y"
    proof (cases "closer f e")
      case True
      then have "of_int f * 2 powi e \<le> y" using False f(1) by simp
      then show ?thesis using powi2_pos[of e] by linarith
    next
      case False
      then show ?thesis using y(1) by (simp add: lower_bound_def half algebra_simps)
    qed
    have pos: "0 < y"
    proof -
      have "1 * (2 :: rat) powi e \<le> of_int f * 2 powi e" using fr(1) by (intro mult_right_mono) simp_all
      then show ?thesis using lo powi2_pos[of e] by linarith
    qed
    have q: "quantum 53 (- 1022) y = e"
    proof (cases "e = - 1074")
      case True
      then have "ilog2 y < - 1021" using ilog2_less[OF pos top] by simp
      then show ?thesis using pos True by (simp add: quantum_def)
    next
      case e: False
      then have f52: "2 ^ 52 \<le> f" using f(6) by simp
      have p52: "(2 :: rat) powi (52 + e) = 4503599627370496 * 2 powi e" by (simp add: power_int_add)
      have "2 powi (52 + e) \<le> y"
      proof (cases "x \<le> y")
        case True
        have "(of_int (2 ^ 52) :: rat) \<le> of_int f" using f52 by (simp only: of_int_le_iff)
        then have "4503599627370496 * 2 powi e \<le> (of_int f * 2 powi e :: rat)" by (intro mult_right_mono) simp_all
        then show ?thesis using True f(1) unfolding p52 by linarith
      next
        case xy: False
        then have "f \<noteq> 2 ^ 52" using False e f(4) by (auto simp: closer_def)
        then have "2 ^ 52 + 1 \<le> f" using f52 by simp
        then have "(of_int (2 ^ 52 + 1) :: rat) \<le> of_int f" by (simp only: of_int_le_iff)
        then have "4503599627370497 * 2 powi e \<le> (of_int f * 2 powi e :: rat)" by (intro mult_right_mono) simp_all
        then show ?thesis using lo powi2_pos[of e] unfolding p52 by linarith
      qed
      moreover have "y < 2 powi (52 + e + 1)" using top by (simp add: algebra_simps)
      ultimately have "ilog2 y = 52 + e" by (rule ilog2_eq)
      then show ?thesis using pos e f(4) by (simp add: quantum_def)
    qed
    show ?thesis unfolding f(1)
      by (rule rnd_near[OF pos q], rule scaled_near, simp only: abs_less_iff) (use lo up in linarith)
  qed
  have "x < 2 powi 1024"
  proof -
    have "x < (of_int f + 1) * 2 powi e" unfolding f(1) by (simp add: mult_strict_right_mono)
    also have "\<dots> \<le> 2 ^ 53 * 2 powi e" using fr(2) by (intro mult_right_mono) simp_all
    also have "\<dots> = 2 powi (53 + e)" by (simp add: power_int_add)
    also have "\<dots> \<le> 2 powi 1024" using f(5) by (intro powi2_mono) simp
    finally show ?thesis .
  qed
  moreover have "0 < x" unfolding f(1) using f(2) by simp
  ultimately have "ilog2 x < 1024" by (intro ilog2_less)
  then show ?thesis using \<open>0 < x\<close> R by (simp add: r64_def fp_round_def Let_def)
qed

subsection \<open>The boundaries are exact\<close>

lemma normalize_spec:
  "unat f \<noteq> 0 \<Longrightarrow> \<exists>s f'. normalize f e = Some \<lparr>df = f', de = e - int s\<rparr> \<and> unat f' = unat f * 2 ^ s \<and> 2 ^ 63 \<le> unat f'"
proof (induction f e rule: normalize.induct)
  case (1 f e)
  have f: "f \<noteq> 0" using 1(2) by auto
  show ?case
  proof (cases "drop_bit 63 f = 0")
    case True
    then have "unat f < 2 ^ 63" by (simp only: drop_bit_63)
    then have u: "unat (push_bit 1 f) = unat f * 2" using unat_push_bit_small[of f 1] by simp
    have nz: "unat (push_bit 1 f) \<noteq> 0" using u 1(2) by linarith
    obtain s f' where "normalize (push_bit 1 f) (e - 1) = Some \<lparr>df = f', de = e - 1 - int s\<rparr>"
      "unat f' = unat (push_bit 1 f) * 2 ^ s" "2 ^ 63 \<le> unat f'"
      using 1(1)[OF f True nz] by blast
    moreover have "normalize f e = normalize (push_bit 1 f) (e - 1)"
      unfolding normalize.simps[of f e] if_not_P[OF f] if_P[OF True] by (rule refl)
    moreover have "e - 1 - int s = e - int (s + 1)" "unat f * 2 * 2 ^ s = unat f * 2 ^ (s + 1)" by simp_all
    ultimately show ?thesis unfolding u by metis
  next
    case False
    then have "2 ^ 63 \<le> unat f" by (simp only: drop_bit_63 not_less)
    then show ?thesis using f False by (intro exI[of _ 0] exI[of _ f], subst normalize.simps) simp
  qed
qed

lemma normalize_to_spec:
  assumes "unat v * 2 ^ n < 2 ^ 64" "n < 64"
  obtains v' where "normalize_to \<lparr>df = v, de = e\<rparr> (e - int n) = Some \<lparr>df = v', de = e - int n\<rparr>" "unat v' = unat v * 2 ^ n"
proof -
  have u: "unat (push_bit n v) = unat v * 2 ^ n" by (rule unat_push_bit_small[OF assms(1)])
  then have "unat (drop_bit n (push_bit n v)) = unat v" by (simp only: unat_drop_bit) simp
  then have "drop_bit n (push_bit n v) = v" by (simp only: word_unat_eq_iff)
  then show thesis using that[of "push_bit n v"] u assms(2) by (simp add: normalize_to_def Let_def del: push_bit_eq_mult)
qed

lemma normal_shift:
  assumes "2 ^ 63 \<le> (2 * N + 1) * 2 ^ s" "(2 * N + 1) * 2 ^ s < (2 :: nat) ^ 64" "2 ^ 63 \<le> N * 2 ^ t" "N * 2 ^ t < (2 :: nat) ^ 64" "0 < N"
  shows "t = s + 1" "s \<le> 62"
proof -
  have "2 * 2 ^ s \<le> (2 * N + 1) * (2 :: nat) ^ s" using assms(5) by (intro mult_le_mono1) simp
  then have "(2 :: nat) ^ Suc s < 2 ^ 64" using assms(2) unfolding power_Suc by (rule le_less_trans)
  then show s: "s \<le> 62" by (simp only: power_strict_increasing_iff[of 2] one_less_numeral_iff semiring_norm)
  show "t = s + 1"
  proof (rule ccontr)
    assume "t \<noteq> s + 1"
    then consider "t \<le> s" | "s + 2 \<le> t" by linarith
    then show False
    proof cases
      case 1
      then have "N * 2 ^ t \<le> N * 2 ^ s" by (intro mult_le_mono2 power_increasing) simp_all
      then have "2 * 2 ^ 63 \<le> 2 * (N * 2 ^ s)" using assms(3) by linarith
      also have "\<dots> \<le> (2 * N + 1) * 2 ^ s" by simp
      finally show False using assms(2) by simp
    next
      case 2
      then have "N * 2 ^ (s + 2) \<le> N * 2 ^ t" by (intro mult_le_mono2 power_increasing) simp_all
      then have "N * 2 ^ (s + 2) < 2 ^ 64" using assms(4) by (rule le_less_trans)
      then have "2 * N * 2 ^ s < 2 ^ 63" by simp
      moreover have p: "(2 :: nat) ^ 63 = 2 ^ (63 - s) * 2 ^ s" using s by (simp flip: power_add)
      ultimately have "2 * N < 2 ^ (63 - s)" "2 ^ (63 - s) \<le> 2 * N + 1" using assms(1) by (simp_all only: p mult_less_cancel2 mult_le_cancel2)
      moreover have "(2 :: nat) ^ (63 - s) = 2 * 2 ^ (62 - s)" using s by (simp flip: power_Suc add: Suc_diff_le)
      ultimately show False by simp
    qed
  qed
qed

lemma boundaries_exact:
  assumes "0 < x" "exact64 x"
  obtains f e s w lo hi a where "significand_exponent x f e" "10 \<le> s" "- 1137 \<le> a" "a \<le> 960"
    "compute_boundaries x = Some \<lparr>bd_w = \<lparr>df = w, de = a\<rparr>, bd_minus = \<lparr>df = lo, de = a\<rparr>, bd_plus = \<lparr>df = hi, de = a\<rparr>\<rparr>"
    "a = e - 1 - int s" "int (unat hi) = (2 * f + 1) * 2 ^ s" "int (unat w) = 2 * f * 2 ^ s" "2 ^ 63 \<le> unat hi"
    "2 * int (unat lo) = (if closer f e then 4 * f - 1 else 4 * f - 2) * 2 ^ s"
proof -
  obtain f e v where se: "significand_exponent x f e" and dec: "decode_bits (reinterpret_bits x) = (\<lparr>df = v, de = e\<rparr>, closer f e)" and v: "uint v = f"
    by (rule decoded[OF assms])
  define N where "N = unat v"
  have f: "f = int N" unfolding N_def v[symmetric] by (rule uint_nat)
  have N: "0 < N" "N < 2 ^ 53" and e: "- 1074 \<le> e" "e \<le> 971" using se unfolding significand_exponent_def f by simp_all
  have u: "unat (2 * v + 1) = 2 * N + 1" "unat (2 * v - 1) = 2 * N - 1" "unat (4 * v - 1) = 4 * N - 1"
  proof -
    have m: "unat (2 * v) = 2 * N" "unat (4 * v) = 4 * N" using N(2) by (simp_all add: unat_mult_small N_def)
    show "unat (2 * v + 1) = 2 * N + 1" using N(2) unat_add_small[of "2 * v" 1] by (simp add: m)
    show "unat (2 * v - 1) = 2 * N - 1" "unat (4 * v - 1) = 4 * N - 1"
      using N unat_sub_small[of 1 "2 * v"] unat_sub_small[of 1 "4 * v"] by (simp_all add: m)
  qed
  have "unat (2 * v + 1) \<noteq> 0" "unat v \<noteq> 0" using u N(1) by (simp_all add: N_def)
  obtain s hi where hi: "normalize (2 * v + 1) (e - 1) = Some \<lparr>df = hi, de = e - 1 - int s\<rparr>" "unat hi = (2 * N + 1) * 2 ^ s" "2 ^ 63 \<le> unat hi"
    using normalize_spec[OF \<open>unat (2 * v + 1) \<noteq> 0\<close>, of "e - 1"] unfolding u(1) by blast
  obtain t w where w: "normalize v e = Some \<lparr>df = w, de = e - int t\<rparr>" "unat w = N * 2 ^ t" "2 ^ 63 \<le> unat w"
    using normalize_spec[OF \<open>unat v \<noteq> 0\<close>, of e] unfolding N_def[symmetric] by blast
  have t: "t = s + 1" "s \<le> 62"
    using normal_shift[of N s t] hi(3) w(3) unat_less_64[of hi] unat_less_64[of w] N(1) unfolding hi(2) w(2) by blast+
  have s: "10 \<le> s"
  proof (rule ccontr)
    assume "\<not> 10 \<le> s"
    then have "(2 * N + 1) * 2 ^ s \<le> (2 * N + 1) * 2 ^ 9" by (intro mult_le_mono2 power_increasing) simp_all
    then show False using hi(2,3) N(2) by simp
  qed
  define a where "a = e - 1 - int s"
  have top: "(2 * N + 1) * 2 ^ s < 2 ^ 64" using unat_less_64[of hi] hi(2) by simp
  obtain lo where lo: "normalize_to (if closer f e then \<lparr>df = 4 * v - 1, de = e - 2\<rparr> else \<lparr>df = 2 * v - 1, de = e - 1\<rparr>) a = Some \<lparr>df = lo, de = a\<rparr>"
    "2 * unat lo = (if closer f e then 4 * N - 1 else 4 * N - 2) * 2 ^ s"
  proof (cases "closer f e")
    case True
    have p: "2 * 2 ^ (s - 1) = (2 :: nat) ^ s" using s by (cases s) simp_all
    have "2 * (unat (4 * v - 1) * 2 ^ (s - 1)) = (4 * N - 1) * 2 ^ s" unfolding u p[symmetric] by (rule mult.left_commute)
    moreover have "\<dots> \<le> (2 * (2 * N + 1)) * 2 ^ s" by (intro mult_le_mono1) simp
    ultimately have "unat (4 * v - 1) * 2 ^ (s - 1) < 2 ^ 64" using top by simp
    then obtain lo where "normalize_to \<lparr>df = 4 * v - 1, de = e - 2\<rparr> (e - 2 - int (s - 1)) = Some \<lparr>df = lo, de = e - 2 - int (s - 1)\<rparr>"
      "unat lo = unat (4 * v - 1) * 2 ^ (s - 1)"
      by (rule normalize_to_spec) (use t in simp)
    moreover have "e - 2 - int (s - 1) = a" using s by (simp add: a_def of_nat_diff)
    ultimately show thesis
      using that[of lo] True \<open>2 * (unat (4 * v - 1) * 2 ^ (s - 1)) = (4 * N - 1) * 2 ^ s\<close> by simp
  next
    case False
    have "(2 * N - 1) * 2 ^ s \<le> (2 * N + 1) * 2 ^ s" by (intro mult_le_mono1) simp
    then have "unat (2 * v - 1) * 2 ^ s < 2 ^ 64" using top unfolding u by linarith
    then obtain lo where "normalize_to \<lparr>df = 2 * v - 1, de = e - 1\<rparr> (e - 1 - int s) = Some \<lparr>df = lo, de = e - 1 - int s\<rparr>"
      "unat lo = unat (2 * v - 1) * 2 ^ s"
      by (rule normalize_to_spec) (use t in simp)
    moreover have "2 * ((2 * N - 1) * 2 ^ s) = (4 * N - 2) * 2 ^ s" by (simp flip: mult.assoc add: diff_mult_distrib2)
    ultimately show thesis using that[of lo] False unfolding u a_def by simp
  qed
  have "compute_boundaries x = Some \<lparr>bd_w = \<lparr>df = w, de = a\<rparr>, bd_minus = \<lparr>df = lo, de = a\<rparr>, bd_plus = \<lparr>df = hi, de = a\<rparr>\<rparr>"
  proof -
    have "e - int t = a" "e - 1 - int s = a" using t(1) by (simp_all add: a_def)
    then show ?thesis using assms(1) lo(1) hi(1) w(1) by (cases "closer f e") (simp_all add: compute_boundaries_def dec)
  qed
  moreover have "2 * int (unat lo) = (if closer f e then 4 * f - 1 else 4 * f - 2) * 2 ^ s"
  proof -
    have "int (2 * unat lo) = int ((if closer f e then 4 * N - 1 else 4 * N - 2) * 2 ^ s)" using lo(2) by simp
    then show ?thesis using N(1) by (cases "closer f e") (simp_all add: f of_nat_diff)
  qed
  moreover have "int (unat hi) = (2 * f + 1) * 2 ^ s" "int (unat w) = 2 * f * 2 ^ s" unfolding hi(2) w(2) t(1) f by (simp_all add: algebra_simps)
  ultimately show thesis
    using that[OF se s _ _ _ a_def _ _ hi(3)] s t(2) e by (simp add: a_def)
qed

subsection \<open>The decimal lies between the boundaries\<close>

lemma scaled_word:
  assumes "\<bar>p - of_nat (unat c)\<bar> \<le> 1 / 2"
  shows "\<bar>of_nat (unat (mul_high v c)) - of_nat (unat v) * p / 2 ^ 64\<bar> < (1 :: rat)"
proof -
  let ?v = "of_nat (unat v) :: rat" and ?c = "of_nat (unat c) :: rat"
  have "?v < of_nat (2 ^ 64)" using unat_less_64[of v] by (simp only: of_nat_less_iff)
  then have v: "0 \<le> ?v" "?v < 2 ^ 64" by (simp_all only: of_nat_0_le_iff of_nat_power of_nat_numeral)
  have "?v * \<bar>p - ?c\<bar> \<le> ?v * (1 / 2)" using assms v(1) by (rule mult_left_mono)
  then have "\<bar>?v * (p - ?c)\<bar> < 2 ^ 63" using v by (simp add: abs_mult)
  then have "\<bar>?v * (p - ?c) / 2 ^ 64\<bar> < 1 / 2" by (simp add: abs_divide)
  then have "\<bar>?v * p / 2 ^ 64 - ?v * ?c / 2 ^ 64\<bar> < 1 / 2" by (simp add: right_diff_distrib diff_divide_distrib)
  then show ?thesis using mul_high_close[of v c] by linarith
qed

text \<open>The distances between the scaled numbers, with what scaling may lose.\<close>

lemma scaled_distances:
  fixes p :: rat
  assumes p: "2 ^ 63 - 1 \<le> p" and f: "1 \<le> f" "f \<le> 2 ^ 53 - 1" and s: "1024 \<le> (S :: rat)"
    and lo: "lo = 2 * f - 1 \<or> f = 2 ^ 52 \<and> lo = 2 * f - 1 / 2"
  defines "L \<equiv> lo * S * p / 2 ^ 64" and "W \<equiv> 2 * f * S * p / 2 ^ 64" and "H \<equiv> (2 * f + 1) * S * p / 2 ^ 64"
  shows "L + 200 \<le> W" "W + 200 \<le> H" "H \<le> (H - L) * 2 ^ 53"
proof -
  define u where "u = S * p / 2 ^ 64"
  have "1024 * (2 ^ 63 - 1) \<le> S * p" using p s by (intro mult_mono) simp_all
  then have u: "400 \<le> u" by (simp add: u_def)
  have eq: "L = lo * u" "W = 2 * f * u" "H = (2 * f + 1) * u" by (simp_all add: L_def W_def H_def u_def)
  have "1 / 2 \<le> 2 * f - lo" using lo by auto
  then have "1 / 2 * 400 \<le> (2 * f - lo) * u" using u by (intro mult_mono) simp_all
  then show "L + 200 \<le> W" unfolding eq by (simp add: left_diff_distrib)
  show "W + 200 \<le> H" unfolding eq using u by (simp add: distrib_right)
  have "2 * f + 1 \<le> (2 * f + 1 - lo) * 2 ^ 53" using lo f by auto
  then have "(2 * f + 1) * u \<le> (2 * f + 1 - lo) * 2 ^ 53 * u" using u by (intro mult_right_mono) simp_all
  then show "H \<le> (H - L) * 2 ^ 53" unfolding eq by (simp add: algebra_simps)
qed

lemma bounds_scaled:
  fixes p :: rat
  assumes "a = e - 1 - int s" "int (unat hi) = (2 * f + 1) * 2 ^ s" "2 * int (unat lo) = (if closer f e then 4 * f - 1 else 4 * f - 2) * 2 ^ s"
  shows "of_nat (unat lo) * 2 powi a = lower_bound f e" "of_nat (unat hi) * 2 powi a = upper_bound f e"
proof -
  have a: "(2 :: rat) ^ s * 2 powi a = 2 powi (e - 1)" by (simp add: assms(1) power_int_diff)
  have "(of_nat (unat hi) :: rat) = of_int ((2 * f + 1) * 2 ^ s)" using assms(2) by (metis of_int_of_nat_eq)
  then have "of_nat (unat hi) * 2 powi a = (2 * of_int f + 1 :: rat) * (2 ^ s * 2 powi a)" by simp
  then show "of_nat (unat hi) * 2 powi a = upper_bound f e" unfolding a upper_bound_def .
  have "(2 * of_nat (unat lo) :: rat) = of_int (2 * int (unat lo))" by simp
  then have "2 * (of_nat (unat lo) * 2 powi a) = (if closer f e then 4 * of_int f - 1 else 4 * of_int f - 2 :: rat) * (2 ^ s * 2 powi a)"
    unfolding assms(3) by simp
  moreover have "(2 :: rat) powi (e - 1) = 2 * 2 powi (e - 2)" by (simp add: power_int_diff)
  ultimately show "of_nat (unat lo) * 2 powi a = lower_bound f e"
    unfolding a lower_bound_def by (cases "closer f e") (simp_all add: algebra_simps)
qed

lemma small_exponent:
  assumes "(1 :: rat) \<le> of_nat D * 10 powi n * T" "of_nat D * 10 powi n * T < 2 ^ 64" "0 < D" "D < 10 ^ 17" "1 \<le> T" "T \<le> 2 ^ 60"
  shows "- 40 \<le> n" "n \<le> 40"
proof -
  have ten: "(10 :: rat) powi i < 10 powi j \<Longrightarrow> i < j" for i j
    by (meson le_less_linear leD power_int_increasing one_le_numeral)
  have DT: "1 \<le> of_nat D * T" "of_nat D * T \<le> 10 ^ 17 * 2 ^ 60"
  proof -
    have D: "(1 :: rat) \<le> of_nat D" "(of_nat D :: rat) \<le> of_nat (10 ^ 17)" using assms(3,4) by (simp_all only: of_nat_le_iff)
    then show "1 \<le> of_nat D * T" using mult_mono[of 1 "of_nat D" 1 T] assms(5) by simp
    show "of_nat D * T \<le> 10 ^ 17 * 2 ^ 60" using D assms(5,6) by (intro mult_mono) simp_all
  qed
  have "10 powi n * 1 \<le> 10 powi n * (of_nat D * T)" using DT by (intro mult_left_mono) simp_all
  also have "\<dots> = of_nat D * 10 powi n * T" by (simp add: ac_simps)
  also have "\<dots> < 10 powi 40" using assms(2) by (rule less_trans) simp
  finally have "(10 :: rat) powi n < 10 powi 40" by simp
  then show "n \<le> 40" using ten by fastforce
  have "1 \<le> 10 powi n * (of_nat D * T)" using assms(1) by (simp add: ac_simps)
  also have "\<dots> \<le> 10 powi n * (10 ^ 17 * 2 ^ 60)" using DT by (intro mult_left_mono) simp_all
  also have "\<dots> < 10 powi n * 10 powi 40" by (intro mult_strict_left_mono) simp_all
  finally have "(10 :: rat) powi 0 < 10 powi (n + 40)" by (simp add: power_int_add)
  then show "- 40 \<le> n" using ten by fastforce
qed

lemma power_big:
  assumes "\<bar>p - of_nat (unat c)\<bar> \<le> 1 / 2" "2 ^ 63 \<le> unat c"
  shows "2 ^ 63 - 1 \<le> (p :: rat)"
proof -
  have "(of_nat (2 ^ 63) :: rat) \<le> of_nat (unat c)" using assms(2) by (simp only: of_nat_le_iff)
  then have "(2 ^ 63 :: rat) \<le> of_nat (unat c)" by (simp only: of_nat_power of_nat_numeral)
  then show ?thesis using assms(1) unfolding abs_le_iff by linarith
qed

text \<open>What scaling makes of the boundaries, as the premises of digit generation.\<close>

lemma scaled_boundaries:
  fixes p :: rat
  assumes p: "\<bar>p - of_nat (unat c)\<bar> \<le> 1 / 2" "2 ^ 63 \<le> unat c" and hi: "2 ^ 63 \<le> unat hi"
    and d: "L + 200 \<le> W" "W + 200 \<le> H" "H \<le> (H - L) * 2 ^ 53"
    and eq: "L = of_nat (unat lo) * p / 2 ^ 64" "W = of_nat (unat w) * p / 2 ^ 64" "H = of_nat (unat hi) * p / 2 ^ 64"
  defines "l \<equiv> mul_high lo c + 1" and "m \<equiv> mul_high w c" and "h \<equiv> mul_high hi c - 1"
  shows "unat l \<le> unat m" "unat m \<le> unat h" "0 < unat l" "unat l < unat h" "unat h < (unat h - unat l) * 10 ^ 16"
    "2 ^ 60 \<le> unat h" "L < of_nat (unat l)" "of_nat (unat h) < H"
proof -
  let ?l = "of_nat (unat (mul_high lo c)) :: rat" and ?m = "of_nat (unat m) :: rat" and ?h = "of_nat (unat (mul_high hi c)) :: rat"
  have near: "\<bar>?l - L\<bar> < 1" "\<bar>?m - W\<bar> < 1" "\<bar>?h - H\<bar> < 1"
    unfolding eq m_def using scaled_word[OF p(1)] by blast+
  have "unat (mul_high lo c) < unat (mul_high hi c)" using near d by (simp only: of_nat_less_iff[where 'a = rat, symmetric])
  then have "unat (mul_high lo c) + 1 < 2 ^ 64" "1 \<le> unat (mul_high hi c)" using unat_less_64[of "mul_high hi c"] by linarith+
  then have u: "unat l = unat (mul_high lo c) + 1" "unat h = unat (mul_high hi c) - 1"
    using unat_add_small[of "mul_high lo c" 1] unat_sub_small[of 1 "mul_high hi c"] by (simp_all add: l_def h_def)
  have r: "(of_nat (unat l) :: rat) = ?l + 1" "(of_nat (unat h) :: rat) = ?h - 1"
    unfolding u using \<open>1 \<le> unat (mul_high hi c)\<close> by (simp_all add: of_nat_diff)
  show "L < of_nat (unat l)" "of_nat (unat h) < H" unfolding r using near by linarith+
  have lt: "(of_nat (unat l) :: rat) \<le> ?m" "?m \<le> of_nat (unat h)" "(of_nat (unat l) :: rat) < of_nat (unat h)"
    unfolding r using near d by linarith+
  then show "unat l \<le> unat m" "unat m \<le> unat h" "unat l < unat h" by (simp_all only: of_nat_le_iff of_nat_less_iff)
  show "0 < unat l" unfolding u by simp
  have "?h - 1 < (?h - 1 - (?l + 1)) * 10 ^ 16"
  proof -
    have "(H - L) * 2 ^ 53 \<le> (H - L - 4) * 10 ^ 16" using d(1,2) by simp
    moreover have "(H - L - 4) * 10 ^ 16 \<le> (?h - 1 - (?l + 1)) * 10 ^ 16" using near by (intro mult_right_mono) simp_all
    ultimately show ?thesis using near d(3) by linarith
  qed
  moreover have "(of_nat ((unat h - unat l) * 10 ^ 16) :: rat) = (of_nat (unat h) - of_nat (unat l)) * 10 ^ 16"
    using \<open>unat l < unat h\<close> by (simp add: of_nat_diff)
  ultimately have "(of_nat (unat h) :: rat) < of_nat ((unat h - unat l) * 10 ^ 16)" by (simp only: r)
  then show "unat h < (unat h - unat l) * 10 ^ 16" by (simp only: of_nat_less_iff)
  have "(of_nat (2 ^ 63) :: rat) \<le> of_nat (unat hi)" using hi by (simp only: of_nat_le_iff)
  then have "(2 ^ 63 :: rat) * (2 ^ 63 - 1) \<le> of_nat (unat hi) * p" using power_big[OF p] by (intro mult_mono) simp_all
  then have "2 ^ 61 \<le> H" unfolding eq by simp
  then have "(of_nat (2 ^ 60) :: rat) \<le> of_nat (unat h)" unfolding r using near by simp
  then show "2 ^ 60 \<le> unat h" by (simp only: of_nat_le_iff)
qed

lemma grisu2_between:
  assumes "0 < x" "exact64 x"
  obtains b D n f e where "compute_boundaries x = Some b" "grisu2 (bd_minus b) (bd_w b) (bd_plus b) = Some (show_nat D, n)"
    "0 < D" "D < 10 ^ 17" "- 400 \<le> n" "n \<le> 400" "significand_exponent x f e"
    "lower_bound f e < of_nat D * 10 powi n" "of_nat D * 10 powi n < upper_bound f e"
proof -
  obtain f e s w lo hi a where se: "significand_exponent x f e" and s: "10 \<le> s" and a: "- 1137 \<le> a" "a \<le> 960"
    and b: "compute_boundaries x = Some \<lparr>bd_w = \<lparr>df = w, de = a\<rparr>, bd_minus = \<lparr>df = lo, de = a\<rparr>, bd_plus = \<lparr>df = hi, de = a\<rparr>\<rparr>"
    and ae: "a = e - 1 - int s" and hi: "int (unat hi) = (2 * f + 1) * 2 ^ s" "2 ^ 63 \<le> unat hi"
    and w: "int (unat w) = 2 * f * 2 ^ s" and lo: "2 * int (unat lo) = (if closer f e then 4 * f - 1 else 4 * f - 2) * 2 ^ s"
    by (rule boundaries_exact[OF assms])
  obtain c ce k where c: "get_cached_power_for_binary_exponent a = Some (c, ce, k)" "- 60 \<le> ce + a + 64" "ce + a + 64 \<le> - 32"
    "2 ^ 63 \<le> unat c" "\<bar>scaled_power k ce - of_nat (unat c)\<bar> \<le> 1 / 2" "- 300 \<le> k" "k \<le> 324"
    by (rule cached_power_found[OF a])
  define p L W H where "p = scaled_power k ce" and "L = of_nat (unat lo) * p / 2 ^ 64" and "W = of_nat (unat w) * p / 2 ^ 64"
    and "H = of_nat (unat hi) * p / 2 ^ 64"
  have f: "0 < f" "f < 2 ^ 53" using se by (simp_all add: significand_exponent_def)
  define lof :: rat where "lof = (if closer f e then 2 * of_int f - 1 / 2 else 2 * of_int f - 1)"
  have "(of_int (int (unat hi)) :: rat) = of_int ((2 * f + 1) * 2 ^ s)" "(of_int (int (unat w)) :: rat) = of_int (2 * f * 2 ^ s)"
    "(of_int (2 * int (unat lo)) :: rat) = of_int ((if closer f e then 4 * f - 1 else 4 * f - 2) * 2 ^ s)"
    unfolding hi w lo by (rule refl)+
  then have words: "(of_nat (unat hi) :: rat) = (2 * of_int f + 1) * 2 ^ s" "(of_nat (unat w) :: rat) = 2 * of_int f * 2 ^ s"
    "(of_nat (unat lo) :: rat) = lof * 2 ^ s"
    by (cases "closer f e"; simp add: lof_def algebra_simps)+
  have p63: "2 ^ 63 - 1 \<le> p" unfolding p_def by (rule power_big[OF c(5,4)])
  have fr: "(1 :: rat) \<le> of_int f" "of_int f \<le> (2 ^ 53 - 1 :: rat)"
  proof -
    have "(of_int 1 :: rat) \<le> of_int f" "(of_int f :: rat) \<le> of_int (2 ^ 53 - 1)" using f by (simp_all only: of_int_le_iff)
    then show "(1 :: rat) \<le> of_int f" "of_int f \<le> (2 ^ 53 - 1 :: rat)" by simp_all
  qed
  have s1024: "(1024 :: rat) \<le> 2 ^ s" using power_increasing[OF s, of "2 :: rat"] by simp
  have lf: "lof = 2 * of_int f - 1 \<or> (of_int f :: rat) = 2 ^ 52 \<and> lof = 2 * of_int f - 1 / 2"
    by (simp add: lof_def closer_def)
  have d: "L + 200 \<le> W" "W + 200 \<le> H" "H \<le> (H - L) * 2 ^ 53"
    unfolding L_def W_def H_def words by (rule scaled_distances[OF p63 fr s1024 lf])+
  note sc = scaled_boundaries[OF c(5)[folded p_def] c(4) hi(2) d L_def W_def H_def]
  define al T where "al = ce + a + 64" and "T = (2 ^ nat (- al) :: rat)"
  have al: "- 60 \<le> al" "al \<le> - 32" using c(2,3) by (simp_all add: al_def)
  have "(2 :: nat) ^ nat (- al) \<le> 2 ^ 60" using al by (intro power_increasing) simp_all
  then have one: "2 ^ nat (- al) \<le> unat (mul_high hi c - 1)" using sc(6) by (rule le_trans)
  obtain D n where D: "grisu2_digit_gen (- k) \<lparr>df = mul_high lo c + 1, de = al\<rparr> \<lparr>df = mul_high w c, de = al\<rparr> \<lparr>df = mul_high hi c - 1, de = al\<rparr> =
      Some (show_nat D, - k + n)" "0 < D" "D < 10 ^ 17"
    "of_nat (unat (mul_high lo c + 1)) \<le> (of_nat D * 10 powi n * T)" "of_nat D * 10 powi n * T \<le> of_nat (unat (mul_high hi c - 1))"
    unfolding T_def by (rule grisu2_digit_gen_spec[OF al sc(1-5) one])
  have T: "1 \<le> T" "T \<le> 2 ^ 60"
    using power_increasing[of "nat (- al)" 60 "2 :: rat"] al unfolding T_def by (simp_all add: one_le_power)
  have "(of_nat 1 :: rat) \<le> of_nat (unat (mul_high lo c + 1))" unfolding of_nat_le_iff using sc(3) by linarith
  then have lo1: "1 \<le> of_nat D * 10 powi n * T" using D(4) unfolding of_nat_1 by (rule order_trans)
  have "(of_nat (unat (mul_high hi c - 1)) :: rat) < of_nat (2 ^ 64)" unfolding of_nat_less_iff by (rule unat_less_64)
  then have "of_nat D * 10 powi n * T < 2 ^ 64" using D(5) unfolding of_nat_power of_nat_numeral by (rule le_less_trans[rotated])
  then have n: "- 40 \<le> n" "n \<le> 40" by (rule small_exponent[OF lo1 _ D(2,3) T])+
  have Tp: "2 powi a * 10 powi k * T = p / 2 ^ 64"
  proof -
    have "T = 2 powi (- al)" using al by (simp add: T_def power_int_def)
    also have "- al = - a + - ce + - 64" by (simp add: al_def)
    also have "(2 :: rat) powi (- a + - ce + - 64) = 2 powi (- a) * 2 powi (- ce) * 2 powi (- 64)"
      by (subst power_int_add, simp, subst power_int_add, simp) (rule refl)
    also have "\<dots> = 1 / 2 powi a / 2 powi ce / 2 ^ 64"
      by (simp only: power_int_minus inverse_eq_divide times_divide_eq_left times_divide_eq_right mult_1 mult_1_right
          divide_divide_eq_left power_int_numeral)
    finally have T: "T = 1 / 2 powi a / 2 powi ce / 2 ^ 64" .
    have "(2 :: rat) powi a \<noteq> 0" by simp
    then show ?thesis unfolding T p_def scaled_power_def by simp
  qed
  have "X * 2 powi a * 10 powi k * T = X * p / 2 ^ 64" for X
  proof -
    have "X * 2 powi a * 10 powi k * T = X * (2 powi a * 10 powi k * T)" by (simp only: mult.assoc)
    then show ?thesis unfolding Tp by (simp only: times_divide_eq_right)
  qed
  then have LH: "L = lower_bound f e * 10 powi k * T" "H = upper_bound f e * 10 powi k * T"
    unfolding bounds_scaled[OF ae hi(1) lo, symmetric] L_def H_def by (simp_all only:)
  define y :: rat where "y = of_nat D * 10 powi (n - k)"
  have y: "of_nat D * 10 powi n * T = y * 10 powi k * T" by (simp add: y_def power_int_diff)
  have pos: "0 < 10 powi k * T" using T(1) by (intro mult_pos_pos) simp_all
  have "lower_bound f e * (10 powi k * T) < y * (10 powi k * T)" "y * (10 powi k * T) < upper_bound f e * (10 powi k * T)"
    using sc(7,8) D(4,5) unfolding y LH by (simp_all only: mult.assoc) 
  then have between: "lower_bound f e < y" "y < upper_bound f e" using pos by (simp_all only: mult_less_cancel_right_pos)
  have "grisu2 \<lparr>df = lo, de = a\<rparr> \<lparr>df = w, de = a\<rparr> \<lparr>df = hi, de = a\<rparr> = Some (show_nat D, n - k)"
    using D(1) c(1) by (simp add: grisu2_def diyfp_mul_def Let_def al_def ac_simps)
  then show thesis
    using that[OF b, of D "n - k" f e] D(2,3) n c(6,7) se between unfolding y_def by simp
qed

end
