(* ===== verification/GrisuText.thy ===== *)
theory GrisuText imports GrisuBounds begin

section \<open>The text of a number\<close>

text \<open>
  The text is digits, a fraction and an exponent, whose value is the decimal the digits were generated
  for, so \<open>strtod\<close> and the rounding give the number back.
\<close>

subsection \<open>Decimal texts\<close>

definition decimal_text :: "string \<Rightarrow> string \<Rightarrow> string option \<Rightarrow> string" where
  "decimal_text ds fs ex = ds @ (if fs = [] then [] else CHR ''.'' # fs) @ (case ex of None \<Rightarrow> [] | Some t \<Rightarrow> CHR ''e'' # t)"

definition digits_value :: "string \<Rightarrow> int" where
  "digits_value ds = fst (read_digits 0 ds)"

definition exponent_text :: "string \<Rightarrow> int \<Rightarrow> bool" where
  "exponent_text t e \<longleftrightarrow> (\<exists>s es. t = s # es \<and> es \<noteq> [] \<and> (\<forall>c \<in> set es. c_isdigit c) \<and>
     (s = CHR ''-'' \<and> e = - digits_value es \<or> s = CHR ''+'' \<and> e = digits_value es))"

definition good_decimal :: "string \<Rightarrow> string \<Rightarrow> string option \<Rightarrow> int \<Rightarrow> bool" where
  "good_decimal ds fs ex e \<longleftrightarrow> ds \<noteq> [] \<and> (\<forall>c \<in> set ds. c_isdigit c) \<and> (\<forall>c \<in> set fs. c_isdigit c) \<and>
     (hd ds = CHR ''0'' \<longrightarrow> ds = ''0'') \<and>
     (case ex of None \<Rightarrow> fs \<noteq> [] \<and> e = 0 | Some t \<Rightarrow> exponent_text t e)"

definition decimal_value :: "string \<Rightarrow> string \<Rightarrow> int \<Rightarrow> rat" where
  "decimal_value ds fs e = of_int (digits_value (ds @ fs)) / 10 ^ length fs * 10 powi e"

lemma read_digits_all: "\<forall>c \<in> set ds. c_isdigit c \<Longrightarrow> snd (read_digits a ds) = []"
  by (induction ds arbitrary: a) simp_all

lemma digits_value_show: "digits_value (show_nat D) = int D"
  using read_show_nat[of "[]" D] by (simp add: digits_value_def)

lemma isdigit_zero: "c_isdigit CHR ''0''" "digit_val CHR ''0'' = 0"
  by (simp_all add: c_isdigit_def digit_val_def)

lemma read_zeros: "read_digits a (replicate j CHR ''0'') = (a * 10 ^ j, [])"
  by (induction j arbitrary: a) (simp_all add: isdigit_zero ac_simps)

lemma read_base_digits:
  assumes "\<forall>c \<in> set ds. c_isdigit c" "t = [] \<or> \<not> c_isdigit (hd t)"
  shows "read_base dec_val 10 a n (ds @ t) = (fst (read_digits a ds), n + length ds, t)"
  using assms(1)
proof (induction ds arbitrary: a n)
  case Nil
  then show ?case using assms(2) by (cases t) (simp_all add: dec_val_def)
qed (simp add: dec_val_def)

lemma read_unsigned_digits:
  assumes "es \<noteq> []" "\<forall>c \<in> set es. c_isdigit c"
  shows "read_unsigned es = Some (digits_value es, [])"
proof -
  have "read_digits 0 es = (digits_value es, [])" using read_digits_all[OF assms(2), of 0] by (simp add: digits_value_def prod_eq_iff)
  then show ?thesis using assms by (cases es) (simp_all add: read_unsigned_def)
qed

lemma not_digits: "\<not> c_isdigit CHR ''.''" "\<not> c_isdigit CHR ''e''" "\<not> c_isdigit CHR ''-''" "\<not> c_isdigit CHR ''+''"
  by (simp_all add: c_isdigit_def)

lemma read_exponent_text: "exponent_text t e \<Longrightarrow> read_exponent ''eE'' (CHR ''e'' # t) = (e, [])"
  by (auto simp: exponent_text_def read_exponent_def read_unsigned_digits Let_def)

lemma read_fraction_decimal:
  assumes "ds \<noteq> []" "\<forall>c \<in> set ds. c_isdigit c" "\<forall>c \<in> set fs. c_isdigit c" "t = [] \<or> hd t = CHR ''e''"
  shows "read_fraction dec_val 10 (ds @ (if fs = [] then [] else CHR ''.'' # fs) @ t) =
    Some (of_int (digits_value (ds @ fs)) / 10 ^ length fs, t)"
proof -
  have t: "t = [] \<or> \<not> c_isdigit (hd t)" "t = [] \<or> hd t \<noteq> CHR ''.''" using assms(4) not_digits by auto
  have v: "digits_value (ds @ fs) = fst (read_digits (fst (read_digits 0 ds)) fs)"
    by (simp add: digits_value_def read_digits_append[OF assms(2)])
  show ?thesis
  proof (cases "fs = []")
    case True
    have "read_base dec_val 10 0 0 (ds @ t) = (fst (read_digits 0 ds), length ds, t)"
      using read_base_digits[OF assms(2) t(1), of 0 0] by simp
    then show ?thesis using True assms(1) t(2) v by (cases t) (simp_all add: read_fraction_def)
  next
    case False
    have "read_base dec_val 10 0 0 (ds @ CHR ''.'' # fs @ t) = (fst (read_digits 0 ds), length ds, CHR ''.'' # fs @ t)"
      using read_base_digits[OF assms(2), of "CHR ''.'' # fs @ t" 0 0] not_digits by simp
    moreover have "read_base dec_val 10 (fst (read_digits 0 ds)) 0 (fs @ t) = (fst (read_digits (fst (read_digits 0 ds)) fs), length fs, t)"
      using read_base_digits[OF assms(3) t(1), of "fst (read_digits 0 ds)" 0] by simp
    ultimately show ?thesis using False assms(1) v by (simp add: read_fraction_def)
  qed
qed

lemma not_hexadecimal:
  assumes "s = c # r" "r = [] \<or> c_isdigit (hd r) \<or> hd r = CHR ''.'' \<or> hd r = CHR ''e''"
  shows "lower (take 2 s) \<noteq> ''0x''"
proof (cases r)
  case (Cons d r')
  have "(if 65 \<le> (of_char d :: nat) \<and> (of_char d :: nat) \<le> 90 then char_of (of_char d + 32 :: nat) else d) \<noteq> CHR ''x''"
    using assms(2) Cons by (auto simp: c_isdigit_def)
  then show ?thesis using assms(1) Cons by (simp add: lower_def Let_def)
qed (use assms in \<open>simp add: lower_def\<close>)

lemma read_magnitude_decimal:
  assumes "good_decimal ds fs ex e"
  shows "read_magnitude (decimal_text ds fs ex) = Some (decimal_value ds fs e, [])"
proof -
  let ?t = "case ex of None \<Rightarrow> [] | Some t \<Rightarrow> CHR ''e'' # t"
  have d: "ds \<noteq> []" "\<forall>c \<in> set ds. c_isdigit c" "\<forall>c \<in> set fs. c_isdigit c" using assms by (simp_all add: good_decimal_def)
  have t: "?t = [] \<or> hd ?t = CHR ''e''" by (cases ex) simp_all
  obtain c r where c: "ds = c # r" using d(1) by (cases ds) simp_all
  define r' where "r' = r @ (if fs = [] then [] else CHR ''.'' # fs) @ ?t"
  have "r' = [] \<or> c_isdigit (hd r') \<or> hd r' = CHR ''.'' \<or> hd r' = CHR ''e''"
    using d(2) c t by (cases r; cases "fs = []") (auto simp: r'_def)
  then have x: "lower (take 2 (decimal_text ds fs ex)) \<noteq> ''0x''"
    by (intro not_hexadecimal[of _ c r']) (simp_all add: decimal_text_def c r'_def)
  have f: "read_fraction dec_val 10 (decimal_text ds fs ex) = Some (of_int (digits_value (ds @ fs)) / 10 ^ length fs, ?t)"
    unfolding decimal_text_def by (rule read_fraction_decimal[OF d t])
  have "read_exponent ''eE'' ?t = (e, [])"
  proof (cases ex)
    case None
    then show ?thesis using assms by (simp add: good_decimal_def read_exponent_def)
  next
    case (Some t)
    then show ?thesis using assms read_exponent_text[of t e] by (simp add: good_decimal_def)
  qed
  then show ?thesis using x f by (simp add: read_magnitude_def decimal_value_def)
qed

lemma strtod_decimal:
  assumes "good_decimal ds fs ex e"
  shows "strtod ((if neg then ''-'' else []) @ decimal_text ds fs ex) =
    Some (Number (if neg then - decimal_value ds fs e else decimal_value ds fs e), [])"
proof -
  obtain c r where c: "ds = c # r" "c_isdigit c" using assms by (cases ds) (simp_all add: good_decimal_def)
  obtain r' where r: "decimal_text ds fs ex = c # r'" by (simp add: decimal_text_def c)
  have "c \<noteq> CHR ''-''" "c \<noteq> CHR ''+''" "\<not> c_isspace c" using digit_not[OF c(2)] by auto
  then show ?thesis
    using read_magnitude_decimal[OF assms] unfolding r by (simp add: strtod_def c_isspace_def)
qed

subsection \<open>What is printed\<close>

lemma append_exponent_spec:
  assumes "- 1000 < e" "e < 1000"
  obtains t where "append_exponent e = Some t" "exponent_text t e" "length t \<le> 4"
proof -
  define k where "k = nat \<bar>e\<bar>"
  define es where "es = (if k < 10 then [CHR ''0'', digit_char k] else if k < 100 then [digit_char (k div 10), digit_char (k mod 10)]
    else [digit_char (k div 100), digit_char (k mod 100 div 10), digit_char (k mod 100 mod 10)])"
  have k: "k < 1000" using assms by (simp add: k_def)
  then have d: "k div 10 < 100" "k div 100 < 10" "k mod 100 div 10 < 10" by (simp_all add: less_mult_imp_div_less)
  have dd: "c_isdigit (digit_char x)" "digit_val (digit_char x) = int x" if "x < 10" for x using digit_char[OF that] by simp_all
  have "int (100 * (k div 100) + (10 * (k mod 100 div 10) + k mod 100 mod 10)) = int k" by (simp only: mult_div_mod_eq)
  then have "100 * int (k div 100) + (10 * int (k mod 100 div 10) + int (k mod 100 mod 10)) = int k"
    by (simp only: of_nat_add of_nat_mult of_nat_numeral)
  moreover have "int (10 * (k div 10) + k mod 10) = int k" by (simp only: mult_div_mod_eq)
  then have "10 * int (k div 10) + int (k mod 10) = int k" by (simp only: of_nat_add of_nat_mult of_nat_numeral)
  ultimately have "digits_value es = int k"
    using d by (simp add: es_def digits_value_def isdigit_zero dd less_mult_imp_div_less del: mod_mod_cancel)
  moreover have "es \<noteq> []" "\<forall>c \<in> set es. c_isdigit c" "length es \<le> 3"
    using d by (simp_all add: es_def isdigit_zero dd less_mult_imp_div_less)
  moreover have "append_exponent e = Some ((if e < 0 then ''-'' else ''+'') @ es)"
    using assms by (simp add: append_exponent_def Let_def k_def es_def)
  ultimately show thesis
    using that[of "(if e < 0 then ''-'' else ''+'') @ es"] by (simp add: exponent_text_def k_def)
qed

lemma digits_value_append:
  "\<forall>c \<in> set ds. c_isdigit c \<Longrightarrow> digits_value (ds @ fs) = fst (read_digits (digits_value ds) fs)"
  by (simp add: digits_value_def read_digits_append)

lemma show_nat_first: "0 < D \<Longrightarrow> hd (show_nat D) \<noteq> CHR ''0''"
proof (induction D rule: show_nat.induct)
  case (1 n)
  show ?case
  proof (cases "n < 10")
    case True
    then show ?thesis using 1(2) digit_char_zero[of n] by (subst show_nat.simps) simp
  next
    case False
    then show ?thesis using 1 by (subst show_nat.simps) simp
  qed
qed

lemma format_buffer_spec:
  assumes "0 < D" "D < 10 ^ 17" "- 400 \<le> n" "n \<le> 400"
  obtains ds fs ex e where "format_buffer (show_nat D) n (- 4) 15 = Some (decimal_text ds fs ex)" "good_decimal ds fs ex e"
    "decimal_value ds fs e = of_nat D * 10 powi n" "length (decimal_text ds fs ex) \<le> 63"
proof -
  let ?b = "show_nat D"
  define k m where "k = length ?b" and "m = int k + n"
  have k: "0 < k" "k \<le> 17" using show_nat_length[OF assms(2)] by (simp_all add: k_def)
  have dig: "\<forall>c \<in> set ?b. c_isdigit c" by (rule show_nat_digits)
  have hd: "hd ?b \<noteq> CHR ''0''" by (rule show_nat_first[OF assms(1)])
  have val: "digits_value ?b = int D" by (rule digits_value_show)
  have fb: "format_buffer ?b n (- 4) 15 =
      (if int k \<le> m \<and> m \<le> 15 then Some (?b @ replicate (nat (m - int k)) CHR ''0'' @ ''.0'')
       else if 0 < m \<and> m \<le> 15 then Some (take (nat m) ?b @ ''.'' @ drop (nat m) ?b)
       else if - 4 < m \<and> m \<le> 0 then Some (''0.'' @ replicate (nat (- m)) CHR ''0'' @ ?b)
       else if int k = 1 then map_option (\<lambda>e. ?b @ ''e'' @ e) (append_exponent (m - 1))
       else map_option (\<lambda>e. take 1 ?b @ ''.'' @ drop 1 ?b @ ''e'' @ e) (append_exponent (m - 1)))"
    by (simp only: format_buffer_def Let_def k_def m_def) simp
  consider (a) "int k \<le> m" "m \<le> 15" | (b) "0 < m" "m < int k" "m \<le> 15" | (c) "- 4 < m" "m \<le> 0" | (d) "15 < m \<or> m \<le> - 4" by linarith
  then show thesis
  proof cases
    case a
    have n: "m - int k = n" "0 \<le> n" using a by (simp_all add: m_def)
    have "format_buffer ?b n (- 4) 15 = Some (decimal_text (?b @ replicate (nat n) CHR ''0'') ''0'' None)"
      using a n by (simp add: fb decimal_text_def)
    moreover have "good_decimal (?b @ replicate (nat n) CHR ''0'') ''0'' None 0"
      using dig hd by (auto simp: good_decimal_def isdigit_zero)
    moreover have "digits_value ((?b @ replicate (nat n) CHR ''0'') @ ''0'') = int D * 10 ^ nat n * 10"
      using digits_value_append[OF dig, of "replicate (nat n + 1) CHR ''0''"] val read_zeros[of "int D" "nat n + 1"]
      by (simp add: replicate_append_same)
    then have "decimal_value (?b @ replicate (nat n) CHR ''0'') ''0'' 0 = of_nat D * 10 powi n"
      using n(2) by (simp add: decimal_value_def power_int_def)
    ultimately show thesis
      by (rule that) (use a k n in \<open>simp add: decimal_text_def k_def[symmetric]\<close>)
  next
    case b
    have n: "nat m < k" "nat m \<noteq> 0" "n < 0" using b by (simp_all add: m_def)
    let ?ds = "take (nat m) ?b" and ?fs = "drop (nat m) ?b"
    have "format_buffer ?b n (- 4) 15 = Some (decimal_text ?ds ?fs None)"
      using b n by (simp add: fb decimal_text_def k_def[symmetric])
    moreover have "good_decimal ?ds ?fs None 0"
      using dig hd n by (auto simp: good_decimal_def k_def dest: in_set_takeD in_set_dropD)
    moreover have "length ?fs = nat (- n)" using b by (simp add: k_def[symmetric] m_def nat_diff_distrib flip: of_nat_diff)
    then have "decimal_value ?ds ?fs 0 = of_nat D * 10 powi n"
      using b by (simp add: decimal_value_def val power_int_def inverse_eq_divide power_one_over m_def)
    ultimately show thesis
      by (rule that) (use b k n in \<open>simp add: decimal_text_def k_def[symmetric]\<close>)
  next
    case c
    let ?fs = "replicate (nat (- m)) CHR ''0'' @ ?b"
    have "n < 0" using c k(1) by (simp add: m_def)
    have "format_buffer ?b n (- 4) 15 = Some (decimal_text ''0'' ?fs None)"
      using c k(1) \<open>n < 0\<close> by (simp add: fb decimal_text_def)
    moreover have "good_decimal ''0'' ?fs None 0" using dig by (auto simp: good_decimal_def isdigit_zero)
    moreover have "digits_value (''0'' @ ?fs) = int D"
    proof -
      have "digits_value (replicate (nat (- m) + 1) CHR ''0'' @ ?b) = int D"
        using val read_zeros[of 0 "nat (- m) + 1"] unfolding digits_value_def
        by (subst read_digits_append) (simp_all add: isdigit_zero)
      then show ?thesis by simp
    qed
    then have "decimal_value ''0'' ?fs 0 = of_nat D / 10 ^ (nat (- m) + k)" by (simp add: decimal_value_def k_def)
    moreover have "n = - int (nat (- m) + k)" using c by (simp add: m_def)
    then have "(10 :: rat) powi n = 1 / 10 ^ (nat (- m) + k)" by (simp only: power_int_minus power_int_of_nat inverse_eq_divide)
    ultimately show thesis
      by (intro that[of "''0''" ?fs None 0]) (use c k in \<open>simp_all add: decimal_text_def k_def[symmetric]\<close>)
  next
    case d
    have e: "- 1000 < m - 1" "m - 1 < 1000" using assms(3,4) k by (simp_all add: m_def)
    obtain t where t: "append_exponent (m - 1) = Some t" "exponent_text t (m - 1)" "length t \<le> 4"
      by (rule append_exponent_spec[OF e])
    let ?ds = "take 1 ?b" and ?fs = "drop 1 ?b"
    have one: "drop 1 ?b = [] \<longleftrightarrow> k = 1" "take 1 ?b = ?b" if "k = 1" using that by (simp_all add: k_def)
    have two: "drop 1 ?b \<noteq> []" if "k \<noteq> 1"
    proof -
      have "1 < k" using that k(1) by linarith
      then show ?thesis by (simp add: k_def)
    qed
    have "format_buffer ?b n (- 4) 15 = Some (decimal_text ?ds ?fs (Some t))"
      using d k one two t(1) by (cases "k = 1") (auto simp: fb decimal_text_def)
    moreover have "good_decimal ?ds ?fs (Some t) (m - 1)"
      using dig hd k t(2) by (cases ?b) (auto simp: good_decimal_def k_def)
    moreover have "decimal_value ?ds ?fs (m - 1) = of_nat D * 10 powi n"
    proof -
      have "length ?fs = k - 1" by (simp add: k_def)
      moreover have "m - 1 = n + int (k - 1)" using k(1) by (simp add: m_def of_nat_diff)
      ultimately show ?thesis by (simp add: decimal_value_def val power_int_add)
    qed
    ultimately show thesis
      by (rule that) (use k t(3) in \<open>simp add: decimal_text_def k_def[symmetric]\<close>)
  qed
qed

subsection \<open>The printer\<close>

lemma show_nat_17: "D < 10 ^ 17 \<Longrightarrow> length (show_nat D) \<le> 17"
  by (rule show_nat_length) simp_all

lemma positive_printed:
  assumes "0 < x" "exact64 x"
  obtains ds fs ex e where "positive_to_chars x = Some (decimal_text ds fs ex)" "good_decimal ds fs ex e"
    "r64 (decimal_value ds fs e) = Fin x" "length (decimal_text ds fs ex) \<le> 63"
proof -
  obtain b D n f e where b: "compute_boundaries x = Some b" "grisu2 (bd_minus b) (bd_w b) (bd_plus b) = Some (show_nat D, n)"
    "0 < D" "D < 10 ^ 17" "- 400 \<le> n" "n \<le> 400" "significand_exponent x f e"
    "lower_bound f e < of_nat D * 10 powi n" "of_nat D * 10 powi n < upper_bound f e"
    by (rule grisu2_between[OF assms])
  obtain ds fs ex e' where t: "format_buffer (show_nat D) n (- 4) 15 = Some (decimal_text ds fs ex)" "good_decimal ds fs ex e'"
    "decimal_value ds fs e' = of_nat D * 10 powi n" "length (decimal_text ds fs ex) \<le> 63"
    by (rule format_buffer_spec[OF b(3-6)])
  show thesis
  proof (rule that[OF _ t(2) _ t(4)])
    show "positive_to_chars x = Some (decimal_text ds fs ex)"
      using b(1,2) t(1) show_nat_17[OF b(4)] by (simp add: positive_to_chars_def)
    show "r64 (decimal_value ds fs e') = Fin x" unfolding t(3) by (rule between_bounds_rounded[OF b(7-9)])
  qed
qed

lemma r64_minus: "r64 x = Fin y \<Longrightarrow> r64 (- x) = Fin (- y)"
  by (auto simp: r64_def fp_round_def rnd_minus Let_def split: if_splits)

text \<open>The text of a finite number, for the reader of it.\<close>

lemma to_chars_printed:
  assumes "exact64 x"
  obtains neg ds fs ex e where "to_chars (Fin x) = Some ((if neg then ''-'' else []) @ decimal_text ds fs ex)" "good_decimal ds fs ex e"
    "r64 (if neg then - decimal_value ds fs e else decimal_value ds fs e) = Fin x"
proof -
  consider (zero) "x = 0" | (pos) "0 < x" | (neg) "x < 0" by linarith
  then show thesis
  proof cases
    case zero
    show thesis
    proof (rule that[of False "''0''" "''0''" None 0])
      show "good_decimal ''0'' ''0'' None 0" by (simp add: good_decimal_def isdigit_zero)
      show "r64 (if False then - decimal_value ''0'' ''0'' 0 else decimal_value ''0'' ''0'' 0) = Fin x"
        using zero read_zeros[of 0 2] by (simp add: decimal_value_def digits_value_def numeral_2_eq_2 dbl.rn_zero)
    qed (simp add: to_chars_def zero decimal_text_def)
  next
    case pos
    obtain ds fs ex e where t: "positive_to_chars x = Some (decimal_text ds fs ex)" "good_decimal ds fs ex e"
      "r64 (decimal_value ds fs e) = Fin x" "length (decimal_text ds fs ex) \<le> 63"
      by (rule positive_printed[OF pos assms])
    show thesis by (rule that[of False ds fs ex e]) (use t pos in \<open>simp_all add: to_chars_def\<close>)
  next
    case neg
    have "0 < - x" "exact64 (- x)" using neg assms by (simp_all add: exact64_def representable_minus)
    then obtain ds fs ex e where t: "positive_to_chars (- x) = Some (decimal_text ds fs ex)" "good_decimal ds fs ex e"
      "r64 (decimal_value ds fs e) = Fin (- x)" "length (decimal_text ds fs ex) \<le> 63"
      by (rule positive_printed)
    show thesis by (rule that[of True ds fs ex e]) (use t neg r64_minus[OF t(3)] in \<open>simp_all add: to_chars_def\<close>)
  qed
qed

lemma to_chars_fits: "to_chars x = Some t \<Longrightarrow> length t \<le> 64"
  by (auto simp: to_chars_def bind_eq_Some_conv split: fp.splits if_splits)

end
