(* ===== verification/DumpFacts.thy ===== *)
theory DumpFacts imports JsonDump GrisuText begin

section \<open>What the JSON serializer writes\<close>

text \<open>
  \<open>dump_integer\<close> writes the decimal digits; \<open>dump_escaped\<close> never writes outside \<open>string_buffer\<close>, with
  any handler, throws exactly on strings that are not UTF-8 when it is strict, and otherwise writes
  the escaped string.  The text of a value is then given by a reference definition \<open>json_text\<close>, which the
  parser reads back.
\<close>

subsection \<open>Integers\<close>

lemma digit_pair:
  assumes "v < 100"
  shows "arr_get digits_to_99 (int v) = Some (digit_char (v div 10), digit_char (v mod 10))"
proof -
  have "list_all (\<lambda>v. digits_to_99 ! v = (digit_char (v div 10), digit_char (v mod 10))) [0..<100]"
    by code_simp
  moreover have "length digits_to_99 = 100" by (simp add: digits_to_99_def)
  ultimately show ?thesis using assms by (simp add: arr_get_def list_all_iff)
qed

lemma show_nat_two: "10 \<le> v \<Longrightarrow> v < 100 \<Longrightarrow> show_nat v = [digit_char (v div 10), digit_char (v mod 10)]"
  by (subst show_nat.simps, subst show_nat.simps) simp

lemma show_nat_pair:
  assumes "100 \<le> v"
  shows "show_nat v = show_nat (v div 100) @ [digit_char (v mod 100 div 10), digit_char (v mod 10)]"
proof -
  have "v div 10 div 10 = v div 100" by (simp flip: div_mult2_eq)
  moreover have "v div 10 mod 10 = v mod 100 div 10" 
    using mod_mult2_eq[of v 10 10] by simp
  ultimately show ?thesis using assms
    by (subst show_nat.simps, subst show_nat.simps) simp
qed

lemma count_digits_show: "count_digits v = length (show_nat v)"
proof (induction v rule: count_digits.induct)
  case (1 v)
  have small: "length (show_nat n) = (if n < 10 then 1 else 1 + length (show_nat (n div 10)))" for n
    by (subst show_nat.simps) simp
  have d: "v div 10 div 10 = v div 100" "v div 100 div 10 = v div 1000" "v div 1000 div 10 = v div 10000"
    by (simp_all flip: div_mult2_eq)
  show ?case
    using 1 by (subst count_digits.simps) (simp add: small[of v] small[of "v div 10"] small[of "v div 100"] small[of "v div 1000"] d div_less_iff_less_mult)
qed


lemma overwrite_two:
  assumes "i + 2 \<le> length buf"
  shows "buf[Suc i := u, i := t] = take i buf @ [t, u] @ drop (i + 2) buf"
  using assms by (auto simp: list_eq_iff_nth_eq nth_append nth_Cons' nth_list_update
      intro!: arg_cong[of _ _ "nth buf"])

lemma write_pair_spec:
  assumes "i + 2 \<le> length buf" "v < 100"
  shows "write_pair buf (int (i + 2)) v =
    Some (take i buf @ [digit_char (v div 10), digit_char (v mod 10)] @ drop (i + 2) buf, int i)"
proof -
  have "arr_set buf (int (i + 2) - 1) u = Some (buf[Suc i := u])" for u
    using assms(1) by (simp add: arr_set_def nat_add_distrib)
  moreover have "arr_set (buf[Suc i := u]) (int (i + 2) - 2) t = Some (buf[Suc i := u, i := t])" for u t
    using assms(1) by (simp add: arr_set_def)
  ultimately show ?thesis
    by (simp add: write_pair_def digit_pair[OF assms(2)] overwrite_two[OF assms(1)] del: of_nat_add)
qed

lemma write_digits_spec:
  "a + length (show_nat v) \<le> length buf \<Longrightarrow>
   write_digits buf (int (a + length (show_nat v))) v =
     Some (take a buf @ show_nat v @ drop (a + length (show_nat v)) buf)"
proof (induction v arbitrary: buf rule: less_induct)
  case (less v)
  consider (pair) "100 \<le> v" | (two) "10 \<le> v" "v < 100" | (one) "v < 10" by linarith
  then show ?case
  proof cases
    case one
    then have "show_nat v = [digit_char v]" by (subst show_nat.simps) simp
    then show ?thesis using one less.prems
      by (subst write_digits.simps) (simp add: arr_set_def digit_char_def nat_add_distrib upd_conv_take_nth_drop)
  next
    case two
    then show ?thesis using less.prems write_pair_spec[of a buf v]
      by (subst write_digits.simps) (simp add: show_nat_two del: of_nat_add)
  next
    case pair
    let ?w = "show_nat (v div 100)"
    let ?p = "[digit_char (v mod 100 div 10), digit_char (v mod 10)]"
    have len: "length (show_nat v) = length ?w + 2" by (simp add: show_nat_pair[OF pair])
    define b where "b = take (a + length ?w) buf @ ?p @ drop (a + length ?w + 2) buf"
    have b: "length b = length buf" "take a b = take a buf"
      "drop (a + length ?w) b = ?p @ drop (a + length (show_nat v)) buf"
      using less.prems by (simp_all add: b_def len add.assoc)
    have "write_pair buf (int (a + length (show_nat v))) (v mod 100) = Some (b, int (a + length ?w))"
      using write_pair_spec[of "a + length ?w" buf "v mod 100"] less.prems
      by (simp add: len b_def mod_mod_cancel add.assoc)
    moreover have "write_digits b (int (a + length ?w)) (v div 100) =
        Some (take a b @ ?w @ drop (a + length ?w) b)"
      by (rule less.IH) (use pair less.prems len b(1) in simp_all)
    ultimately show ?thesis
      using pair by (subst write_digits.simps) (simp add: b show_nat_pair[OF pair])
  qed
qed

lemma show_nat_max: "v < 10 ^ n \<Longrightarrow> 0 < n \<Longrightarrow> length (show_nat v) \<le> n"
proof (induction n arbitrary: v)
  case (Suc n)
  show ?case
  proof (cases "v < 10")
    case True
    then show ?thesis by (subst show_nat.simps) simp
  next
    case False
    then have "v div 10 < 10 ^ n" "0 < n" using Suc.prems(1) by (auto simp: div_less_iff_less_mult intro: gr0I)
    then show ?thesis using Suc.IH[of "v div 10"] False by (subst show_nat.simps) simp
  qed
qed simp

lemma zero_digit: "digit_char 0 = CHR ''0''"
  by code_simp

lemma dump_integer_show:
  assumes "- (2 ^ 63) \<le> x" "x < 2 ^ 64" "length nb = 64"
  shows "dump_integer nb x = Some (show_int x)"
proof -
  have len: "length (show_nat (nat \<bar>x\<bar>)) \<le> 20" by (rule show_nat_max) (use assms in auto)
  consider "x = 0" | "x < 0" | "0 < x" by linarith
  then show ?thesis
  proof cases
    case 1
    then show ?thesis by (simp add: dump_integer_def show_int_def show_nat.simps zero_digit)
  next
    case 2
    then have abs: "remove_sign x = nat (- x)" "nat \<bar>x\<bar> = nat (- x)"
      by (simp_all add: remove_sign_def)
    let ?b = "nb[0 := CHR ''-'']" and ?s = "show_nat (nat (- x))"
    have b: "arr_set nb 0 CHR ''-'' = Some ?b" "take 1 ?b = ''-''"
      using assms(3) by (auto simp: arr_set_def take_Suc_conv_app_nth)
    have w: "write_digits ?b (int (1 + length ?s)) (nat (- x)) = Some (take 1 ?b @ ?s @ drop (1 + length ?s) ?b)"
      by (rule write_digits_spec) (use len abs assms(3) in simp)
    show ?thesis
      using 2 w unfolding b(2) by (simp add: dump_integer_def b(1) abs(1) count_digits_show show_int_def del: of_nat_add)
  next
    case 3
    then have abs: "nat \<bar>x\<bar> = nat x" by simp
    let ?s = "show_nat (nat x)"
    have "write_digits nb (int (0 + length ?s)) (nat x) = Some (take 0 nb @ ?s @ drop (0 + length ?s) nb)"
      by (rule write_digits_spec) (use len abs assms(3) in simp)
    then show ?thesis
      using 3 by (simp add: dump_integer_def count_digits_show show_int_def)
  qed
qed
subsection \<open>The buffer\<close>

lemma utf8_next_first:
  "utf8_next 0 b = 0 \<or> utf8_next 0 b = 1 \<or> utf8_next 0 b \<in> {2..8} \<and> length (state_ranges (utf8_next 0 b)) \<le> 3"
  if "b < 256"
  using that by (auto simp: utf8_next_eq step_of_def class_of_def state_ranges_def)

lemma utf8_next_later:
  assumes "b < 256" "st \<in> {2..8}"
  shows "utf8_next st b = 1 \<or> utf8_next st b = 0 \<and> length (state_ranges st) = 1 \<or>
    utf8_next st b \<in> {2..8} \<and> length (state_ranges st) = Suc (length (state_ranges (utf8_next st b)))"
proof -
  obtain lo hi rs where rs: "state_ranges st = (lo, hi) # rs"
    using state_ranges_ne[OF assms(2)] by (cases "state_ranges st") auto
  show ?thesis
  proof (cases "lo \<le> b \<and> b \<le> hi")
    case True
    then show ?thesis using later_byte(1)[OF assms rs] rs by (auto split: if_splits)
  next
    case False
    then show ?thesis using later_byte(2)[OF assms rs] by blast
  qed
qed

definition pending :: "bool \<Rightarrow> escaper \<Rightarrow> nat" where
  "pending ensure_ascii e = (if ensure_ascii then 0 else e_undumped e)"

definition buffer_ok :: "bool \<Rightarrow> escaper \<Rightarrow> bool" where
  "buffer_ok ensure_ascii e \<longleftrightarrow>
     e_accepted e \<le> 499 \<and> e_accepted e \<le> length (e_buf e) \<and>
     length (e_buf e) \<le> e_accepted e + pending ensure_ascii e \<and>
     (e_state e = UTF8_ACCEPT \<and> e_undumped e = 0 \<or>
      e_state e \<in> {2..8} \<and> length (state_ranges (e_state e)) + e_undumped e \<le> 4)"

lemma buffer_ok_undumped: "buffer_ok a e \<Longrightarrow> e_undumped e \<le> 3"
  using state_ranges_ne[of "e_state e"] by (cases "state_ranges (e_state e)") (auto simp: buffer_ok_def)

lemma u_escape_length [simp]: "length (u_escape n) = 6"
  by (simp add: u_escape_def)

lemma flush_length [simp]: "length (e_buf (flush_buffer e)) \<le> 499"
  by (auto simp: flush_buffer_def)

lemma escape_codepoint_defined:
  assumes "length (e_buf e) \<le> 499 + (if ensure_ascii then 0 else 3)"
  shows "\<exists>xs. escape_codepoint ensure_ascii c e = Some (e\<lparr>e_buf := e_buf e @ xs\<rparr>)"
  using assms by (auto simp: escape_codepoint_def buffer_put_def buffer_format_def Let_def split: if_splits)

lemma skip_invalid_safe:
  assumes "e_accepted e \<le> 499" "e_accepted e \<le> length (e_buf e)"
  shows "\<exists>again e'. skip_invalid h a e = Some (again, e') \<and> buffer_ok a e'"
proof (cases "h = Replace")
  case True
  let ?b = "e\<lparr>e_buf := take (e_accepted e) (e_buf e) @ replacement a\<rparr>"
  have "buffer_put (replacement a) (e\<lparr>e_buf := take (e_accepted e) (e_buf e)\<rparr>) = Some ?b"
    using assms by (simp add: buffer_put_def replacement_def)
  then show ?thesis using True
    by (simp add: skip_invalid_def buffer_ok_def pending_def remember_accept_def)
next
  case False
  then show ?thesis using assms by (simp add: skip_invalid_def buffer_ok_def pending_def)
qed

lemma dump_byte_safe:
  assumes "buffer_ok a e"
  shows "\<exists>r. dump_byte h a c e = Some r \<and> (\<forall>again e'. r = Inr (again, e') \<longrightarrow> buffer_ok a e')"
proof -
  obtain st cp where dec: "decode (e_state e) (e_codepoint e) c = (st, cp)" by (cases "decode (e_state e) (e_codepoint e) c")
  have st: "st = utf8_next (e_state e) (byte c)" using dec by (simp add: decode_def)
  define e1 where "e1 = e\<lparr>e_state := st, e_codepoint := cp\<rparr>"
  have e1: "e_buf e1 = e_buf e" "e_accepted e1 = e_accepted e" "e_undumped e1 = e_undumped e" "e_state e1 = st"
    by (simp_all add: e1_def)
  have len: "length (e_buf e) \<le> 499 + (if a then 0 else 3)"
    using assms buffer_ok_undumped[OF assms] by (auto simp: buffer_ok_def pending_def split: if_splits)
  consider (accept) "st = 0" | (reject) "st = 1" | (more) "st \<in> {2..8}" "length (state_ranges st) + (e_undumped e + 1) \<le> 4"
    using assms utf8_next_first[of "byte c"] utf8_next_later[of "byte c" "e_state e"]
    by (auto simp: buffer_ok_def st UTF8_ACCEPT_def)
  then show ?thesis
  proof cases
    case accept
    obtain xs where "escape_codepoint a c e1 = Some (e1\<lparr>e_buf := e_buf e1 @ xs\<rparr>)"
      using escape_codepoint_defined[of e1 a c] len e1 by auto
    then show ?thesis using accept
      by (auto simp: dump_byte_def dec Let_def UTF8_ACCEPT_def remember_accept_def buffer_ok_def e1_def
          flush_buffer_def)
  next
    case reject
    have "\<exists>again e'. skip_invalid h a e1 = Some (again, e') \<and> buffer_ok a e'"
      by (rule skip_invalid_safe) (use assms in \<open>simp_all add: e1 buffer_ok_def\<close>)
    moreover have "dump_byte h a c e =
        (if h = Strict then Some (Inl Type_error_316) else map_option Inr (skip_invalid h a e1))"
      using reject by (simp add: dump_byte_def dec Let_def UTF8_ACCEPT_def UTF8_REJECT_def e1_def)
    ultimately show ?thesis by (cases "h = Strict") auto
  next
    case more
    have "length (e_buf e) \<le> 502" using len by (simp split: if_splits)
    moreover have "2 \<le> st" "st \<le> 8" "st \<noteq> 0" "st \<noteq> 1" using more(1) by auto
    ultimately show ?thesis using more(2) assms
      by (auto simp: dump_byte_def dec Let_def UTF8_ACCEPT_def UTF8_REJECT_def buffer_put_def buffer_ok_def
          pending_def)
  qed
qed


lemma dump_loop_safe: "buffer_ok a e \<Longrightarrow> \<exists>r. dump_loop h a s e = Some r"
proof (induction h a s e rule: dump_loop.induct)
  case (2 h a c s e)
  obtain r where r: "dump_byte h a c e = Some r" "\<forall>again e'. r = Inr (again, e') \<longrightarrow> buffer_ok a e'"
    using dump_byte_safe[OF "2.prems"] by blast
  show ?case
  proof (cases r)
    case (Inl x)
    then show ?thesis using r by (simp add: dump_loop.simps(2))
  next
    case (Inr p)
    obtain again e' where p: "p = (again, e')" by (cases p)
    then have "buffer_ok a e'" using r(2) Inr by simp
    then show ?thesis
      using "2.IH"(1)[OF r(1) Inr p[symmetric]] "2.IH"(2)[OF r(1) Inr p[symmetric]] r(1) Inr p
      by (cases again) (simp_all add: dump_loop.simps(2))
  qed
qed simp

lemma new_escaper_ok: "buffer_ok a new_escaper"
  by (simp add: buffer_ok_def new_escaper_def)

lemma dump_escaped_defined: "\<exists>r. dump_escaped h a s = Some r"
  using dump_loop_safe[OF new_escaper_ok, of h a s] by (auto simp: dump_escaped_def split: sum.splits)

subsection \<open>The escaped string\<close>

definition escape_char :: "char \<Rightarrow> string" where
  "escape_char c =
     (if c = CHR 0x08 then [CHR 0x5C, CHR ''b'']
      else if c = CHR 0x09 then [CHR 0x5C, CHR ''t'']
      else if c = CHR 0x0A then [CHR 0x5C, CHR ''n'']
      else if c = CHR 0x0C then [CHR 0x5C, CHR ''f'']
      else if c = CHR 0x0D then [CHR 0x5C, CHR ''r'']
      else if c = CHR 0x22 then [CHR 0x5C, CHR 0x22]
      else if c = CHR 0x5C then [CHR 0x5C, CHR 0x5C]
      else if byte c \<le> 0x1F then u_escape (byte c)
      else [c])"

definition escape :: "string \<Rightarrow> string" where
  "escape s = concat (map escape_char s)"

text \<open>The code point of more than one byte is never one that is escaped.\<close>

definition codepoint_ok :: "nat \<Rightarrow> nat \<Rightarrow> bool" where
  "codepoint_ok st cp \<longleftrightarrow> st = 2 \<and> 2 \<le> cp \<or> st \<in> {3, 5, 7, 8} \<and> 1 \<le> cp \<or> st \<in> {4, 6}"

lemma or_codepoint: "(b AND 0x3F) OR push_bit 6 cp = 64 * cp + b mod (64 :: nat)"
  using or_disjoint_nat[of "b mod 64" 6 cp] by (simp add: low_six or.commute push_bit_eq_mult)

lemma mask_byte: "k \<le> 8 \<Longrightarrow> drop_bit k 0xFF AND b = b mod (2 :: nat) ^ (8 - k)"
  using drop_bit_mask_eq[of k 8, where 'a = nat] take_bit_eq_mask[of "8 - k" b]
  by (simp add: mask_eq_exp_minus_1 and.commute take_bit_eq_mod)

lemma class_ranges:
  "class_of b = 1 \<longleftrightarrow> 0x80 \<le> b \<and> b < 0x90" "class_of b = 9 \<longleftrightarrow> 0x90 \<le> b \<and> b < 0xA0"
  "class_of b = 7 \<longleftrightarrow> 0xA0 \<le> b \<and> b < 0xC0"
  by (auto simp: class_of_def)

lemma decode_ascii: "byte c < 0x80 \<Longrightarrow> decode 0 cp c = (0, byte c)"
  using first_byte(1)[OF byte_lt, of c] take_bit_nat_eq_self[of "byte c" 8]
  by (simp add: decode_def UTF8_ACCEPT_def utf8_type_eq class_of_def take_bit_eq_mask and.commute mask_eq_exp_minus_1)

lemma lead_range:
  assumes "128 \<le> b" "b < 256" "step_of 0 (class_of b) \<noteq> 1"
  shows "192 + 2 \<le> b \<and> b < 224 \<and> class_of b = 2 \<or> b = 224 \<and> class_of b = 10 \<or>
    224 < b \<and> b < 240 \<and> (class_of b = 3 \<or> b = 237 \<and> class_of b = 4) \<or> b = 240 \<and> class_of b = 11 \<or>
    240 < b \<and> b < 244 \<and> class_of b = 6 \<or> b = 244 \<and> class_of b = 5"
  using assms by (auto simp: step_of_def class_of_def split: if_splits)

lemma decode_lead:
  assumes "0x80 \<le> byte c" "decode 0 cp c = (st, cp')" "st \<noteq> 1"
  shows "codepoint_ok st cp'"
proof -
  let ?b = "byte c"
  have st: "st = step_of 0 (class_of ?b)" "cp' = drop_bit (class_of ?b) 0xFF AND ?b"
    using assms(2) by (auto simp: decode_def UTF8_ACCEPT_def utf8_type_eq utf8_next_eq)
  have m: "class_of ?b \<le> 8 \<Longrightarrow> cp' = ?b mod 2 ^ (8 - class_of ?b)"
    using st(2) by (simp add: mask_byte)
  consider "192 + 2 \<le> ?b" "?b < 224" "class_of ?b = 2" | "class_of ?b = 10"
    | "224 < ?b" "?b < 240" "class_of ?b = 3" | "?b = 237" "class_of ?b = 4" | "class_of ?b = 11"
    | "240 < ?b" "?b < 244" "class_of ?b = 6" | "?b = 244" "class_of ?b = 5"
    using lead_range[OF assms(1) byte_lt] assms(3) st(1) by blast
  then show ?thesis
  proof cases
    case 1
    then have "?b mod 64 = ?b - 192" by (simp add: mod_nat_eqI)
    then show ?thesis using 1 m by (simp add: codepoint_ok_def st(1) step_of_def)
  next
    case 3
    then have "?b mod 32 = ?b - 224" by (simp add: mod_nat_eqI)
    then show ?thesis using 3 m by (simp add: codepoint_ok_def st(1) step_of_def)
  next
    case 6
    then have "?b mod 4 = ?b - 240" by (simp add: mod_nat_eqI)
    then show ?thesis using 6 m by (simp add: codepoint_ok_def st(1) step_of_def)
  qed (use m in \<open>simp_all add: codepoint_ok_def st(1) step_of_def\<close>)
qed

lemma decode_later:
  assumes "st \<in> {2..8}" "codepoint_ok st cp" "decode st cp c = (st', cp')" "st' \<noteq> 1"
  shows "0x80 \<le> byte c \<and> (if st' = 0 then 0x80 \<le> cp' else codepoint_ok st' cp')"
proof -
  let ?b = "byte c"
  have st': "st' = step_of st (class_of ?b)" "cp' = 64 * cp + ?b mod 64"
    using assms(1,3) by (auto simp: decode_def UTF8_ACCEPT_def utf8_next_eq or_codepoint)
  have cont: "0x80 \<le> ?b \<Longrightarrow> ?b < 0xC0 \<Longrightarrow> ?b mod 64 = ?b - 128" by (simp add: mod_nat_eqI)
  have st: "st = 2 \<or> st = 3 \<or> st = 4 \<or> st = 5 \<or> st = 6 \<or> st = 7 \<or> st = 8" using assms(1) by auto
  then show ?thesis
    using assms(2,4) cont class_ranges[of ?b] st'
    by (elim disjE) (simp_all add: codepoint_ok_def step_of_def split: if_splits, linarith+)
qed


lemma flush_content [simp]:
  "e_out (flush_buffer e) @ e_buf (flush_buffer e) = e_out e @ e_buf e"
  "e_state (flush_buffer e) = e_state e" "e_codepoint (flush_buffer e) = e_codepoint e"
  by (simp_all add: flush_buffer_def)

lemma byte_eq: "byte c = n \<longleftrightarrow> n < 256 \<and> c = char_of n"
  by (auto simp: byte_def)

lemma special_chars:
  "byte c = 0x08 \<longleftrightarrow> c = CHR 0x08" "byte c = 0x09 \<longleftrightarrow> c = CHR 0x09" "byte c = 0x0A \<longleftrightarrow> c = CHR 0x0A"
  "byte c = 0x0C \<longleftrightarrow> c = CHR 0x0C" "byte c = 0x0D \<longleftrightarrow> c = CHR 0x0D" "byte c = 0x22 \<longleftrightarrow> c = CHR 0x22"
  "byte c = 0x5C \<longleftrightarrow> c = CHR 0x5C"
  by (simp_all add: byte_eq) (code_simp+)

lemma escape_char_high: "0x80 \<le> byte c \<Longrightarrow> escape_char c = [c]"
  using special_chars[of c] by (auto simp: escape_char_def)

text \<open>A character of one byte, and the last byte of a longer one.\<close>

lemma escape_codepoint_char:
  assumes "length (e_buf e) \<le> 502" "byte c < 0x80 \<and> e_codepoint e = byte c \<or> 0x80 \<le> byte c \<and> 0x80 \<le> e_codepoint e"
  shows "escape_codepoint False c e = Some (e\<lparr>e_buf := e_buf e @ escape_char c\<rparr>)"
  using assms
proof (elim disjE conjE)
  assume "byte c < 0x80" "e_codepoint e = byte c"
  then show ?thesis using assms(1)
    by (simp add: escape_codepoint_def escape_char_def special_chars buffer_put_def buffer_format_def)
next
  assume "0x80 \<le> byte c" "0x80 \<le> e_codepoint e"
  then show ?thesis using assms(1)
    by (simp add: escape_codepoint_def escape_char_high buffer_put_def)
qed

definition decoding_ok :: "escaper \<Rightarrow> bool" where
  "decoding_ok e \<longleftrightarrow> buffer_ok False e \<and> (e_state e = 0 \<or> codepoint_ok (e_state e) (e_codepoint e))"

lemma dump_byte_strict:
  assumes "decoding_ok e"
  shows "if utf8_next (e_state e) (byte c) = 1 then dump_byte Strict False c e = Some (Inl Type_error_316)
    else \<exists>e'. dump_byte Strict False c e = Some (Inr (False, e')) \<and> decoding_ok e' \<and>
      e_state e' = utf8_next (e_state e) (byte c) \<and> e_out e' @ e_buf e' = e_out e @ e_buf e @ escape_char c"
proof -
  obtain st cp where dec: "decode (e_state e) (e_codepoint e) c = (st, cp)"
    by (cases "decode (e_state e) (e_codepoint e) c")
  have st: "st = utf8_next (e_state e) (byte c)" using dec by (simp add: decode_def)
  define e1 where "e1 = e\<lparr>e_state := st, e_codepoint := cp\<rparr>"
  have ok: "buffer_ok False e" using assms by (simp add: decoding_ok_def)
  have len: "length (e_buf e) \<le> 502"
    using ok buffer_ok_undumped[OF ok] by (simp add: buffer_ok_def pending_def)
  have state: "e_state e = 0 \<or> e_state e \<in> {2..8}" using ok by (auto simp: buffer_ok_def UTF8_ACCEPT_def)
  have cp: "byte c < 0x80 \<and> st = 0 \<and> cp = byte c \<or> 0x80 \<le> byte c \<and> (if st = 0 then 0x80 \<le> cp else codepoint_ok st cp)"
    if "st \<noteq> 1"
  proof (cases "e_state e = 0")
    case True
    show ?thesis
    proof (cases "byte c < 0x80")
      case True
      then show ?thesis using decode_ascii[OF True] dec \<open>e_state e = 0\<close> by simp
    next
      case False
      moreover have "codepoint_ok st cp"
        using decode_lead[of c "e_codepoint e" st cp] False dec \<open>e_state e = 0\<close> that by simp
      moreover from this have "st \<noteq> 0" by (auto simp: codepoint_ok_def)
      ultimately show ?thesis by simp
    qed
  next
    case False
    then show ?thesis using decode_later[OF _ _ dec that] assms state by (auto simp: decoding_ok_def)
  qed
  have safe: "buffer_ok False e'" if "dump_byte Strict False c e = Some (Inr (again, e'))" for again e'
    using dump_byte_safe[OF ok, of Strict c] that by auto
  consider (accept) "st = 0" | (reject) "st = 1" | (more) "st \<noteq> 0" "st \<noteq> 1" by blast
  then show ?thesis
  proof cases
    case accept
    have "escape_codepoint False c e1 = Some (e1\<lparr>e_buf := e_buf e1 @ escape_char c\<rparr>)"
      by (rule escape_codepoint_char) (use len cp accept in \<open>auto simp: e1_def\<close>)
    then have "dump_byte Strict False c e = Some (Inr (False,
        (remember_accept (flush_buffer (e1\<lparr>e_buf := e_buf e1 @ escape_char c\<rparr>)))\<lparr>e_undumped := 0\<rparr>))"
      using accept by (simp add: dump_byte_def dec UTF8_ACCEPT_def e1_def)
    then show ?thesis
      using accept st safe[of False] by (simp add: decoding_ok_def remember_accept_def e1_def)
  next
    case reject
    then show ?thesis using st by (simp add: dump_byte_def dec UTF8_ACCEPT_def UTF8_REJECT_def)
  next
    case more
    have "escape_char c = [c]" using cp more by (auto intro: escape_char_high)
    moreover have "dump_byte Strict False c e =
        Some (Inr (False, e1\<lparr>e_buf := e_buf e @ [c], e_undumped := e_undumped e + 1\<rparr>))"
      using more len by (simp add: dump_byte_def dec UTF8_ACCEPT_def UTF8_REJECT_def buffer_put_def e1_def)
    ultimately show ?thesis
      using more st safe[of False] cp by (auto simp: decoding_ok_def e1_def)
  qed
qed

lemma dump_loop_strict:
  "decoding_ok e \<Longrightarrow>
   if utf8_run (e_state e) s = 1 then dump_loop Strict False s e = Some (Inl Type_error_316)
   else \<exists>e'. dump_loop Strict False s e = Some (Inr e') \<and> e_state e' = utf8_run (e_state e) s \<and>
     e_out e' @ e_buf e' = e_out e @ e_buf e @ escape s"
proof (induction s arbitrary: e)
  case Nil
  then show ?case by (auto simp: escape_def decoding_ok_def buffer_ok_def UTF8_ACCEPT_def)
next
  case (Cons c s)
  have run: "utf8_run (e_state e) (c # s) = utf8_run (utf8_next (e_state e) (byte c)) s"
    using Cons.prems by (auto simp: decoding_ok_def buffer_ok_def UTF8_ACCEPT_def UTF8_REJECT_def)
  show ?case
  proof (cases "utf8_next (e_state e) (byte c) = 1")
    case True
    then show ?thesis
      using dump_byte_strict[OF Cons.prems, of c] utf8_run_reject[of s] run
      by (simp add: dump_loop.simps(2) UTF8_REJECT_def del: utf8_run.simps)
  next
    case False
    then obtain e' where e': "dump_byte Strict False c e = Some (Inr (False, e'))" "decoding_ok e'"
      "e_state e' = utf8_next (e_state e) (byte c)" "e_out e' @ e_buf e' = e_out e @ e_buf e @ escape_char c"
      using dump_byte_strict[OF Cons.prems, of c] by auto
    have "dump_loop Strict False (c # s) e = dump_loop Strict False s e'"
      using e'(1) by (simp add: dump_loop.simps(2))
    moreover have "e_out e @ e_buf e @ escape (c # s) = (e_out e' @ e_buf e') @ escape s"
      unfolding e'(4) by (simp add: escape_def)
    ultimately show ?thesis
      using Cons.IH[OF e'(2)] unfolding run e'(3) by simp
  qed
qed

lemma dump_escaped_strict:
  "dump_escaped Strict False s = Some (if valid_utf8 s then Inr (escape s) else Inl Type_error_316)"
proof -
  have "decoding_ok new_escaper"
    using new_escaper_ok by (simp add: decoding_ok_def) (simp add: new_escaper_def UTF8_ACCEPT_def)
  note loop = dump_loop_strict[OF this, of s]
  have st: "e_state new_escaper = UTF8_ACCEPT" "e_out new_escaper @ e_buf new_escaper = []"
    by (simp_all add: new_escaper_def)
  show ?thesis
  proof (cases "utf8_run UTF8_ACCEPT s = 1")
    case True
    then show ?thesis using loop unfolding st by (simp add: dump_escaped_def valid_utf8_def UTF8_ACCEPT_def)
  next
    case False
    then obtain e' where "dump_loop Strict False s new_escaper = Some (Inr e')"
      "e_state e' = utf8_run UTF8_ACCEPT s" "e_out e' @ e_buf e' = escape s"
      using loop unfolding st by (auto simp: new_escaper_def)
    then show ?thesis by (simp add: dump_escaped_def dump_finish_def valid_utf8_def)
  qed
qed

subsection \<open>The text of a value\<close>

fun json_text :: "json \<Rightarrow> string" where
  "json_text (Object m) = [CHR 0x7B] @
     join CHR '','' (map (\<lambda>(k, v). [CHR 0x22] @ escape k @ [CHR 0x22, CHR '':''] @ json_text v) m) @ [CHR 0x7D]"
| "json_text (Array xs) = ''['' @ join CHR '','' (map json_text xs) @ '']''"
| "json_text (String s) = [CHR 0x22] @ escape s @ [CHR 0x22]"
| "json_text (Boolean b) = (if b then ''true'' else ''false'')"
| "json_text (Number_integer x) = show_int x"
| "json_text (Number_unsigned x) = show_int (uint x)"
| "json_text (Number_float x) = (case to_chars x of Some t \<Rightarrow> t | None \<Rightarrow> [])"
| "json_text Null = ''null''"

lemma write_then_texts [simp]: "write_then (Some (Inr s)) (Some (Inr t)) = Some (Inr (s @ t))"
  by (simp add: write_then_def)

lemma dump_string_text: "valid_utf8 s \<Longrightarrow> dump_string s = Some (Inr ([CHR 0x22] @ escape s @ [CHR 0x22]))"
  by (simp add: dump_string_def dump_escaped_strict write_characters_def)

lemma dump_number_text: "- (2 ^ 63) \<le> x \<Longrightarrow> x < 2 ^ 64 \<Longrightarrow> dump_number x = Some (Inr (show_int x))"
  by (simp add: dump_number_def dump_integer_show)

lemma dump_all_texts: "dump_all (map (\<lambda>x. Some (Inr (f x))) xs) = Some (Inr (join CHR '','' (map f xs)))"
  by (induction xs rule: induct_list012) (simp_all add: write_characters_def)

lemma dump_float_text:
  assumes "is_finite x" "is_double x"
  shows "dump_float x = Some (Inr (json_text (Number_float x)))"
proof -
  obtain q where q: "x = Fin q" "exact64 q" using assms by (cases x) simp_all
  obtain neg ds fs ex e where "to_chars (Fin q) = Some ((if neg then ''-'' else []) @ decimal_text ds fs ex)"
    by (rule to_chars_printed[OF q(2)])
  then show ?thesis using q(1) by (simp add: dump_float_def)
qed

lemma dump_text: "wf_json j \<Longrightarrow> dump j = Some (Inr (json_text j))"
proof (induction j)
  case (Number_unsigned x)
  have "- (2 ^ 63) \<le> uint x" by (rule order_trans[of _ 0]) simp_all
  then show ?case using uint_bounded[of x] by (simp add: dump_number_text)
next
  case (Array xs)
  then have "map dump xs = map (\<lambda>x. Some (Inr (json_text x))) xs"
    by (simp add: list_all_iff)
  then have "dump_all (map dump xs) = Some (Inr (join CHR '','' (map json_text xs)))"
    by (simp only: dump_all_texts)
  then show ?case by (simp add: write_characters_def)
next
  case (Object m)
  let ?t = "\<lambda>(k, v). [CHR 0x22] @ escape k @ [CHR 0x22, CHR '':''] @ json_text v"
  have "map (\<lambda>(k, v). write_then (dump_string k) (write_then (write_characters '':'') (dump v))) m =
      map (\<lambda>p. Some (Inr (?t p))) m"
  proof (rule map_cong[OF refl])
    fix p
    assume p: "p \<in> set m"
    obtain k v where kv: "p = (k, v)" by (cases p)
    have "valid_utf8 k" "wf_json v" using Object.prems p kv by (auto simp: list_all_iff)
    moreover have "dump v = Some (Inr (json_text v))"
      using Object.IH[OF p] kv \<open>wf_json v\<close> by (simp add: snds.simps)
    ultimately show "(case p of (k, v) \<Rightarrow> write_then (dump_string k) (write_then (write_characters '':'') (dump v))) =
        Some (Inr (?t p))"
      using kv by (simp add: dump_string_text write_characters_def)
  qed
  then have "dump_all (map (\<lambda>(k, v). write_then (dump_string k) (write_then (write_characters '':'') (dump v))) m) =
      Some (Inr (join CHR '','' (map ?t m)))"
    by (simp only: dump_all_texts)
  then show ?case by (simp add: write_characters_def)
qed (simp_all add: dump_string_text dump_number_text dump_float_text write_characters_def del: json_text.simps(7))

end
