(* ===== verification/JsonRoundtrip.thy ===== *)
theory JsonRoundtrip imports DumpFacts begin

section \<open>The parser reads back what the serializer writes\<close>

text \<open>
  Scanning the text of a string, a number or a literal of \<open>DumpFacts\<close> gives its token back, whatever
  allowed byte follows; the parser's loop over the tokens of a whole value rebuilds the value.  Values
  are canonical when they are what the parser itself would build.
\<close>

text \<open>The bytes that may follow a value inside a text.\<close>

definition stops :: "string \<Rightarrow> bool" where
  "stops s \<longleftrightarrow> s = [] \<or> hd s \<in> {CHR '','', CHR '']'', CHR 0x7D}"

subsection \<open>Strings\<close>

lemma hex_lower_digit: "k < 16 \<Longrightarrow> hex_digit (hex_lower k) = Some k"
proof -
  have "list_all (\<lambda>k. hex_digit (hex_lower k) = Some k) [0..<16]" by code_simp
  then show "k < 16 \<Longrightarrow> hex_digit (hex_lower k) = Some k" by (simp add: list_all_iff)
qed

lemma get_codepoint_u_escape:
  assumes "n < 0x10000"
  shows "get_codepoint (drop 2 (u_escape n) @ s) = Some (n, s)"
proof -
  have "n div 4096 < 16" "n div 16 div 16 = n div 256" "n div 256 div 16 = n div 4096"
    using assms by (simp_all flip: div_mult2_eq)
  moreover have "n = 16 * (n div 16) + n mod 16" "n div 16 = 16 * (n div 16 div 16) + n div 16 mod 16"
    "n div 256 = 16 * (n div 256 div 16) + n div 256 mod 16" by simp_all
  ultimately show ?thesis
    by (simp add: get_codepoint_def u_escape_def hex_lower_digit push_bit_eq_mult)
      (use mult_div_mod_eq[of 16 n] in linarith)
qed

lemma escape_control:
  assumes "byte c \<le> 0x1F"
  shows "\<exists>b. escape_char c = CHR 0x5C # b \<and> scan_escape (b @ s) = Inr ([c], s)"
proof -
  have "c \<noteq> CHR 0x22" "c \<noteq> CHR 0x5C" using assms by (auto simp flip: special_chars)
  then have "c \<in> {CHR 0x08, CHR 0x09, CHR 0x0A, CHR 0x0C, CHR 0x0D} \<or> escape_char c = u_escape (byte c)"
    using assms by (simp add: escape_char_def)
  then consider "c \<in> {CHR 0x08, CHR 0x09, CHR 0x0A, CHR 0x0C, CHR 0x0D}" | "escape_char c = u_escape (byte c)"
    by blast
  then show ?thesis
  proof cases
    case 1
    then show ?thesis by (auto simp: escape_char_def scan_escape_def simple_escape_def)
  next
    case 2
    define b where "b = drop 2 (u_escape (byte c))"
    have u: "u_escape (byte c) = CHR 0x5C # CHR ''u'' # b" by (simp add: b_def u_escape_def)
    have "get_codepoint (b @ s) = Some (byte c, s)"
      unfolding b_def by (rule get_codepoint_u_escape) (use assms in simp)
    then show ?thesis using 2 assms u
      by (simp add: scan_escape_def simple_escape_def unicode_escape_def encode_utf8_def) (simp add: byte_def)
  qed
qed

lemma escape_append: "escape (s @ t) = escape s @ escape t"
  by (simp add: escape_def)

lemma escape_tail: "\<forall>c \<in> set bs. 0x80 \<le> byte c \<Longrightarrow> escape bs = bs"
  by (induction bs) (simp_all add: escape_def escape_char_high)

lemma next_bytes_local: "next_bytes rs s = Some (bs, t) \<Longrightarrow> next_bytes rs (bs @ u) = Some (bs, u)"
  by (induction rs s arbitrary: bs rule: next_bytes.induct) (auto split: list.splits option.splits if_splits)

lemma next_bytes_high:
  "next_bytes rs s = Some (bs, t) \<Longrightarrow> \<forall>r \<in> set rs. 0x80 \<le> fst r \<Longrightarrow> \<forall>c \<in> set bs. 0x80 \<le> byte c"
  by (induction rs s arbitrary: bs rule: next_bytes.induct)
    (auto simp: byte_in_def split: list.splits option.splits if_splits)

lemma continuation_high: "continuation b = Some rs \<Longrightarrow> \<forall>r \<in> set rs. 0x80 \<le> fst r"
  by (auto simp: continuation_def split: if_splits)

lemma scan_character_local:
  assumes "scan_character c s = Inr (c # bs, t)"
  shows "scan_character c (bs @ u) = Inr (c # bs, u)" "escape bs = bs"
proof -
  show "scan_character c (bs @ u) = Inr (c # bs, u)"
    using assms by (auto simp: scan_character_def next_byte_in_range_def next_bytes_local
        split: if_splits option.splits)
  have "\<forall>x \<in> set bs. 0x80 \<le> byte x"
    using assms by (auto simp: scan_character_def next_byte_in_range_def split: if_splits option.splits
        dest: next_bytes_high[OF _ continuation_high])
  then show "escape bs = bs" by (rule escape_tail)
qed

lemma scan_string_cons:
  "c \<noteq> CHR 0x22 \<Longrightarrow> scan_unit c r = Inr (bs, t) \<Longrightarrow> scan_string buf (c # r) = scan_string (buf @ bs) t"
  by (subst scan_string.simps) simp

lemma scan_string_close: "scan_string buf (CHR 0x22 # u) = (Value_string buf, u)"
  by (subst scan_string.simps) simp

lemma scan_string_escape:
  "valid_utf8 s \<Longrightarrow> scan_string buf (escape s @ CHR 0x22 # u) = (Value_string (buf @ s), u)"
proof (induction "length s" arbitrary: s buf rule: less_induct)
  case less
  show ?case
  proof (cases s)
    case Nil
    then show ?thesis by (simp add: escape_def scan_string_close)
  next
    case (Cons c r)
    consider (ctl) "byte c \<le> 0x1F" | (quote) "c = CHR 0x22 \<or> c = CHR 0x5C"
      | (plain) "0x1F < byte c" "c \<noteq> CHR 0x22" "c \<noteq> CHR 0x5C" by linarith
    then show ?thesis
    proof cases
      case ctl
      obtain b where b: "escape_char c = CHR 0x5C # b"
        "scan_escape (b @ escape r @ CHR 0x22 # u) = Inr ([c], escape r @ CHR 0x22 # u)"
        using escape_control[OF ctl, of "escape r @ CHR 0x22 # u"] by auto
      have "valid_utf8 r" using less.prems Cons ctl by (simp add: valid_utf8_ascii)
      then have "scan_string (buf @ [c]) (escape r @ CHR 0x22 # u) = (Value_string ((buf @ [c]) @ r), u)"
        using less.hyps[of r] Cons by simp
      then show ?thesis
        using Cons b scan_string_cons[of "CHR 0x5C" "b @ escape r @ CHR 0x22 # u" "[c]" "escape r @ CHR 0x22 # u" buf]
        by (simp add: escape_def scan_unit_def)
    next
      case quote
      then have e: "escape_char c = [CHR 0x5C, c]" "scan_escape (c # v) = Inr ([c], v)" for v
        by (auto simp: escape_char_def scan_escape_def simple_escape_def)
      have "byte c < 0x80" using quote by (auto simp: byte_def)
      then have "valid_utf8 r" using less.prems Cons by (simp add: valid_utf8_ascii)
      then have "scan_string (buf @ [c]) (escape r @ CHR 0x22 # u) = (Value_string ((buf @ [c]) @ r), u)"
        using less.hyps[of r] Cons by simp
      then show ?thesis
        using Cons e scan_string_cons[of "CHR 0x5C" "c # escape r @ CHR 0x22 # u" "[c]" "escape r @ CHR 0x22 # u" buf]
        by (simp add: escape_def scan_unit_def)
    next
      case plain
      obtain bs t where bt: "r = bs @ t" "valid_utf8 t" "\<forall>v. scan_character c (r @ v) = Inr (c # bs, t @ v)"
        using valid_scan_character[of c r] less.prems Cons plain(1) by auto
      note local = scan_character_local[OF bt(3)[rule_format]]
      have "escape_char c = [c]"
        using plain special_chars[of c] by (auto simp: escape_char_def)
      then have e: "escape s @ CHR 0x22 # u = c # bs @ escape t @ CHR 0x22 # u"
        using Cons bt(1) local(2) by (simp add: escape_def)
      have "scan_unit c (bs @ escape t @ CHR 0x22 # u) = Inr (c # bs, escape t @ CHR 0x22 # u)"
        using local(1) plain(3) by (simp add: scan_unit_def)
      then have "scan_string buf (escape s @ CHR 0x22 # u) = scan_string (buf @ c # bs) (escape t @ CHR 0x22 # u)"
        unfolding e by (rule scan_string_cons[OF plain(2)])
      also have "\<dots> = (Value_string ((buf @ c # bs) @ t), u)"
        by (rule less.hyps) (use Cons bt in simp_all)
      finally show ?thesis using Cons bt(1) by simp
    qed
  qed
qed

subsection \<open>Numbers\<close>

lemma stops_number: "stops r \<Longrightarrow> r = [] \<or> (\<exists>c t. r = c # t \<and> \<not> c_isdigit c \<and> c \<noteq> CHR ''.'' \<and> c \<noteq> CHR ''e'' \<and> c \<noteq> CHR ''E'')"
  by (cases r) (auto simp: stops_def c_isdigit_def)

lemma scan_any1_digits:
  assumes "\<forall>c \<in> set ds. c_isdigit c" "stops r"
  shows "scan_number_any1 ty buf (ds @ r) = (scan_number_done ty (buf @ ds), r)"
  using assms
proof (induction ds arbitrary: buf)
  case Nil
  then show ?case using stops_number[of r] by auto
qed simp

lemma scan_zero_stop: "stops r \<Longrightarrow> scan_number_zero ty buf r = (scan_number_done ty buf, r)"
  using stops_number[of r] by (auto simp: scan_number_zero_def)

lemma show_nat_head:
  assumes "0 < n"
  obtains c ds where "show_nat n = c # ds" "c_isdigit c" "c \<noteq> CHR ''0''" "\<forall>d \<in> set ds. c_isdigit d"
proof -
  have "hd (show_nat n) \<noteq> CHR ''0''"
    using assms
  proof (induction n rule: show_nat.induct)
    case (1 n)
    show ?case
    proof (cases "n < 10")
      case True
      then have "of_char (digit_char n) \<noteq> (48 :: nat)" using "1.prems" by (simp add: digit_char_def)
      then show ?thesis using True by (subst show_nat.simps) auto
    next
      case False
      then show ?thesis using 1 by (subst show_nat.simps) simp
    qed
  qed
  then show ?thesis using that show_nat_digits[of n] by (cases "show_nat n") auto
qed

lemma number_done_nat: "n < 2 ^ 64 \<Longrightarrow> scan_number_done Unsigned (show_nat n) = Value_unsigned (of_nat n)"
  using read_show_nat[of "[]" n] by (simp add: scan_number_done_def strtoull_def)

lemma number_done_neg:
  assumes "- (2 ^ 63) \<le> i" "i < 0"
  shows "scan_number_done Integer (show_int i) = Value_integer i"
proof -
  have "read_signed (show_int i) = Some (i, [])" using read_signed_show[of "[]" i] by simp
  then show ?thesis using assms by (simp add: scan_number_done_def strtol_def)
qed

lemma digit_token:
  assumes "c_isdigit c"
  shows "scan False (c # r) = scan_number c r"
proof -
  have "c \<noteq> CHR '' ''" "c \<noteq> CHR 0x09" "c \<noteq> CHR 0x0A" "c \<noteq> CHR 0x0D" "c \<noteq> CHR ''[''" "c \<noteq> CHR '']''"
    "c \<noteq> CHR 0x7B" "c \<noteq> CHR 0x7D" "c \<noteq> CHR '':''" "c \<noteq> CHR '',''" "c \<noteq> CHR ''t''" "c \<noteq> CHR ''f''"
    "c \<noteq> CHR ''n''" "c \<noteq> CHR 0x22"
    using assms by (auto simp: c_isdigit_def)
  then show ?thesis using assms
    by (simp add: scan_def skip_whitespace_def json_space_def scan_token_def)
qed

lemma scan_show_nat:
  assumes "n < 2 ^ 64" "stops r"
  shows "scan False (show_nat n @ r) = (Value_unsigned (of_nat n), r)"
proof (cases "n = 0")
  case True
  have "show_nat 0 = ''0''" by (simp add: show_nat.simps zero_digit)
  moreover have "scan False (CHR ''0'' # r) = scan_number CHR ''0'' r"
    by (rule digit_token) (simp add: c_isdigit_def)
  ultimately show ?thesis using True number_done_nat[of 0] scan_zero_stop[OF assms(2)]
    by (simp add: scan_number_def)
next
  case False
  then obtain c ds where c: "show_nat n = c # ds" "c_isdigit c" "c \<noteq> CHR ''0''" "\<forall>d \<in> set ds. c_isdigit d"
    using show_nat_head[of n] by blast
  have "c \<noteq> CHR ''-''" using c(2) digit_not by blast
  then have "scan False (show_nat n @ r) = scan_number_any1 Unsigned [c] (ds @ r)"
    using c by (simp add: digit_token scan_number_def)
  also have "\<dots> = (scan_number_done Unsigned (show_nat n), r)"
    using scan_any1_digits[OF c(4) assms(2), of Unsigned "[c]"] c(1) by simp
  finally show ?thesis using number_done_nat[OF assms(1)] by simp
qed

lemma scan_show_neg:
  assumes "- (2 ^ 63) \<le> i" "i < 0" "stops r"
  shows "scan False (show_int i @ r) = (Value_integer i, r)"
proof -
  obtain c ds where c: "show_nat (nat (- i)) = c # ds" "c_isdigit c" "c \<noteq> CHR ''0''" "\<forall>d \<in> set ds. c_isdigit d"
    using show_nat_head[of "nat (- i)"] assms(2) by auto
  have "scan False (show_int i @ r) = scan_number_minus ''-'' (c # ds @ r)"
    using assms(2) c by (simp add: show_int_def scan_def skip_whitespace_def json_space_def scan_token_def
        scan_number_def c_isdigit_def)
  also have "\<dots> = scan_number_any1 Integer (''-'' @ [c]) (ds @ r)"
    using c by (simp add: scan_number_minus_def)
  also have "\<dots> = (scan_number_done Integer (show_int i), r)"
    using scan_any1_digits[OF c(4) assms(3), of Integer "''-'' @ [c]"] c(1) assms(2) by (simp add: show_int_def)
  finally show ?thesis using number_done_neg[OF assms(1,2)] by simp
qed

lemma scan_show_int:
  assumes "- (2 ^ 63) \<le> i" "i < 2 ^ 64" "stops r"
  shows "scan False (show_int i @ r) =
    (if 0 \<le> i then Value_unsigned (word_of_int i) else Value_integer i, r)"
proof (cases "0 \<le> i")
  case True
  then show ?thesis using scan_show_nat[of "nat i" r] assms by (simp add: show_int_def)
next
  case False
  then show ?thesis using scan_show_neg[of i r] assms by simp
qed

text \<open>A decimal with a fraction or an exponent.\<close>

lemma scan_any2_digits:
  assumes "\<forall>c \<in> set ds. c_isdigit c" "stops r"
  shows "scan_number_any2 buf (ds @ r) = (scan_number_done Float (buf @ ds), r)"
  using assms
proof (induction ds arbitrary: buf)
  case Nil
  then show ?case using stops_number[of r] by auto
qed simp

lemma scan_exponent_text:
  assumes "exponent_text t e" "stops r"
  shows "scan_number_exponent buf (t @ r) = (scan_number_done Float (buf @ t), r)"
proof -
  obtain s c es where t: "t = s # c # es" "s = CHR ''-'' \<or> s = CHR ''+''" "c_isdigit c" "\<forall>d \<in> set es. c_isdigit d"
    using assms(1) by (auto simp: exponent_text_def neq_Nil_conv)
  then show ?thesis using scan_any2_digits[OF t(4) assms(2), of "buf @ [s, c]"]
    by (auto simp: scan_number_exponent_def scan_number_sign_def)
qed

text \<open>What follows the fraction.\<close>

definition tail_ok :: "string \<Rightarrow> bool" where
  "tail_ok t \<longleftrightarrow> t = [] \<or> (\<exists>u e. t = CHR ''e'' # u \<and> exponent_text u e)"

lemma scan_decimal2_text:
  assumes "\<forall>c \<in> set fs. c_isdigit c" "tail_ok t" "stops r"
  shows "scan_number_decimal2 buf (fs @ t @ r) = (scan_number_done Float (buf @ fs @ t), r)"
  using assms(1)
proof (induction fs arbitrary: buf)
  case Nil
  show ?case
  proof (cases "t = []")
    case True
    then show ?thesis using stops_number[OF assms(3)] by auto
  next
    case False
    then obtain u e where "t = CHR ''e'' # u" "exponent_text u e" using assms(2) by (auto simp: tail_ok_def)
    then show ?thesis using scan_exponent_text[OF _ assms(3)] not_digits by simp
  qed
qed simp

text \<open>From the point or the letter on.\<close>

definition point_text :: "string \<Rightarrow> string \<Rightarrow> string" where
  "point_text fs t = (if fs = [] then [] else CHR ''.'' # fs) @ t"

lemma scan_point:
  assumes "\<forall>c \<in> set fs. c_isdigit c" "tail_ok t" "stops r" "fs \<noteq> [] \<or> t \<noteq> []"
  obtains c u where "point_text fs t @ r = c # u" "c = CHR ''.'' \<and> scan_number_decimal1 (buf @ [c]) u = (scan_number_done Float (buf @ point_text fs t), r) \<or>
    c = CHR ''e'' \<and> scan_number_exponent (buf @ [c]) u = (scan_number_done Float (buf @ point_text fs t), r)"
proof (cases fs)
  case Nil
  then obtain u e where u: "t = CHR ''e'' # u" "exponent_text u e" using assms(2,4) by (auto simp: tail_ok_def)
  show thesis
    by (rule that[of "CHR ''e''" "u @ r"]) (use u Nil scan_exponent_text[OF u(2) assms(3), of "buf @ ''e''"] in \<open>simp_all add: point_text_def\<close>)
next
  case (Cons d ds)
  then have "scan_number_decimal2 (buf @ [CHR ''.'', d]) (ds @ t @ r) = (scan_number_done Float ((buf @ [CHR ''.'', d]) @ ds @ t), r)"
    using assms(1) by (intro scan_decimal2_text[OF _ assms(2,3)]) simp
  then show thesis
    by (intro that[of "CHR ''.''" "fs @ t @ r"]) (use Cons assms(1) in \<open>simp_all add: point_text_def scan_number_decimal1_def\<close>)
qed

lemma scan_any1_decimal:
  assumes "\<forall>c \<in> set ds. c_isdigit c" "\<forall>c \<in> set fs. c_isdigit c" "tail_ok t" "stops r" "fs \<noteq> [] \<or> t \<noteq> []"
  shows "scan_number_any1 ty buf (ds @ point_text fs t @ r) = (scan_number_done Float (buf @ ds @ point_text fs t), r)"
  using assms(1)
proof (induction ds arbitrary: buf)
  case Nil
  obtain c u where "point_text fs t @ r = c # u" "c = CHR ''.'' \<and> scan_number_decimal1 (buf @ [c]) u = (scan_number_done Float (buf @ point_text fs t), r) \<or>
    c = CHR ''e'' \<and> scan_number_exponent (buf @ [c]) u = (scan_number_done Float (buf @ point_text fs t), r)"
    by (rule scan_point[OF assms(2-5)])
  then show ?case using not_digits by auto
qed simp

lemma scan_zero_decimal:
  assumes "\<forall>c \<in> set fs. c_isdigit c" "tail_ok t" "stops r" "fs \<noteq> [] \<or> t \<noteq> []"
  shows "scan_number_zero ty buf (point_text fs t @ r) = (scan_number_done Float (buf @ point_text fs t), r)"
proof -
  obtain c u where "point_text fs t @ r = c # u" "c = CHR ''.'' \<and> scan_number_decimal1 (buf @ [c]) u = (scan_number_done Float (buf @ point_text fs t), r) \<or>
    c = CHR ''e'' \<and> scan_number_exponent (buf @ [c]) u = (scan_number_done Float (buf @ point_text fs t), r)"
    by (rule scan_point[OF assms])
  then show ?thesis by (auto simp: scan_number_zero_def)
qed

lemma scan_decimal:
  assumes "good_decimal ds fs ex e" "stops r"
  shows "scan False ((if neg then ''-'' else []) @ decimal_text ds fs ex @ r) =
    (Value_float (strtod_double ((if neg then ''-'' else []) @ decimal_text ds fs ex)), r)"
proof -
  define t where "t = (case ex of None \<Rightarrow> [] | Some t \<Rightarrow> CHR ''e'' # t)"
  have g: "\<forall>c \<in> set ds. c_isdigit c" "\<forall>c \<in> set fs. c_isdigit c" "hd ds = CHR ''0'' \<Longrightarrow> ds = ''0''"
    using assms(1) by (simp_all add: good_decimal_def)
  have t: "tail_ok t" "fs \<noteq> [] \<or> t \<noteq> []"
    using assms(1) by (cases ex; auto simp: t_def tail_ok_def good_decimal_def)+
  obtain c cs where c: "ds = c # cs" "c_isdigit c" using assms(1) by (cases ds) (simp_all add: good_decimal_def)
  have d: "decimal_text ds fs ex = c # cs @ point_text fs t" by (simp add: decimal_text_def c t_def point_text_def)
  let ?neg = "if neg then ''-'' else []"
  have tok: "(if c = CHR ''0'' then scan_number_zero ty (b @ [c]) (cs @ point_text fs t @ r) else scan_number_any1 ty (b @ [c]) (cs @ point_text fs t @ r)) =
      (scan_number_done Float (b @ decimal_text ds fs ex), r)" for ty b
  proof (cases "c = CHR ''0''")
    case True
    then have "cs = []" using g(3) c by simp
    then show ?thesis using True scan_zero_decimal[OF g(2) t(1) assms(2) t(2), of ty "b @ [c]"] d by simp
  next
    case False
    have "\<forall>c \<in> set cs. c_isdigit c" using g(1) c by simp
    then show ?thesis using False scan_any1_decimal[OF _ g(2) t(1) assms(2) t(2), of cs ty "b @ [c]"] d by simp
  qed
  have m: "c \<noteq> CHR ''-''" using c(2) not_digits by auto
  show ?thesis
  proof (cases neg)
    case True
    have "scan False (CHR ''-'' # c # cs @ point_text fs t @ r) = scan_number_minus ''-'' (c # cs @ point_text fs t @ r)"
      by (simp add: scan_def skip_whitespace_def json_space_def scan_token_def scan_number_def c_isdigit_def)
    also have "\<dots> = (scan_number_done Float (''-'' @ decimal_text ds fs ex), r)"
      using tok[of Integer "''-''"] c(2) by (cases "c = CHR ''0''") (simp_all add: scan_number_minus_def)
    finally show ?thesis using True d by (simp add: scan_number_done_def)
  next
    case False
    have "scan False (c # cs @ point_text fs t @ r) = (scan_number_done Float (decimal_text ds fs ex), r)"
      unfolding digit_token[OF c(2)] scan_number_def using tok[of Unsigned "[]"] m by (cases "c = CHR ''0''") simp_all
    then show ?thesis using False d by (simp add: scan_number_done_def)
  qed
qed

lemma scan_double:
  assumes "is_finite x" "is_double x" "stops r"
  shows "scan False (json_text (Number_float x) @ r) = (Value_float x, r)" "hd (json_text (Number_float x)) \<noteq> CHR 0xEF"
proof -
  obtain q where q: "x = Fin q" "exact64 q" using assms by (cases x) simp_all
  obtain neg ds fs ex e where p: "to_chars (Fin q) = Some ((if neg then ''-'' else []) @ decimal_text ds fs ex)" "good_decimal ds fs ex e"
    "r64 (if neg then - decimal_value ds fs e else decimal_value ds fs e) = Fin q"
    by (rule to_chars_printed[OF q(2)])
  let ?t = "(if neg then ''-'' else []) @ decimal_text ds fs ex"
  have t: "json_text (Number_float x) = ?t" using p(1) q(1) by simp
  have "strtod_double ?t = x" unfolding strtod_double_def strtod_decimal[OF p(2)] using p(3) q(1) by simp
  then show "scan False (json_text (Number_float x) @ r) = (Value_float x, r)"
    using scan_decimal[OF p(2) assms(3), of neg] unfolding t by simp
  obtain c cs where c: "ds = c # cs" "c_isdigit c" using p(2) by (cases ds) (simp_all add: good_decimal_def)
  have "c \<noteq> CHR 0xEF" using c(2) by (auto simp: c_isdigit_def)
  then show "hd (json_text (Number_float x)) \<noteq> CHR 0xEF" unfolding t by (simp add: decimal_text_def c(1))
qed

subsection \<open>Values\<close>

text \<open>Signed integers that are not negative come back unsigned.\<close>

fun canonical :: "json \<Rightarrow> json" where
  "canonical (Number_integer i) = (if 0 \<le> i then Number_unsigned (word_of_int i) else Number_integer i)"
| "canonical (Array xs) = Array (map canonical xs)"
| "canonical (Object m) = Object (map (\<lambda>(k, v). (k, canonical v)) m)"
| "canonical j = j"

definition parse_value :: "bool list \<Rightarrow> dom \<Rightarrow> string \<Rightarrow> json_exception + dom \<times> string" where
  "parse_value states d s = (case scan False s of (t, r) \<Rightarrow> sax_parse_internal False states d t r)"

definition resume :: "bool list \<Rightarrow> dom \<Rightarrow> string \<Rightarrow> json_exception + dom \<times> string" where
  "resume states d s = sax_parse_internal True states d End_array s"

lemma resume_unfold:
  "resume states d s = (case states of [] \<Rightarrow> Inr (d, s)
     | a # outer \<Rightarrow> (case after_value a d s of
           Next_failed e \<Rightarrow> Inl e
         | More d' t u \<Rightarrow> sax_parse_internal False states d' t u
         | Closed d' u \<Rightarrow> sax_parse_internal True outer d' (if a then End_array else End_object) u))"
  unfolding resume_def sax_parse_internal.simps[of True states d End_array s] by simp

lemma resume_eq: "sax_parse_internal True states d t s = resume states d s"
  unfolding resume_unfold sax_parse_internal.simps[of True states d t s] by simp

lemma parse_value_read:
  assumes "scan False s = (t, r)" "parse_token d t r = Value_read d' u"
  shows "parse_value states d s = resume states d' u"
  unfolding parse_value_def assms(1) prod.case sax_parse_internal.simps[of False states d t r] resume_unfold
  by (simp add: assms(2))

lemma parse_value_enter:
  assumes "scan False s = (t, r)" "parse_token d t r = Entered a d' t' u"
  shows "parse_value states d s = sax_parse_internal False (a # states) d' t' u"
  unfolding parse_value_def assms(1) prod.case sax_parse_internal.simps[of False states d t r]
  by (simp add: assms(2))

lemma resume_nil: "resume [] d s = Inr (d, s)"
  by (simp add: resume_unfold)

lemma resume_more:
  "after_value a d s = More d' t u \<Longrightarrow> resume (a # states) d s = sax_parse_internal False (a # states) d' t u"
  by (simp add: resume_unfold[of "a # states"])

lemma resume_closed: "after_value a d s = Closed d' u \<Longrightarrow> resume (a # states) d s = resume states d' u"
  by (simp add: resume_unfold[of "a # states"] resume_eq)

text \<open>Punctuation.\<close>

lemma scan_punctuation:
  "scan False (CHR ''['' # s) = (Begin_array, s)" "scan False (CHR '']'' # s) = (End_array, s)"
  "scan False (CHR 0x7B # s) = (Begin_object, s)" "scan False (CHR 0x7D # s) = (End_object, s)"
  "scan False (CHR '':'' # s) = (Name_separator, s)" "scan False (CHR '','' # s) = (Value_separator, s)"
  by (simp_all add: scan_def skip_whitespace_def json_space_def scan_token_def)

lemma scan_quoted: "valid_utf8 k \<Longrightarrow> scan False (CHR 0x22 # escape k @ CHR 0x22 # s) = (Value_string k, s)"
  using scan_string_escape[of k "[]" s]
  by (simp add: scan_def skip_whitespace_def json_space_def scan_token_def c_isdigit_def)

lemma scan_words:
  "scan False (CHR ''t'' # CHR ''r'' # CHR ''u'' # CHR ''e'' # s) = (Literal_true, s)"
  "scan False (CHR ''f'' # CHR ''a'' # CHR ''l'' # CHR ''s'' # CHR ''e'' # s) = (Literal_false, s)"
  "scan False (CHR ''n'' # CHR ''u'' # CHR ''l'' # CHR ''l'' # s) = (Literal_null, s)"
  by (simp_all add: scan_def skip_whitespace_def json_space_def scan_token_def)

definition reads_back :: "json \<Rightarrow> bool" where
  "reads_back j \<longleftrightarrow> (\<forall>states d r. stops r \<longrightarrow>
     parse_value states d (json_text j @ r) = resume states (handle_value (canonical j) d) r)"

lemma reads_backD:
  "reads_back j \<Longrightarrow> stops r \<Longrightarrow>
   parse_value states d (json_text j @ r) = resume states (handle_value (canonical j) d) r"
  by (simp add: reads_back_def)

lemma stops_simps [simp]: "stops []" "stops (CHR '','' # s)" "stops (CHR '']'' # s)" "stops (CHR 0x7D # s)"
  by (simp_all add: stops_def)

lemma reads_backI:
  assumes "\<And>r. stops r \<Longrightarrow> scan False (json_text j @ r) = (t, r)"
    and "\<And>d r. parse_token d t r = Value_read (handle_value (canonical j) d) r"
  shows "reads_back j"
  unfolding reads_back_def using parse_value_read[OF assms(1) assms(2)] by blast

lemma scalars_read_back:
  "reads_back Null" "reads_back (Boolean b)" "valid_utf8 s \<Longrightarrow> reads_back (String s)"
  "wf_json (Number_integer i) \<Longrightarrow> reads_back (Number_integer i)" "reads_back (Number_unsigned u)"
  "wf_json (Number_float x) \<Longrightarrow> reads_back (Number_float x)"
proof -
  show "reads_back Null" by (rule reads_backI[where t = Literal_null]) (simp_all add: scan_words parse_token_def)
  show "reads_back (Boolean b)"
    by (rule reads_backI[where t = "if b then Literal_true else Literal_false"])
      (simp_all add: scan_words parse_token_def)
  show "valid_utf8 s \<Longrightarrow> reads_back (String s)"
    by (rule reads_backI[where t = "Value_string s"]) (simp_all add: scan_quoted parse_token_def)
  show "wf_json (Number_integer i) \<Longrightarrow> reads_back (Number_integer i)"
    by (rule reads_backI[where t = "if 0 \<le> i then Value_unsigned (word_of_int i) else Value_integer i"])
      (simp_all add: scan_show_int parse_token_def)
  show "wf_json (Number_float x) \<Longrightarrow> reads_back (Number_float x)"
    by (rule reads_backI[where t = "Value_float x"]) (simp_all add: scan_double parse_token_def del: json_text.simps(7))
  have "- (2 ^ 63) \<le> uint u" by (rule order_trans[of _ 0]) simp_all
  then show "reads_back (Number_unsigned u)"
    by (intro reads_backI[where t = "Value_unsigned u"]) (use uint_bounded[of u] in \<open>simp_all add: scan_show_int parse_token_def\<close>)
qed

subsection \<open>Arrays\<close>

text \<open>The first token of a value closes nothing.\<close>

lemma first_token:
  assumes "wf_json j" "stops r"
  shows "fst (scan False (json_text j @ r)) \<noteq> End_array"
proof (cases j)
  case (Number_unsigned u)
  have "- (2 ^ 63) \<le> uint u" by (rule order_trans[of _ 0]) simp_all
  then show ?thesis using Number_unsigned uint_bounded[of u] by (simp add: scan_show_int assms(2))
qed (use assms in \<open>simp_all add: scan_words scan_quoted scan_show_int scan_punctuation scan_double(1) del: json_text.simps(7)\<close>)

lemma elements_read_back:
  assumes "xs \<noteq> []" "\<forall>x \<in> set xs. reads_back x"
  shows "parse_value (True # states) d (join CHR '','' (map json_text xs) @ CHR '']'' # r) =
    resume states (end_container (fold (\<lambda>x. handle_value (canonical x)) xs d)) r"
  using assms
proof (induction xs arbitrary: d rule: induct_list012)
  case (2 x)
  have "parse_value (True # states) d (json_text x @ CHR '']'' # r) =
      resume (True # states) (handle_value (canonical x) d) (CHR '']'' # r)"
    using 2 by (simp add: reads_backD)
  then show ?case
    using resume_closed[of True "handle_value (canonical x) d" "CHR '']'' # r"]
    by (simp add: after_value_def after_element_def scan_punctuation)
next
  case (3 x y zs)
  let ?rest = "join CHR '','' (map json_text (y # zs)) @ CHR '']'' # r"
  let ?d = "handle_value (canonical x) d"
  obtain t u where t: "scan False ?rest = (t, u)" by (cases "scan False ?rest")
  have "parse_value (True # states) d (join CHR '','' (map json_text (x # y # zs)) @ CHR '']'' # r) =
      parse_value (True # states) d (json_text x @ CHR '','' # ?rest)"
    by simp
  also have "\<dots> = resume (True # states) ?d (CHR '','' # ?rest)"
    using 3 by (simp add: reads_backD)
  also have "\<dots> = parse_value (True # states) ?d ?rest"
    using resume_more[of True ?d "CHR '','' # ?rest" ?d t u states] t
    by (simp add: after_value_def after_element_def scan_punctuation parse_value_def)
  also have "\<dots> = resume states (end_container (fold (\<lambda>x. handle_value (canonical x)) (y # zs) ?d)) r"
    by (rule "3.IH"(2)) (use 3 in simp_all)
  finally show ?case by simp
qed simp

lemma fold_elements:
  "ref_stack d = In_array ys # fs \<Longrightarrow>
   fold (\<lambda>x. handle_value (canonical x)) xs d = d\<lparr>ref_stack := In_array (ys @ map canonical xs) # fs\<rparr>"
  by (induction xs arbitrary: d ys) (simp_all add: handle_value_def)

lemma array_reads_back:
  assumes "\<forall>x \<in> set xs. reads_back x" "\<forall>x \<in> set xs. wf_json x"
  shows "reads_back (Array xs)"
  unfolding reads_back_def
proof (intro allI impI)
  fix states d r
  show "parse_value states d (json_text (Array xs) @ r) = resume states (handle_value (canonical (Array xs)) d) r"
  proof (cases xs)
    case Nil
    have "parse_token d Begin_array (CHR '']'' # r) = Value_read (handle_value (Array []) d) r"
      by (simp add: parse_token_def parse_array_def scan_punctuation end_container_def start_array_def)
    then show ?thesis using Nil parse_value_read[of "''[]'' @ r" Begin_array "CHR '']'' # r" d]
      by (simp add: scan_punctuation)
  next
    case (Cons x zs)
    let ?body = "join CHR '','' (map json_text xs) @ CHR '']'' # r"
    obtain t u where t: "scan False ?body = (t, u)" by (cases "scan False ?body")
    have "\<exists>w. ?body = json_text x @ w \<and> stops w" using Cons by (cases zs) auto
    then have "t \<noteq> End_array" using first_token[of x] assms(2) Cons t by fastforce
    then have "parse_token d Begin_array ?body = Entered True (start_array d) t u"
      using t by (simp add: parse_token_def parse_array_def)
    then have "parse_value states d (json_text (Array xs) @ r) = sax_parse_internal False (True # states) (start_array d) t u"
      by (intro parse_value_enter[of _ Begin_array ?body]) (simp_all add: scan_punctuation)
    also have "\<dots> = parse_value (True # states) (start_array d) ?body"
      using t by (simp add: parse_value_def)
    also have "\<dots> = resume states (end_container (fold (\<lambda>x. handle_value (canonical x)) xs (start_array d))) r"
      by (rule elements_read_back) (use assms Cons in simp_all)
    also have "fold (\<lambda>x. handle_value (canonical x)) xs (start_array d) =
        d\<lparr>ref_stack := In_array (map canonical xs) # ref_stack d\<rparr>"
      using fold_elements[of "start_array d" "[]" "ref_stack d" xs] by (simp add: start_array_def)
    finally show ?thesis by (simp add: end_container_def)
  qed
qed


subsection \<open>Objects\<close>

definition put_member :: "string \<times> json \<Rightarrow> dom \<Rightarrow> dom" where
  "put_member p d = handle_value (canonical (snd p)) (add_key (fst p) d)"

definition member_text :: "string \<times> json \<Rightarrow> string" where
  "member_text p = [CHR 0x22] @ escape (fst p) @ [CHR 0x22, CHR '':''] @ json_text (snd p)"

lemma object_text: "json_text (Object m) = [CHR 0x7B] @ join CHR '','' (map member_text m) @ [CHR 0x7D]"
  by (simp add: member_text_def[abs_def] case_prod_beta')

lemma parse_member_value:
  assumes "scan False s = (t, u)"
  shows "parse_member d (Value_string k) (CHR '':'' # s) = Some (add_key k d, t, u)"
  using assms by (simp add: parse_member_def scan_punctuation)

lemma members_read_back:
  assumes "\<forall>p \<in> set (p # m). valid_utf8 (fst p) \<and> reads_back (snd p)"
  shows "parse_value (False # states) (add_key (fst p) d)
      (json_text (snd p) @ (if m = [] then [] else CHR '','' # join CHR '','' (map member_text m)) @ CHR 0x7D # r) =
    resume states (end_container (fold put_member (p # m) d)) r"
  using assms
proof (induction m arbitrary: p d)
  case Nil
  have "parse_value (False # states) (add_key (fst p) d) (json_text (snd p) @ CHR 0x7D # r) =
      resume (False # states) (put_member p d) (CHR 0x7D # r)"
    using Nil by (simp add: reads_backD put_member_def)
  then show ?case
    using resume_closed[of False "put_member p d" "CHR 0x7D # r"]
    by (simp add: after_value_def after_member_def scan_punctuation)
next
  case (Cons q m)
  define rest where "rest = (if m = [] then [] else CHR '','' # join CHR '','' (map member_text m)) @ CHR 0x7D # r"
  obtain t u where t: "scan False (json_text (snd q) @ rest) = (t, u)"
    by (cases "scan False (json_text (snd q) @ rest)")
  have shape: "join CHR '','' (map member_text (q # m)) @ CHR 0x7D # r =
      CHR 0x22 # escape (fst q) @ CHR 0x22 # CHR '':'' # json_text (snd q) @ rest"
    by (cases m) (simp_all add: rest_def member_text_def)
  have "after_value False (put_member p d) (CHR '','' # join CHR '','' (map member_text (q # m)) @ CHR 0x7D # r) =
      More (add_key (fst q) (put_member p d)) t u"
    unfolding shape after_value_def after_member_def
    using Cons.prems parse_member_value[OF t] by (simp add: scan_punctuation scan_quoted)
  note more = resume_more[OF this]
  have "parse_value (False # states) (add_key (fst p) d)
      (json_text (snd p) @ CHR '','' # join CHR '','' (map member_text (q # m)) @ CHR 0x7D # r) =
      resume (False # states) (put_member p d) (CHR '','' # join CHR '','' (map member_text (q # m)) @ CHR 0x7D # r)"
    using Cons.prems by (simp add: reads_backD put_member_def del: join.simps list.map)
  also have "\<dots> = parse_value (False # states) (add_key (fst q) (put_member p d)) (json_text (snd q) @ rest)"
    unfolding more by (simp add: parse_value_def t)
  also have "\<dots> = resume states (end_container (fold put_member (q # m) (put_member p d))) r"
    unfolding rest_def by (rule Cons.IH) (use Cons.prems in simp)
  finally show ?case by simp
qed

lemma fold_members:
  assumes "ref_stack d = In_object acc k # fs" "ordered (acc @ map (\<lambda>(k, v). (k, canonical v)) m)"
  shows "\<exists>k'. fold put_member m d = d\<lparr>ref_stack := In_object (acc @ map (\<lambda>(k, v). (k, canonical v)) m) k' # fs\<rparr>"
  using assms
proof (induction m arbitrary: d acc k)
  case Nil
  then show ?case by (intro exI[of _ k]) simp
next
  case (Cons p m)
  obtain key v where p: "p = (key, v)" by (cases p)
  have less: "\<forall>x \<in> fst ` set acc. x < key"
    using Cons.prems(2) p by (auto simp: ordered_def sorted_wrt_append)
  then have "map_of acc key = None" by (auto simp: map_of_eq_None_iff)
  then have put: "put_member p d = d\<lparr>ref_stack := In_object (acc @ [(key, canonical v)]) (Some key) # fs\<rparr>"
    using Cons.prems(1) p obj_put_greatest[OF less]
    by (simp add: put_member_def add_key_def handle_value_def flip: obj_put_greatest[OF less])
  show ?case
    using Cons.IH[of "put_member p d" "acc @ [(key, canonical v)]" "Some key"] Cons.prems(2) put p by simp
qed

lemma object_reads_back:
  assumes "ordered m" "\<forall>p \<in> set m. valid_utf8 (fst p) \<and> reads_back (snd p)"
  shows "reads_back (Object m)"
  unfolding reads_back_def
proof (intro allI impI)
  fix states d r
  show "parse_value states d (json_text (Object m) @ r) = resume states (handle_value (canonical (Object m)) d) r"
  proof (cases m)
    case Nil
    have "parse_token d Begin_object (CHR 0x7D # r) = Value_read (handle_value (Object []) d) r"
      by (simp add: parse_token_def parse_object_def scan_punctuation end_container_def start_object_def)
    then show ?thesis using Nil parse_value_read[of "[CHR 0x7B, CHR 0x7D] @ r" Begin_object "CHR 0x7D # r" d]
      by (simp add: scan_punctuation)
  next
    case (Cons p m')
    define rest where "rest = (if m' = [] then [] else CHR '','' # join CHR '','' (map member_text m')) @ CHR 0x7D # r"
    obtain t u where t: "scan False (json_text (snd p) @ rest) = (t, u)"
      by (cases "scan False (json_text (snd p) @ rest)")
    let ?body = "CHR 0x22 # escape (fst p) @ CHR 0x22 # CHR '':'' # json_text (snd p) @ rest"
    have shape: "json_text (Object m) @ r = CHR 0x7B # ?body"
      unfolding object_text Cons by (cases m') (simp_all add: rest_def member_text_def)
    have "parse_token d Begin_object ?body = Entered False (add_key (fst p) (start_object d)) t u"
      using assms(2) Cons parse_member_value[OF t]
      by (simp add: parse_token_def parse_object_def scan_quoted)
    then have "parse_value states d (json_text (Object m) @ r) =
        sax_parse_internal False (False # states) (add_key (fst p) (start_object d)) t u"
      unfolding shape by (intro parse_value_enter[of _ Begin_object ?body]) (simp_all only: scan_punctuation)
    also have "\<dots> = parse_value (False # states) (add_key (fst p) (start_object d)) (json_text (snd p) @ rest)"
      using t by (simp add: parse_value_def)
    also have "\<dots> = resume states (end_container (fold put_member (p # m') (start_object d))) r"
      unfolding rest_def by (rule members_read_back) (use assms Cons in simp)
    finally have step: "parse_value states d (json_text (Object m) @ r) =
        resume states (end_container (fold put_member m (start_object d))) r"
      unfolding Cons .
    obtain k' where "fold put_member m (start_object d) =
        (start_object d)\<lparr>ref_stack := In_object (map (\<lambda>(k, v). (k, canonical v)) m) k' # ref_stack d\<rparr>"
      using fold_members[of "start_object d" "[]" None "ref_stack d" m] assms(1)
      by (auto simp: start_object_def ordered_def case_prod_beta' comp_def)
    then show ?thesis unfolding step by (simp add: end_container_def start_object_def)
  qed
qed

subsection \<open>The whole text\<close>

lemma value_reads_back: "wf_json j \<Longrightarrow> reads_back j"
proof (induction j)
  case (Array xs)
  then show ?case by (intro array_reads_back) (simp_all add: list_all_iff)
next
  case (Object m)
  have "reads_back (snd p)" if "p \<in> set m" for p
  proof -
    have "wf_json (snd p)" using Object.prems that by (auto simp: list_all_iff)
    then show ?thesis using Object.IH[OF that, of "snd p"] by (cases p) (simp add: snds.simps)
  qed
  then show ?case using Object.prems by (intro object_reads_back) (simp_all add: list_all_iff)
qed (simp_all add: scalars_read_back)

lemma json_parse_value:
  assumes "scan True s = scan False s"
  shows "json_parse s = (case parse_value [] new_dom s of
      Inl e \<Rightarrow> Inl e
    | Inr (d, t) \<Rightarrow> if fst (scan False t) = End_of_input then Inr (root d) else Inl Parse_error_101)"
  using assms by (simp add: json_parse_def parse_value_def split: prod.split)

lemma no_bom: "s = [] \<or> hd s \<noteq> CHR 0xEF \<Longrightarrow> scan True s = scan False s"
  by (cases s) (simp_all add: scan_def skip_bom_def)

lemma parse_text:
  assumes "wf_json j"
  shows "json_parse (json_text j) = Inr (canonical j)"
proof -
  have first: "hd (json_text j) \<noteq> CHR 0xEF"
  proof -
    have "hd (show_int i) \<noteq> CHR 0xEF" for i
    proof -
      have "c_isdigit (hd (show_nat (nat i)))" using show_nat_digits[of "nat i"] by simp
      then have "hd (show_nat (nat i)) \<noteq> CHR 0xEF" by (auto simp: c_isdigit_def)
      then show ?thesis by (simp add: show_int_def)
    qed
    then show ?thesis using assms scan_double(2)[where r = "[]"] by (cases j) (simp_all del: json_text.simps(7))
  qed
  have "parse_value [] new_dom (json_text j @ []) = resume [] (handle_value (canonical j) new_dom) []"
    using value_reads_back[OF assms] by (rule reads_backD) simp
  then show ?thesis
    using json_parse_value[OF no_bom[OF disjI2[OF first]]]
    by (simp add: resume_nil handle_value_def new_dom_def scan_def skip_whitespace_def)
qed

subsection \<open>Properties\<close>

text \<open>
  C26. What the serializer writes for a well-formed value, floating-point numbers included, the parser
  reads back as the same value; only the sign of the type of a non-negative signed integer is lost.
\<close>

theorem dump_reads_back:
  assumes "wf_json j"
  shows "\<exists>t. dump j = Some (Inr t) \<and> json_parse t = Inr (canonical j)"
  using dump_text[OF assms(1)] parse_text[OF assms(1)] by blast

definition sample_json :: json where
  "sample_json = Object [(''a'', Array [Null, Boolean True, Number_unsigned 7, Number_integer (-12)]),
     (''b'', Number_float (Fin (- 3 / 2))), (''c'', String [CHR 0x0A, CHR 0x22, CHR 0xC3, CHR 0xA9])]"

lemma sample_json_ok: "wf_json sample_json"
proof -
  have "valid_utf8 [CHR 0x0A, CHR 0x22, CHR 0xC3, CHR 0xA9]" "valid_utf8 ''a''" "valid_utf8 ''b''" "valid_utf8 ''c''"
    by code_simp+
  moreover have "ordered [(''a'', Array [Null, Boolean True, Number_unsigned 7, Number_integer (-12)]),
     (''b'', Number_float (Fin (- 3 / 2))), (''c'', String [CHR 0x0A, CHR 0x22, CHR 0xC3, CHR 0xA9])]"
    by (simp add: ordered_def)
  moreover have "exact64 (- 3 / 2)"
    unfolding exact64_def representable_def
    by (rule conjI, rule exI[of _ "- 3"], rule exI[of _ "- 1"]) (simp_all add: power_int_minus)
  ultimately show "wf_json sample_json" by (simp add: sample_json_def ordered_def)
qed

theorem dump_reads_back_witness:
  "\<exists>t. dump sample_json = Some (Inr t) \<and> json_parse t = Inr (canonical sample_json)"
  by (rule dump_reads_back) (rule sample_json_ok)+

text \<open>
  C98. Every finite double is printed: no assertion of the printer fails, nothing wraps around, at most 17
  digits are needed and the text fits its buffer.  Reading the text gives the same double back.
\<close>

theorem double_text_reads_back:
  assumes "exact64 x"
  shows "\<exists>t. dump_float (Fin x) = Some (Inr t) \<and> length t \<le> 64 \<and> strtod_double t = Fin x"
proof -
  obtain neg ds fs ex e where p: "to_chars (Fin x) = Some ((if neg then ''-'' else []) @ decimal_text ds fs ex)" "good_decimal ds fs ex e"
    "r64 (if neg then - decimal_value ds fs e else decimal_value ds fs e) = Fin x"
    by (rule to_chars_printed[OF assms])
  have "length ((if neg then ''-'' else []) @ decimal_text ds fs ex) \<le> 64" by (rule to_chars_fits[OF p(1)])
  then show ?thesis using p by (simp add: dump_float_def strtod_double_def strtod_decimal[OF p(2)])
qed

theorem double_text_reads_back_witness:
  "\<exists>t. dump_float (Fin (3602879701896397 / 36028797018963968)) = Some (Inr t) \<and> length t \<le> 64 \<and>
     strtod_double t = Fin (3602879701896397 / 36028797018963968)"
proof (rule double_text_reads_back)
  show "exact64 (3602879701896397 / 36028797018963968)"
    unfolding exact64_def representable_def
    by (rule conjI, rule exI[of _ 3602879701896397], rule exI[of _ "- 55"]) (simp_all add: power_int_minus)
qed

text \<open>The text is not always the shortest one: here one digit less would do.\<close>

lemma not_always_shortest:
  "to_chars (Fin 60794072247871424) = Some ''6.0794072247871424e+16''"
  "strtod_double ''6.079407224787142e+16'' = Fin 60794072247871424"
  by code_simp+

text \<open>
  C27. The lexer's byte ranges and the serializer's automaton accept the same strings: an escaped
  string between quotes is scanned back unchanged exactly when the automaton accepts it.
\<close>

theorem lexer_and_automaton_agree:
  "scan_string [] (escape s @ CHR 0x22 # u) = (Value_string s, u) \<longleftrightarrow> valid_utf8 s"
  using scan_string_escape[of s "[]" u] scan_string_valid[of "[]" _ s u] by auto

text \<open>
  C28. \<open>dump_escaped\<close> never writes outside its buffer of 512 bytes, whatever the string and the error
  handler; a strict one throws exactly when the string is not UTF-8 and otherwise escapes it.
\<close>

theorem escape_buffer_safe:
  "(\<exists>r. dump_escaped h ensure_ascii s = Some r) \<and>
   dump_escaped Strict False s = Some (if valid_utf8 s then Inr (escape s) else Inl Type_error_316)"
  using dump_escaped_defined dump_escaped_strict by blast

text \<open>
  C29. The digit-pair loop of \<open>dump_integer\<close> stays in \<open>number_buffer\<close> and writes the decimal form of
  every integer of the types it is called with, whatever the buffer held.
\<close>

theorem dump_integer_is_decimal:
  assumes "- (2 ^ 63) \<le> x" "x < 2 ^ 64" "length number_buffer = 64"
  shows "dump_integer number_buffer x = Some (show_int x)"
  by (rule dump_integer_show[OF assms])

theorem dump_integer_is_decimal_witness:
  "dump_integer (replicate 64 CHR ''x'') (- 9223372036854775808) = Some (show_int (- 9223372036854775808))"
  by (rule dump_integer_is_decimal) simp_all

end
