(* ===== verification/ListenerCore.thy ===== *)
theory ListenerCore imports JsonRoundtrip Shmem begin

section \<open>The Listener\<close>

text \<open>
  \<open>Listener/listener.cpp\<close> and \<open>Listener/getpids.c\<close>: the server that reads one JSON document per
  connection and registers a Primary or the containers of a Secondary in the shared memory.
  Files and directories are functions from paths.  A C string is what stands before the first NUL.
  An exception that \<open>handle_connection\<close> does not catch ends the process; what it has written to
  the shared memory stays.  \<open>None\<close> is undefined behaviour.
\<close>

subsection \<open>Conversions of the standard library\<close>

datatype std_exception = Invalid_argument | Out_of_range

definition c_str :: "string \<Rightarrow> string" where
  "c_str s = takeWhile (\<lambda>c. c \<noteq> CHR 0x00) s"

text \<open>\<open>std::stoi\<close>\<close>

definition stoi :: "string \<Rightarrow> std_exception + int" where
  "stoi s = (case read_signed (c_str s) of
       None \<Rightarrow> Inl Invalid_argument
     | Some (v, _) \<Rightarrow> if in_int v then Inr v else Inl Out_of_range)"

text \<open>
  \<open>strtof\<close> sets \<open>ERANGE\<close> on overflow, and on a result that is inexact and, with an unlimited
  exponent, below the least normal number.
\<close>

definition float_erange :: "rat \<Rightarrow> bool" where
  "float_erange q \<longleftrightarrow> (case r32 q of
       Fin y \<Rightarrow> y \<noteq> q \<and> \<bar>rnd 24 (ilog2 \<bar>q\<bar>) q\<bar> < 2 powi (- 126)
     | _ \<Rightarrow> True)"

text \<open>\<open>std::stof\<close>\<close>

definition stof :: "string \<Rightarrow> std_exception + fp" where
  "stof s = (case strtod (c_str s) of
       None \<Rightarrow> Inl Invalid_argument
     | Some (Number q, _) \<Rightarrow> if q \<noteq> 0 \<and> float_erange q then Inl Out_of_range else Inr (r32 q)
     | Some (Infinity neg, _) \<Rightarrow> Inr (fp_signed_inf neg)
     | Some (Not_a_number, _) \<Rightarrow> Inr NaN)"

subsection \<open>The entry that is filled in\<close>

definition set_primary :: "(primary_ctr_info \<Rightarrow> primary_ctr_info) \<Rightarrow> idleStats \<Rightarrow> idleStats option" where
  "set_primary f shm = do {
     p \<leftarrow> arr_get (is_primary_ctrs shm) (is_nr_primary_ctrs shm);
     ps \<leftarrow> arr_set (is_primary_ctrs shm) (is_nr_primary_ctrs shm) (f p);
     Some (shm\<lparr>is_primary_ctrs := ps\<rparr>) }"

definition get_primary :: "idleStats \<Rightarrow> primary_ctr_info option" where
  "get_primary shm = arr_get (is_primary_ctrs shm) (is_nr_primary_ctrs shm)"

text \<open>The local \<open>curr_cpuid\<close> is uninitialised (\<open>None\<close>) until a token converts.\<close>

definition listener_cpu ::
  "string \<Rightarrow> int \<times> int option \<times> idleStats \<Rightarrow> (int \<times> int option \<times> idleStats) option" where
  "listener_cpu token = (\<lambda>(curr_cpu, curr_cpuid, shm). do {
     v \<leftarrow> sscanf_d token;
     cpuid \<leftarrow> (case v of Some x \<Rightarrow> Some x | None \<Rightarrow> curr_cpuid);
     p \<leftarrow> get_primary shm;
     l \<leftarrow> arr_set (ci_cpuList p) curr_cpu cpuid;
     shm \<leftarrow> set_primary (\<lambda>p. p\<lparr>ci_cpuList := l\<rparr>) shm;
     n \<leftarrow> c_add curr_cpu 1;
     Some (n, Some cpuid, shm) })"

definition listener_parseCpuList :: "string \<Rightarrow> idleStats \<Rightarrow> (int \<times> idleStats) option" where
  "listener_parseCpuList cpuList shm = do {
     (curr_cpu, _, shm) \<leftarrow> while_strsep CHR '','' listener_cpu (Some (c_str cpuList)) (0, None, shm);
     shm \<leftarrow> set_primary (\<lambda>p. p\<lparr>ci_NUMCPUS := curr_cpu\<rparr>) shm;
     Some (0, shm) }"

subsection \<open>The tasks of a Secondary\<close>

text \<open>
  The files and directories the Listener opens: the bytes of a file, and the entries of a
  directory, each with its name and whether it is a directory; \<open>None\<close> when it does not open.
\<close>

record host =
  h_file :: "string \<Rightarrow> string option"
  h_dir :: "string \<Rightarrow> (bool \<times> string) list option"

text \<open>\<open>snprintf\<close> into a buffer of \<open>PATH_MAX\<close> bytes, terminator included.\<close>

definition cut_path :: "string \<Rightarrow> string" where
  "cut_path s = take 4095 s"

definition pods_path :: string where
  "pods_path = ''/sys/fs/cgroup/cpuset/kubepods/besteffort/''"

text \<open>What \<open>getline\<close> returns, call after call.\<close>

fun file_lines :: "string \<Rightarrow> string \<Rightarrow> string list" where
  "file_lines acc [] = (if acc = [] then [] else [acc])"
| "file_lines acc (c # s) =
     (if c = CHR 0x0A then (acc @ [c]) # file_lines [] s else file_lines (acc @ [c]) s)"

definition harvest_launcher :: string where
  "harvest_launcher = ''harvest_launcher''"

text \<open>The entry added for a task that is the launcher.\<close>

definition add_secondary :: "string \<Rightarrow> idleStats \<Rightarrow> idleStats option" where
  "add_secondary tid shm = do {
     let n = is_nr_secondary_ctrs shm;
     pid \<leftarrow> atoi tid;
     pids \<leftarrow> arr_set (is_secondary_pid_list shm) n pid;
     c \<leftarrow> arr_get (is_secondary_ctrs shm) n;
     cs \<leftarrow> arr_set (is_secondary_ctrs shm) n (c\<lparr>ct_parent_pid := pid, ct_nr_pids := 0\<rparr>);
     n' \<leftarrow> c_add n 1;
     Some (shm\<lparr>is_secondary_pid_list := pids, is_secondary_ctrs := cs, is_nr_secondary_ctrs := n'\<rparr>) }"

text \<open>
  The loop over the lines of a tasks file.  \<open>proc_name\<close> is allocated zeroed for each container and
  keeps the bytes of earlier command lines past the end of a shorter one.
\<close>

fun scan_tasks :: "host \<Rightarrow> string \<Rightarrow> string list \<Rightarrow> idleStats \<Rightarrow> (int \<times> idleStats) option" where
  "scan_tasks h proc_name [] shm = Some (0, shm\<lparr>is_updatingPids := 0\<rparr>)"
| "scan_tasks h proc_name (line # lines) shm =
     (let tid = c_str (takeWhile (\<lambda>c. c \<noteq> CHR 0x0A) line) in
      case h_file h (cut_path (''/proc/'' @ tid @ ''/cmdline'')) of
        None \<Rightarrow> Some (- 1, shm\<lparr>is_updatingPids := 0\<rparr>)
      | Some cmdline \<Rightarrow>
          if cmdline = [] then Some (- 1, shm\<lparr>is_updatingPids := 0\<rparr>)
          else
            (let got = take 1024 cmdline; proc_name = got @ drop (length got) proc_name in
             if c_str proc_name = harvest_launcher
             then do {
               shm \<leftarrow> add_secondary tid shm;
               Some (0, shm\<lparr>is_updatingPids := 0\<rparr>) }
             else scan_tasks h proc_name lines shm))"

definition get_container_tasks ::
  "host \<Rightarrow> string \<Rightarrow> string \<Rightarrow> idleStats \<Rightarrow> (int \<times> idleStats) option" where
  "get_container_tasks h pod_id container_id shm =
     (case h_file h (cut_path (pods_path @ pod_id @ ''/'' @ container_id @ ''/tasks'')) of
        None \<Rightarrow> Some (- 1, shm)
      | Some text \<Rightarrow>
          scan_tasks h (replicate 1024 CHR 0x00) (file_lines [] text) (shm\<lparr>is_updatingPids := 1\<rparr>))"

fun scan_pod :: "host \<Rightarrow> string \<Rightarrow> (bool \<times> string) list \<Rightarrow> int \<times> idleStats \<Rightarrow> (int \<times> idleStats) option" where
  "scan_pod h pod_id [] st = Some st"
| "scan_pod h pod_id ((is_dir, name) # entries) (total_pids, shm) =
     (if \<not> is_dir \<or> name = ''.'' \<or> name = ''..'' then scan_pod h pod_id entries (total_pids, shm)
      else do {
        (r, shm) \<leftarrow> get_container_tasks h pod_id name shm;
        n \<leftarrow> c_add total_pids r;
        scan_pod h pod_id entries (n, shm) })"

definition get_containers :: "host \<Rightarrow> string \<Rightarrow> idleStats \<Rightarrow> (int \<times> idleStats) option" where
  "get_containers h pod_id shm =
     (case h_dir h (cut_path (pods_path @ pod_id)) of
        None \<Rightarrow> Some (0, shm)
      | Some entries \<Rightarrow> scan_pod h pod_id entries (0, shm))"

subsection \<open>One connection\<close>

text \<open>
  The results of the calls of \<open>read\<close>: the bytes of each, empty when the call returns 0 or fails,
  the time-out of a second included.
\<close>

definition read_payload :: "bool \<Rightarrow> string list \<Rightarrow> string" where
  "read_payload timeout_set reads = (if timeout_set then concat (takeWhile (\<lambda>b. b \<noteq> []) reads) else [])"

text \<open>\<open>idleCpuStats->primary_ctrs[...].field = std::stof(s)\<close> and the same with \<open>std::stoi\<close>.\<close>

type_synonym store = "idleStats \<Rightarrow> (std_exception option \<times> idleStats) option"

definition store_float :: "string \<Rightarrow> (fp \<Rightarrow> primary_ctr_info \<Rightarrow> primary_ctr_info) \<Rightarrow> store" where
  "store_float s f shm = (case stof s of
       Inl e \<Rightarrow> Some (Some e, shm)
     | Inr x \<Rightarrow> map_option (Pair None) (set_primary (f x) shm))"

definition store_int :: "string \<Rightarrow> (int \<Rightarrow> primary_ctr_info \<Rightarrow> primary_ctr_info) \<Rightarrow> store" where
  "store_int s f shm = (case stoi s of
       Inl e \<Rightarrow> Some (Some e, shm)
     | Inr x \<Rightarrow> map_option (Pair None) (set_primary (f x) shm))"

fun run_stores :: "store list \<Rightarrow> store" where
  "run_stores [] shm = Some (None, shm)"
| "run_stores (f # fs) shm = (case f shm of
     None \<Rightarrow> None
   | Some (Some e, shm') \<Rightarrow> Some (Some e, shm')
   | Some (None, shm') \<Rightarrow> run_stores fs shm')"

record primary_fields =
  pf_cpuList :: string
  pf_LOWIDLEFREQ_THRESHOLD :: string
  pf_LOW_TIC :: string
  pf_targetIdleCores :: string
  pf_static_targetIdleCores :: string
  pf_minSecondaryCores :: string

text \<open>The conversions \<open>std::string s = json[key]\<close>, in the order of the source.\<close>

definition read_primary_fields :: "json \<Rightarrow> json_exception + primary_fields" where
  "read_primary_fields j =
     (case get_field ''cpuList'' j of Inl e \<Rightarrow> Inl e | Inr (a, j) \<Rightarrow>
     (case get_field ''LOWIDLEFREQ_THRESHOLD'' j of Inl e \<Rightarrow> Inl e | Inr (b, j) \<Rightarrow>
     (case get_field ''LOW_TIC'' j of Inl e \<Rightarrow> Inl e | Inr (c, j) \<Rightarrow>
     (case get_field ''targetIdleCores'' j of Inl e \<Rightarrow> Inl e | Inr (d, j) \<Rightarrow>
     (case get_field ''static_targetIdleCores'' j of Inl e \<Rightarrow> Inl e | Inr (f, j) \<Rightarrow>
     (case get_field ''minSecondaryCores'' j of Inl e \<Rightarrow> Inl e | Inr (g, j) \<Rightarrow>
        Inr \<lparr>pf_cpuList = a, pf_LOWIDLEFREQ_THRESHOLD = b, pf_LOW_TIC = c, pf_targetIdleCores = d,
             pf_static_targetIdleCores = f, pf_minSecondaryCores = g\<rparr>))))))"

definition number_stores :: "primary_fields \<Rightarrow> store list" where
  "number_stores pf =
     [store_float (pf_LOWIDLEFREQ_THRESHOLD pf) (\<lambda>x p. p\<lparr>ci_LOWIDLEFREQ_THRESHOLD := x\<rparr>),
      store_int (pf_LOW_TIC pf) (\<lambda>x p. p\<lparr>ci_LOW_TIC := x\<rparr>),
      store_int (pf_targetIdleCores pf) (\<lambda>x p. p\<lparr>ci_targetIdleCores := x\<rparr>),
      store_int (pf_static_targetIdleCores pf) (\<lambda>x p. p\<lparr>ci_static_targetIdleCores := x\<rparr>),
      store_int (pf_minSecondaryCores pf) (\<lambda>x p. p\<lparr>ci_minSecondaryCores := x\<rparr>)]"

definition finish_primary :: "idleStats \<Rightarrow> idleStats option" where
  "finish_primary shm = do {
     shm \<leftarrow> set_primary (\<lambda>p. p\<lparr>ci_totalEligibleCores := ci_NUMCPUS p\<rparr>) shm;
     p \<leftarrow> get_primary shm;
     m \<leftarrow> c_sub (ci_totalEligibleCores p) (ci_targetIdleCores p);
     shm \<leftarrow> set_primary (\<lambda>p. p\<lparr>ci_maxSecondaryCores := m\<rparr>) shm;
     n \<leftarrow> c_add (is_nr_primary_ctrs shm) 1;
     Some (shm\<lparr>is_nr_primary_ctrs := n\<rparr>) }"

definition register_primary :: "primary_fields \<Rightarrow> store" where
  "register_primary pf shm = do {
     (_, shm) \<leftarrow> listener_parseCpuList (pf_cpuList pf) shm;
     (e, shm) \<leftarrow> run_stores (number_stores pf) shm;
     (case e of
        Some e \<Rightarrow> Some (Some e, shm)
      | None \<Rightarrow> map_option (Pair None) (finish_primary shm)) }"

datatype uncaught = Std std_exception | Json json_exception

datatype reply = Acknowledged | Rejected | Terminated uncaught

text \<open>The two catch clauses: parse errors and type errors.\<close>

definition caught :: "json_exception \<Rightarrow> bool" where
  "caught e \<longleftrightarrow> e \<in> {Parse_error_101, Type_error_302, Type_error_305, Type_error_316}"

definition json_throw :: "json_exception \<Rightarrow> reply" where
  "json_throw e = (if caught e then Rejected else Terminated (Json e))"

definition handle_secondary :: "host \<Rightarrow> json \<Rightarrow> idleStats \<Rightarrow> (reply \<times> idleStats) option" where
  "handle_secondary h j shm = (case get_field ''pod_id'' j of
       Inl e \<Rightarrow> Some (json_throw e, shm)
     | Inr (pod_id, _) \<Rightarrow> do {
         (result, shm) \<leftarrow> get_containers h (c_str pod_id) shm;
         Some (Acknowledged,
           if result < 0 then shm
           else if is_balancerControl shm = 0 then shm\<lparr>is_balancerControl := 1\<rparr> else shm) })"

definition handle_primary :: "json \<Rightarrow> idleStats \<Rightarrow> (reply \<times> idleStats) option" where
  "handle_primary j shm = (case json_index ''LOWIDLEFREQ_THRESHOLD'' j of
       Inl e \<Rightarrow> Some (json_throw e, shm)
     | Inr (v, j) \<Rightarrow> (case print_json v of
           None \<Rightarrow> None
         | Some (Inl e) \<Rightarrow> Some (json_throw e, shm)
         | Some (Inr _) \<Rightarrow> (case read_primary_fields j of
               Inl e \<Rightarrow> Some (json_throw e, shm)
             | Inr pf \<Rightarrow> do {
                 (e, shm) \<leftarrow> register_primary pf shm;
                 Some (case e of None \<Rightarrow> Acknowledged | Some e \<Rightarrow> Terminated (Std e), shm) })))"

definition handle_payload ::
  "host \<Rightarrow> string \<Rightarrow> idleStats \<Rightarrow> (reply \<times> idleStats) option" where
  "handle_payload h json_data shm =
     (if json_data = [] then Some (Rejected, shm)
      else case json_parse json_data of
          Inl e \<Rightarrow> Some (json_throw e, shm)
        | Inr j \<Rightarrow> (case get_field ''ctr_type'' j of
              Inl e \<Rightarrow> Some (json_throw e, shm)
            | Inr (ctr_type, j) \<Rightarrow>
                if ctr_type = ''Secondary'' then handle_secondary h j shm
                else if ctr_type = ''Primary'' then handle_primary j shm
                else Some (Acknowledged, shm)))"

subsection \<open>The server\<close>

datatype connection_event =
    Accept_failed
  | Client bool "string list"
  | Signal_usr1

datatype server =
    Serving int idleStats
  | Died uncaught idleStats

text \<open>The signal also cancels the thread, which waits in \<open>accept\<close>: the loop is left either way.\<close>

definition handle_signal :: "int \<Rightarrow> int \<Rightarrow> int" where
  "handle_signal signum listenerControl = (if signum = SIGUSR1 then - 1 else listenerControl)"

definition connection_step ::
  "host \<Rightarrow> connection_event \<Rightarrow> int \<Rightarrow> idleStats \<Rightarrow> server option" where
  "connection_step h ev control shm = (case ev of
       Accept_failed \<Rightarrow> Some (Serving control shm)
     | Signal_usr1 \<Rightarrow> Some (Serving (handle_signal SIGUSR1 control) shm)
     | Client timeout_set reads \<Rightarrow>
         (case handle_payload h (read_payload timeout_set reads) shm of
            None \<Rightarrow> None
          | Some (Terminated e, shm) \<Rightarrow> Some (Died e shm)
          | Some (_, shm) \<Rightarrow> Some (Serving control shm)))"

fun handle_connection ::
  "host \<Rightarrow> connection_event list \<Rightarrow> int \<Rightarrow> idleStats \<Rightarrow> server option" where
  "handle_connection h [] control shm = Some (Serving control shm)"
| "handle_connection h (ev # evs) control shm =
     (if control = 1 then (case connection_step h ev control shm of
          None \<Rightarrow> None
        | Some (Died e shm) \<Rightarrow> Some (Died e shm)
        | Some (Serving control shm) \<Rightarrow> handle_connection h evs control shm)
      else Some (Serving control shm))"

record listener_machine =
  lm_device_opens :: bool
  lm_mmap_succeeds :: bool
  lm_thread_created :: bool
  lm_socket :: bool
  lm_bind :: bool

datatype listener_exit =
    Exit_failure
  | Exit_success idleStats
  | Still_serving idleStats
  | Aborted uncaught idleStats

text \<open>
  \<open>pthread_create\<close> reports an error by a positive number, so the test for a negative one never sees
  it, and a thread that does not exist is joined.
\<close>

definition listener_main ::
  "listener_machine \<Rightarrow> host \<Rightarrow> connection_event list \<Rightarrow> idleStats \<Rightarrow> listener_exit option" where
  "listener_main m h evs shm =
     (if \<not> lm_device_opens m then Some Exit_failure
      else if \<not> lm_mmap_succeeds m then Some Exit_failure
      else if \<not> lm_thread_created m then None
      else if \<not> lm_socket m \<or> \<not> lm_bind m then Some (Exit_success shm)
      else (case handle_connection h evs 1 shm of
          None \<Rightarrow> None
        | Some (Died e shm) \<Rightarrow> Some (Aborted e shm)
        | Some (Serving control shm) \<Rightarrow>
            Some (if control = 1 then Still_serving shm else Exit_success shm)))"

end
