(* ===== verification/ListenerFacts.thy ===== *)
theory ListenerFacts imports ListenerCore begin

section \<open>What a connection does to the shared memory\<close>

text \<open>
  A payload is rejected without any effect, registers a Primary exactly as its text says, registers
  the launchers of a Secondary's containers, or ends the Listener.
\<close>

text \<open>A machine without files.\<close>

definition no_host :: host where
  "no_host = \<lparr>h_file = (\<lambda>_. None), h_dir = (\<lambda>_. None)\<rparr>"

subsection \<open>The current entry\<close>

definition current :: "idleStats \<Rightarrow> nat" where
  "current shm = nat (is_nr_primary_ctrs shm)"

definition entry_ok :: "idleStats \<Rightarrow> bool" where
  "entry_ok shm \<longleftrightarrow> 0 \<le> is_nr_primary_ctrs shm \<and> is_nr_primary_ctrs shm < int (length (is_primary_ctrs shm))"

definition with_entry :: "primary_ctr_info \<Rightarrow> idleStats \<Rightarrow> idleStats" where
  "with_entry p shm = shm\<lparr>is_primary_ctrs := (is_primary_ctrs shm)[current shm := p]\<rparr>"

definition entry :: "idleStats \<Rightarrow> primary_ctr_info" where
  "entry shm = is_primary_ctrs shm ! current shm"

lemma set_primary_eq: "entry_ok shm \<Longrightarrow> set_primary f shm = Some (with_entry (f (entry shm)) shm)"
  by (simp add: set_primary_def entry_ok_def with_entry_def entry_def current_def arr_get_def arr_set_def)

lemma get_primary_eq: "entry_ok shm \<Longrightarrow> get_primary shm = Some (entry shm)"
  by (simp add: get_primary_def entry_ok_def entry_def current_def arr_get_def)

lemma with_entry_simps [simp]:
  "entry_ok (with_entry p shm) = entry_ok shm" "current (with_entry p shm) = current shm"
  "with_entry p (with_entry q shm) = with_entry p shm"
  "is_nr_primary_ctrs (with_entry p shm) = is_nr_primary_ctrs shm"
  "entry_ok shm \<Longrightarrow> entry (with_entry p shm) = p" "entry_ok shm \<Longrightarrow> with_entry (entry shm) shm = shm"
  by (auto simp: with_entry_def current_def entry_ok_def entry_def)

lemma listener_cpu_step:
  assumes "entry_ok shm" "0 \<le> n" "n < int (length (ci_cpuList (entry shm)))" "n < 2147483647"
    "sscanf_d tok = Some (Some v)"
  shows "listener_cpu tok (n, c, shm) =
    Some (n + 1, Some v, with_entry (entry shm\<lparr>ci_cpuList := (ci_cpuList (entry shm))[nat n := v]\<rparr>) shm)"
  using assms by (simp add: listener_cpu_def get_primary_eq set_primary_eq arr_set_def c_add_bind in_int_def)

interpretation listener_cpus: int_sink listener_cpu
  "\<lambda>(c, shm). if entry_ok shm then ci_cpuList (entry shm) else []"
proof
  fix n :: int and s :: "int option \<times> idleStats" and tok v
  let ?view = "\<lambda>(c, shm). if entry_ok shm then ci_cpuList (entry shm) else []"
  assume a: "0 \<le> n" "n < int (length (?view s))" "length (?view s) \<le> 128" "sscanf_d tok = Some (Some v)"
  obtain c shm where s: "s = (c, shm)" by (cases s)
  then have "entry_ok shm" using a by (auto split: if_splits)
  then show "\<exists>s'. listener_cpu tok (n, s) = Some (n + 1, s') \<and> ?view s' = (?view s)[nat n := v]"
    using a s listener_cpu_step[of shm n tok v c] by simp
qed

text \<open>The parser touches nothing but the list of the current entry.\<close>

lemma listener_cpu_frame:
  assumes "listener_cpu tok (n, c, shm) = Some (n', c', shm')" "entry_ok shm"
  shows "\<exists>l. length l = length (ci_cpuList (entry shm)) \<and> shm' = with_entry (entry shm\<lparr>ci_cpuList := l\<rparr>) shm"
  using assms by (auto simp: listener_cpu_def get_primary_eq set_primary_eq bind_eq_Some_conv arr_set_Some)
    (metis length_list_update)

lemma listener_cpus_frame:
  assumes "run_all listener_cpu ts (n, c, shm) = Some (n', c', shm')" "entry_ok shm"
  shows "\<exists>l. length l = length (ci_cpuList (entry shm)) \<and> shm' = with_entry (entry shm\<lparr>ci_cpuList := l\<rparr>) shm"
  using assms
proof (induction ts arbitrary: n c shm)
  case Nil
  then show ?case by (intro exI[of _ "ci_cpuList (entry shm)"]) simp
next
  case (Cons t ts)
  obtain n1 c1 shm1 where s1: "listener_cpu t (n, c, shm) = Some (n1, c1, shm1)"
    and rest: "run_all listener_cpu ts (n1, c1, shm1) = Some (n', c', shm')"
    using Cons.prems(1) by (auto simp: bind_eq_Some_conv)
  obtain l where l: "length l = length (ci_cpuList (entry shm))" "shm1 = with_entry (entry shm\<lparr>ci_cpuList := l\<rparr>) shm"
    using listener_cpu_frame[OF s1 Cons.prems(2)] by blast
  show ?case using Cons.IH[OF rest] Cons.prems(2) l by auto
qed

lemma no_nul_show: "CHR 0x00 \<notin> set (show_int v)"
proof -
  have "CHR 0x00 \<notin> set (show_nat n)" for n
    using show_nat_digits[THEN bspec, of "CHR 0x00" n] by (auto simp: c_isdigit_def)
  then show ?thesis by (simp add: show_int_def)
qed

lemma no_nul_join: "\<forall>t \<in> set ts. CHR 0x00 \<notin> set t \<Longrightarrow> CHR 0x00 \<notin> set (join CHR '','' ts)"
  by (induction ts rule: induct_list012) auto

lemma no_nul_render: "CHR 0x00 \<notin> set (render_list vs)"
  unfolding render_list_def by (rule no_nul_join) (auto simp: no_nul_show)

lemma c_str_id: "CHR 0x00 \<notin> set s \<Longrightarrow> c_str s = s"
  by (auto simp: c_str_def takeWhile_eq_all_conv)

lemma parse_list_spec:
  assumes "entry_ok shm" "vs \<noteq> []" "\<forall>v \<in> set vs. in_int v" "length vs \<le> 64" "primary_shape (entry shm)"
  shows "\<exists>l. length l = 64 \<and> take (length vs) l = vs \<and>
    listener_parseCpuList (render_list vs) shm =
      Some (0, with_entry (entry shm\<lparr>ci_cpuList := l, ci_NUMCPUS := int (length vs)\<rparr>) shm)"
proof -
  obtain c shm1 where run: "while_strsep CHR '','' listener_cpu (Some (render_list vs)) (0, None, shm) =
      Some (int (length vs), c, shm1)"
    and view: "take (length vs) (if entry_ok shm1 then ci_cpuList (entry shm1) else []) = vs"
    using listener_cpus.parse_render[of vs "(None, shm)"] assms by (auto simp: primary_shape_def)
  obtain l where l: "length l = 64" "shm1 = with_entry (entry shm\<lparr>ci_cpuList := l\<rparr>) shm"
    using listener_cpus_frame[of "tokens CHR '','' (render_list vs)" 0 None shm] run assms(1,5)
    by (auto simp: while_strsep_tokens primary_shape_def)
  have "take (length vs) l = vs" using view assms(1) l(2) by simp
  then show ?thesis
    using run assms(1) l c_str_id[OF no_nul_render]
    by (intro exI[of _ l]) (simp add: listener_parseCpuList_def set_primary_eq)
qed

lemma stoi_show: "in_int v \<Longrightarrow> stoi (show_int v) = Inr v"
  using read_signed_show[of "[]" v] by (simp add: stoi_def c_str_id[OF no_nul_show])

definition registered ::
  "int list \<Rightarrow> fp \<Rightarrow> int \<Rightarrow> int \<Rightarrow> int \<Rightarrow> int \<Rightarrow> primary_ctr_info \<Rightarrow> bool" where
  "registered vs threshold low_tic target static_target min_secondary p \<longleftrightarrow>
     length (ci_cpuList p) = 64 \<and> take (length vs) (ci_cpuList p) = vs \<and> ci_NUMCPUS p = int (length vs) \<and>
     ci_LOWIDLEFREQ_THRESHOLD p = threshold \<and> ci_LOW_TIC p = low_tic \<and> ci_targetIdleCores p = target \<and>
     ci_static_targetIdleCores p = static_target \<and> ci_minSecondaryCores p = min_secondary \<and>
     ci_totalEligibleCores p = int (length vs) \<and> ci_maxSecondaryCores p = int (length vs) - target"

definition printed_fields :: "int list \<Rightarrow> string \<Rightarrow> int \<Rightarrow> int \<Rightarrow> int \<Rightarrow> int \<Rightarrow> primary_fields" where
  "printed_fields vs t low_tic target static_target min_secondary =
     \<lparr>pf_cpuList = render_list vs, pf_LOWIDLEFREQ_THRESHOLD = t, pf_LOW_TIC = show_int low_tic,
      pf_targetIdleCores = show_int target, pf_static_targetIdleCores = show_int static_target,
      pf_minSecondaryCores = show_int min_secondary\<rparr>"

lemma store_steps:
  "entry_ok shm \<Longrightarrow> stof t = Inr x \<Longrightarrow> store_float t f shm = Some (None, with_entry (f x (entry shm)) shm)"
  "entry_ok shm \<Longrightarrow> in_int v \<Longrightarrow> store_int (show_int v) g shm = Some (None, with_entry (g v (entry shm)) shm)"
  by (simp_all add: store_float_def store_int_def set_primary_eq stoi_show)

lemma register_primary_spec:
  assumes "entry_ok shm" "primary_shape (entry shm)" "is_nr_primary_ctrs shm < 64"
    and "vs \<noteq> []" "\<forall>v \<in> set vs. in_int v" "length vs \<le> 64" "stof t = Inr x"
    and "in_int a" "in_int b" "in_int c" "in_int d" "in_int (int (length vs) - b)"
  shows "\<exists>p. registered vs x a b c d p \<and>
    register_primary (printed_fields vs t a b c d) shm =
      Some (None, (with_entry p shm)\<lparr>is_nr_primary_ctrs := is_nr_primary_ctrs shm + 1\<rparr>)"
proof -
  obtain l where l: "length l = 64" "take (length vs) l = vs"
    "listener_parseCpuList (render_list vs) shm =
      Some (0, with_entry (entry shm\<lparr>ci_cpuList := l, ci_NUMCPUS := int (length vs)\<rparr>) shm)"
    using parse_list_spec[OF assms(1,4,5,6,2)] by blast
  define p where "p = (entry shm)\<lparr>ci_cpuList := l, ci_NUMCPUS := int (length vs), ci_LOWIDLEFREQ_THRESHOLD := x,
     ci_LOW_TIC := a, ci_targetIdleCores := b, ci_static_targetIdleCores := c, ci_minSecondaryCores := d\<rparr>"
  have stores: "run_stores (number_stores (printed_fields vs t a b c d))
      (with_entry (entry shm\<lparr>ci_cpuList := l, ci_NUMCPUS := int (length vs)\<rparr>) shm) = Some (None, with_entry p shm)"
    using assms(1,7-11) by (simp add: number_stores_def printed_fields_def store_steps p_def)
  have nr: "in_int (is_nr_primary_ctrs shm + 1)" using assms(1,3) by (simp add: entry_ok_def in_int_def)
  have "finish_primary (with_entry p shm) =
      Some ((with_entry (p\<lparr>ci_totalEligibleCores := int (length vs), ci_maxSecondaryCores := int (length vs) - b\<rparr>) shm)
        \<lparr>is_nr_primary_ctrs := is_nr_primary_ctrs shm + 1\<rparr>)"
    using assms(1,12) nr by (simp add: finish_primary_def set_primary_eq get_primary_eq c_sub_bind c_add_bind p_def)
  then show ?thesis
    using l stores
    by (intro exI[of _ "p\<lparr>ci_totalEligibleCores := int (length vs), ci_maxSecondaryCores := int (length vs) - b\<rparr>"])
      (simp add: register_primary_def printed_fields_def registered_def p_def)
qed


subsection \<open>Payloads\<close>

lemma map_of_wf: "wf_json (Object m) \<Longrightarrow> map_of m k = Some v \<Longrightarrow> wf_json v"
  by (auto simp: list_all_iff dest!: map_of_SomeD)

lemma print_defined: "wf_json v \<Longrightarrow> \<exists>t. print_json v = Some (Inr t)"
  by (simp add: print_json_def dump_text)

lemma json_index_wf: "wf_json j \<Longrightarrow> json_index k j = Inr (v, j') \<Longrightarrow> wf_json v"
  by (auto simp: json_index_def simp del: wf_json.simps split: if_splits json.splits option.splits
      dest: map_of_wf simp: wf_json.simps(6))

lemma parsed_wf: "json_parse data = Inr j \<Longrightarrow> wf_json j"
  using json_parse_spec[of data] by simp

lemma parse_empty: "json_parse [] = Inl Parse_error_101"
  by code_simp

text \<open>The text of a Primary: the six members, each a string.\<close>

definition primary_document :: "(string \<times> json) list \<Rightarrow> primary_fields \<Rightarrow> bool" where
  "primary_document m pf \<longleftrightarrow>
     map_of m ''ctr_type'' = Some (String ''Primary'') \<and>
     map_of m ''cpuList'' = Some (String (pf_cpuList pf)) \<and>
     map_of m ''LOWIDLEFREQ_THRESHOLD'' = Some (String (pf_LOWIDLEFREQ_THRESHOLD pf)) \<and>
     map_of m ''LOW_TIC'' = Some (String (pf_LOW_TIC pf)) \<and>
     map_of m ''targetIdleCores'' = Some (String (pf_targetIdleCores pf)) \<and>
     map_of m ''static_targetIdleCores'' = Some (String (pf_static_targetIdleCores pf)) \<and>
     map_of m ''minSecondaryCores'' = Some (String (pf_minSecondaryCores pf))"

lemma handle_primary_document:
  assumes "json_parse data = Inr (Object m)" "primary_document m pf"
  shows "handle_payload h data shm = (case register_primary pf shm of
      None \<Rightarrow> None
    | Some (e, shm') \<Rightarrow> Some (case e of None \<Rightarrow> Acknowledged | Some e \<Rightarrow> Terminated (Std e), shm'))"
proof -
  have data: "data \<noteq> []" using assms(1) parse_empty by auto
  have fields: "get_field ''ctr_type'' (Object m) = Inr (''Primary'', Object m)"
    "read_primary_fields (Object m) = Inr pf"
    using assms(2) by (simp_all add: primary_document_def get_field_present read_primary_fields_def)
  have ix: "json_index ''LOWIDLEFREQ_THRESHOLD'' (Object m) =
      Inr (String (pf_LOWIDLEFREQ_THRESHOLD pf), Object m)"
    using assms(2) by (simp add: primary_document_def json_index_def)
  then obtain t where "print_json (String (pf_LOWIDLEFREQ_THRESHOLD pf)) = Some (Inr t)"
    using print_defined[OF json_index_wf[OF parsed_wf[OF assms(1)] ix]] by blast
  then show ?thesis
    using data fields ix assms(1)
    by (simp add: handle_payload_def handle_primary_def split: option.splits bind_splits)
qed

lemma rejected_unchanged:
  assumes "handle_payload h data shm = Some (Rejected, shm')"
  shows "shm' = shm"
  using assms
  by (auto simp: handle_payload_def handle_secondary_def handle_primary_def bind_eq_Some_conv
      split: if_splits sum.splits prod.splits option.splits)


subsection \<open>The containers of a Secondary\<close>

text \<open>
  What \<open>get_container_tasks\<close> finds, without the shared memory: \<open>None\<close> when a file cannot be read
  before a launcher is found, \<open>Some None\<close> when no task is a launcher.
\<close>

fun find_launcher :: "host \<Rightarrow> string \<Rightarrow> string list \<Rightarrow> string option option" where
  "find_launcher h proc_name [] = Some None"
| "find_launcher h proc_name (line # lines) =
     (let tid = c_str (takeWhile (\<lambda>c. c \<noteq> CHR 0x0A) line) in
      case h_file h (cut_path (''/proc/'' @ tid @ ''/cmdline'')) of
        None \<Rightarrow> None
      | Some cmdline \<Rightarrow>
          if cmdline = [] then None
          else
            (let got = take 1024 cmdline; proc_name = got @ drop (length got) proc_name in
             if c_str proc_name = harvest_launcher then Some (Some tid) else find_launcher h proc_name lines))"

definition container_launcher :: "host \<Rightarrow> string \<Rightarrow> string \<Rightarrow> string option option" where
  "container_launcher h pod_id name =
     (case h_file h (cut_path (pods_path @ pod_id @ ''/'' @ name @ ''/tasks'')) of
        None \<Rightarrow> None
      | Some contents \<Rightarrow> find_launcher h (replicate 1024 CHR 0x00) (file_lines [] contents))"

lemma scan_tasks_spec:
  "scan_tasks h buf ls shm = (case find_launcher h buf ls of
     None \<Rightarrow> Some (- 1, shm\<lparr>is_updatingPids := 0\<rparr>)
   | Some None \<Rightarrow> Some (0, shm\<lparr>is_updatingPids := 0\<rparr>)
   | Some (Some tid) \<Rightarrow> map_option (\<lambda>s. (0, s\<lparr>is_updatingPids := 0\<rparr>)) (add_secondary tid shm))"
  by (induction h buf ls shm rule: scan_tasks.induct)
    (simp_all add: Let_def split: option.split bind_split)

lemma updating_same [simp]: "is_updatingPids shm = 0 \<Longrightarrow> shm\<lparr>is_updatingPids := 0\<rparr> = shm"
  by simp

lemma add_secondary_flag:
  "is_updatingPids shm = 0 \<Longrightarrow>
   map_option (\<lambda>s. (r, s\<lparr>is_updatingPids := 0\<rparr>)) (add_secondary tid (shm\<lparr>is_updatingPids := 1\<rparr>)) =
   map_option (Pair r) (add_secondary tid shm)"
  by (simp add: add_secondary_def Let_def c_add_def c_int_def split: bind_split option.split)

lemma container_spec:
  assumes "is_updatingPids shm = 0"
  shows "get_container_tasks h pod name shm =
   (case container_launcher h pod name of
      None \<Rightarrow> Some (- 1, shm)
    | Some None \<Rightarrow> Some (0, shm)
    | Some (Some tid) \<Rightarrow> map_option (Pair 0) (add_secondary tid shm))"
  using assms add_secondary_flag[OF assms, of "0 :: int"]
  by (simp add: get_container_tasks_def container_launcher_def scan_tasks_spec split: option.split)

definition pod_containers :: "(bool \<times> string) list \<Rightarrow> string list" where
  "pod_containers entries = map snd (filter (\<lambda>(is_dir, name). is_dir \<and> name \<noteq> ''.'' \<and> name \<noteq> ''..'') entries)"

definition unreadable :: "host \<Rightarrow> string \<Rightarrow> string list \<Rightarrow> nat" where
  "unreadable h pod names = length (filter (\<lambda>n. container_launcher h pod n = None) names)"

definition launchers :: "host \<Rightarrow> string \<Rightarrow> string list \<Rightarrow> string list" where
  "launchers h pod names =
     concat (map (\<lambda>n. case container_launcher h pod n of Some (Some tid) \<Rightarrow> [tid] | _ \<Rightarrow> []) names)"

text \<open>The entries that one launcher after the other gets.\<close>

definition append_secondary :: "int \<Rightarrow> idleStats \<Rightarrow> idleStats" where
  "append_secondary pid shm = (let n = nat (is_nr_secondary_ctrs shm) in
     shm\<lparr>is_secondary_pid_list := (is_secondary_pid_list shm)[n := pid],
         is_secondary_ctrs := (is_secondary_ctrs shm)[n := (is_secondary_ctrs shm ! n)\<lparr>ct_parent_pid := pid, ct_nr_pids := 0\<rparr>],
         is_nr_secondary_ctrs := is_nr_secondary_ctrs shm + 1\<rparr>)"

definition secondary_room :: "nat \<Rightarrow> idleStats \<Rightarrow> bool" where
  "secondary_room k shm \<longleftrightarrow> length (is_secondary_ctrs shm) = 64 \<and> length (is_secondary_pid_list shm) = 128 \<and>
     0 \<le> is_nr_secondary_ctrs shm \<and> is_nr_secondary_ctrs shm + int k \<le> 64"

lemma add_secondary_append:
  assumes "secondary_room (Suc k) shm" "atoi tid = Some pid"
  shows "add_secondary tid shm = Some (append_secondary pid shm)" "secondary_room k (append_secondary pid shm)"
    "is_updatingPids (append_secondary pid shm) = is_updatingPids shm"
  using assms by (simp_all add: secondary_room_def add_secondary_def append_secondary_def arr_get_def arr_set_def
      c_add_def c_int_def in_int_def Let_def)

lemma scan_pod_spec:
  assumes "list_all2 (\<lambda>t p. atoi t = Some p) (launchers h pod (pod_containers entries)) pids"
    and "secondary_room (length pids) shm" "is_updatingPids shm = 0"
    and "t \<le> 0" "- 2147483648 \<le> t - int (length entries)"
  shows "scan_pod h pod entries (t, shm) =
    Some (t - int (unreadable h pod (pod_containers entries)), fold append_secondary pids shm)"
  using assms
proof (induction entries arbitrary: t shm pids)
  case Nil
  then show ?case by (simp add: pod_containers_def launchers_def unreadable_def)
next
  case (Cons e entries)
  obtain is_dir name where e: "e = (is_dir, name)" by (cases e)
  show ?case
  proof (cases "\<not> is_dir \<or> name = ''.'' \<or> name = ''..''")
    case True
    then have "pod_containers (e # entries) = pod_containers entries" by (auto simp: e pod_containers_def)
    then show ?thesis using Cons True by (simp add: e)
  next
    case False
    then have names: "pod_containers (e # entries) = name # pod_containers entries"
      by (simp add: e pod_containers_def)
    have total: "in_int t" "in_int (t - 1)" using Cons.prems(4,5) by (simp_all add: in_int_def)
    show ?thesis
    proof (cases "container_launcher h pod name")
      case None
      then have "scan_pod h pod (e # entries) (t, shm) = scan_pod h pod entries (t - 1, shm)"
        using False Cons.prems(3) total by (simp add: e container_spec c_add_bind)
      moreover have "launchers h pod (name # pod_containers entries) = launchers h pod (pod_containers entries)"
        "unreadable h pod (name # pod_containers entries) = Suc (unreadable h pod (pod_containers entries))"
        using None by (simp_all add: launchers_def unreadable_def)
      ultimately show ?thesis using Cons.IH[of pids shm "t - 1"] Cons.prems names by simp
    next
      case (Some found)
      have un: "unreadable h pod (name # pod_containers entries) = unreadable h pod (pod_containers entries)"
        using Some by (simp add: unreadable_def)
      show ?thesis
      proof (cases found)
        case None
        then have "scan_pod h pod (e # entries) (t, shm) = scan_pod h pod entries (t, shm)"
          using Some False Cons.prems(3) total by (simp add: e container_spec c_add_bind)
        moreover have "launchers h pod (name # pod_containers entries) = launchers h pod (pod_containers entries)"
          using Some None by (simp add: launchers_def)
        ultimately show ?thesis using Cons.IH[of pids shm t] Cons.prems names un by simp
      next
        case tid: (Some tid)
        have "launchers h pod (name # pod_containers entries) = tid # launchers h pod (pod_containers entries)"
          using Some tid by (simp add: launchers_def)
        then obtain pid pids' where pids: "pids = pid # pids'" "atoi tid = Some pid"
          "list_all2 (\<lambda>t p. atoi t = Some p) (launchers h pod (pod_containers entries)) pids'"
          using Cons.prems(1) names by (auto simp: list_all2_Cons1)
        note add = add_secondary_append[OF _ pids(2), of "length pids'" shm]
        have "scan_pod h pod (e # entries) (t, shm) = scan_pod h pod entries (t, append_secondary pid shm)"
          using Some tid False Cons.prems(2,3) total add(1) pids(1) by (simp add: e container_spec c_add_bind)
        also have "\<dots> = Some (t - int (unreadable h pod (pod_containers entries)), fold append_secondary pids' (append_secondary pid shm))"
          by (rule Cons.IH) (use Cons.prems pids add in simp_all)
        finally show ?thesis using names un pids(1) by simp
      qed
    qed
  qed
qed

lemma append_secondaries:
  assumes "secondary_room (length pids) shm"
  shows "is_nr_secondary_ctrs (fold append_secondary pids shm) = is_nr_secondary_ctrs shm + int (length pids) \<and>
    take (nat (is_nr_secondary_ctrs shm) + length pids) (is_secondary_pid_list (fold append_secondary pids shm)) =
      take (nat (is_nr_secondary_ctrs shm)) (is_secondary_pid_list shm) @ pids \<and>
    map ct_parent_pid (take (nat (is_nr_secondary_ctrs shm) + length pids) (is_secondary_ctrs (fold append_secondary pids shm))) =
      map ct_parent_pid (take (nat (is_nr_secondary_ctrs shm)) (is_secondary_ctrs shm)) @ pids \<and>
    is_primary_ctrs (fold append_secondary pids shm) = is_primary_ctrs shm \<and>
    is_balancerControl (fold append_secondary pids shm) = is_balancerControl shm \<and>
    is_updatingPids (fold append_secondary pids shm) = is_updatingPids shm"
  using assms
proof (induction pids arbitrary: shm)
  case (Cons pid pids)
  let ?s = "append_secondary pid shm" and ?n = "nat (is_nr_secondary_ctrs shm)"
  have room: "secondary_room (length pids) ?s"
    using Cons.prems by (simp add: secondary_room_def append_secondary_def Let_def)
  have "?n < 64" using Cons.prems by (simp add: secondary_room_def nat_less_iff)
  then have n: "nat (is_nr_secondary_ctrs ?s) = Suc ?n" "?n < 64"
    "is_nr_secondary_ctrs ?s = is_nr_secondary_ctrs shm + 1"
    using Cons.prems by (simp_all add: secondary_room_def append_secondary_def Let_def nat_add_distrib)
  have lists: "take (Suc ?n) (is_secondary_pid_list ?s) = take ?n (is_secondary_pid_list shm) @ [pid]"
    "map ct_parent_pid (take (Suc ?n) (is_secondary_ctrs ?s)) =
      map ct_parent_pid (take ?n (is_secondary_ctrs shm)) @ [pid]"
    using Cons.prems n(2) by (simp_all add: secondary_room_def append_secondary_def Let_def take_Suc_update)
  have rest: "is_primary_ctrs ?s = is_primary_ctrs shm" "is_balancerControl ?s = is_balancerControl shm"
    "is_updatingPids ?s = is_updatingPids shm"
    by (simp_all add: append_secondary_def Let_def)
  show ?case using Cons.IH[OF room] unfolding n(1) rest add_Suc lists by (simp add: n(3))
qed simp


lemma primary_registered_spec:
  assumes "json_parse data = Inr (Object m)" "primary_document m (printed_fields vs t a b c d)"
    and "shm_shape shm" "0 \<le> is_nr_primary_ctrs shm" "is_nr_primary_ctrs shm < 64"
    and "vs \<noteq> []" "\<forall>v \<in> set vs. in_int v" "length vs \<le> 64" "stof t = Inr x"
    and "in_int a" "in_int b" "in_int c" "in_int d" "in_int (int (length vs) - b)"
  shows "\<exists>p. registered vs x a b c d p \<and>
    handle_payload h data shm = Some (Acknowledged,
      shm\<lparr>is_primary_ctrs := (is_primary_ctrs shm)[nat (is_nr_primary_ctrs shm) := p],
          is_nr_primary_ctrs := is_nr_primary_ctrs shm + 1\<rparr>)"
proof -
  have "entry_ok shm" using assms(3-5) shm_shapeD(2)[OF assms(3)] by (simp add: entry_ok_def)
  moreover have "primary_shape (entry shm)"
    unfolding entry_def current_def by (rule shm_shape_primary_nth[OF assms(3)]) (use assms(5) in linarith)
  ultimately obtain p where p: "registered vs x a b c d p"
    "register_primary (printed_fields vs t a b c d) shm =
      Some (None, (with_entry p shm)\<lparr>is_nr_primary_ctrs := is_nr_primary_ctrs shm + 1\<rparr>)"
    using register_primary_spec[of shm vs t x a b c d] assms by blast
  then show ?thesis
    using handle_primary_document[OF assms(1,2), of h shm]
    by (intro exI[of _ p]) (simp add: with_entry_def current_def)
qed

subsection \<open>Properties\<close>

text \<open>
  C23. A connection that gets no acknowledgement leaves the shared memory as it was: every exception
  that is caught is thrown before the first write.
\<close>

theorem rejected_changes_nothing:
  assumes "handle_payload h data shm = Some (Rejected, shm')"
  shows "shm' = shm"
  by (rule rejected_unchanged[OF assms])

theorem rejected_changes_nothing_witness:
  "\<exists>shm'. handle_payload no_host ''{'' zero_shm = Some (Rejected, shm') \<and> shm' = zero_shm"
proof -
  have "json_parse ''{'' = Inl Parse_error_101" by code_simp
  then have h: "handle_payload no_host ''{'' zero_shm = Some (Rejected, zero_shm)"
    by (simp add: handle_payload_def json_throw_def caught_def)
  then show ?thesis using rejected_changes_nothing[OF h] by blast
qed

text \<open>
  C21. A Primary whose document gives its core list and numbers in decimal is registered: the entry
  at \<open>nr_primary_ctrs\<close> takes the values of the document, with every listed core eligible and all but the target for
  the Secondary, the counter grows by one, nothing else in the shared memory changes and the
  connection is acknowledged.
\<close>

theorem primary_registered:
  assumes "json_parse data = Inr (Object m)" "primary_document m (printed_fields vs t a b c d)"
    and "shm_shape shm" "0 \<le> is_nr_primary_ctrs shm" "is_nr_primary_ctrs shm < 64"
    and "vs \<noteq> []" "\<forall>v \<in> set vs. in_int v" "length vs \<le> 64" "stof t = Inr x"
    and "in_int a" "in_int b" "in_int c" "in_int d" "in_int (int (length vs) - b)"
  shows "\<exists>p. registered vs x a b c d p \<and>
    handle_payload h data shm = Some (Acknowledged,
      shm\<lparr>is_primary_ctrs := (is_primary_ctrs shm)[nat (is_nr_primary_ctrs shm) := p],
          is_nr_primary_ctrs := is_nr_primary_ctrs shm + 1\<rparr>)"
  by (rule primary_registered_spec[OF assms])

definition sample_members :: "(string \<times> json) list" where
  "sample_members = [(''LOWIDLEFREQ_THRESHOLD'', String ''0.5''), (''LOW_TIC'', String ''1''),
     (''cpuList'', String ''2,3''), (''ctr_type'', String ''Primary''), (''minSecondaryCores'', String ''0''),
     (''static_targetIdleCores'', String ''1''), (''targetIdleCores'', String ''1'')]"

definition sample_document :: string where
  "sample_document = json_text (Object sample_members)"

lemma sample_document_parses: "json_parse sample_document = Inr (Object sample_members)"
proof -
  have "wf_json (Object sample_members)"
    by (simp add: sample_members_def valid_utf8_ascii byte_def ordered_def)
  moreover have "canonical (Object sample_members) = Object sample_members" by (simp add: sample_members_def)
  ultimately show ?thesis using parse_text unfolding sample_document_def by metis
qed

lemma sample_fields: "primary_document sample_members (printed_fields [2, 3] ''0.5'' 1 1 1 0)"
proof -
  have "render_list [2, 3] = ''2,3''" "show_int 1 = ''1''" "show_int 0 = ''0''" by code_simp+
  then show ?thesis by (simp add: primary_document_def printed_fields_def sample_members_def)
qed

theorem primary_registered_witness:
  "\<exists>p. registered [2, 3] (Fin (1 / 2)) 1 1 1 0 p \<and>
    handle_payload no_host sample_document zero_shm = Some (Acknowledged,
      zero_shm\<lparr>is_primary_ctrs := (is_primary_ctrs zero_shm)[nat (is_nr_primary_ctrs zero_shm) := p],
          is_nr_primary_ctrs := is_nr_primary_ctrs zero_shm + 1\<rparr>)"
proof (rule primary_registered[OF sample_document_parses sample_fields zero_shm_shape])
  show "stof ''0.5'' = Inr (Fin (1 / 2))" by code_simp
qed (simp_all add: in_int_def zero_shm_def)

text \<open>A number that overflows.\<close>

lemma r64_overflow:
  assumes "2 powi 1024 \<le> x"
  shows "r64 x = PInf"
proof -
  have rep: "representable 53 (- 1022) (2 powi 1024)"
    unfolding representable_def by (intro exI[of _ 1] exI[of _ 1024]) simp
  define y where "y = rnd 53 (- 1022) x"
  have y: "2 powi 1024 \<le> y"
    using rnd_mono[of 53 "2 powi 1024" x "- 1022"] assms rnd_representable[OF rep] by (simp add: y_def)
  then have pos: "0 < y" using powi2_pos[of 1024] by linarith
  have "2 powi 1024 < (2 :: rat) powi (ilog2 y + 1)" using ilog2_bounds(2)[OF pos] y by linarith
  then have "1023 < ilog2 y" unfolding powi2_less_iff by simp
  then show ?thesis using pos by (simp add: r64_def fp_round_def y_def[symmetric])
qed

lemma strtod_1e400: "strtod ''1e400'' = Some (Number (10 powi 400), [])"
  by (simp add: strtod_def read_magnitude_def read_fraction_def lower_def read_exponent_def read_unsigned_def c_isspace_def dec_val_def c_isdigit_def digit_val_def)

lemma overflow_token: "scan True ''1e400'' = (Value_float PInf, [])"
proof -
  have "scan True ''1e400'' = (Value_float (strtod_double ''1e400''), [])"
    by (simp add: scan_def skip_bom_def skip_whitespace_def json_space_def scan_token_def c_isdigit_def scan_number_def
      scan_number_exponent_def scan_number_done_def del: of_char_of)
  moreover have "r64 (10 powi 400) = PInf" by (rule r64_overflow) (simp add: power_int_def)
  ultimately show ?thesis by (simp add: strtod_double_def strtod_1e400)
qed

lemma overflow_document: "json_parse ''1e400'' = Inl Out_of_range_406"
  by (simp add: json_parse_def overflow_token sax_parse_internal.simps[of False "[]"] parse_token_def)


text \<open>
  C22. A Secondary: the process ids of its launchers are appended to both lists in the order of the
  containers, and the Balancer is told to start exactly when every container could be read; one
  that cannot be read keeps it stopped although the others are registered.
\<close>

theorem secondary_registered:
  assumes "get_field ''pod_id'' j = Inr (pod, j')" "h_dir h (cut_path (pods_path @ c_str pod)) = Some entries"
    and "list_all2 (\<lambda>t p. atoi t = Some p) (launchers h (c_str pod) (pod_containers entries)) pids"
    and "secondary_room (length pids) shm" "is_updatingPids shm = 0" "length entries \<le> 1000000"
  shows "\<exists>shm'. handle_secondary h j shm = Some (Acknowledged, shm') \<and>
    is_nr_secondary_ctrs shm' = is_nr_secondary_ctrs shm + int (length pids) \<and>
    take (nat (is_nr_secondary_ctrs shm) + length pids) (is_secondary_pid_list shm') =
      take (nat (is_nr_secondary_ctrs shm)) (is_secondary_pid_list shm) @ pids \<and>
    map ct_parent_pid (take (nat (is_nr_secondary_ctrs shm) + length pids) (is_secondary_ctrs shm')) =
      map ct_parent_pid (take (nat (is_nr_secondary_ctrs shm)) (is_secondary_ctrs shm)) @ pids \<and>
    is_primary_ctrs shm' = is_primary_ctrs shm \<and>
    is_balancerControl shm' =
      (if unreadable h (c_str pod) (pod_containers entries) = 0 \<and> is_balancerControl shm = 0 then 1
       else is_balancerControl shm)"
proof -
  let ?s = "fold append_secondary pids shm"
  have "get_containers h (c_str pod) shm =
      Some (- int (unreadable h (c_str pod) (pod_containers entries)), ?s)"
    using scan_pod_spec[OF assms(3-5), of 0] assms(2,6) by (simp add: get_containers_def)
  then show ?thesis
    using assms(1) append_secondaries[OF assms(4)] by (simp add: handle_secondary_def)
qed

definition sample_host :: host where
  "sample_host = \<lparr>h_file = (\<lambda>p.
      if p = pods_path @ ''pod/good/tasks'' then Some (''7'' @ [CHR 0x0A] @ ''8'' @ [CHR 0x0A])
      else if p = ''/proc/7/cmdline'' then Some (''sh'' @ [CHR 0x00])
      else if p = ''/proc/8/cmdline'' then Some (''harvest_launcher'' @ [CHR 0x00]) else None),
    h_dir = (\<lambda>p. if p = pods_path @ ''pod'' then Some [(True, ''.''), (True, ''good''), (False, ''x''), (True, ''gone'')]
      else None)\<rparr>"

lemma sample_containers:
  "container_launcher sample_host ''pod'' ''good'' = Some (Some ''8'')"
  "container_launcher sample_host ''pod'' ''gone'' = None"
  by (simp_all add: container_launcher_def sample_host_def cut_path_def pods_path_def harvest_launcher_def c_str_def Let_def)

lemma sample_pod:
  "launchers sample_host ''pod'' (pod_containers [(True, ''.''), (True, ''good''), (False, ''x''), (True, ''gone'')]) = [''8'']"
  "unreadable sample_host ''pod'' (pod_containers [(True, ''.''), (True, ''good''), (False, ''x''), (True, ''gone'')]) = 1"
  by (simp_all add: pod_containers_def launchers_def unreadable_def sample_containers)

theorem secondary_registered_witness:
  "\<exists>shm'. handle_secondary sample_host (Object [(''pod_id'', String ''pod'')]) zero_shm = Some (Acknowledged, shm') \<and>
    is_nr_secondary_ctrs shm' = 1 \<and> is_balancerControl shm' = 0"
proof -
  let ?j = "Object [(''pod_id'', String ''pod'')]"
  have c: "c_str ''pod'' = ''pod''" by code_simp
  have "get_field ''pod_id'' ?j = Inr (''pod'', ?j)" by (simp add: get_field_present)
  moreover have "h_dir sample_host (cut_path (pods_path @ c_str ''pod'')) =
      Some [(True, ''.''), (True, ''good''), (False, ''x''), (True, ''gone'')]"
    unfolding c by (simp add: sample_host_def cut_path_def pods_path_def)
  moreover have "list_all2 (\<lambda>t p. atoi t = Some p) (launchers sample_host (c_str ''pod'')
      (pod_containers [(True, ''.''), (True, ''good''), (False, ''x''), (True, ''gone'')])) [8]"
    unfolding c sample_pod by code_simp
  moreover have "secondary_room (length [8]) zero_shm" "is_updatingPids zero_shm = 0"
    by (simp_all add: secondary_room_def zero_shm_def)
  moreover have "length [(True, ''.''), (True, ''good''), (False, ''x''), (True, ''gone'')] \<le> 1000000" by simp
  ultimately obtain shm' where "handle_secondary sample_host ?j zero_shm = Some (Acknowledged, shm')"
    "is_nr_secondary_ctrs shm' = is_nr_secondary_ctrs zero_shm + int (length [8 :: int])"
    "is_balancerControl shm' =
      (if unreadable sample_host (c_str ''pod'') (pod_containers [(True, ''.''), (True, ''good''), (False, ''x''), (True, ''gone'')]) = 0
        \<and> is_balancerControl zero_shm = 0 then 1 else is_balancerControl zero_shm)"
    using secondary_registered by blast
  then show ?thesis unfolding c sample_pod by (auto simp: zero_shm_def)
qed

end
