(* ===== verification/Handshake.thy ===== *)
theory Handshake imports BalancerMain MonitorLoop ListenerFacts Runs begin

section \<open>The three daemons on one segment (balancer.c, main.c, monitor.c, listener.cpp)\<close>

text \<open>
  The Balancer, the Monitor's kernel thread and the Listener share one \<open>idleStats\<close>.  Here they run
  together: a step of the system is a step of one of them.  \<open>SchedAllSecondary\<close>, in which the
  Balancer spins until the Monitor has answered, is one step per turn of its loops; the other
  operations of a daemon (an iteration of \<open>pollIdleCPU\<close>, a turn of \<open>check_idle_cpus\<close>, a connection)
  are one step each, and \<open>System\<close> proves that what the Monitor reads while it serves a request is
  not written by anybody else in between.
\<close>

subsection \<open>A registered Primary in the Balancer's eyes\<close>

lemma core_list_length:
  assumes "distinct vs" "\<forall>v \<in> set vs. core_ok v"
  shows "length vs \<le> 64"
proof -
  have "set vs \<subseteq> {0..63}" using assms(2) by (auto simp: core_ok_def)
  then have "card (set vs) \<le> card {0..63 :: int}" by (intro card_mono) auto
  then show ?thesis using distinct_card[OF assms(1)] by simp
qed

lemma registered_ctr_ok:
  assumes "registered vs x a b c d p" "distinct vs" "\<forall>v \<in> set vs. core_ok v"
    and "0 \<le> L" "L \<le> b" "b \<le> c" "c \<le> int (length vs)"
  shows "ctr_ok p" "target_ok L p"
  using assms core_list_length[OF assms(2,3)]
  by (auto simp: registered_def ctr_ok_def target_ok_def primary_shape_def pool_def)

lemma system_ok_add:
  assumes "system_ok shm g" "is_nr_primary_ctrs shm < 64" "info_ok (g_stats g ! nat (is_nr_primary_ctrs shm))"
    and "ctr_ok p" "target_ok (g_LOW_TIC g) p"
  shows "system_ok (shm\<lparr>is_primary_ctrs := (is_primary_ctrs shm)[nat (is_nr_primary_ctrs shm) := p],
      is_nr_primary_ctrs := is_nr_primary_ctrs shm + 1\<rparr>) g"
proof -
  let ?n = "nat (is_nr_primary_ctrs shm)"
  have nr: "0 \<le> is_nr_primary_ctrs shm" "shm_shape shm" using assms(1) by (simp_all add: system_ok_def)
  then have n: "nat (is_nr_primary_ctrs shm + 1) = Suc ?n" "?n < length (is_primary_ctrs shm)"
    using assms(2) shm_shapeD(2)[OF nr(2)] by (simp_all add: nat_add_distrib nat_less_iff)
  have "shm_shape (shm\<lparr>is_primary_ctrs := (is_primary_ctrs shm)[?n := p]\<rparr>)"
    using nr(2) assms(4) by (intro shm_shape_update) (simp_all add: ctr_ok_def)
  then have "shm_shape (shm\<lparr>is_primary_ctrs := (is_primary_ctrs shm)[?n := p],
      is_nr_primary_ctrs := is_nr_primary_ctrs shm + 1\<rparr>)"
    by (simp add: shm_shape_def)
  moreover have "ctr_ok ((is_primary_ctrs shm)[?n := p] ! i) \<and>
      target_ok (g_LOW_TIC g) ((is_primary_ctrs shm)[?n := p] ! i) \<and> info_ok (g_stats g ! i)" if "i < Suc ?n" for i
    using that assms n by (cases "i = ?n") (auto simp: system_ok_def)
  ultimately show ?thesis using assms(1,2) n(1) by (simp add: system_ok_def)
qed

subsection \<open>\<open>SchedAllSecondary\<close>\<close>

datatype wait = Wait_pids | Wait_served

text \<open>
  One test of a loop: the loop that is spun in, or \<open>None\<close> when the function returns.  Only a return
  after the request was served resets \<open>rebalanceAction\<close>.
\<close>

definition sched_step :: "wait \<Rightarrow> int \<Rightarrow> idleStats \<Rightarrow> wait option \<times> int \<times> idleStats" where
  "sched_step w rebalanceAction shm = (case w of
       Wait_pids \<Rightarrow>
         if is_updatingPids shm = 1
         then (if is_balancerControl shm = - 1 then None else Some Wait_pids, rebalanceAction, shm)
         else (Some Wait_served, rebalanceAction, shm\<lparr>is_needs_rebalance := rebalanceAction\<rparr>)
     | Wait_served \<Rightarrow>
         if is_needs_rebalance shm = rebalanceAction
         then (if is_balancerControl shm = - 1 then None else Some Wait_served, rebalanceAction, shm)
         else (None, 0, shm))"

subsection \<open>The Balancer's thread\<close>

text \<open>Where \<open>SchedAllSecondary\<close> was called: before the loop, or in an iteration that started an event.\<close>

datatype resume = First_allocation | In_event timespec

datatype balancer_pc = Starting | Scheduling wait resume | Polling | Finished

record balancer_clock =
  bc_poll :: poll_clock
  bc_end :: timespec
  bc_stamp :: "nat \<Rightarrow> timespec"

text \<open>What follows the call of \<open>AllocateCoresToSecondary\<close> in \<open>pollIdleCPU\<close>.\<close>

definition resume_balancer :: "balancer_clock \<Rightarrow> resume \<Rightarrow> balancer \<Rightarrow> balancer option" where
  "resume_balancer clk r g = (case r of
       First_allocation \<Rightarrow> stamp_all (bc_stamp clk) g
     | In_event eventStart \<Rightarrow> finish_event eventStart (bc_end clk) 1 g)"

definition balancer_step ::
  "balancer_clock \<Rightarrow> balancer_pc \<times> idleStats \<times> balancer \<Rightarrow> (balancer_pc \<times> idleStats \<times> balancer) option" where
  "balancer_step clk = (\<lambda>(pc, shm, g). case pc of
       Starting \<Rightarrow>
         if is_balancerControl shm = 0 then Some (Starting, shm, g)
         else do {
           (sched, _, shm, g) \<leftarrow> poll_begin shm g;
           (if sched then Some (Scheduling Wait_pids First_allocation, shm, g)
            else do { g \<leftarrow> resume_balancer clk First_allocation g; Some (Polling, shm, g) }) }
     | Scheduling w r \<Rightarrow>
         (case sched_step w (g_rebalanceAction g) shm of
            (Some w', _, shm) \<Rightarrow> Some (Scheduling w' r, shm, g)
          | (None, action, shm) \<Rightarrow> do {
              g \<leftarrow> resume_balancer clk r (g\<lparr>g_rebalanceAction := action\<rparr>);
              Some (Polling, shm, g) })
     | Polling \<Rightarrow> do {
         out \<leftarrow> poll_iteration (bc_poll clk) (bc_end clk) shm g;
         Some (case out of
             Return_poll \<Rightarrow> (Finished, shm, g)
           | Loop shm g \<Rightarrow> (Polling, shm, g)
           | Wait_sched t shm g \<Rightarrow> (Scheduling Wait_pids (In_event t), shm, g)) }
     | Finished \<Rightarrow> Some (Finished, shm, g))"

subsection \<open>The system\<close>

record system =
  sy_shm :: idleStats
  sy_pc :: balancer_pc
  sy_bal :: balancer
  sy_mo :: monitor
  sy_kernel :: kernel
  sy_listening :: int

text \<open>Who moves; an iteration of the Balancer that finds a new idle mask is told apart, since it is the
  one that fills the logs.\<close>

datatype actor = Balancer_iterates | Balancer_waits | Monitor_turns | Listener_serves | Signal_arrives

definition balancer_actor :: "system \<Rightarrow> actor" where
  "balancer_actor s =
     (if sy_pc s = Polling \<and> is_mask (sy_shm s) \<noteq> g_lastIdleMask (sy_bal s)
      then Balancer_iterates else Balancer_waits)"

text \<open>The clocks move so that the accumulated low-idle time stays in its range.\<close>

definition clock_fits :: "balancer_clock \<Rightarrow> system \<Rightarrow> bool" where
  "clock_fits clk s \<longleftrightarrow> (sy_pc s = Polling \<longrightarrow>
     (\<forall>i < nat (is_nr_primary_ctrs (sy_shm s)).
        sample_fits (pc_samples (bc_poll clk) i) (g_stats (sy_bal s) ! i)))"

text \<open>
  The machine at a turn of the Monitor: it has at least 64 cores, the count of samples has room, and,
  when running tasks are to be moved one by one, none of them is on the entry behind the granted
  cores (\<open>cursor_leaves_grant\<close> shows what happens otherwise).
\<close>

definition turn_allowed :: "kernel \<Rightarrow> idleStats \<Rightarrow> bool" where
  "turn_allowed k shm \<longleftrightarrow> 64 \<le> kn_nr_cpus k \<and> is_irq_samples shm < 2147483647 \<and>
     (is_needs_rebalance shm = 1 \<longrightarrow> is_num_affinity shm < 64 \<and> stale_core shm \<notin> entitled shm \<and>
        tasks_ok {stale_core shm} (kn_task k))"

text \<open>
  What the requests may do to the segment: nothing, add a Primary whose cores are valid and belong
  to no other, or add Secondaries, the Balancer then being started if it was paused.
\<close>

definition adds_primary :: "int \<Rightarrow> idleStats \<Rightarrow> idleStats \<Rightarrow> bool" where
  "adds_primary L shm shm' \<longleftrightarrow> is_nr_primary_ctrs shm < 64 \<and>
     (\<exists>p. ctr_ok p \<and> target_ok L p \<and> set (pool p) \<inter> set (pools shm) = {} \<and>
        shm' = shm\<lparr>is_primary_ctrs := (is_primary_ctrs shm)[nat (is_nr_primary_ctrs shm) := p],
                   is_nr_primary_ctrs := is_nr_primary_ctrs shm + 1\<rparr>)"

definition adds_secondaries :: "idleStats \<Rightarrow> idleStats \<Rightarrow> bool" where
  "adds_secondaries shm shm' \<longleftrightarrow> (\<exists>pids c. secondary_room (length pids) shm \<and>
     (c = is_balancerControl shm \<or> is_balancerControl shm = 0 \<and> c = 1) \<and>
     shm' = (fold append_secondary pids shm)\<lparr>is_balancerControl := c\<rparr>)"

definition admissible :: "int \<Rightarrow> idleStats \<Rightarrow> idleStats \<Rightarrow> bool" where
  "admissible L shm shm' \<longleftrightarrow> shm' = shm \<or> adds_primary L shm shm' \<or> adds_secondaries shm shm'"

text \<open>Between two turns of the Monitor the kernel may do anything to the tasks.\<close>

inductive system_step :: "(int set \<Rightarrow> task \<Rightarrow> task) \<Rightarrow> actor \<Rightarrow> system \<Rightarrow> system \<Rightarrow> bool" for f where
  balancer: "balancer_step clk (sy_pc s, sy_shm s, sy_bal s) = Some (pc, shm, g) \<Longrightarrow> clock_fits clk s \<Longrightarrow>
     system_step f (balancer_actor s) s (s\<lparr>sy_pc := pc, sy_shm := shm, sy_bal := g\<rparr>)"
| monitor: "turn_allowed k (sy_shm s) \<Longrightarrow>
     monitor_turn f idle_cpu cputime_irq now (sy_mo s, k, sy_shm s) = Some (mo, k', shm) \<Longrightarrow>
     system_step f Monitor_turns s (s\<lparr>sy_mo := mo, sy_kernel := k', sy_shm := shm\<rparr>)"
| listener: "sy_listening s = 1 \<Longrightarrow>
     connection_step h ev 1 (sy_shm s) = Some (Serving control shm) \<Longrightarrow>
     admissible (g_LOW_TIC (sy_bal s)) (sy_shm s) shm \<Longrightarrow>
     system_step f Listener_serves s (s\<lparr>sy_listening := control, sy_shm := shm\<rparr>)"
| signal: "system_step f Signal_arrives s (s\<lparr>sy_shm := trigger_cleanup SIGUSR1 (sy_shm s)\<rparr>)"

inductive_cases balancer_iteratesE: "system_step f Balancer_iterates s t"
inductive_cases balancer_waitsE: "system_step f Balancer_waits s t"
inductive_cases monitor_turnsE: "system_step f Monitor_turns s t"
inductive_cases listener_servesE: "system_step f Listener_serves s t"
inductive_cases signal_arrivesE: "system_step f Signal_arrives s t"

subsection \<open>Runs\<close>

text \<open>Only the iterations that find a new mask cost room in the logs.\<close>

definition actor_cost :: "actor \<Rightarrow> nat" where
  "actor_cost a = (if a = Balancer_iterates then 1 else 0)"

lemma run_cost: "sum_list (map actor_cost as) = count_list as Balancer_iterates"
  by (induction as) (simp_all add: actor_cost_def)

end
