(* ===== verification/System.thy ===== *)
theory System imports Handshake begin

section \<open>What the three daemons keep together\<close>

text \<open>
  The invariant of the interleaved system: the segment is well formed for each daemon, the granted
  cores in it are the Balancer's, and a request that is pending is the one the Balancer waits for.
  The facts about the single daemons make every kind of step keep it, the locale
  \<open>budgeted_system\<close> carries it along a run.
\<close>

subsection \<open>The invariant\<close>

text \<open>The cores that the segment grants are those of the Balancer's masks, out of the Primaries' pools.\<close>

definition grant_ok :: "idleStats \<Rightarrow> balancer \<Rightarrow> bool" where
  "grant_ok shm g \<longleftrightarrow> 0 \<le> is_num_affinity shm \<and> is_num_affinity shm \<le> 64 \<and>
     set (take (nat (is_num_affinity shm)) (is_affinity_list shm)) = g_secondary_mask g \<and>
     card (g_secondary_mask g) = nat (is_num_affinity shm) \<and>
     g_secondary_mask g \<subseteq> set (pools shm) \<and>
     (\<forall>k. bit (g_setAffinityMask g) k \<longleftrightarrow> int k \<in> g_secondary_mask g)"

text \<open>A kind of request that the Monitor can serve: with nothing granted, it is not \<open>1\<close>.\<close>

definition action_ok :: "balancer \<Rightarrow> bool" where
  "action_ok g \<longleftrightarrow> 1 \<le> g_rebalanceAction g \<and> (g_rebalanceAction g = 1 \<longrightarrow> g_secondary_mask g \<noteq> {})"

text \<open>The part of the invariant that holds wherever the Balancer is, with room for \<open>k\<close> new masks.\<close>

definition base_ok :: "nat \<Rightarrow> idleStats \<Rightarrow> balancer \<Rightarrow> bool" where
  "base_ok k shm g \<longleftrightarrow> system_ok shm g \<and> distinct (pools shm) \<and> (\<forall>i < 64. info_ok (g_stats g ! i)) \<and>
     dyn_room (64 * k) (g_logs g) \<and> change_room k (g_logs g)"

text \<open>Between two iterations: nothing accumulated, and the masks of this and the last event agree.\<close>

definition calm :: "balancer \<Rightarrow> bool" where
  "calm g \<longleftrightarrow> g_coreDifference g = 0 \<and> g_idleCoresCount g = 0 \<and> g_lastAffinityMask g = g_setAffinityMask g"

definition resume_ok :: "nat \<Rightarrow> resume \<Rightarrow> balancer \<Rightarrow> bool" where
  "resume_ok k r g \<longleftrightarrow> (case r of First_allocation \<Rightarrow> event_room k (g_logs g) \<and> calm g
     | In_event t \<Rightarrow> event_room (Suc k) (g_logs g))"

text \<open>A pending request is the Balancer's, which waits for it or has been told to stop.\<close>

definition request_ok :: "balancer_pc \<Rightarrow> idleStats \<Rightarrow> balancer \<Rightarrow> bool" where
  "request_ok pc shm g \<longleftrightarrow> 0 < is_needs_rebalance shm \<longrightarrow> is_needs_rebalance shm = g_rebalanceAction g \<and> action_ok g \<and>
     (case pc of Starting \<Rightarrow> False | Scheduling w r \<Rightarrow> w = Wait_served
      | Polling \<Rightarrow> is_balancerControl shm = - 1 | Finished \<Rightarrow> is_balancerControl shm = - 1)"

definition balancer_inv :: "nat \<Rightarrow> balancer_pc \<Rightarrow> idleStats \<Rightarrow> balancer \<Rightarrow> bool" where
  "balancer_inv k pc shm g \<longleftrightarrow> base_ok k shm g \<and> request_ok pc shm g \<and> (case pc of
       Starting \<Rightarrow> event_room k (g_logs g) \<and> g_coreDifference g = 0 \<and> g_idleCoresCount g = 0 \<and>
         (\<forall>i < 64. bi_SpareCoresToAllocate (g_stats g ! i) \<le> 0)
     | Scheduling w r \<Rightarrow> grant_ok shm g \<and> action_ok g \<and> resume_ok k r g
     | Polling \<Rightarrow> grant_ok shm g \<and> event_room k (g_logs g) \<and> calm g
     | Finished \<Rightarrow> grant_ok shm g)"

definition monitor_inv :: "monitor \<Rightarrow> idleStats \<Rightarrow> bool" where
  "monitor_inv mo shm \<longleftrightarrow> turn_ok mo \<and> (\<forall>ctr \<in> set (is_secondary_ctrs shm). cache_ok ctr) \<and>
     is_nr_secondary_ctrs shm \<le> 64 \<and> 0 \<le> is_num_secondary_cores shm \<and> is_num_secondary_cores shm \<le> 64 \<and>
     (\<forall>c \<in> set (take (nat (is_num_secondary_cores shm)) (is_secondary_cores_list shm)). core_ok c) \<and>
     0 \<le> is_irq_samples shm"

definition system_inv :: "(int set \<Rightarrow> task \<Rightarrow> task) \<Rightarrow> nat \<Rightarrow> system \<Rightarrow> bool" where
  "system_inv f k s \<longleftrightarrow> sched_ok f \<and> balancer_inv k (sy_pc s) (sy_shm s) (sy_bal s) \<and>
     monitor_inv (sy_mo s) (sy_shm s)"

lemmas balancer_inv_defs = balancer_inv_def base_ok_def request_ok_def resume_ok_def

subsection \<open>Frames\<close>

text \<open>What the Balancer's invariant reads of the segment, and what the Monitor's reads.\<close>

definition grant_frame :: "idleStats \<Rightarrow> idleStats \<Rightarrow> bool" where
  "grant_frame s t \<longleftrightarrow> is_primary_ctrs t = is_primary_ctrs s \<and> is_nr_primary_ctrs t = is_nr_primary_ctrs s \<and>
     is_affinity_list t = is_affinity_list s \<and> is_num_affinity t = is_num_affinity s \<and>
     (is_balancerControl s = - 1 \<longrightarrow> is_balancerControl t = - 1) \<and>
     (is_needs_rebalance t = is_needs_rebalance s \<or> is_needs_rebalance t \<le> 0)"

definition balancer_frame :: "idleStats \<Rightarrow> idleStats \<Rightarrow> bool" where
  "balancer_frame s t \<longleftrightarrow> is_secondary_ctrs t = is_secondary_ctrs s \<and>
     is_nr_secondary_ctrs t = is_nr_secondary_ctrs s \<and>
     is_num_secondary_cores t = is_num_secondary_cores s \<and>
     is_secondary_cores_list t = is_secondary_cores_list s \<and> is_irq_samples t = is_irq_samples s \<and>
     is_balancerControl t = is_balancerControl s \<and> is_updatingPids t = is_updatingPids s"

lemma grant_frame_pools: "grant_frame s t \<Longrightarrow> pools t = pools s"
  by (simp add: grant_frame_def pools_def)

lemma balancer_inv_frame:
  assumes "balancer_inv k pc s g" "grant_frame s t" "shm_shape t"
  shows "balancer_inv k pc t g"
proof -
  have "base_ok k t g"
    using assms grant_frame_pools[OF assms(2)]
    by (simp add: balancer_inv_def base_ok_def system_ok_def) (simp add: grant_frame_def)
  moreover have "request_ok pc t g"
    using assms(1,2) by (auto simp: balancer_inv_def request_ok_def grant_frame_def split: balancer_pc.splits)
  moreover have "grant_ok s g \<Longrightarrow> grant_ok t g"
    using assms(2) grant_frame_pools[OF assms(2)] by (simp add: grant_ok_def grant_frame_def)
  ultimately show ?thesis using assms(1) by (auto simp: balancer_inv_def split: balancer_pc.splits)
qed

lemma monitor_inv_frame: "monitor_inv mo s \<Longrightarrow> balancer_frame s t \<Longrightarrow> monitor_inv mo t"
  by (simp add: monitor_inv_def balancer_frame_def)

lemma balancer_frame_trans: "balancer_frame s t \<Longrightarrow> balancer_frame t u \<Longrightarrow> balancer_frame s u"
  by (simp add: balancer_frame_def)

lemma balancer_inv_shape: "balancer_inv k pc shm g \<Longrightarrow> shm_shape shm"
  by (simp add: balancer_inv_def base_ok_def system_ok_def)

subsection \<open>Allocation\<close>

lemma same_mask_same_cores:
  fixes m :: u64
  assumes "\<forall>k. bit m k \<longleftrightarrow> int k \<in> A" "\<forall>k. bit m k \<longleftrightarrow> int k \<in> B"
    and "\<forall>c \<in> A. core_ok c" "\<forall>c \<in> B. core_ok c"
  shows "A = B"
proof -
  have "c \<in> A \<longleftrightarrow> c \<in> B" if "0 \<le> c" for c
    using assms(1,2) that by (metis int_nat_eq)
  then show ?thesis using assms(3,4) by (auto simp: core_ok_def)
qed

text \<open>\<open>AllocateCoresToSecondary\<close> publishes a grant, or finds that it has published the same cores already.\<close>

lemma allocate_grants:
  assumes ok: "system_ok shm g" and d: "distinct (pools shm)"
  shows "\<exists>sched shm' g'. AllocateCoresToSecondary shm g = Some (sched, if sched then 1 else 0, shm', g') \<and>
    sched = must_schedule (full_allotment shm g) g \<and>
    system_ok shm' g' \<and> g_logs g' = g_logs g \<and> g_coreDifference g' = g_coreDifference g \<and>
    g_idleCoresCount g' = g_idleCoresCount g \<and> g_lastAffinityMask g' = g_lastAffinityMask g \<and>
    g_secondary_mask g' = set (full_allotment shm g) \<and>
    (\<forall>j < 64. nat (is_nr_primary_ctrs shm) \<le> j \<longrightarrow> g_stats g' ! j = g_stats g ! j) \<and>
    shm' = shm\<lparr>is_affinity_list := is_affinity_list shm', is_num_affinity := is_num_affinity shm'\<rparr> \<and>
    action_ok g' \<and>
    (sched \<or> grant_ok shm g \<and> g_lastAffinityMask g = g_setAffinityMask g \<longrightarrow> grant_ok shm' g')"
proof -
  let ?N = "nat (is_nr_primary_ctrs shm)" and ?A = "full_allotment shm g"
  let ?sched = "must_schedule ?A g"
  have fit: "length ?A \<le> 64" using assms by (rule full_allotment_fits)
  obtain s h where sh: "allocating shm g ?N = (s, h)" by (cases "allocating shm g ?N")
  let ?s = "if ?sched then s\<lparr>is_num_affinity := int (length ?A)\<rparr> else s"
  let ?h = "h\<lparr>g_rebalanceAction := action_of ?A g\<rparr>"
  have eq: "AllocateCoresToSecondary shm g = Some (?sched, if ?sched then 1 else 0, ?s, ?h)"
    using AllocateCores_eq[OF ok fit] sh by (simp add: Let_def)
  have s: "s = shm\<lparr>is_affinity_list := write_at 0 ?A (is_affinity_list shm)\<rparr>"
    and h: "g_secondary_mask h = set ?A" "g_setAffinityMask h = mask_of ?A 0" "g_logs h = g_logs g"
      "g_coreDifference h = g_coreDifference g" "g_idleCoresCount h = g_idleCoresCount g"
      "g_lastAffinityMask h = g_lastAffinityMask g" "g_stats h = allotted shm g ?N"
    using sh by (auto simp: allocating_def Let_def full_allotment_def reset_allocation_def)
  have len: "length (is_affinity_list shm) = 64" "length (g_stats g) = 64"
    using ok by (auto simp: system_ok_def bal_shape_def MAX_CONTAINERS_def dest: shm_shapeD)
  have prefix: "take (length ?A) (is_affinity_list s) = ?A"
    using take_write_at[of 0 ?A "is_affinity_list shm"] len fit by (simp add: s)
  have bits: "bit (mask_of ?A 0) k \<longleftrightarrow> int k \<in> set ?A" for k
    using bit_mask_of[OF full_allotment_cores[OF ok], of 0 k] by simp
  have pools: "pools s = pools shm" by (simp add: s pools_def)
  note A = full_allotment_pools(1)[of shm g] distinct_card[OF full_allotment_pools(2)[OF d, of g]]
  have act: "action_ok ?h" using h(1) by (simp add: action_ok_def action_of_def)
  have sok: "system_ok ?s ?h"
    using allocating_system_ok[OF ok, of ?N] fit sh
    by (simp add: full_allotment_def system_ok_def bal_shape_def shm_shape_def)
  have grant: "grant_ok (s\<lparr>is_num_affinity := int (length ?A)\<rparr>) ?h"
    using prefix A bits fit h pools by (simp add: grant_ok_def) (simp add: pools_def)
  moreover have "grant_ok s ?h"
    if g: "grant_ok shm g" "g_lastAffinityMask g = g_setAffinityMask g" "\<not> ?sched"
  proof -
    have "mask_of ?A 0 = g_setAffinityMask g" using g by (simp add: must_schedule_def)
    then have "set ?A = g_secondary_mask g"
      using g(1) bits full_allotment_cores[OF ok] ok
      by (intro same_mask_same_cores[of "g_setAffinityMask g"])
        (auto simp: grant_ok_def pools_def system_ok_def ctr_ok_def)
    then have "is_num_affinity s = int (length ?A)" using g(1) A(2) by (auto simp: grant_ok_def s)
    then have "s\<lparr>is_num_affinity := int (length ?A)\<rparr> = s" by simp
    then show ?thesis using grant by simp
  qed
  moreover have "g_stats h ! j = g_stats g ! j" if "j < 64" "?N \<le> j" for j
    using that len by (simp add: h allotted_def)
  moreover have "?s = shm\<lparr>is_affinity_list := is_affinity_list ?s, is_num_affinity := is_num_affinity ?s\<rparr>"
    by (simp add: s)
  ultimately show ?thesis
    unfolding eq using sok act h(1-6)
    by (intro exI[of _ ?sched] exI[of _ ?s] exI[of _ ?h]) (simp split del: if_split split: if_split)
qed

subsection \<open>The Balancer's steps\<close>

lemma rooms_le:
  "base_ok (Suc k) shm g \<Longrightarrow> base_ok k shm g" "resume_ok (Suc k) r g \<Longrightarrow> resume_ok k r g"
  by (auto simp: base_ok_def resume_ok_def split: resume.splits
      intro: change_room_le event_room_le elim: dyn_room_le)

lemma balancer_inv_le: "balancer_inv (Suc k) pc shm g \<Longrightarrow> balancer_inv k pc shm g"
  by (auto simp: balancer_inv_def split: balancer_pc.splits intro: rooms_le event_room_le)

lemma change_room_reset: "change_room k l \<Longrightarrow> change_room k (l\<lparr>lg_idleMaskChangeCount := 0\<rparr>)"
  by (auto simp: change_room_def block_full_def)

lemma allocation_info_ok:
  assumes "system_ok shm' g'" "is_nr_primary_ctrs shm' = is_nr_primary_ctrs shm"
    "\<forall>j < 64. nat (is_nr_primary_ctrs shm) \<le> j \<longrightarrow> g_stats g' ! j = g_stats g ! j" "\<forall>i < 64. info_ok (g_stats g ! i)"
  shows "\<forall>i < 64. info_ok (g_stats g' ! i)"
  using assms unfolding system_ok_def by (metis not_le)

lemma no_spare_no_grant:
  assumes "\<forall>i < 64. bi_SpareCoresToAllocate (g_stats g ! i) \<le> 0" "is_nr_primary_ctrs shm \<le> 64"
  shows "full_allotment shm g = []"
proof -
  have "granted shm g i = []" if "i < nat (is_nr_primary_ctrs shm)" for i
    using assms that by (simp add: granted_def)
  then show ?thesis by (simp add: full_allotment_def allotment_def)
qed

text \<open>The first allocation grants nothing and suspends the Secondary.\<close>

lemma poll_begin_inv:
  assumes inv: "balancer_inv k Starting shm g"
  shows "\<exists>shm' g'. poll_begin shm g = Some (True, 1, shm', g') \<and>
    balancer_inv k (Scheduling Wait_pids First_allocation) shm' g' \<and> balancer_frame shm shm'"
proof -
  let ?g = "g\<lparr>g_lastIdleMask := 0, g_lastAffinityMask := 0,
      g_logs := (g_logs g)\<lparr>lg_idleMaskChangeCount := 0\<rparr>\<rparr>"
  have b: "system_ok shm ?g" "distinct (pools shm)" "\<forall>i < 64. info_ok (g_stats ?g ! i)"
    "dyn_room (64 * k) (g_logs ?g)" "event_room k (g_logs ?g)" "change_room k (g_logs ?g)"
    "g_coreDifference ?g = 0" "g_idleCoresCount ?g = 0" "is_needs_rebalance shm \<le> 0"
    using inv change_room_reset[of k "g_logs g"]
    by (simp_all add: balancer_inv_defs system_ok_def bal_shape_def dyn_room_def event_room_def not_less)
  have empty: "full_allotment shm ?g = []"
    using inv by (intro no_spare_no_grant) (simp_all add: balancer_inv_defs system_ok_def)
  obtain sched shm' g' where a: "AllocateCoresToSecondary shm ?g = Some (sched, if sched then 1 else 0, shm', g')"
    "sched = must_schedule (full_allotment shm ?g) ?g"
    "system_ok shm' g'" "g_logs g' = g_logs ?g" "g_coreDifference g' = g_coreDifference ?g"
    "g_idleCoresCount g' = g_idleCoresCount ?g" "g_lastAffinityMask g' = g_lastAffinityMask ?g"
    "g_secondary_mask g' = set (full_allotment shm ?g)"
    and st: "\<forall>j < 64. nat (is_nr_primary_ctrs shm) \<le> j \<longrightarrow> g_stats g' ! j = g_stats ?g ! j"
    and s: "shm' = shm\<lparr>is_affinity_list := is_affinity_list shm', is_num_affinity := is_num_affinity shm'\<rparr>"
    and act: "action_ok g'" and grant: "sched \<or> grant_ok shm ?g \<and> g_lastAffinityMask ?g = g_setAffinityMask ?g \<longrightarrow> grant_ok shm' g'"
    using allocate_grants[OF b(1,2)] by (elim exE conjE) (rule that)
  have sched: "sched" "grant_ok shm' g'" using a(2) grant by (simp_all add: empty must_schedule_def)
  have same: "pools shm' = pools shm" "is_nr_primary_ctrs shm' = is_nr_primary_ctrs shm"
    "is_needs_rebalance shm' = is_needs_rebalance shm" "balancer_frame shm shm'"
    unfolding pools_def balancer_frame_def by (subst s, simp)+
  have "g_setAffinityMask g' = 0" using a(8) sched(2) by (simp add: empty grant_ok_def bit_eq_iff)
  then have "balancer_inv k (Scheduling Wait_pids First_allocation) shm' g'"
    using a(3-7) b same sched act allocation_info_ok[OF a(3) same(2) st b(3)]
    by (simp add: balancer_inv_defs calm_def)
  then show ?thesis using a(1) sched(1) same(4) by (simp add: poll_begin_def)
qed

lemma stamp_all_ok:
  assumes "length (g_stats g) = 64" "\<forall>i < 64. info_ok (g_stats g ! i)"
  shows "\<exists>l. stamp_all clk g = Some (g\<lparr>g_stats := l\<rparr>) \<and> length l = 64 \<and> (\<forall>i < 64. info_ok (l ! i))"
proof -
  let ?P = "\<lambda>i :: nat. \<lambda>h. \<exists>l. h = g\<lparr>g_stats := l\<rparr> \<and> length l = 64 \<and> (\<forall>i < 64. info_ok (l ! i))"
  have "\<exists>h. stamp_all clk g = Some h \<and> ?P (0 + MAX_CONTAINERS) h"
    unfolding stamp_all_def
  proof (rule for_loop_total)
    show "?P 0 g" using assms by (intro exI[of _ "g_stats g"]) simp
    fix i x
    assume i: "i < 0 + MAX_CONTAINERS" and "?P i x"
    then obtain l where l: "x = g\<lparr>g_stats := l\<rparr>" "length l = 64" "\<forall>i < 64. info_ok (l ! i)" by blast
    have i: "i < 64" using i by (simp add: MAX_CONTAINERS_def)
    let ?l = "l[i := (l ! i)\<lparr>bi_prev_sample_timestamp := clk i\<rparr>]"
    have "\<forall>j < 64. info_ok (?l ! j)" using l i by (auto simp: nth_list_update info_ok_def)
    then show "\<exists>y. do { b \<leftarrow> arr_get (g_stats x) (int i);
        s \<leftarrow> arr_set (g_stats x) (int i) (b\<lparr>bi_prev_sample_timestamp := clk i\<rparr>);
        Some (x\<lparr>g_stats := s\<rparr>) } = Some y \<and> ?P (Suc i) y"
      using l(1,2) i by (intro exI[of _ "g\<lparr>g_stats := ?l\<rparr>"] conjI exI[of _ ?l]) simp_all
  qed
  then show ?thesis by auto
qed

lemma finish_event_inv:
  assumes i: "base_ok k shm g" "grant_ok shm g" "event_room (Suc k) (g_logs g)" "request_ok Polling shm g"
  shows "\<exists>g'. finish_event t0 t1 n g = Some g' \<and> balancer_inv k Polling shm g'"
proof -
  obtain l where l: "addLogEvent t0 t1 (g_coreDifference g) n (g_currIdleMask g) (g_idleCoresCount g)
      (g_setAffinityMask g) (g_currSecondaryCoreCount g) (g_logs g) = Some l" "event_room k l"
    "\<And>j. change_room j l = change_room j (g_logs g)" "\<And>j. dyn_room j l = dyn_room j (g_logs g)"
    using addLogEvent_room[OF i(3)] by blast
  have "balancer_inv k Polling shm (end_iteration (g\<lparr>g_logs := l\<rparr>))"
    using i l(2-4)
    by (simp add: balancer_inv_def base_ok_def request_ok_def end_iteration_def system_ok_def bal_shape_def
        grant_ok_def calm_def action_ok_def)
  then show ?thesis using l(1) by (simp add: finish_event_def)
qed

lemma resume_inv:
  assumes inv: "balancer_inv k (Scheduling w r) shm g" and ctl: "request_ok Polling shm (g\<lparr>g_rebalanceAction := a\<rparr>)"
  shows "\<exists>g'. resume_balancer clk r (g\<lparr>g_rebalanceAction := a\<rparr>) = Some g' \<and> balancer_inv k Polling shm g'"
proof -
  let ?g = "g\<lparr>g_rebalanceAction := a\<rparr>"
  have ok: "base_ok k shm ?g" "grant_ok shm ?g"
    using inv by (simp_all add: balancer_inv_def base_ok_def system_ok_def bal_shape_def grant_ok_def)
  show ?thesis
  proof (cases r)
    case First_allocation
    have "length (g_stats ?g) = 64" "\<forall>i < 64. info_ok (g_stats ?g ! i)"
      using inv by (simp_all add: balancer_inv_defs system_ok_def bal_shape_def MAX_CONTAINERS_def)
    from stamp_all_ok[OF this, of "bc_stamp clk"] obtain h l where h: "stamp_all (bc_stamp clk) ?g = Some h"
      "h = ?g\<lparr>g_stats := l\<rparr>" "length l = 64" "\<forall>i < 64. info_ok (l ! i)"
      by blast
    have upto: "\<forall>i < nat (is_nr_primary_ctrs shm). info_ok (l ! i)"
      using h(4) inv by (auto simp: balancer_inv_defs system_ok_def)
    have "resume_ok k First_allocation g" using inv First_allocation by (simp add: balancer_inv_def)
    then have "balancer_inv k Polling shm h"
      using ok ctl h(2-4) upto
      by (simp add: balancer_inv_defs system_ok_def bal_shape_def MAX_CONTAINERS_def grant_ok_def calm_def action_ok_def)
    then show ?thesis using h(1) by (simp add: resume_balancer_def First_allocation)
  next
    case (In_event t)
    have "event_room (Suc k) (g_logs ?g)" using inv by (simp add: balancer_inv_def resume_ok_def In_event)
    then show ?thesis using finish_event_inv[OF ok _ ctl] by (simp add: resume_balancer_def In_event)
  qed
qed

lemma evaluated_inv:
  assumes ok: "base_ok k shm g" "event_room (Suc k) (g_logs g)" and grant: "grant_ok shm g"
    and last: "g_lastAffinityMask g = g_setAffinityMask g" and req: "is_needs_rebalance shm \<le> 0"
  shows "\<exists>out. rebalance pc te shm g = Some out \<and> (case out of Return_poll \<Rightarrow> False
     | Loop shm' g' \<Rightarrow> balancer_inv k Polling shm' g' \<and> balancer_frame shm shm'
     | Wait_sched t shm' g' \<Rightarrow> balancer_inv k (Scheduling Wait_pids (In_event t)) shm' g' \<and> balancer_frame shm shm')"
proof -
  have b: "system_ok shm g" "distinct (pools shm)" "\<forall>i < 64. info_ok (g_stats g ! i)"
    using ok(1) by (simp_all add: base_ok_def)
  obtain sched shm' g' where a: "AllocateCoresToSecondary shm g = Some (sched, if sched then 1 else 0, shm', g')"
    "sched = must_schedule (full_allotment shm g) g"
    "system_ok shm' g'" "g_logs g' = g_logs g" "g_coreDifference g' = g_coreDifference g"
    "g_idleCoresCount g' = g_idleCoresCount g" "g_lastAffinityMask g' = g_lastAffinityMask g"
    "g_secondary_mask g' = set (full_allotment shm g)"
    and st: "\<forall>j < 64. nat (is_nr_primary_ctrs shm) \<le> j \<longrightarrow> g_stats g' ! j = g_stats g ! j"
    and s: "shm' = shm\<lparr>is_affinity_list := is_affinity_list shm', is_num_affinity := is_num_affinity shm'\<rparr>"
    and act: "action_ok g'" and imp: "sched \<or> grant_ok shm g \<and> g_lastAffinityMask g = g_setAffinityMask g \<longrightarrow> grant_ok shm' g'"
    using allocate_grants[OF b(1,2)] by (elim exE conjE) (rule that)
  have same: "pools shm' = pools shm" "is_nr_primary_ctrs shm' = is_nr_primary_ctrs shm"
    "is_needs_rebalance shm' = is_needs_rebalance shm" "balancer_frame shm shm'"
    unfolding pools_def balancer_frame_def by (subst s, simp)+
  have base: "base_ok k shm' g'" and grant': "grant_ok shm' g'" and room: "event_room (Suc k) (g_logs g')"
    using ok a(3,4) same allocation_info_ok[OF a(3) same(2) st b(3)] imp grant last
    by (simp_all add: base_ok_def)
  have quiet: "request_ok pc shm' g'" for pc using req same(3) by (simp add: request_ok_def)
  show ?thesis
  proof (cases sched)
    case True
    then show ?thesis
      using a(1) base grant' act room quiet same(4) by (simp add: rebalance_def balancer_inv_def resume_ok_def)
  next
    case False
    obtain g2 where "finish_event (pc_start pc) te 0 g' = Some g2" "balancer_inv k Polling shm' g2"
      using finish_event_inv[OF base grant' room quiet] by blast
    then show ?thesis using False a(1) same(4) by (simp add: rebalance_def)
  qed
qed

text \<open>An iteration of \<open>pollIdleCPU\<close> that finds a new mask.\<close>

lemma iteration_inv:
  assumes inv: "balancer_inv (Suc k) Polling shm g" and ctl: "is_balancerControl shm \<noteq> 0" "is_balancerControl shm \<noteq> - 1"
    and new: "is_mask shm \<noteq> g_lastIdleMask g"
    and fits: "\<forall>i < nat (is_nr_primary_ctrs shm). sample_fits (pc_samples pc i) (g_stats g ! i)"
  shows "\<exists>out. poll_iteration pc te shm g = Some out \<and> (case out of Return_poll \<Rightarrow> False
     | Loop shm' g' \<Rightarrow> balancer_inv k Polling shm' g' \<and> balancer_frame shm shm'
     | Wait_sched t shm' g' \<Rightarrow> balancer_inv k (Scheduling Wait_pids (In_event t)) shm' g' \<and> balancer_frame shm shm')"
proof -
  let ?N = "nat (is_nr_primary_ctrs shm)"
  let ?g = "g\<lparr>g_logs := (g_logs g)\<lparr>lg_iterationsCount := lg_iterationsCount (g_logs g) + 1\<rparr>\<rparr>"
  have b: "system_ok shm ?g" "distinct (pools shm)" "\<forall>i < 64. info_ok (g_stats g ! i)"
    "dyn_room (64 * Suc k) (g_logs ?g)" "change_room (Suc k) (g_logs ?g)" "event_room (Suc k) (g_logs ?g)"
    "g_coreDifference g = 0" "g_idleCoresCount g = 0" "grant_ok shm ?g"
    "g_lastAffinityMask g = g_setAffinityMask g" "is_needs_rebalance shm \<le> 0" "?N \<le> 64"
    using inv ctl(2)
    by (auto simp: balancer_inv_defs calm_def grant_ok_def system_ok_def bal_shape_def dyn_room_def
        change_room_def event_room_def)
  obtain l where l: "recordMaskChange (pc_change pc) (g_lastIdleMask ?g) (is_mask shm) (g_logs ?g) = Some l"
    "change_room k l" "\<And>j. event_room j l = event_room j (g_logs ?g)" "\<And>j. dyn_room j l = dyn_room j (g_logs ?g)"
    using recordMaskChange_room[OF b(5)] by blast
  let ?g1 = "?g\<lparr>g_currIdleMask := is_mask shm, g_lastIdleMask := is_mask shm, g_logs := l\<rparr>"
  have s1: "sample_mask pc shm ?g = Some ?g1" using l(1) by (simp add: sample_mask_def)
  have g1: "system_ok shm ?g1" "dyn_room (?N + 64 * k) (g_logs ?g1)"
    using b(1,4,12) l(4) by (auto simp: system_ok_def bal_shape_def elim!: dyn_room_le)
  obtain n shm2 g2 where e: "evaluateContainers (pc_samples pc) shm ?g1 = Some (n, shm2, g2)"
    "system_ok shm2 g2" "dyn_room (64 * k) (g_logs g2)"
    "is_nr_primary_ctrs shm2 = is_nr_primary_ctrs shm"
    "\<forall>j. ?N \<le> j \<longrightarrow> g_stats g2 ! j = g_stats g ! j"
    using evaluateContainers_ok[OF g1, of "pc_samples pc"] fits b(7,8) by auto
  note kept = evaluateContainers_kept[OF e(1)]
  have len: "length (is_primary_ctrs shm) = 64" "is_nr_primary_ctrs shm \<le> 64"
    using b(1) by (auto simp: system_ok_def dest: shm_shapeD)
  note pools = pools_cong[OF kept(2) len]
  obtain c where c: "shm2 = shm\<lparr>is_primary_ctrs := c\<rparr>" using kept(2) by (auto simp: same_pools_def)
  have frame: "balancer_frame shm shm2" by (simp add: c balancer_frame_def)
  have infos: "\<forall>i < 64. info_ok (g_stats g2 ! i)"
    using e(2,4,5) b(3) unfolding system_ok_def by (metis not_le)
  have base: "base_ok k shm2 g2" "event_room (Suc k) (g_logs g2)"
    using e(2,3) infos pools(1) b(2,6) l(2,3) change_room_kept[OF kept(1), of k] event_room_kept[OF kept(1), of "Suc k"]
    by (simp_all add: base_ok_def)
  have grant: "grant_ok shm2 g2" "g_lastAffinityMask g2 = g_setAffinityMask g2" "is_needs_rebalance shm2 \<le> 0"
    using b(9-11) kept(1) pools(1) by (simp_all add: grant_ok_def kept_def c)
  have it: "poll_iteration pc te shm g = (if g_coreDifference g2 \<noteq> 0 \<or> n \<noteq> 0 then rebalance pc te shm2 g2
      else Some (Loop shm2 (end_iteration g2)))"
    using ctl new s1 e(1) by (simp add: poll_iteration_def Let_def)
  show ?thesis
  proof (cases "g_coreDifference g2 \<noteq> 0 \<or> n \<noteq> 0")
    case True
    then show ?thesis
      using evaluated_inv[OF base grant, of pc te] balancer_frame_trans[OF frame] unfolding it
      by (auto split: poll_outcome.splits)
  next
    case False
    have "balancer_inv k Polling shm2 (end_iteration g2)"
      using base(1) event_room_le[OF base(2)] grant
      by (simp add: balancer_inv_defs end_iteration_def calm_def grant_ok_def system_ok_def bal_shape_def)
    then show ?thesis using False frame unfolding it by simp
  qed
qed

text \<open>An iteration that changes no log: the Balancer is paused, told to stop, or sees the same mask.\<close>

lemma idle_iteration_inv:
  assumes inv: "balancer_inv k Polling shm g"
    and idle: "is_balancerControl shm = 0 \<or> is_balancerControl shm = - 1 \<or> is_mask shm = g_lastIdleMask g"
  shows "\<exists>pc' g'. balancer_step clk (Polling, shm, g) = Some (pc', shm, g') \<and> balancer_inv k pc' shm g'"
proof -
  consider "is_balancerControl shm = 0" | "is_balancerControl shm = - 1"
    | "is_balancerControl shm \<noteq> 0" "is_balancerControl shm \<noteq> - 1" "is_mask shm = g_lastIdleMask g"
    using idle by blast
  then show ?thesis
  proof cases
    case 1
    then show ?thesis using inv by (simp add: balancer_step_def poll_iteration_def)
  next
    case 2
    then have "balancer_inv k Finished shm g" using inv by (simp add: balancer_inv_def request_ok_def)
    then show ?thesis using 2 by (simp add: balancer_step_def poll_iteration_def)
  next
    case 3
    let ?g = "g\<lparr>g_logs := (g_logs g)\<lparr>lg_iterationsCount := lg_iterationsCount (g_logs g) + 1\<rparr>,
      g_currIdleMask := is_mask shm\<rparr>"
    have "balancer_inv k Polling shm ?g"
      using inv by (simp add: balancer_inv_defs calm_def grant_ok_def system_ok_def bal_shape_def dyn_room_def
          change_room_def event_room_def action_ok_def)
    then show ?thesis using 3 by (simp add: balancer_step_def poll_iteration_def Let_def)
  qed
qed

lemma scheduling_inv:
  assumes inv: "balancer_inv k (Scheduling w r) shm g"
  shows "\<exists>pc' shm' g'. balancer_step clk (Scheduling w r, shm, g) = Some (pc', shm', g') \<and>
    balancer_inv k pc' shm' g' \<and> balancer_frame shm shm' \<and> (0 < is_needs_rebalance shm \<longrightarrow> shm' = shm) \<and>
    (w = Wait_served \<and> is_needs_rebalance shm \<le> 0 \<longrightarrow> pc' = Polling)"
proof -
  have req: "0 < is_needs_rebalance shm \<longrightarrow> is_needs_rebalance shm = g_rebalanceAction g \<and> w = Wait_served"
    and act: "1 \<le> g_rebalanceAction g"
    using inv by (simp_all add: balancer_inv_def request_ok_def action_ok_def)
  have frame: "balancer_frame shm shm" "balancer_frame shm (shm\<lparr>is_needs_rebalance := n\<rparr>)" for n
    by (simp_all add: balancer_frame_def)
  have leave: ?thesis
    if s: "sched_step w (g_rebalanceAction g) shm = (None, a, shm)"
      and q: "request_ok Polling shm (g\<lparr>g_rebalanceAction := a\<rparr>)"
      and a: "a = g_rebalanceAction g \<or> is_needs_rebalance shm \<le> 0" for a
  proof -
    let ?g = "g\<lparr>g_rebalanceAction := a\<rparr>"
    obtain g' where "resume_balancer clk r ?g = Some g'" "balancer_inv k Polling shm g'"
      using resume_inv[OF inv, of a, OF q] by blast
    then show ?thesis using s frame(1) by (simp add: balancer_step_def)
  qed
  have stay: ?thesis if "sched_step w (g_rebalanceAction g) shm = (Some w, b, shm)" "w = Wait_served \<longrightarrow> 0 < is_needs_rebalance shm" for b
    using that inv frame(1) by (auto simp: balancer_step_def)
  show ?thesis
  proof (cases w)
    case Wait_pids
    show ?thesis
    proof (cases "is_updatingPids shm = 1")
      case True
      then show ?thesis
        using leave[of "g_rebalanceAction g"] stay req Wait_pids
        by (cases "is_balancerControl shm = - 1") (simp_all add: sched_step_def request_ok_def)
    next
      case False
      have "balancer_inv k (Scheduling Wait_served r) (shm\<lparr>is_needs_rebalance := g_rebalanceAction g\<rparr>) g"
        using inv by (simp add: balancer_inv_defs Wait_pids system_ok_def shm_shape_def grant_ok_def)
          (simp add: pools_def)
      then show ?thesis using False Wait_pids req frame(2) by (simp add: balancer_step_def sched_step_def)
    qed
  next
    case Wait_served
    show ?thesis
    proof (cases "is_needs_rebalance shm = g_rebalanceAction g")
      case True
      have "action_ok g" using inv by (simp add: balancer_inv_def)
      then show ?thesis
        using leave[of "g_rebalanceAction g"] stay True act Wait_served
        by (cases "is_balancerControl shm = - 1") (simp_all add: sched_step_def request_ok_def)
    next
      case False
      then have "\<not> 0 < is_needs_rebalance shm" using req by blast
      then show ?thesis using leave[of 0] False Wait_served by (simp add: sched_step_def request_ok_def)
    qed
  qed
qed

lemma balancer_step_inv:
  assumes inv: "balancer_inv (actor_cost (balancer_actor s) + k) (sy_pc s) (sy_shm s) (sy_bal s)"
    and fits: "clock_fits clk s"
  shows "\<exists>pc shm g. balancer_step clk (sy_pc s, sy_shm s, sy_bal s) = Some (pc, shm, g) \<and>
    balancer_inv k pc shm g \<and> balancer_frame (sy_shm s) shm \<and>
    (0 < is_needs_rebalance (sy_shm s) \<longrightarrow> shm = sy_shm s)"
proof -
  let ?shm = "sy_shm s" and ?g = "sy_bal s"
  have inv': "balancer_inv k (sy_pc s) ?shm ?g"
    using inv balancer_inv_le by (cases "balancer_actor s = Balancer_iterates") (simp_all add: actor_cost_def)
  have frame: "balancer_frame ?shm ?shm" by (simp add: balancer_frame_def)
  show ?thesis
  proof (cases "sy_pc s")
    case Starting
    show ?thesis
    proof (cases "is_balancerControl ?shm = 0")
      case True
      then show ?thesis using inv' Starting frame by (simp add: balancer_step_def)
    next
      case False
      obtain shm' g' where "poll_begin ?shm ?g = Some (True, 1, shm', g')"
        "balancer_inv k (Scheduling Wait_pids First_allocation) shm' g'" "balancer_frame ?shm shm'"
        using poll_begin_inv inv' Starting by metis
      moreover have "\<not> 0 < is_needs_rebalance ?shm" using inv' by (auto simp: balancer_inv_def request_ok_def Starting)
      ultimately show ?thesis using False Starting by (simp add: balancer_step_def)
    qed
  next
    case (Scheduling w r)
    then show ?thesis using scheduling_inv[of k w r ?shm ?g clk] inv' by metis
  next
    case Polling
    show ?thesis
    proof (cases "is_balancerControl ?shm = 0 \<or> is_balancerControl ?shm = - 1 \<or> is_mask ?shm = g_lastIdleMask ?g")
      case True
      then show ?thesis using idle_iteration_inv[of k ?shm ?g clk] inv' Polling frame by metis
    next
      case False
      then have "balancer_inv (Suc k) Polling ?shm ?g"
        using inv by (simp add: Polling balancer_actor_def actor_cost_def)
      moreover have "\<not> 0 < is_needs_rebalance ?shm"
        using inv' False by (auto simp: balancer_inv_def request_ok_def Polling)
      moreover obtain out where "poll_iteration (bc_poll clk) (bc_end clk) ?shm ?g = Some out"
        "case out of Return_poll \<Rightarrow> False
         | Loop shm' g' \<Rightarrow> balancer_inv k Polling shm' g' \<and> balancer_frame ?shm shm'
         | Wait_sched t shm' g' \<Rightarrow> balancer_inv k (Scheduling Wait_pids (In_event t)) shm' g' \<and> balancer_frame ?shm shm'"
        using iteration_inv[OF calculation(1), of "bc_poll clk" "bc_end clk"] fits False
        by (auto simp: Polling clock_fits_def)
      ultimately show ?thesis
        by (cases out) (simp_all add: Polling balancer_step_def)
    qed
  next
    case Finished
    then show ?thesis using inv' frame by (simp add: balancer_step_def)
  qed
qed

subsection \<open>The Monitor's turns\<close>

lemma grant_entitled:
  "grant_ok shm g \<Longrightarrow> entitled shm =
     set (take (nat (is_num_secondary_cores shm)) (is_secondary_cores_list shm)) \<union> g_secondary_mask g"
  by (simp add: entitled_def grant_ok_def)

lemma pending_grant: "balancer_inv k pc shm g \<Longrightarrow> 0 < is_needs_rebalance shm \<Longrightarrow> grant_ok shm g"
  by (auto simp: balancer_inv_def request_ok_def split: balancer_pc.splits)

lemma pending_twopa_ok:
  assumes inv: "balancer_inv k pc shm g" "monitor_inv mo shm" and t: "turn_allowed kn shm"
    and pending: "0 < is_needs_rebalance shm"
  shows "twopa_ok kn shm"
proof -
  have g: "grant_ok shm g" using pending_grant[OF inv(1) pending] .
  have "\<forall>c \<in> set (pools shm). core_ok c"
    using inv(1) by (auto simp: balancer_inv_def base_ok_def pools_def system_ok_def ctr_ok_def)
  then have cores: "\<forall>c \<in> entitled shm. core_ok c"
    using g inv(2) unfolding grant_entitled[OF g] by (auto simp: grant_ok_def monitor_inv_def)
  have "0 < is_num_affinity shm" if "is_needs_rebalance shm = 1"
  proof -
    have "g_rebalanceAction g = 1" using inv(1) pending that by (simp add: balancer_inv_def request_ok_def)
    then have "g_secondary_mask g \<noteq> {}"
      using inv(1) pending by (simp add: balancer_inv_def request_ok_def action_ok_def)
    moreover have "finite (g_secondary_mask g)" using g by (metis finite_set grant_ok_def)
    ultimately have "0 < card (g_secondary_mask g)" by (simp add: card_gt_0_iff)
    then show ?thesis using g by (simp add: grant_ok_def)
  qed
  then have "is_needs_rebalance shm = 1 \<longrightarrow> cursor_ok shm \<and> tasks_ok {stale_core shm} (kn_task kn)"
    using t by (simp add: turn_allowed_def cursor_ok_def)
  moreover have "cores_clear kn shm"
    using cores t g inv(2) by (simp add: cores_clear_def turn_allowed_def grant_ok_def monitor_inv_def)
  ultimately show ?thesis
    using inv balancer_inv_shape[OF inv(1)] by (simp add: twopa_ok_def monitor_inv_def)
qed

lemma monitor_turn_inv:
  assumes inv: "balancer_inv k pc shm g" "monitor_inv mo shm" and f: "sched_ok f" and t: "turn_allowed kn shm"
  shows "\<exists>mo' kn' shm'. monitor_turn f idle_cpu cputime_irq now (mo, kn, shm) = Some (mo', kn', shm') \<and>
    balancer_inv k pc shm' g \<and> monitor_inv mo' shm' \<and> is_needs_rebalance shm' \<le> 0 \<and>
    monitor_frame shm shm' \<and> (0 < is_needs_rebalance shm \<longrightarrow> secondary_placed kn' shm')"
proof -
  have mo: "turn_ok mo" "0 \<le> is_irq_samples shm" "is_irq_samples shm < 2147483647"
    using inv(2) t by (simp_all add: monitor_inv_def turn_allowed_def)
  note sh = balancer_inv_shape[OF inv(1)]
  have tw: "0 < is_needs_rebalance shm \<longrightarrow> twopa_ok kn shm" using pending_twopa_ok[OF inv t] by blast
  obtain mo' kn' shm' where r: "monitor_turn f idle_cpu cputime_irq now (mo, kn, shm) = Some (mo', kn', shm')"
    "turn_ok mo'" "is_update_irq shm' \<le> 0" "is_needs_rebalance shm' \<le> 0"
    and n: "if mo_samples mo \<le> 100000
     then mo_samples mo' = mo_samples mo + 1 \<and> is_irq_samples shm' = is_irq_samples shm
     else mo_samples mo' = mo_samples mo \<and> is_irq_samples shm' = is_irq_samples shm + 1"
    and s: "shm_shape shm'" "monitor_frame shm shm'"
      "(\<forall>ctr \<in> set (is_secondary_ctrs shm). cache_ok ctr) \<longrightarrow> (\<forall>ctr \<in> set (is_secondary_ctrs shm'). cache_ok ctr)"
      "0 < is_needs_rebalance shm \<longrightarrow> secondary_placed kn' shm'"
    using monitor_turn_spec[OF mo(1) sh f tw mo(2,3), of idle_cpu cputime_irq now] by (elim exE conjE) (rule that)
  have "grant_frame shm shm'" using s(2) r(4) by (simp add: grant_frame_def monitor_frame_def)
  then have "balancer_inv k pc shm' g" by (rule balancer_inv_frame[OF inv(1) _ s(1)])
  moreover have "0 \<le> is_irq_samples shm'" using n mo(2) by (auto split: if_splits)
  then have "monitor_inv mo' shm'"
    using inv(2) r(2) s(2,3) by (simp add: monitor_inv_def monitor_frame_def)
  ultimately show ?thesis using r(1,4) s(2,4) by blast
qed

subsection \<open>The Listener's connections and the signal\<close>

lemma adds_primary_inv:
  assumes inv: "balancer_inv k pc shm g" "monitor_inv mo shm" and a: "adds_primary (g_LOW_TIC g) shm shm'"
  shows "balancer_inv k pc shm' g \<and> monitor_inv mo shm'"
proof -
  let ?n = "nat (is_nr_primary_ctrs shm)"
  obtain p where p: "ctr_ok p" "target_ok (g_LOW_TIC g) p" "set (pool p) \<inter> set (pools shm) = {}"
    and s: "shm' = shm\<lparr>is_primary_ctrs := (is_primary_ctrs shm)[?n := p],
      is_nr_primary_ctrs := is_nr_primary_ctrs shm + 1\<rparr>" and nr: "is_nr_primary_ctrs shm < 64"
    using a by (auto simp: adds_primary_def)
  have b: "system_ok shm g" "distinct (pools shm)" "\<forall>i < 64. info_ok (g_stats g ! i)"
    using inv(1) by (simp_all add: balancer_inv_def base_ok_def)
  have "info_ok (g_stats g ! ?n)" using b(1,3) nr by (simp add: system_ok_def)
  then have ok: "system_ok shm' g" unfolding s using system_ok_add[OF b(1) nr _ p(1,2)] by blast
  have "0 \<le> is_nr_primary_ctrs shm" "length (is_primary_ctrs shm) = 64"
    using b(1) by (auto simp: system_ok_def dest: shm_shapeD)
  then have N: "nat (is_nr_primary_ctrs shm + 1) = Suc ?n" "?n < length (is_primary_ctrs shm)" using nr by simp_all
  have "pools shm' = concat (map (\<lambda>i. pool ((is_primary_ctrs shm)[?n := p] ! i)) [0..<?n]) @ pool p"
    using N by (simp add: s pools_def)
  moreover have "map (\<lambda>i. pool ((is_primary_ctrs shm)[?n := p] ! i)) [0..<?n] =
      map (\<lambda>i. pool (is_primary_ctrs shm ! i)) [0..<?n]"
    by (intro map_cong) auto
  ultimately have pools: "pools shm' = pools shm @ pool p" by (simp only: pools_def)
  have "distinct (pools shm')" using b(2) p(1,3) unfolding pools by (auto simp: ctr_ok_def)
  then have base: "base_ok k shm' g" using inv(1) ok by (simp add: balancer_inv_def base_ok_def)
  have same: "is_needs_rebalance shm' = is_needs_rebalance shm" "is_balancerControl shm' = is_balancerControl shm"
    "is_num_affinity shm' = is_num_affinity shm" "is_affinity_list shm' = is_affinity_list shm"
    "balancer_frame shm shm'"
    by (simp_all add: s balancer_frame_def)
  have grant: "grant_ok shm g \<Longrightarrow> grant_ok shm' g" using same pools by (auto simp: grant_ok_def)
  have "request_ok pc shm' g"
    using inv(1) same by (auto simp: balancer_inv_def request_ok_def split: balancer_pc.splits)
  then have "balancer_inv k pc shm' g"
    using inv(1) base grant by (auto simp: balancer_inv_def split: balancer_pc.splits)
  then show ?thesis using monitor_inv_frame[OF inv(2) same(5)] by blast
qed

lemma append_secondary_inv:
  assumes "secondary_room (Suc n) shm" "shm_shape shm" "monitor_inv mo shm"
  shows "secondary_room n (append_secondary pid shm)" "shm_shape (append_secondary pid shm)"
    "monitor_inv mo (append_secondary pid shm)" "grant_frame shm (append_secondary pid shm)"
    "is_balancerControl (append_secondary pid shm) = is_balancerControl shm"
proof -
  let ?n = "nat (is_nr_secondary_ctrs shm)" and ?c = "is_secondary_ctrs shm"
  let ?new = "(?c ! ?n)\<lparr>ct_parent_pid := pid, ct_nr_pids := 0\<rparr>"
  have n: "?n < length ?c" "0 \<le> is_nr_secondary_ctrs shm" "is_nr_secondary_ctrs shm < 64"
    using assms(1) by (auto simp: secondary_room_def)
  then have "cache_ok (?c ! ?n)" using assms(3) by (simp add: monitor_inv_def)
  then have new: "cache_ok ?new" "ctr_shape ?new" by (simp_all add: cache_ok_def ctr_shape_def)
  then have all: "\<forall>c \<in> set (?c[?n := ?new]). cache_ok c" "\<forall>c \<in> set (?c[?n := ?new]). ctr_shape c"
    using assms(2,3) by (auto simp: monitor_inv_def shm_shape_def dest!: set_update_subset_insert[THEN subsetD])
  show "secondary_room n (append_secondary pid shm)"
    using assms(1) by (simp add: secondary_room_def append_secondary_def Let_def)
  show "shm_shape (append_secondary pid shm)"
    using assms(2) all(2) by (simp add: shm_shape_def append_secondary_def Let_def)
  show "monitor_inv mo (append_secondary pid shm)"
    using assms(3) all(1) n by (simp add: monitor_inv_def append_secondary_def Let_def)
  show "grant_frame shm (append_secondary pid shm)"
    "is_balancerControl (append_secondary pid shm) = is_balancerControl shm"
    by (simp_all add: grant_frame_def append_secondary_def Let_def)
qed

lemma append_secondaries_inv:
  assumes "secondary_room (length pids) shm" "balancer_inv k pc shm g" "monitor_inv mo shm"
  shows "balancer_inv k pc (fold append_secondary pids shm) g \<and> monitor_inv mo (fold append_secondary pids shm) \<and>
    is_balancerControl (fold append_secondary pids shm) = is_balancerControl shm"
  using assms
proof (induction pids arbitrary: shm)
  case (Cons pid pids)
  note new = append_secondary_inv[OF Cons.prems(1)[simplified] balancer_inv_shape[OF Cons.prems(2)] Cons.prems(3), of pid]
  have "balancer_inv k pc (append_secondary pid shm) g"
    using balancer_inv_frame[OF Cons.prems(2) new(4,2)] .
  then show ?case using Cons.IH[OF new(1) _ new(3)] new(5) by simp
qed simp

lemma control_inv:
  assumes "balancer_inv k pc shm g" "monitor_inv mo shm" "is_balancerControl shm = - 1 \<longrightarrow> c = - 1"
  shows "balancer_inv k pc (shm\<lparr>is_balancerControl := c\<rparr>) g \<and> monitor_inv mo (shm\<lparr>is_balancerControl := c\<rparr>)"
proof -
  have "grant_frame shm (shm\<lparr>is_balancerControl := c\<rparr>)" "shm_shape (shm\<lparr>is_balancerControl := c\<rparr>)"
    using assms(3) balancer_inv_shape[OF assms(1)] by (simp_all add: grant_frame_def shm_shape_def)
  then show ?thesis
    using balancer_inv_frame[OF assms(1)] assms(2) by (simp add: monitor_inv_def)
qed

lemma admissible_inv:
  assumes "balancer_inv k pc shm g" "monitor_inv mo shm" "admissible (g_LOW_TIC g) shm shm'"
  shows "balancer_inv k pc shm' g \<and> monitor_inv mo shm'"
  using assms(3) unfolding admissible_def
proof (elim disjE)
  assume "shm' = shm"
  then show ?thesis using assms by simp
next
  assume "adds_primary (g_LOW_TIC g) shm shm'"
  then show ?thesis using adds_primary_inv assms by blast
next
  assume "adds_secondaries shm shm'"
  then obtain pids c where p: "secondary_room (length pids) shm"
    "c = is_balancerControl shm \<or> is_balancerControl shm = 0 \<and> c = 1"
    "shm' = (fold append_secondary pids shm)\<lparr>is_balancerControl := c\<rparr>"
    by (auto simp: adds_secondaries_def)
  note a = append_secondaries_inv[OF p(1) assms(1,2)]
  show ?thesis unfolding p(3) using a p(2) by (intro control_inv) auto
qed

subsection \<open>The system's steps\<close>

lemma signal_stops: "trigger_cleanup SIGUSR1 shm = shm\<lparr>is_balancerControl := - 1\<rparr>"
  by (simp add: trigger_cleanup_def)

theorem system_step_inv:
  assumes "system_inv f (actor_cost a + k) s" "system_step f a s t"
  shows "system_inv f k t"
  using assms(2,1)
proof (cases rule: system_step.cases)
  case (balancer clk pc shm g)
  have inv: "balancer_inv (actor_cost (balancer_actor s) + k) (sy_pc s) (sy_shm s) (sy_bal s)"
    using assms(1) balancer by (simp add: system_inv_def)
  then show ?thesis
    using balancer_step_inv[OF inv balancer(4)] balancer assms(1) monitor_inv_frame by (auto simp: system_inv_def)
next
  case (monitor kn idle_cpu cputime_irq now mo k' shm)
  have inv: "balancer_inv k (sy_pc s) (sy_shm s) (sy_bal s)" "monitor_inv (sy_mo s) (sy_shm s)" "sched_ok f"
    using assms(1) monitor by (simp_all add: system_inv_def actor_cost_def)
  then show ?thesis
    using monitor_turn_inv[OF inv monitor(3), of idle_cpu cputime_irq now] monitor by (auto simp: system_inv_def)
next
  case (listener h ev control shm)
  have inv: "balancer_inv k (sy_pc s) (sy_shm s) (sy_bal s)" "monitor_inv (sy_mo s) (sy_shm s)" "sched_ok f"
    using assms(1) listener by (simp_all add: system_inv_def actor_cost_def)
  then show ?thesis using admissible_inv[OF inv(1,2) listener(5)] listener by (simp add: system_inv_def)
next
  case signal
  have inv: "balancer_inv k (sy_pc s) (sy_shm s) (sy_bal s)" "monitor_inv (sy_mo s) (sy_shm s)" "sched_ok f"
    using assms(1) signal by (simp_all add: system_inv_def actor_cost_def)
  then show ?thesis
    using control_inv[OF inv(1,2), of "- 1"] signal by (simp add: system_inv_def signal_stops)
qed

interpretation daemons: budgeted_system "system_step f" actor_cost "system_inv f" for f
  by unfold_locales (rule system_step_inv)

subsection \<open>The start\<close>

text \<open>A segment and a module that the Balancer may be started on.\<close>

definition segment_ready :: "monitor \<Rightarrow> idleStats \<Rightarrow> bool" where
  "segment_ready mo shm \<longleftrightarrow> shm_shape shm \<and> 0 \<le> is_nr_primary_ctrs shm \<and> is_nr_primary_ctrs shm \<le> 64 \<and>
     (\<forall>i < nat (is_nr_primary_ctrs shm). ctr_ok (is_primary_ctrs shm ! i) \<and>
        target_ok 2 (is_primary_ctrs shm ! i)) \<and>
     distinct (pools shm) \<and> is_needs_rebalance shm \<le> 0 \<and> turn_ok mo \<and>
     (\<forall>ctr \<in> set (is_secondary_ctrs shm). cache_ok ctr) \<and> is_nr_secondary_ctrs shm \<le> 64 \<and>
     0 \<le> is_irq_samples shm"

lemma open_logs_room:
  assumes "m_events_memory mc" "m_changes_memory mc" "m_dynamic_memory mc" "64 * k \<le> MAX_EVENTS"
  shows "event_room k (open_logs mc zero_logs)" "change_room k (open_logs mc zero_logs)"
    "dyn_room (64 * k) (open_logs mc zero_logs)"
  using assms by (simp_all add: open_logs_def zero_logs_def dyn_room_def event_room_def change_room_def block_full_def)

lemma started_inv:
  assumes ready: "segment_ready mo shm" and f: "sched_ok f" and g: "bal_shape g" "g_LOW_TIC g = 2"
    and zero: "g_coreDifference g = 0" "g_idleCoresCount g = 0" "g_logs g = open_logs mc zero_logs"
    and stats: "\<forall>i < 64. info_ok (g_stats g ! i) \<and> bi_SpareCoresToAllocate (g_stats g ! i) = 0"
    and logs: "m_events_memory mc" "m_changes_memory mc" "m_dynamic_memory mc" "64 * k \<le> MAX_EVENTS"
    and cores: "length l = 64" "n \<le> 64" "\<forall>c \<in> set (take n l). core_ok c"
  shows "system_inv f k \<lparr>sy_shm = shm\<lparr>is_secondary_cores_list := l, is_num_secondary_cores := int n\<rparr>,
      sy_pc = Starting, sy_bal = g, sy_mo = mo, sy_kernel = kn, sy_listening = c\<rparr>"
proof -
  let ?shm = "shm\<lparr>is_secondary_cores_list := l, is_num_secondary_cores := int n\<rparr>"
  have "pools ?shm = pools shm" by (simp add: pools_def)
  moreover have "shm_shape ?shm" using ready cores by (simp add: segment_ready_def shm_shape_def)
  moreover have "\<forall>i < nat (is_nr_primary_ctrs shm). info_ok (g_stats g ! i)"
    using stats ready by (auto simp: segment_ready_def)
  ultimately have "base_ok k ?shm g"
    using ready g stats zero(3) open_logs_room[OF logs] by (simp add: base_ok_def system_ok_def segment_ready_def)
  then have "balancer_inv k Starting ?shm g"
    using ready zero stats open_logs_room[OF logs]
    by (simp add: balancer_inv_def request_ok_def segment_ready_def)
  moreover have "monitor_inv mo ?shm" using ready cores by (simp add: monitor_inv_def segment_ready_def)
  ultimately show ?thesis using f by (simp add: system_inv_def)
qed

subsection \<open>A pending request\<close>

lemma append_secondary_frame:
  "is_needs_rebalance (fold append_secondary pids shm) = is_needs_rebalance shm"
  "is_affinity_list (fold append_secondary pids shm) = is_affinity_list shm"
  "is_num_affinity (fold append_secondary pids shm) = is_num_affinity shm"
  by (induction pids arbitrary: shm) (simp_all add: append_secondary_def Let_def)

lemma admissible_request:
  assumes "admissible L shm shm'"
  shows "is_needs_rebalance shm' = is_needs_rebalance shm" "is_affinity_list shm' = is_affinity_list shm"
    "is_num_affinity shm' = is_num_affinity shm"
  using assms by (auto simp: admissible_def adds_primary_def adds_secondaries_def append_secondary_frame)

text \<open>Only the Monitor ends a request, and only the Balancer moves the Balancer.\<close>

definition same_grant :: "system \<Rightarrow> system \<Rightarrow> bool" where
  "same_grant s t \<longleftrightarrow> is_needs_rebalance (sy_shm t) = is_needs_rebalance (sy_shm s) \<and>
     is_affinity_list (sy_shm t) = is_affinity_list (sy_shm s) \<and>
     is_num_affinity (sy_shm t) = is_num_affinity (sy_shm s)"

lemma pending_step:
  assumes "system_inv f (actor_cost a + k) s" "system_step f a s t" "a \<noteq> Monitor_turns"
    and "0 < is_needs_rebalance (sy_shm s)"
  shows "same_grant s t"
  using assms(2,1,3,4)
proof (cases rule: system_step.cases)
  case (balancer clk pc shm g)
  have inv: "balancer_inv (actor_cost (balancer_actor s) + k) (sy_pc s) (sy_shm s) (sy_bal s)"
    using assms(1) balancer by (simp add: system_inv_def)
  show ?thesis using balancer_step_inv[OF inv balancer(4)] balancer assms(4) by (auto simp: same_grant_def)
next
  case (listener h ev control shm)
  then show ?thesis using admissible_request by (simp add: same_grant_def)
next
  case signal
  then show ?thesis by (simp add: same_grant_def signal_stops)
qed simp

text \<open>A run without a turn of the Monitor, from a state with a pending request.\<close>

definition pending_inv :: "(int set \<Rightarrow> task \<Rightarrow> task) \<Rightarrow> system \<Rightarrow> nat \<Rightarrow> system \<Rightarrow> bool" where
  "pending_inv f s k t \<longleftrightarrow> system_inv f k t \<and> 0 < is_needs_rebalance (sy_shm s) \<and> same_grant s t"

interpretation unserved: budgeted_system "\<lambda>a t u. system_step f a t u \<and> a \<noteq> Monitor_turns" actor_cost
  "pending_inv f s" for f s
proof
  fix a k t u
  assume p: "pending_inv f s (actor_cost a + k) t" and st: "system_step f a t u \<and> a \<noteq> Monitor_turns"
  then have "system_inv f k u" using system_step_inv by (auto simp: pending_inv_def)
  moreover have "same_grant t u" using p st pending_step by (auto simp: pending_inv_def same_grant_def)
  ultimately show "pending_inv f s k u" using p by (simp add: pending_inv_def same_grant_def)
qed

subsection \<open>The other daemons and the Balancer\<close>

definition balancer_moves :: "actor \<Rightarrow> bool" where
  "balancer_moves a \<longleftrightarrow> a = Balancer_iterates \<or> a = Balancer_waits"

lemma balancer_actor_moves: "balancer_moves (balancer_actor s)"
  by (simp add: balancer_moves_def balancer_actor_def)

lemma others_step:
  assumes "system_inv f k s" "system_step f a s t" "\<not> balancer_moves a"
  shows "system_inv f k t \<and> sy_pc t = sy_pc s \<and>
    (is_needs_rebalance (sy_shm s) \<le> 0 \<or> a = Monitor_turns \<longrightarrow> is_needs_rebalance (sy_shm t) \<le> 0)"
proof -
  have "actor_cost a = 0" using assms(3) by (simp add: actor_cost_def balancer_moves_def)
  then have t: "system_inv f k t" using system_step_inv[OF _ assms(2), of k] assms(1) by simp
  show ?thesis
    using assms(2)
  proof (cases rule: system_step.cases)
    case (balancer clk pc shm g)
    then show ?thesis using assms(3) balancer_actor_moves by simp
  next
    case (monitor kn idle_cpu cputime_irq now mo k' shm)
    have inv: "balancer_inv k (sy_pc s) (sy_shm s) (sy_bal s)" "monitor_inv (sy_mo s) (sy_shm s)" "sched_ok f"
      using assms(1) by (simp_all add: system_inv_def)
    then show ?thesis
      using monitor_turn_inv[OF inv monitor(3), of idle_cpu cputime_irq now] monitor t by auto
  next
    case (listener h ev control shm)
    then show ?thesis using admissible_request t by simp
  next
    case signal
    then show ?thesis using t by (simp add: signal_stops)
  qed
qed

text \<open>Once a request is answered, it stays so until the Balancer moves.\<close>

definition answered_inv :: "(int set \<Rightarrow> task \<Rightarrow> task) \<Rightarrow> nat \<Rightarrow> balancer_pc \<Rightarrow> nat \<Rightarrow> system \<Rightarrow> bool" where
  "answered_inv f k pc n s \<longleftrightarrow> system_inv f k s \<and> sy_pc s = pc \<and> is_needs_rebalance (sy_shm s) \<le> 0"

interpretation answered: budgeted_system "\<lambda>a t u. system_step f a t u \<and> \<not> balancer_moves a" "\<lambda>_. 0"
  "answered_inv f k pc" for f k pc
  by unfold_locales (use others_step in \<open>auto simp: answered_inv_def\<close>)

subsection \<open>A pending request on the sample machine\<close>

text \<open>Cores 4 and 5 are granted, the Monitor has not answered yet.\<close>

definition sample_pending :: idleStats where
  "sample_pending = sample_twopa\<lparr>is_balancerControl := 1, is_nr_primary_ctrs := 2,
     is_primary_ctrs := is_primary_ctrs sample_shm\<rparr>"

definition sample_granting :: balancer where
  "sample_granting = sample_polling\<lparr>g_rebalanceAction := 1, g_setAffinityMask := mask_of [4, 5] 0,
     g_lastAffinityMask := mask_of [4, 5] 0, g_secondary_mask := {4, 5}\<rparr>"

definition sample_waiting :: system where
  "sample_waiting = \<lparr>sy_shm = sample_pending, sy_pc = Scheduling Wait_served First_allocation,
     sy_bal = sample_granting, sy_mo = sample_monitor, sy_kernel = sample_kernel, sy_listening = 1\<rparr>"

lemma sample_turn_ok: "turn_ok sample_monitor"
  using sample_mo_ok(1) sample_log_ok by (simp add: turn_ok_def) (simp add: sample_monitor_def)

lemma sample_pending_pools: "pools sample_pending = [0, 1, 2, 3, 4, 5, 6, 7]"
  using sample_pools by (simp add: pools_def sample_pending_def)

lemma sample_grant: "grant_ok sample_pending sample_granting"
proof -
  have "bit (mask_of [4, 5] 0) k \<longleftrightarrow> int k \<in> {4, 5}" for k
    using bit_mask_of[of "[4, 5]" 0 k] by (simp add: core_ok_def)
  then show ?thesis
    by (simp add: grant_ok_def sample_pending_pools)
      (simp add: sample_granting_def sample_pending_def sample_twopa_def numeral_2_eq_2 insert_commute)
qed

lemma sample_base: "base_ok 5 sample_pending sample_granting"
proof -
  have "shm_shape sample_pending"
    using sample_twopa_ok sample_system_ok
    by (simp add: twopa_ok_def system_ok_def shm_shape_def sample_pending_def)
  then have "system_ok sample_pending sample_granting"
    using sample_poll_ok sample_system_ok
    by (simp add: poll_ok_def system_ok_def sample_pending_def sample_granting_def bal_shape_def sample_polling_def less_two)
  moreover have "\<forall>i < 64. info_ok (g_stats sample_granting ! i)"
    by (simp add: sample_granting_def sample_polling_def init_info_ok)
  moreover have "dyn_room (64 * 5) (g_logs sample_granting)" "change_room 5 (g_logs sample_granting)"
    by (simp_all add: sample_granting_def sample_polling_def open_logs_def zero_logs_def dyn_room_def
        change_room_def block_full_def MAX_EVENTS_def)
  ultimately show ?thesis by (simp add: base_ok_def sample_pending_pools)
qed

lemma sample_waiting_inv: "system_inv sample_sched 5 sample_waiting"
proof -
  have "event_room 5 (g_logs sample_granting)"
    by (simp add: sample_granting_def sample_polling_def open_logs_def zero_logs_def event_room_def
        block_full_def MAX_EVENTS_def)
  moreover have "calm sample_granting"
    by (simp add: calm_def sample_granting_def sample_polling_def sample_globals_def zero_globals_def)
  moreover have "is_needs_rebalance sample_pending = 1" "g_rebalanceAction sample_granting = 1"
    by (simp_all add: sample_pending_def sample_twopa_def sample_granting_def)
  moreover have "monitor_inv sample_monitor sample_pending"
    using sample_turn_ok sample_twopa_ok by (simp add: monitor_inv_def twopa_ok_def sample_pending_def)
      (simp add: sample_twopa_def core_ok_def zero_shm_def)
  moreover have "action_ok sample_granting" by (simp add: action_ok_def sample_granting_def)
  ultimately show ?thesis
    using sample_base sample_grant sample_sched_ok
    by (simp add: system_inv_def sample_waiting_def balancer_inv_def request_ok_def resume_ok_def)
qed

lemma sample_turn_allowed: "turn_allowed sample_kernel sample_pending"
proof -
  have "stale_core sample_pending = 0"
    by (simp add: stale_core_def sample_pending_def sample_twopa_def numeral_2_eq_2)
  moreover have "entitled sample_pending = {4, 5, 8}"
    using sample_twopa_entitled by (simp add: entitled_def sample_pending_def)
  moreover have "tasks_ok {0} (kn_task sample_kernel)"
    by (simp add: tasks_ok_def sample_kernel_def core_ok_def)
  ultimately show ?thesis
    by (simp add: turn_allowed_def) (simp add: sample_pending_def sample_twopa_def sample_kernel_def zero_shm_def)
qed

end
