(* ===== verification/Xapian.thy ===== *)
theory Xapian imports HarnessClient begin

section \<open>The search benchmark (xapian/client.cpp, genTerms.cpp, main.cpp, server.cpp)\<close>

text \<open>
  The application of the harness: a client that picks search terms from a file, the program that
  writes this file, and the servers that answer with the descriptions of the documents found.  The
  search engine and the random generator are parameters.
\<close>

definition c_prefix :: "string \<Rightarrow> string" where
  "c_prefix s = takeWhile (\<lambda>c. c \<noteq> CHR 0x00) s"

subsection \<open>\<open>TermSet\<close>\<close>

definition MAX_TERM_LEN :: nat where
  "MAX_TERM_LEN = 128"

text \<open>\<open>istream::getline(term, n)\<close> on the rest of the file: what is stored, what remains, whether the
  stream has failed, whether it is at its end, and \<open>gcount\<close>.  A stream that has failed reads nothing.\<close>

record line_read =
  lr_term :: string
  lr_rest :: string
  lr_fail :: bool
  lr_eof :: bool
  lr_gcount :: nat

definition getline :: "nat \<Rightarrow> string \<Rightarrow> bool \<Rightarrow> line_read" where
  "getline n s failed =
     (if failed then \<lparr>lr_term = [], lr_rest = s, lr_fail = True, lr_eof = False, lr_gcount = 0\<rparr>
      else let line = takeWhile (\<lambda>c. c \<noteq> CHR 0x0A) s
           in if n \<le> length line
              then \<lparr>lr_term = take (n - 1) line, lr_rest = drop (n - 1) s, lr_fail = True, lr_eof = False, lr_gcount = n - 1\<rparr>
              else if length line < length s
              then \<lparr>lr_term = line, lr_rest = drop (length line + 1) s, lr_fail = False, lr_eof = False,
                    lr_gcount = length line + 1\<rparr>
              else \<lparr>lr_term = line, lr_rest = [], lr_fail = (line = []), lr_eof = True, lr_gcount = length line\<rparr>)"

text \<open>The loop of the constructor: the terms, or the exit code.\<close>

partial_function (option) read_terms :: "string \<Rightarrow> bool \<Rightarrow> string list \<Rightarrow> (int + string list) option" where
  "read_terms s failed terms =
     (let r = getline MAX_TERM_LEN s failed
      in if lr_eof r then Some (Inr terms)
         else if lr_fail r \<and> lr_gcount r = MAX_TERM_LEN then Some (Inl (- 1))
         else read_terms (lr_rest r) (lr_fail r) (terms @ [c_prefix (lr_term r)]))"

declare read_terms.simps [code]

definition new_TermSet :: "string option \<Rightarrow> (int + string list) option" where
  "new_TermSet file = (case file of None \<Rightarrow> Some (Inl (- 1)) | Some s \<Rightarrow> read_terms s False [])"

text \<open>The largest index the generator may return; with no term it wraps around.\<close>

definition last_index :: "string list \<Rightarrow> u64" where
  "last_index terms = of_nat (length terms) - 1"

definition getTerm :: "u64 \<Rightarrow> string list \<Rightarrow> string option" where
  "getTerm idx terms = arr_get terms (uint idx)"

definition tBenchClientGenReq :: "u64 \<Rightarrow> string list \<Rightarrow> string option" where
  "tBenchClientGenReq idx terms = map_option (\<lambda>term. term @ [CHR 0x00]) (getTerm idx terms)"

subsection \<open>\<open>genTerms\<close>\<close>

definition lowercase :: string where
  "lowercase = ''abcdefghijklmnopqrstuvwxyz''"

definition is_word :: "string \<Rightarrow> bool" where
  "is_word term \<longleftrightarrow> (case term of [] \<Rightarrow> False | c # _ \<Rightarrow> c \<in> set lowercase) \<and> list_all (\<lambda>c. c \<in> set lowercase) term"

text \<open>The terms of the database that are written, one per line: \<open>matches\<close> is the size of the result.\<close>

definition keeps_term :: "(string \<Rightarrow> nat) \<Rightarrow> string \<Rightarrow> bool" where
  "keeps_term matches term \<longleftrightarrow> is_word term \<and> 100 \<le> min 1001 (matches term) \<and> min 1001 (matches term) \<le> 1000"

definition terms_file :: "(string \<Rightarrow> nat) \<Rightarrow> string list \<Rightarrow> string" where
  "terms_file matches allterms = concat (map (\<lambda>t. if keeps_term matches t then t @ [CHR 0x0A] else []) allterms)"

text \<open>The options as \<open>getopt\<close> hands them out; an unknown one ends the program.\<close>

fun gen_options :: "(char \<times> string) list \<Rightarrow> string option \<times> string \<Rightarrow> (int + string option \<times> string)" where
  "gen_options [] opts = Inr opts"
| "gen_options ((c, optarg) # os) (dbPath, termsFileName) =
     (if c = CHR ''d'' then (if optarg = ''?'' then Inl (- 1) else gen_options os (Some optarg, termsFileName))
      else if c = CHR ''f'' then (if optarg = ''?'' then Inl (- 1) else gen_options os (dbPath, optarg))
      else Inl (- 1))"

subsection \<open>The server\<close>

definition MAX_RES_LEN :: nat where
  "MAX_RES_LEN = 2 ^ 20"

definition MAX_DOC_COUNT :: nat where
  "MAX_DOC_COUNT = 25"

fun server_options :: "(char \<times> string) list \<Rightarrow> int \<times> string \<times> int \<Rightarrow> (int + int \<times> string \<times> int) option" where
  "server_options [] opts = Some (Inr opts)"
| "server_options ((c, optarg) # os) (numServers, dbPath, numReqs) =
     (if c = CHR ''n'' \<or> c = CHR ''d'' \<or> c = CHR ''r''
      then if optarg = ''?'' then Some (Inl (- 1))
           else if c = CHR ''n'' then (case atoi optarg of None \<Rightarrow> None
             | Some n \<Rightarrow> server_options os (n mod 2 ^ 32, dbPath, numReqs))
           else if c = CHR ''d'' then server_options os (numServers, optarg, numReqs)
           else (case strtol optarg of (n, erange, _) \<Rightarrow>
             if erange then None else server_options os (numServers, dbPath, n mod 2 ^ 64))
      else Some (Inl (- 1)))"

text \<open>The loop that collects the descriptions in \<open>res\<close>, a map from index to byte: the length is raised
  before the copy.\<close>

fun collect :: "string list \<Rightarrow> nat \<Rightarrow> nat \<Rightarrow> (nat \<rightharpoonup> char) \<Rightarrow> (nat \<times> (nat \<rightharpoonup> char)) checked option" where
  "collect [] doccount resLen res = Some (Returned (resLen, res))"
| "collect (desc # descs) doccount resLen res =
     (let resLen = (resLen + length desc) mod 2 ^ 32
      in if MAX_RES_LEN < resLen then Some Aborted
         else if MAX_RES_LEN < resLen + length desc then None
         else let res = res ++ (\<lambda>i. if resLen \<le> i \<and> i < resLen + length desc then Some (desc ! (i - resLen)) else None)
              in if doccount + 1 = MAX_DOC_COUNT then Some (Returned (resLen, res))
                 else collect descs (doccount + 1) resLen res)"

text \<open>\<open>processRequest\<close>: the bytes of the response, \<open>None\<close> where \<open>res\<close> was not written.  The term is
  copied with its length into 256 bytes and ended behind.\<close>

definition processRequest :: "(string \<Rightarrow> string list) \<Rightarrow> string \<Rightarrow> char option list checked option" where
  "processRequest search req =
     (if 256 \<le> length req then None
      else map_option (\<lambda>out. case out of Aborted \<Rightarrow> Aborted
          | Returned (resLen, res) \<Rightarrow> Returned (map res [0..<resLen]))
        (collect (search (c_prefix req)) 0 0 Map.empty))"

text \<open>\<open>_run\<close>: every thread tests the shared counter before a request and raises it after.\<close>

datatype server_pc = Testing | Serving | Stopped

record servers =
  xs_processed :: nat
  xs_pcs :: "server_pc list"

definition run_step :: "nat \<Rightarrow> nat \<Rightarrow> servers \<Rightarrow> servers" where
  "run_step numReqsToProcess i s = (case xs_pcs s ! i of
       Testing \<Rightarrow> s\<lparr>xs_pcs := (xs_pcs s)[i := if xs_processed s < numReqsToProcess then Serving else Stopped]\<rparr>
     | Serving \<Rightarrow> s\<lparr>xs_processed := xs_processed s + 1, xs_pcs := (xs_pcs s)[i := Testing]\<rparr>
     | Stopped \<Rightarrow> s)"

end
