(* ===== verification/XapianFacts.thy ===== *)
theory XapianFacts imports Xapian Runs begin

section \<open>What the search benchmark does\<close>

text \<open>
  The terms file is read back as it was written as long as every line is short, and reading never
  ends otherwise; the response of a search lacks its last document and starts with bytes that were
  never written; the servers answer at most one request per server too many.
\<close>

subsection \<open>The terms file\<close>

definition line_ok :: "string \<Rightarrow> bool" where
  "line_ok l \<longleftrightarrow> CHR 0x0A \<notin> set l \<and> length l < MAX_TERM_LEN"

definition lines_text :: "string list \<Rightarrow> string" where
  "lines_text ls = concat (map (\<lambda>l. l @ [CHR 0x0A]) ls)"

lemma lines_text_simps [simp]: "lines_text [] = []" "lines_text (l # ls) = l @ CHR 0x0A # lines_text ls"
  by (simp_all add: lines_text_def)

lemma first_line: "CHR 0x0A \<notin> set l \<Longrightarrow> takeWhile (\<lambda>c. c \<noteq> CHR 0x0A) (l @ CHR 0x0A # s) = l"
  by (subst takeWhile_append2) auto

lemma getline_line:
  "line_ok l \<Longrightarrow> getline MAX_TERM_LEN (l @ CHR 0x0A # s) False =
     \<lparr>lr_term = l, lr_rest = s, lr_fail = False, lr_eof = False, lr_gcount = length l + 1\<rparr>"
  by (simp add: getline_def line_ok_def first_line Let_def)

lemma getline_end:
  "line_ok l \<Longrightarrow> lr_eof (getline MAX_TERM_LEN l False)"
  by (simp add: getline_def line_ok_def takeWhile_ne Let_def)

lemma read_terms_lines:
  "list_all line_ok ls \<Longrightarrow> line_ok tail \<Longrightarrow>
   read_terms (lines_text ls @ tail) False ts = Some (Inr (ts @ map c_prefix ls))"
proof (induction ls arbitrary: ts)
  case Nil
  then show ?case by (subst read_terms.simps) (simp add: getline_end)
next
  case (Cons l ls)
  then show ?case by (subst read_terms.simps) (simp add: getline_line)
qed

text \<open>Once the stream has failed, the loop goes on for ever.\<close>

lemma getline_failed:
  "getline MAX_TERM_LEN s True = \<lparr>lr_term = [], lr_rest = s, lr_fail = True, lr_eof = False, lr_gcount = 0\<rparr>"
  by (simp add: getline_def)

lemma getline_long:
  "MAX_TERM_LEN \<le> length l \<Longrightarrow> CHR 0x0A \<notin> set l \<Longrightarrow> s = [] \<or> hd s = CHR 0x0A \<Longrightarrow>
   lr_fail (getline MAX_TERM_LEN (l @ s) False) \<and> \<not> lr_eof (getline MAX_TERM_LEN (l @ s) False) \<and>
   lr_gcount (getline MAX_TERM_LEN (l @ s) False) = 127"
  by (cases s) (auto simp: getline_def takeWhile_ne first_line Let_def MAX_TERM_LEN_def)

lemma read_terms_failed: "read_terms s True ts = None"
proof -
  have "\<not> f" if "read_terms s f ts = Some r" for s f ts r
  proof (rule read_terms.raw_induct[of "\<lambda>s f ts r. \<not> f", OF _ that])
    fix rec s f ts r
    assume ih: "\<And>s f ts r. rec s f ts = Some r \<Longrightarrow> \<not> f"
      and eq: "(let r = getline MAX_TERM_LEN s f
        in if lr_eof r then Some (Inr ts)
           else if lr_fail r \<and> lr_gcount r = MAX_TERM_LEN then Some (Inl (- 1))
           else rec (lr_rest r) (lr_fail r) (ts @ [c_prefix (lr_term r)])) = Some r"
    have "MAX_TERM_LEN \<noteq> 0" by (simp add: MAX_TERM_LEN_def)
    then show "\<not> f" using eq ih[of s True] by (cases f) (auto simp: getline_failed Let_def)
  qed
  then show ?thesis by (cases "read_terms s True ts") auto
qed

lemma read_terms_long:
  assumes "list_all line_ok ls" "MAX_TERM_LEN \<le> length l" "CHR 0x0A \<notin> set l" "s = [] \<or> hd s = CHR 0x0A"
  shows "read_terms (lines_text ls @ l @ s) False ts = None"
  using assms(1)
proof (induction ls arbitrary: ts)
  case Nil
  then show ?case
    using getline_long[OF assms(2-4)] by (subst read_terms.simps) (simp add: read_terms_failed MAX_TERM_LEN_def Let_def)
next
  case (Cons l' ls)
  then show ?case by (subst read_terms.simps) (simp add: getline_line)
qed

lemma text_lines: "\<exists>ls tail. s = lines_text ls @ tail \<and> CHR 0x0A \<notin> set tail \<and> list_all (\<lambda>l. CHR 0x0A \<notin> set l) ls"
proof (induction s)
  case (Cons c s)
  then obtain ls tail where s: "s = lines_text ls @ tail" "CHR 0x0A \<notin> set tail" "list_all (\<lambda>l. CHR 0x0A \<notin> set l) ls"
    by blast
  show ?case
  proof (cases "c = CHR 0x0A")
    case True
    then show ?thesis using s by (intro exI[of _ "[] # ls"] exI[of _ tail]) simp
  next
    case False
    then show ?thesis
    proof (cases ls)
      case Nil
      then show ?thesis using s False by (intro exI[of _ "[]"] exI[of _ "c # tail"]) simp
    next
      case (Cons l ls')
      then show ?thesis using s False by (intro exI[of _ "(c # l) # ls'"] exI[of _ tail]) simp
    qed
  qed
qed (intro exI[of _ "[]"], simp)

lemma read_whole_file:
  assumes "list_all (\<lambda>l. CHR 0x0A \<notin> set l) ls" "CHR 0x0A \<notin> set tail"
  shows "new_TermSet (Some (lines_text ls @ tail)) =
    (if list_all (\<lambda>l. length l < 128) (ls @ [tail]) then Some (Inr (map c_prefix ls)) else None)"
proof (cases "list_all (\<lambda>l. length l < 128) (ls @ [tail])")
  case True
  then show ?thesis
    using read_terms_lines[of ls tail "[]"] assms
    by (simp add: new_TermSet_def list_all_iff line_ok_def MAX_TERM_LEN_def)
next
  case False
  show ?thesis
  proof (cases "list_all line_ok ls")
    case True
    then have "128 \<le> length tail" using False assms by (auto simp: list_all_iff line_ok_def MAX_TERM_LEN_def)
    then show ?thesis
      using read_terms_long[OF True _ assms(2), of "[]" "[]"] False by (simp add: new_TermSet_def MAX_TERM_LEN_def)
  next
    case False2: False
    let ?good = "takeWhile line_ok ls"
    obtain l rest where d: "dropWhile line_ok ls = l # rest"
      using False2 by (cases "dropWhile line_ok ls") (auto simp: list_all_iff)
    have ls: "ls = ?good @ l # rest" using d takeWhile_dropWhile_id[of line_ok ls] by simp
    have "\<not> line_ok l" using hd_dropWhile[of line_ok ls] d by simp
    moreover have "CHR 0x0A \<notin> set l" using assms(1) by (subst (asm) ls) simp
    ultimately have l: "MAX_TERM_LEN \<le> length l" "CHR 0x0A \<notin> set l" by (simp_all add: line_ok_def)
    have "list_all line_ok ?good" by (auto simp: list_all_iff dest: set_takeWhileD)
    then have "read_terms (lines_text ?good @ l @ CHR 0x0A # lines_text rest @ tail) False [] = None"
      using l by (intro read_terms_long) simp_all
    moreover have "lines_text ls = lines_text ?good @ l @ CHR 0x0A # lines_text rest"
      by (subst ls) (simp add: lines_text_def)
    ultimately show ?thesis using False by (simp add: new_TermSet_def)
  qed
qed

text \<open>
  C37. The constructor of the term set returns exactly on files all of whose lines, the unfinished one
  at the end included, are shorter than 128 bytes; then the terms are the finished lines, each up to
  its first NUL.  On any other file it reads for ever: the test for terms that are too big, which is
  to end the program, compares \<open>gcount\<close> with a value it never has.
\<close>

theorem terms_file_read:
  assumes "list_all (\<lambda>l. CHR 0x0A \<notin> set l) ls" "CHR 0x0A \<notin> set tail"
  shows "new_TermSet (Some (lines_text ls @ tail)) =
    (if list_all (\<lambda>l. length l < 128) (ls @ [tail]) then Some (Inr (map c_prefix ls)) else None)"
  using assms by (rule read_whole_file)

theorem terms_file_read_witness:
  "new_TermSet (Some (lines_text [''cat'', ''dog''] @ ''tail'')) = Some (Inr [''cat'', ''dog'']) \<and>
   new_TermSet (Some (lines_text [''cat'', replicate 128 CHR ''x''] @ [])) = None"
  using terms_file_read[of "[''cat'', ''dog'']" "''tail''"]
    terms_file_read[of "[''cat'', replicate 128 CHR ''x'']" "[]"]
  by (simp add: c_prefix_def)

lemma is_word_chars:
  assumes "is_word t"
  shows "CHR 0x0A \<notin> set t" "c_prefix t = t"
proof -
  have low: "\<forall>c \<in> set t. c \<in> set lowercase" using assms by (simp add: is_word_def list_all_iff)
  moreover have "CHR 0x0A \<notin> set lowercase" "CHR 0x00 \<notin> set lowercase" by (simp_all add: lowercase_def)
  ultimately have "CHR 0x0A \<notin> set t" "CHR 0x00 \<notin> set t" by blast+
  then show "CHR 0x0A \<notin> set t" "c_prefix t = t" by (simp_all add: c_prefix_def takeWhile_ne)
qed

lemma terms_file_lines: "terms_file matches allterms = lines_text (filter (keeps_term matches) allterms)"
  by (induction allterms) (simp_all add: terms_file_def)

lemma any_term:
  assumes "ts \<noteq> []" "length ts < 2 ^ 64" "idx \<le> last_index ts"
  shows "\<exists>t \<in> set ts. tBenchClientGenReq idx ts = Some (t @ [CHR 0x00])"
proof -
  obtain n where n: "length ts = Suc n" using assms(1) by (cases ts) simp_all
  have "last_index ts = of_nat n" by (simp add: last_index_def n)
  then have "unat (last_index ts) = n" using assms(2) n by (simp add: unat_of_nat take_bit_nat_eq_self)
  then have i: "unat idx < length ts" using assms(3) n by (simp add: word_le_nat_alt)
  have "arr_get ts (uint idx) = Some (ts ! unat idx)" using arr_get_int[OF i] by simp
  then show ?thesis
    using nth_mem[OF i] by (intro bexI[of _ "ts ! unat idx"]) (simp_all add: tBenchClientGenReq_def getTerm_def)
qed

text \<open>
  C38. What \<open>genTerms\<close> writes, the client reads back: if no term that is kept has 128 letters or more, the
  client's terms are the kept terms of the database in order, and any index the generator may
  return gives one of them, as a request of at most 128 bytes.
\<close>

theorem generated_terms_read_back:
  assumes "list_all (\<lambda>t. length t < 128) (filter (keeps_term matches) allterms)"
  shows "new_TermSet (Some (terms_file matches allterms)) = Some (Inr (filter (keeps_term matches) allterms)) \<and>
    (filter (keeps_term matches) allterms \<noteq> [] \<longrightarrow> length allterms < 2 ^ 64 \<longrightarrow>
     (\<forall>idx \<le> last_index (filter (keeps_term matches) allterms).
        \<exists>t \<in> set allterms. keeps_term matches t \<and> length (t @ [CHR 0x00]) \<le> 128 \<and>
          tBenchClientGenReq idx (filter (keeps_term matches) allterms) = Some (t @ [CHR 0x00])))"
proof -
  let ?ts = "filter (keeps_term matches) allterms"
  have words: "\<forall>t \<in> set ?ts. is_word t" by (simp add: keeps_term_def)
  have "map c_prefix ?ts = ?ts" using words is_word_chars(2) by (intro map_idI) blast
  moreover have "list_all (\<lambda>l. CHR 0x0A \<notin> set l) ?ts" using words is_word_chars(1) by (auto simp: list_all_iff)
  moreover have "list_all (\<lambda>l. length l < 128) (?ts @ [[]])" using assms by simp
  ultimately have read: "new_TermSet (Some (terms_file matches allterms)) = Some (Inr ?ts)"
    using read_whole_file[of ?ts "[]"] by (simp add: terms_file_lines)
  have pick: "\<exists>t \<in> set allterms. keeps_term matches t \<and> length (t @ [CHR 0x00]) \<le> 128 \<and>
      tBenchClientGenReq idx ?ts = Some (t @ [CHR 0x00])"
    if ne: "?ts \<noteq> []" and "length allterms < 2 ^ 64" and le: "idx \<le> last_index ?ts" for idx
  proof -
    have "length ?ts < 2 ^ 64" using that(2) length_filter_le[of "keeps_term matches" allterms] by linarith
    then obtain t where t: "t \<in> set ?ts" "tBenchClientGenReq idx ?ts = Some (t @ [CHR 0x00])"
      using any_term[OF ne _ le] by blast
    moreover have "length t < 128" using assms t(1) by (simp add: list_all_iff)
    ultimately show ?thesis by auto
  qed
  show ?thesis using read pick by blast
qed

theorem generated_terms_read_back_witness:
  "new_TermSet (Some (terms_file (\<lambda>t. if t = ''rare'' then 5 else 200) [''Cat'', ''dog'', ''rare'', ''x1'', ''zoo''])) =
     Some (Inr [''dog'', ''zoo'']) \<and>
   (\<exists>t. tBenchClientGenReq 1 [''dog'', ''zoo''] = Some (t @ [CHR 0x00]))"
proof -
  let ?m = "\<lambda>t :: string. if t = ''rare'' then 5 else (200 :: nat)"
  have ts: "filter (keeps_term ?m) [''Cat'', ''dog'', ''rare'', ''x1'', ''zoo''] = [''dog'', ''zoo'']"
    by (simp add: keeps_term_def is_word_def lowercase_def)
  have "(1 :: u64) \<le> last_index [''dog'', ''zoo'']" by (simp add: last_index_def)
  then show ?thesis
    using generated_terms_read_back[of ?m "[''Cat'', ''dog'', ''rare'', ''x1'', ''zoo'']"] unfolding ts by auto
qed

subsection \<open>The response of a search\<close>

definition total_length :: "string list \<Rightarrow> nat" where
  "total_length descs = sum_list (map length descs)"

lemma total_length_simps [simp]: "total_length [] = 0" "total_length (d # ds) = length d + total_length ds"
  "total_length (ds @ es) = total_length ds + total_length es"
  by (simp_all add: total_length_def)

lemma collect_Cons:
  assumes "n + length d \<le> MAX_RES_LEN" "n + length d + length d \<le> MAX_RES_LEN"
  shows "collect (d # ds) dc n res =
    (let res' = res ++ (\<lambda>i. if n + length d \<le> i \<and> i < n + length d + length d then Some (d ! (i - (n + length d))) else None)
     in if dc + 1 = MAX_DOC_COUNT then Some (Returned (n + length d, res'))
        else collect ds (dc + 1) (n + length d) res')"
proof -
  have "(n + length d) mod 2 ^ 32 = n + length d" using assms(1) by (simp add: MAX_RES_LEN_def)
  then show ?thesis using assms by (simp add: Let_def)
qed

lemma collect_start:
  "dc + length ds \<le> MAX_DOC_COUNT \<Longrightarrow> \<forall>d \<in> set ds. n + total_length ds + length d \<le> MAX_RES_LEN \<Longrightarrow>
   \<exists>R. collect ds dc n res = Some (Returned (n + total_length ds, R)) \<and> (\<forall>i < n + length (concat (take 1 ds)). R i = res i)"
proof (induction ds arbitrary: dc n res)
  case (Cons d ds)
  let ?res = "res ++ (\<lambda>i. if n + length d \<le> i \<and> i < n + length d + length d then Some (d ! (i - (n + length d))) else None)"
  have fits: "n + length d \<le> MAX_RES_LEN" "n + length d + length d \<le> MAX_RES_LEN" using Cons.prems(2) by auto
  have same: "?res i = res i" if "i < n + length d" for i using that by (simp add: map_add_def)
  show ?case
  proof (cases "dc + 1 = MAX_DOC_COUNT")
    case True
    moreover have "dc + (length ds + 1) \<le> MAX_DOC_COUNT" using Cons.prems(1) by simp
    ultimately have "length ds \<le> 0" by linarith
    then have "ds = []" by simp
    then show ?thesis using True same unfolding collect_Cons[OF fits] by (simp add: Let_def)
  next
    case False
    obtain R where R: "collect ds (dc + 1) (n + length d) ?res = Some (Returned (n + length d + total_length ds, R))"
      "\<forall>i < n + length d + length (concat (take 1 ds)). R i = ?res i"
      using Cons.IH[of "dc + 1" "n + length d" ?res] Cons.prems by (auto simp: ac_simps)
    then show ?thesis using False same unfolding collect_Cons[OF fits] by (intro exI[of _ R]) (simp add: Let_def ac_simps)
  qed
qed simp

lemma collect_last:
  assumes "length d' = length d"
  shows "dc + length ds < MAX_DOC_COUNT \<Longrightarrow> \<forall>e \<in> set (ds @ [d]). n + total_length (ds @ [d]) + length e \<le> MAX_RES_LEN \<Longrightarrow>
   \<exists>R R'. collect (ds @ [d]) dc n res = Some (Returned (n + total_length (ds @ [d]), R)) \<and>
     collect (ds @ [d']) dc n res = Some (Returned (n + total_length (ds @ [d]), R')) \<and>
     (\<forall>i < n + total_length (ds @ [d]). R i = R' i)"
proof (induction ds arbitrary: dc n res)
  case Nil
  obtain R where "collect [d] dc n res = Some (Returned (n + total_length [d], R)) \<and>
      (\<forall>i < n + length (concat (take 1 [d])). R i = res i)"
    using collect_start[of dc "[d]" n res] Nil by auto
  moreover obtain R' where "collect [d'] dc n res = Some (Returned (n + total_length [d'], R')) \<and>
      (\<forall>i < n + length (concat (take 1 [d'])). R' i = res i)"
    using collect_start[of dc "[d']" n res] Nil assms by auto
  ultimately show ?case using assms by simp
next
  case (Cons e ds)
  let ?res = "res ++ (\<lambda>i. if n + length e \<le> i \<and> i < n + length e + length e then Some (e ! (i - (n + length e))) else None)"
  have fits: "n + length e \<le> MAX_RES_LEN" "n + length e + length e \<le> MAX_RES_LEN" using Cons.prems(2) by auto
  have dc: "dc + 1 \<noteq> MAX_DOC_COUNT" using Cons.prems(1) by simp
  show ?case
    using Cons.IH[of "dc + 1" "n + length e" ?res] Cons.prems dc unfolding append_Cons collect_Cons[OF fits]
    by (auto simp: Let_def ac_simps)
qed



subsection \<open>How many requests the servers answer\<close>

definition serving :: "servers \<Rightarrow> nat" where
  "serving s = length (filter (\<lambda>p. p = Serving) (xs_pcs s))"

definition servers_ok :: "nat \<Rightarrow> nat \<Rightarrow> nat \<Rightarrow> servers \<Rightarrow> bool" where
  "servers_ok N n k s \<longleftrightarrow> length (xs_pcs s) = n \<and> xs_processed s + serving s + 1 \<le> N + n \<and>
     (Stopped \<in> set (xs_pcs s) \<longrightarrow> N \<le> xs_processed s)"

definition thread_step :: "nat \<Rightarrow> nat \<Rightarrow> servers \<Rightarrow> servers \<Rightarrow> bool" where
  "thread_step N i s t \<longleftrightarrow> i < length (xs_pcs s) \<and> t = run_step N i s"

lemma serving_update:
  assumes "i < length (xs_pcs s)"
  shows "serving (s\<lparr>xs_pcs := (xs_pcs s)[i := p]\<rparr>) + (if xs_pcs s ! i = Serving then 1 else 0) =
    serving s + (if p = Serving then 1 else 0)"
  using filter_update[OF assms, of "\<lambda>p. p = Serving" p] by (simp add: serving_def)

lemma thread_step_ok:
  assumes "servers_ok N n k s" "thread_step N i s t"
  shows "servers_ok N n k t"
proof -
  have i: "i < length (xs_pcs s)" "t = run_step N i s" using assms(2) by (simp_all add: thread_step_def)
  have ok: "length (xs_pcs s) = n" "xs_processed s + serving s + 1 \<le> N + n"
    "Stopped \<in> set (xs_pcs s) \<longrightarrow> N \<le> xs_processed s"
    using assms(1) by (simp_all add: servers_ok_def)
  have stop: "Stopped \<in> set ((xs_pcs s)[i := p]) \<Longrightarrow> p \<noteq> Stopped \<Longrightarrow> Stopped \<in> set (xs_pcs s)" for p
    using set_update_subset_insert[of "xs_pcs s" i p] by auto
  show ?thesis
  proof (cases "xs_pcs s ! i")
    case Testing
    have "serving s < n"
    proof -
      have "length (filter (\<lambda>p. p = Serving) (xs_pcs s)) < length (xs_pcs s)"
        using i(1) Testing nth_mem[OF i(1)] by (intro length_filter_less[of "xs_pcs s ! i"]) auto
      then show ?thesis using ok(1) by (simp add: serving_def)
    qed
    then show ?thesis
      using ok i(2) Testing serving_update[OF i(1), of Serving] serving_update[OF i(1), of Stopped] stop[of Serving]
      by (auto simp: servers_ok_def run_step_def)
  next
    case Serving
    have "serving (s\<lparr>xs_pcs := (xs_pcs s)[i := Testing]\<rparr>) + 1 = serving s"
      using serving_update[OF i(1), of Testing] Serving by simp
    then show ?thesis
      using ok i(2) Serving stop[of Testing] by (auto simp: servers_ok_def run_step_def serving_def)
  next
    case Stopped
    then show ?thesis using assms(1) i(2) by (simp add: run_step_def)
  qed
qed

interpretation search_servers: budgeted_system "thread_step N" "\<lambda>_. 0" "servers_ok N n" for N n
proof
  fix a k s t
  assume "servers_ok N n (0 + k) s" "thread_step N a s t"
  then show "servers_ok N n k t" using thread_step_ok by simp
qed

text \<open>
  C40. The servers test the counter before a request and raise it after, without holding it in between:
  with \<open>n\<close> threads at most \<open>n - 1\<close> requests more than asked for are answered, in any interleaving, and
  no thread stops before all that were asked for are.
\<close>

theorem requests_served:
  assumes "run (thread_step N) \<lparr>xs_processed = 0, xs_pcs = replicate n Testing\<rparr> is t" "0 < n"
  shows "xs_processed t \<le> N + (n - 1) \<and> (Stopped \<in> set (xs_pcs t) \<longrightarrow> N \<le> xs_processed t)"
proof -
  have "serving \<lparr>xs_processed = 0, xs_pcs = replicate n Testing\<rparr> = 0" by (simp add: serving_def)
  then have "servers_ok N n (sum_list (map (\<lambda>_. 0) is) + 0) \<lparr>xs_processed = 0, xs_pcs = replicate n Testing\<rparr>"
    using assms(2) by (simp add: servers_ok_def)
  then have "servers_ok N n 0 t" by (rule search_servers.run_inv[OF assms(1)])
  then show ?thesis using assms(2) by (auto simp: servers_ok_def)
qed

text \<open>Two servers that both find one request missing answer two.\<close>

theorem requests_served_witness:
  "\<exists>t. run (thread_step 1) \<lparr>xs_processed = 0, xs_pcs = replicate 2 Testing\<rparr> [0, 1, 0, 1] t \<and>
     xs_processed t = 2 \<and> xs_processed t \<le> 1 + (2 - 1)"
proof -
  let ?s0 = "\<lparr>xs_processed = 0, xs_pcs = replicate 2 Testing\<rparr>"
  let ?t = "\<lparr>xs_processed = 2, xs_pcs = replicate 2 Testing\<rparr>"
  have "run (thread_step 1) ?s0 [0, 1, 0, 1] ?t"
    by (simp add: run_Cons run_nil thread_step_def run_step_def numeral_2_eq_2)
  then show ?thesis using requests_served[of 1 2 "[0, 1, 0, 1]" ?t] by (intro exI[of _ ?t]) simp
qed

end
