(* ===== verification/Spec2Isabelle.thy ===== *)
theory Spec2Isabelle imports HarnessIntegrated HarnessNetwork Interrupts LogFacts Module System XapianFacts begin

text \<open>
  HarvestContainers runs latency-critical Primary containers and a best-effort Secondary container
  on one machine, and lends the Secondary the cores that the Primaries leave idle.  This is a model
  of its daemons, with proofs that each does what it promises and that they keep working together.

  \<^bold>\<open>The parts.\<close>  The \<^emph>\<open>Monitor\<close> (src/Monitor) is a kernel module: its thread publishes which of the
  monitored cores are idle, and moves the Secondary's tasks when it is asked to.  The \<^emph>\<open>Balancer\<close>
  (src/Balancer) polls the published mask, decides for each Primary how many idle cores to keep in
  reserve, and grants the rest to the Secondary.  The \<^emph>\<open>Listener\<close> (src/Listener) receives JSON
  documents over a socket, with which containers are registered, and parses them with the vendored
  library src/Listener/external/json.hpp.  They meet in one struct, \<open>idleStats\<close>, which all three map:
  the Listener writes the tables of containers, the Monitor the mask and the interrupt times, the
  Balancer the list of granted cores and \<open>needs_rebalance\<close>, which asks the Monitor to place the tasks
  and which the Monitor clears.

  \<^bold>\<open>Conventions.\<close>  An \<open>option\<close> result is \<open>None\<close> exactly where the C code has undefined behaviour: an
  index outside its array, signed overflow, a bad shift, a conversion that does not fit, an
  uninitialised read.  So "defined" in a theorem is freedom from undefined behaviour.  Errors that
  the code handles are values.  Unsigned 64-bit integers are words, \<open>int\<close> is an unbounded integer with
  checked operations, \<open>float\<close> and \<open>double\<close> are exact rationals with IEEE rounding.  Clock readings,
  the environment, the file system, the kernel, \<open>qsort\<close> and the printer of shortest decimals are
  arguments.

  \<^bold>\<open>Theories and sources.\<close>
  \<^item> \<open>Prelude\<close>, \<open>Floats\<close>, \<open>CString\<close>: C values, checked accesses and counted loops; binary32 and
    binary64; \<open>strsep\<close>, \<open>sscanf\<close>, \<open>atoi\<close>, \<open>strtod\<close>, signals.  The locale \<open>int_sink\<close> is the contract of a
    parser that stores a list of numbers; six parsers of the program interpret it.
  \<^item> \<open>Shmem\<close>: the struct, in its three declarations (Balancer/shmem.h, Listener/shmem.h,
    Monitor/monitor.h), and their layouts.
  \<^item> \<open>BalState\<close>, \<open>Logger\<close>, \<open>LogFacts\<close>: the Balancer's globals (balancer.h, logger.h, interrupts.h), its
    logs and reports (logger.c).
  \<^item> \<open>Policy\<close>, \<open>Controller\<close>: the controller of a Primary (main.c: \<open>doObserve\<close>, \<open>doAdjust\<close>, \<open>doHarvest\<close>,
    \<open>evaluatePrimaryContainer\<close>, \<open>evaluateContainers\<close>).
  \<^item> \<open>Allocate\<close>: the grant of cores (balancer.c), refined by a list of cores, \<open>full_allotment\<close>.
  \<^item> \<open>BalancerMain\<close>: \<open>main\<close>, the CPU lists and one iteration of \<open>pollIdleCPU\<close> (main.c).
  \<^item> \<open>Interrupts\<close>: \<open>getInterruptWeights\<close> (interrupts.c) and the task directories (taskinfo.c).
  \<^item> \<open>Monitor\<close>, \<open>MonitorFacts\<close>, \<open>Twopa\<close>, \<open>MonitorLoop\<close>: the thread of monitor.c: sampling, pid caches,
    the two-phase placement \<open>twopa\<close>, a turn of \<open>check_idle_cpus\<close>.
  \<^item> \<open>Procfs\<close>, \<open>ProcfsFacts\<close>, \<open>Module\<close>: the files under /proc/idlecpu (procfs.h), loading and
    unloading (monitor.c), the device (Monitor/shmem.h).
  \<^item> \<open>Json\<close>, \<open>JsonLex\<close>, \<open>JsonParse\<close>, \<open>JsonUtf8\<close>, \<open>JsonFacts\<close>, \<open>JsonDump\<close>, \<open>DumpFacts\<close>, \<open>JsonRoundtrip\<close>:
    the lexer, the parser with its DOM builder and the serializer of json.hpp, as the Listener uses
    them.
  \<^item> \<open>ListenerCore\<close>, \<open>ListenerFacts\<close>: listener.cpp and getpids.c.
  \<^item> \<open>Runs\<close>, \<open>Handshake\<close>, \<open>System\<close>: runs of labelled steps; the daemons as interleaved steps on one segment.
  \<^item> \<open>Harness\<close>, \<open>HarnessClient\<close>, \<open>HarnessServer\<close>, \<open>HarnessFacts\<close>, \<open>HarnessIntegrated\<close>,
    \<open>HarnessNetwork\<close>: the benchmark harness that measures the latency of a Primary, under
    src/TestFramework/Containers/xapian/xapian-src/harness: messages and sockets (msgs.h, helpers.h,
    dist.h), the client (client.cpp, tbench_client_networked.cpp), the servers (server.h,
    tbench_server_networked.cpp, tbench_server_integrated.cpp).
  \<^item> \<open>Xapian\<close>, \<open>XapianFacts\<close>: the search benchmark on top of it, in xapian-src/xapian: the term set
    (client.cpp), the program that writes it (genTerms.cpp), the search servers (main.cpp, server.cpp).

  \<^bold>\<open>What is shown.\<close>  For the Balancer: an iteration is defined and keeps the loop invariant; the
  reserve of a Primary stays in its band and follows its hysteresis; the granted cores are distinct
  idle cores of Primaries with cores to spare, at most as many as are spare; the logs hold what was
  logged and the reports add up.  For the Monitor: a turn completes, publishes the mask and serves a
  request by placing every cached task on exactly the granted and dedicated cores.  For the
  Listener: a document has the effect its text says, or none, or ends the process, and the last case
  is characterised; the parser returns well-formed values only and reads back what the serializer
  writes.  For all together: the segment's invariant holds in every interleaving; a pending request
  is what the Monitor serves, unchanged; the Balancer's wait for it ends.  For the benchmark: messages
  arrive as they were sent however the network cuts them, arrivals are in order, the latencies that are
  recorded are those of the region of interest, a client and its server keep to their protocol in
  every interleaving of their threads, and the search servers answer what was asked for and little
  more.  Theorems about defects
  (an unreachable ramp-up, buffers that leak, cursors that run off) state precisely when they occur.

  \<^bold>\<open>Bounds.\<close>  The logs of the Balancer hold \<open>MAX_EVENTS\<close> (\<open>10 ^ 8\<close>) entries and the code does not test
  them correctly, so the Balancer's invariants carry the number \<open>k\<close> of new idle masks that still fit:
  one entry in the mask log, one in the event log, and at most 64 in the dynamic log for each.  A run
  consumes one unit of \<open>k\<close> per iteration that sees a new mask, and no other step consumes any; at the
  start every \<open>k\<close> with \<open>64 * k \<le> MAX_EVENTS\<close> is admissible.  No definition uses fuel: loops over arrays are
  counted, those of the lexer, of the serializer and of \<open>strsep\<close> recurse on the text that is left, and the
  endless loops of the daemons are steps.

  \<^bold>\<open>Interleaving.\<close>  An iteration of the Balancer, a turn of the Monitor and a connection of the
  Listener are one step each; only the two loops in which the Balancer spins are split, since the
  Monitor has to move in between.  Races inside an iteration (the Listener writing an entry while the
  Balancer evaluates it) and the hardware's memory order are not modelled.  Steps of the Listener are
  taken as long as what they do to the segment is \<open>admissible\<close>: a Primary whose cores are valid and
  belong to no other, or Secondaries as long as there is room; the code checks neither.

  \<^bold>\<open>Not modelled.\<close>  Printed progress and \<open>checkCtrInfo\<close>, which only prints; code under \<open>#ifdef\<close> that the
  makefiles leave out; bodies that are commented out (\<open>SleepSecondary\<close>, \<open>WakeSecondary\<close>).  Of json.hpp
  the parts the Listener does not reach: binary formats, pointers, patches, iterators, comparison,
  conversions other than to \<open>std::string\<close>, positions in error messages, and Grisu2, which is a
  parameter of the serializer.  Of the benchmark the search engine, the random generators and the
  starting and joining of threads, the Java bindings and the scripts.
\<close>

section \<open>From the Listener to the Balancer\<close>



section \<open>The daemons together\<close>

text \<open>
  C19. Starting the Balancer on a prepared segment puts the whole system into its invariant: \<open>main\<close>
  reaches \<open>pollIdleCPU\<close>, and the state of the three daemons is one from which \<open>k\<close> new idle masks can
  be handled, for every \<open>k\<close> the logs have room for (64 entries of the dynamic log for each).
\<close>

theorem system_starts:
  assumes "cpus \<noteq> []" "distinct cpus" "\<forall>c \<in> set cpus. core_ok c"
    and "sec \<noteq> []" "\<forall>c \<in> set sec. core_ok c" "length sec \<le> 64"
    and "in_int pid" "0 \<le> target" "target \<le> int (length cpus)" "in_int mins"
    and "m_device_opens mc" "m_mmap_succeeds mc" "m_getenv mc = (\<lambda>_. None)"
    and "m_stats_memory mc = Some infos" "length infos = 64"
    and "m_events_memory mc" "m_changes_memory mc" "m_dynamic_memory mc" "64 * k \<le> MAX_EVENTS"
    and "segment_ready mo shm" "sched_ok f"
  shows "\<exists>shm' g. main_start mc [name, show_int pid, show_int target, show_int mins, render_list cpus,
      render_list sec] shm zero_globals = Some (Started shm' g) \<and>
    system_inv f k \<lparr>sy_shm = shm', sy_pc = Starting, sy_bal = g, sy_mo = mo, sy_kernel = kn, sy_listening = c\<rparr>"
proof -
  have "\<forall>v \<in> set sec. in_int v" using assms(5) by (auto simp: core_ok_def in_int_def)
  moreover have "shm_shape shm" using assms(20) by (simp add: segment_ready_def)
  ultimately obtain l g where s: "main_start mc [name, show_int pid, show_int target, show_int mins,
      render_list cpus, render_list sec] shm zero_globals =
      Some (Started (shm\<lparr>is_secondary_cores_list := l, is_num_secondary_cores := int (length sec)\<rparr>) g)"
    "length l = 64" "take (length sec) l = sec" "cpus_ok g" "g_LOW_TIC g = 2"
    "g_coreDifference g = 0" "g_idleCoresCount g = 0" "g_logs g = open_logs mc zero_logs"
    "\<forall>i < 64. info_ok (g_stats g ! i) \<and> bi_currentState (g_stats g ! i) = OBSERVE \<and>
       bi_SpareCoresToAllocate (g_stats g ! i) = 0"
    using main_start_spec[OF assms(1-4) _ assms(6-15)] by blast
  have "bal_shape g" using s(4) by (simp add: cpus_ok_def)
  then show ?thesis
    using s assms(5,6) started_inv[OF assms(20,21) _ s(5-8) _ assms(16-19) s(2) assms(6)] by auto
qed

definition full_machine :: machine where
  "full_machine = \<lparr>m_getenv = (\<lambda>_. None), m_stats_memory = Some (replicate 64 (init_info (at_time 0) (at_time 0))),
     m_device_opens = True, m_mmap_succeeds = True, m_events_memory = True, m_changes_memory = True,
     m_dynamic_memory = True\<rparr>"

lemma zero_segment_ready: "segment_ready sample_monitor zero_shm"
proof -
  have "turn_ok sample_monitor"
    using sample_mo_ok(1) sample_log_ok by (simp add: turn_ok_def) (simp add: sample_monitor_def)
  then show ?thesis using zero_shm_shape
    by (simp add: segment_ready_def zero_shm_def pools_def cache_ok_def ctr_shape_def zero_ctr_def)
qed

theorem system_starts_witness:
  "\<exists>shm' g. main_start full_machine [''balancer'', show_int 42, show_int 2, show_int 0, render_list [1, 2, 3, 4],
      render_list [0]] zero_shm zero_globals = Some (Started shm' g) \<and>
    system_inv sample_sched 1000 \<lparr>sy_shm = shm', sy_pc = Starting, sy_bal = g, sy_mo = sample_monitor,
      sy_kernel = sample_kernel, sy_listening = 1\<rparr>"
  by (rule system_starts[where infos = "replicate 64 (init_info (at_time 0) (at_time 0))"])
    (simp_all add: full_machine_def core_ok_def in_int_def MAX_EVENTS_def zero_segment_ready sample_sched_ok)


text \<open>The sample system takes a signal while the Monitor has not answered.\<close>

lemma sample_signal_run: "\<exists>t. run (system_step sample_sched) sample_waiting [Signal_arrives] t"
  by (auto simp: run_Cons run_nil intro: system_step.signal)







lemma sample_monitor_run:
  "\<exists>t. run (system_step sample_sched) sample_waiting [Monitor_turns, Signal_arrives] t"
proof -
  have "system_inv sample_sched 5 sample_waiting" by (rule sample_waiting_inv)
  then obtain mo kn shm where "monitor_turn sample_sched (\<lambda>c. c = 1) (\<lambda>c. 50000000) (at_time 9)
      (sy_mo sample_waiting, sample_kernel, sy_shm sample_waiting) = Some (mo, kn, shm)"
    using monitor_turn_inv[of 5 _ _ _ _ _ sample_kernel] sample_turn_allowed
    unfolding system_inv_def sample_waiting_def system.simps by blast
  then have "system_step sample_sched Monitor_turns sample_waiting
      (sample_waiting\<lparr>sy_mo := mo, sy_kernel := kn, sy_shm := shm\<rparr>)"
    using sample_turn_allowed by (intro system_step.monitor) (simp_all add: sample_waiting_def)
  then show ?thesis by (auto simp: run_Cons run_nil intro: system_step.signal)
qed


end
